(* ===== verification/EZPrelude.thy ===== *)
theory EZPrelude
  imports Main "HOL-Library.Word"
begin

section \<open>Prelude: types, outcomes and step systems shared by the components\<close>

text \<open>
  What every component of the model uses: the names of the machine types of
  \<^verbatim>\<open>typedef_ezthread.h\<close>, the outcome of a call that may block, abort or leave the
  defined part of C++, reachable states of a step relation, and the arithmetic of
  sums over the threads of a process.
\<close>

named_theorems ez_defs \<open>definitions of the operations, unfolded together\<close>

named_theorems ez_split \<open>facts that split a state into its fields\<close>

subsection \<open>Machine types\<close>

text \<open>
  \<^verbatim>\<open>unsigned int\<close> is a 32-bit word, and \<^verbatim>\<open>EZTHREAD_PARAM\<close> is one; \<^verbatim>\<open>int\<close> is an \<open>int\<close>
  whose range the bounds lemmas establish; \<^verbatim>\<open>EZTHREAD_BOOL\<close> only ever takes the
  values TRUE and FALSE and is \<open>bool\<close>. Objects live at addresses; a pointer is an
  optional address, \<open>None\<close> the null pointer. A thread is named by a number.
\<close>

type_synonym u32 = "32 word"

type_synonym EZTHREAD_BOOL = bool

type_synonym EZTHREAD_PARAM = u32

type_synonym addr = nat

type_synonym tid = nat

definition INT_MAX :: int where
  "INT_MAX = 2147483647"

subsection \<open>Outcomes of a call\<close>

text \<open>
  A call of the library returns (\<open>Done\<close>), blocks for ever unless another thread acts
  (\<open>Blocked\<close>), fails an \<^verbatim>\<open>assert\<close> (\<open>Aborted\<close>), or does something C++ or POSIX leaves
  undefined (\<open>Undefined\<close>).
\<close>

datatype 'a outcome = Done 'a | Blocked | Aborted | Undefined

fun obind :: "'a outcome \<Rightarrow> ('a \<Rightarrow> 'b outcome) \<Rightarrow> 'b outcome" where
  "obind (Done x) f = f x"
| "obind Blocked f = Blocked"
| "obind Aborted f = Aborted"
| "obind Undefined f = Undefined"

lemma obind_Done_iff [simp]:
  "obind m f = Done y \<longleftrightarrow> (\<exists>x. m = Done x \<and> f x = Done y)"
  by (cases m) auto

lemma obind_assoc: "obind (obind m f) g = obind m (\<lambda>x. obind (f x) g)"
  by (cases m) auto

subsection \<open>Reachable states of a step relation\<close>

inductive reach :: "('s \<Rightarrow> bool) \<Rightarrow> ('s \<Rightarrow> 's \<Rightarrow> bool) \<Rightarrow> 's \<Rightarrow> bool"
  for init :: "'s \<Rightarrow> bool" and step :: "'s \<Rightarrow> 's \<Rightarrow> bool" where
  reach_init: "init s \<Longrightarrow> reach init step s"
| reach_step: "reach init step s \<Longrightarrow> step s t \<Longrightarrow> reach init step t"

text \<open>
  The interface of a step system with an invariant: a client supplies the start
  states, the steps and a predicate, and owes that the predicate holds at the start
  and is kept by one step. Every reachable state then satisfies it.
\<close>

locale invariant_system =
  fixes init :: "'s \<Rightarrow> bool"
    and step :: "'s \<Rightarrow> 's \<Rightarrow> bool"
    and inv :: "'s \<Rightarrow> bool"
  assumes inv_init: "init s \<Longrightarrow> inv s"
    and inv_step: "step s t \<Longrightarrow> inv s \<Longrightarrow> inv t"
begin

lemma reach_inv: "reach init step s \<Longrightarrow> inv s"
  by (induction rule: reach.induct) (auto intro: inv_init inv_step)

lemma inv_star: "step\<^sup>*\<^sup>* s t \<Longrightarrow> inv s \<Longrightarrow> inv t"
  by (induction rule: rtranclp_induct) (auto intro: inv_step)

end

lemma reach_star:
  assumes "reach init step s" and "step\<^sup>*\<^sup>* s t"
  shows "reach init step t"
  using assms(2,1) by (induction rule: rtranclp_induct) (auto intro: reach_step)

text \<open>
  The interface of a program made of components: every state of the program has a state of
  the component as its view, and a step of the program is some steps of the component, or
  none. What holds of the reachable states of the component then holds in the program.
\<close>

locale component_view =
  fixes init :: "'s \<Rightarrow> bool" and step :: "'s \<Rightarrow> 's \<Rightarrow> bool"
    and part_init :: "'p \<Rightarrow> bool" and part_step :: "'p \<Rightarrow> 'p \<Rightarrow> bool"
    and view :: "'s \<Rightarrow> 'p"
  assumes view_init: "init s \<Longrightarrow> part_init (view s)"
    and view_step: "reach init step s \<Longrightarrow> step s t \<Longrightarrow> reach part_init part_step (view s) \<Longrightarrow>
      part_step\<^sup>*\<^sup>* (view s) (view t)"
begin

lemma reach_view: "reach init step s \<Longrightarrow> reach part_init part_step (view s)"
proof (induction rule: reach.induct)
  case (reach_init s)
  then show ?case by (intro reach.reach_init view_init)
next
  case (reach_step s t)
  then show ?case using view_step by (blast intro: reach_star)
qed

end

subsection \<open>Sums and filters over the threads\<close>

lemma sum_list_update_eq:
  fixes f :: "'a \<Rightarrow> nat"
  assumes "i < length xs"
  shows "sum_list (map f (xs[i := x])) + f (xs ! i) = sum_list (map f xs) + f x"
  using assms
proof (induction xs arbitrary: i)
  case (Cons y ys)
  then show ?case by (cases i) fastforce+
qed simp

lemma sum_list_member_le:
  fixes f :: "'a \<Rightarrow> nat"
  assumes "i < length xs"
  shows "f (xs ! i) \<le> sum_list (map f xs)"
  using assms by (intro member_le_sum_list) auto

lemma sum_list_two_le:
  fixes f :: "'a \<Rightarrow> nat"
  assumes "i < length xs" and "j < length xs" and "i \<noteq> j"
  shows "f (xs ! i) + f (xs ! j) \<le> sum_list (map f xs)"
  using assms
proof (induction xs arbitrary: i j)
  case (Cons x xs)
  show ?case
  proof (cases i)
    case 0
    then show ?thesis using Cons.prems sum_list_member_le [of "j - 1" xs f] by (cases j) auto
  next
    case (Suc i')
    then show ?thesis
      using Cons.prems Cons.IH [of i' "j - 1"] sum_list_member_le [of i' xs f] by (cases j) auto
  qed
qed simp

lemma sum_list_all_zero:
  fixes f :: "'a \<Rightarrow> nat"
  assumes "\<And>i. i < length xs \<Longrightarrow> f (xs ! i) = 0"
  shows "sum_list (map f xs) = 0"
proof -
  have "\<forall>x \<in> set xs. f x = 0"
    using assms by (metis in_set_conv_nth)
  then show ?thesis by (simp add: sum_list_eq_0_iff)
qed

lemma distinct_singleton: "distinct ks \<Longrightarrow> set ks = {x} \<Longrightarrow> ks = [x]"
proof (cases ks)
  case (Cons y ys)
  assume "distinct ks" "set ks = {x}"
  with Cons have "y = x" "set ys \<subseteq> {x}" "x \<notin> set ys" by auto
  then have "set ys = {}" by (auto dest: subset_singletonD)
  with Cons \<open>y = x\<close> show ?thesis by simp
qed simp

subsection \<open>Words\<close>

lemma unat_u32_less: "unat (w :: u32) < 2 ^ 32"
  using unsigned_less [of w] by simp

lemma unat_u32_plus: "unat (a + b :: u32) = (unat a + unat b) mod 2 ^ 32"
  by (simp add: unat_word_ariths)

lemma u32_plus_carry: "(a + b :: u32) < b \<longleftrightarrow> 2 ^ 32 \<le> unat a + unat b"
proof -
  have a: "unat a < 2 ^ 32" and b: "unat b < 2 ^ 32"
    by (rule unat_u32_less)+
  show ?thesis
  proof (cases "unat a + unat b < 2 ^ 32")
    case True
    then show ?thesis by (simp add: word_less_nat_alt unat_u32_plus)
  next
    case False
    then have "(unat a + unat b) mod 2 ^ 32 = unat a + unat b - 2 ^ 32"
      using a b by (simp add: mod_if)
    then show ?thesis using False a b
      by (simp add: word_less_nat_alt unat_u32_plus)
  qed
qed

end
