(* ===== verification/Sync.thy ===== *)
theory Sync
  imports EZPrelude
begin

section \<open>Mutexes, locks and semaphores\<close>

text \<open>
  \<^verbatim>\<open>EZMutex\<close>, \<^verbatim>\<open>EZLock\<close> and \<^verbatim>\<open>EZSemaphore\<close> wrap the primitives of the platform: the
  pthread mutex and the POSIX semaphore, or the Win32 mutex and semaphore. The model
  keeps of each the state its standard describes. A wrapper method that waits is a
  call with outcome \<open>Blocked\<close> when the calling thread would be suspended; the
  suspended thread retries when another thread has changed the object.
  Waits interrupted by a signal handler are not modelled.
\<close>

text \<open>The platform the library is compiled for, with POSIX's \<^verbatim>\<open>SEM_VALUE_MAX\<close>.\<close>

datatype platform = Posix nat | Win32

subsection \<open>CEZMutex\<close>

datatype mutex_type = MUTEX_FAST | MUTEX_RECURSIVE

record CEZMutex =
  mtx_recursive :: bool
  mtx_owner :: "tid option"
  mtx_depth :: nat

text \<open>The Win32 constructor ignores the type: a Win32 mutex is always recursive.\<close>

fun CEZMutex_new :: "platform \<Rightarrow> mutex_type \<Rightarrow> CEZMutex" where
  "CEZMutex_new Win32 ty =
     \<lparr>mtx_recursive = True, mtx_owner = None, mtx_depth = 0\<rparr>"
| "CEZMutex_new (Posix k) ty =
     \<lparr>mtx_recursive = (ty = MUTEX_RECURSIVE), mtx_owner = None, mtx_depth = 0\<rparr>"

definition Lock :: "tid \<Rightarrow> CEZMutex \<Rightarrow> CEZMutex outcome" where
  "Lock t m =
     (case mtx_owner m of
        None \<Rightarrow> Done (m\<lparr>mtx_owner := Some t, mtx_depth := 1\<rparr>)
      | Some u \<Rightarrow>
          if u = t \<and> mtx_recursive m then Done (m\<lparr>mtx_depth := Suc (mtx_depth m)\<rparr>)
          else Blocked)"

text \<open>
  Unlocking a mutex one does not hold is an error without effect for a recursive mutex
  and undefined for a fast one; \<^verbatim>\<open>Unlock\<close> ignores the error code.
\<close>

definition Unlock :: "tid \<Rightarrow> CEZMutex \<Rightarrow> CEZMutex outcome" where
  "Unlock t m =
     (if mtx_owner m = Some t then
        (if mtx_depth m \<le> 1 then Done (m\<lparr>mtx_owner := None, mtx_depth := 0\<rparr>)
         else Done (m\<lparr>mtx_depth := mtx_depth m - 1\<rparr>))
      else if mtx_recursive m then Done m else Undefined)"

definition mutex_ok :: "CEZMutex \<Rightarrow> bool" where
  "mutex_ok m \<longleftrightarrow>
     (mtx_owner m = None \<longleftrightarrow> mtx_depth m = 0) \<and> (\<not> mtx_recursive m \<longrightarrow> mtx_depth m \<le> 1)"

lemma mutex_ok_new [simp]: "mutex_ok (CEZMutex_new p ty)"
  by (cases p) (auto simp: mutex_ok_def)

lemma mutex_new_free: "mutex_ok (CEZMutex_new p ty) \<and> mtx_owner (CEZMutex_new p ty) = None"
  by (cases p) (simp_all add: mutex_ok_def)

lemma Lock_Done_iff:
  "Lock t m = Done m' \<longleftrightarrow>
     (mtx_owner m = None \<and> m' = m\<lparr>mtx_owner := Some t, mtx_depth := 1\<rparr> \<or>
      mtx_owner m = Some t \<and> mtx_recursive m \<and> m' = m\<lparr>mtx_depth := Suc (mtx_depth m)\<rparr>)"
  by (auto simp: Lock_def split: option.splits if_splits)

lemma Lock_mutex_ok: "Lock t m = Done m' \<Longrightarrow> mutex_ok m \<Longrightarrow> mutex_ok m'"
  by (auto simp: Lock_Done_iff mutex_ok_def)

lemma Unlock_mutex_ok: "Unlock t m = Done m' \<Longrightarrow> mutex_ok m \<Longrightarrow> mutex_ok m'"
  by (auto simp: Unlock_def mutex_ok_def split: if_splits)

lemma Lock_owner: "Lock t m = Done m' \<Longrightarrow> mtx_owner m' = Some t"
  by (auto simp: Lock_Done_iff)

lemma Lock_Unlock: "mutex_ok m \<Longrightarrow> Lock t m = Done m' \<Longrightarrow> Unlock t m' = Done m"
  by (auto simp: Lock_Done_iff Unlock_def mutex_ok_def)

lemma Lock_blocked_iff:
  "Lock t m = Blocked \<longleftrightarrow> (\<exists>u. mtx_owner m = Some u \<and> (u = t \<longrightarrow> \<not> mtx_recursive m))"
  by (auto simp: Lock_def split: option.splits)

text \<open>What a user of a mutex relies on, whatever the platform and the type.\<close>

locale mutex_interface =
  fixes lock :: "tid \<Rightarrow> 'm \<Rightarrow> 'm outcome"
    and unlock :: "tid \<Rightarrow> 'm \<Rightarrow> 'm outcome"
    and owner :: "'m \<Rightarrow> tid option"
    and ok :: "'m \<Rightarrow> bool"
  assumes lock_ok: "ok m \<Longrightarrow> lock t m = Done m' \<Longrightarrow> ok m'"
    and lock_owner: "ok m \<Longrightarrow> lock t m = Done m' \<Longrightarrow> owner m' = Some t"
    and lock_unlock: "ok m \<Longrightarrow> lock t m = Done m' \<Longrightarrow> unlock t m' = Done m"
    and lock_excludes: "ok m \<Longrightarrow> owner m = Some u \<Longrightarrow> u \<noteq> t \<Longrightarrow> lock t m = Blocked"
begin

lemma exclusion:
  assumes "ok m" and "lock t m = Done m'" and "u \<noteq> t"
  shows "lock u m' = Blocked"
  using assms lock_ok lock_owner lock_excludes by metis

text \<open>A scope that takes the lock and gives it back leaves the mutex as it was.\<close>

lemma scope_restores:
  assumes "ok m" and "lock t m = Done m'" and "obind (f m') (\<lambda>y. unlock t m') = Done m''"
  shows "m'' = m"
  using assms(3) lock_unlock [OF assms(1,2)] by (cases "f m'") auto

end

interpretation ez_mutex: mutex_interface Lock Unlock mtx_owner mutex_ok
proof (unfold_locales, goal_cases)
  case (1 m t m')
  then show ?case by (rule Lock_mutex_ok [rotated])
next
  case (2 m t m')
  then show ?case by (blast intro: Lock_owner)
next
  case (3 m t m')
  then show ?case by (rule Lock_Unlock)
next
  case (4 m u t)
  then show ?case by (simp add: Lock_blocked_iff)
qed

subsection \<open>CEZLock: the scoped lock\<close>

text \<open>
  The constructor locks, the destructor unlocks; the block between runs on the shared
  state \<open>s\<close> and the thread holds the mutex meanwhile.
\<close>

definition CEZLock_scope ::
    "tid \<Rightarrow> ('s \<Rightarrow> ('a \<times> 's) outcome) \<Rightarrow> CEZMutex \<times> 's \<Rightarrow> ('a \<times> CEZMutex \<times> 's) outcome" where
  "CEZLock_scope t body ms =
     obind (Lock t (fst ms)) (\<lambda>m'.
     obind (body (snd ms)) (\<lambda>(x, s').
     obind (Unlock t m') (\<lambda>m''. Done (x, m'', s'))))"

lemma CEZLock_scope_Done:
  assumes "mutex_ok m"
  shows "CEZLock_scope t body (m, s) = Done (x, m'', s') \<longleftrightarrow>
    m'' = m \<and> body s = Done (x, s') \<and> Lock t m \<noteq> Blocked"
proof -
  have "Lock t m \<noteq> Aborted" "Lock t m \<noteq> Undefined"
    by (auto simp: Lock_def split: option.splits)
  then consider "Lock t m = Blocked" | m' where "Lock t m = Done m'"
    by (cases "Lock t m") auto
  then show ?thesis
  proof cases
    case 1
    then show ?thesis by (simp add: CEZLock_scope_def)
  next
    case 2
    then have "Unlock t m' = Done m"
      using assms by (rule Lock_Unlock [rotated])
    with 2 show ?thesis by (auto simp: CEZLock_scope_def split: prod.splits)
  qed
qed

subsection \<open>CEZSemaphore\<close>

text \<open>
  The count, the largest count the platform allows, whether the platform's constructor
  accepted the start value, and whether it is the Win32 flavour. POSIX bounds the count
  by \<^verbatim>\<open>SEM_VALUE_MAX\<close>; the Win32 constructor asks for the maximum 1.
\<close>

record CEZSemaphore =
  sem_value :: nat
  sem_max :: nat
  sem_valid :: bool
  sem_win32 :: bool

fun CEZSemaphore_new :: "platform \<Rightarrow> nat \<Rightarrow> CEZSemaphore" where
  "CEZSemaphore_new Win32 v =
     \<lparr>sem_value = v, sem_max = 1, sem_valid = (v \<le> 1), sem_win32 = True\<rparr>"
| "CEZSemaphore_new (Posix k) v =
     \<lparr>sem_value = v, sem_max = k, sem_valid = (v \<le> k), sem_win32 = False\<rparr>"

definition Post :: "CEZSemaphore \<Rightarrow> int \<times> CEZSemaphore" where
  "Post s =
     (if sem_valid s \<and> sem_value s < sem_max s
      then (0, s\<lparr>sem_value := Suc (sem_value s)\<rparr>)
      else (-1, s))"

definition Wait :: "CEZSemaphore \<Rightarrow> (int \<times> CEZSemaphore) outcome" where
  "Wait s =
     (if \<not> sem_valid s then Done (-1, s)
      else if sem_value s = 0 then Blocked
      else Done (0, s\<lparr>sem_value := sem_value s - 1\<rparr>))"

text \<open>\<^verbatim>\<open>TryWait\<close> and \<^verbatim>\<open>GetValue\<close> are stubs on Win32.\<close>

definition TryWait :: "CEZSemaphore \<Rightarrow> int \<times> CEZSemaphore" where
  "TryWait s =
     (if sem_win32 s \<or> \<not> sem_valid s \<or> sem_value s = 0 then (-1, s)
      else (0, s\<lparr>sem_value := sem_value s - 1\<rparr>))"

definition GetValue :: "CEZSemaphore \<Rightarrow> int \<Rightarrow> int \<times> int" where
  "GetValue s i =
     (if sem_win32 s then (0, i)
      else if sem_valid s then (0, int (sem_value s)) else (-1, i))"

definition sem_ok :: "CEZSemaphore \<Rightarrow> bool" where
  "sem_ok s \<longleftrightarrow> sem_valid s \<and> sem_value s \<le> sem_max s"

lemma sem_ok_new: "sem_ok (CEZSemaphore_new p v) \<longleftrightarrow> v \<le> (case p of Posix k \<Rightarrow> k | Win32 \<Rightarrow> 1)"
  by (cases p) (auto simp: sem_ok_def)

lemma Post_fields [simp]:
  "sem_max (snd (Post s)) = sem_max s"
  "sem_valid (snd (Post s)) = sem_valid s"
  "sem_win32 (snd (Post s)) = sem_win32 s"
  by (auto simp: Post_def)

lemma Post_value:
  "sem_ok s \<Longrightarrow> sem_value (snd (Post s)) = min (sem_max s) (Suc (sem_value s))"
  by (auto simp: Post_def sem_ok_def)

lemma Post_ok [simp]: "sem_ok s \<Longrightarrow> sem_ok (snd (Post s))"
  by (auto simp: Post_def sem_ok_def)

lemma Wait_Done_iff:
  "sem_ok s \<Longrightarrow> Wait s = Done (r, s') \<longleftrightarrow>
     r = 0 \<and> 0 < sem_value s \<and> s' = s\<lparr>sem_value := sem_value s - 1\<rparr>"
  by (auto simp: Wait_def sem_ok_def)

lemma Wait_Blocked_iff: "sem_ok s \<Longrightarrow> Wait s = Blocked \<longleftrightarrow> sem_value s = 0"
  by (auto simp: Wait_def sem_ok_def)

lemma Wait_ok: "sem_ok s \<Longrightarrow> Wait s = Done (r, s') \<Longrightarrow> sem_ok s'"
  by (auto simp: Wait_def sem_ok_def split: if_splits)

text \<open>
  The contract of a counting semaphore with a largest count \<open>cap\<close>: a post adds one
  token unless the count is full, a wait takes one or blocks. Both platforms keep it;
  they differ in \<open>cap\<close>.
\<close>

locale counting_semaphore =
  fixes post :: "'s \<Rightarrow> int \<times> 's"
    and wait :: "'s \<Rightarrow> (int \<times> 's) outcome"
    and count :: "'s \<Rightarrow> nat"
    and cap :: "'s \<Rightarrow> nat"
    and ok :: "'s \<Rightarrow> bool"
  assumes post_ok: "ok s \<Longrightarrow> ok (snd (post s))"
    and post_count: "ok s \<Longrightarrow> count (snd (post s)) = min (cap s) (Suc (count s))"
    and post_cap: "cap (snd (post s)) = cap s"
    and count_cap: "ok s \<Longrightarrow> count s \<le> cap s"
    and wait_blocks: "ok s \<Longrightarrow> wait s = Blocked \<longleftrightarrow> count s = 0"
    and wait_done: "ok s \<Longrightarrow> 0 < count s \<Longrightarrow>
      \<exists>s'. wait s = Done (0, s') \<and> ok s' \<and> Suc (count s') = count s \<and> cap s' = cap s"
begin

text \<open>\<open>n\<close> posts in a row, and \<open>n\<close> waits in a row by one thread.\<close>

primrec posts :: "nat \<Rightarrow> 's \<Rightarrow> 's" where
  "posts 0 s = s"
| "posts (Suc n) s = posts n (snd (post s))"

primrec waits :: "nat \<Rightarrow> 's \<Rightarrow> 's outcome" where
  "waits 0 s = Done s"
| "waits (Suc n) s = obind (wait s) (\<lambda>(_, s'). waits n s')"

lemma posts_ok_cap: "ok s \<Longrightarrow> ok (posts n s) \<and> cap (posts n s) = cap s"
  by (induction n arbitrary: s) (auto simp: post_ok post_cap)

lemma posts_count: "ok s \<Longrightarrow> count (posts n s) = min (cap s) (count s + n)"
proof (induction n arbitrary: s)
  case 0
  then show ?case using count_cap by fastforce
next
  case (Suc n)
  then show ?case by (simp add: post_ok post_cap post_count)
qed

lemma waits_enough: "ok s \<Longrightarrow> n \<le> count s \<Longrightarrow> \<exists>s'. waits n s = Done s' \<and> ok s' \<and> count s' + n = count s"
proof (induction n arbitrary: s)
  case (Suc n)
  then have "0 < count s" by simp
  with Suc.prems obtain s' where
    s': "wait s = Done (0, s')" "ok s'" "Suc (count s') = count s"
    using wait_done by blast
  then obtain s'' where "waits n s' = Done s''" "ok s''" "count s'' + n = count s'"
    using Suc by fastforce
  with s' show ?case by auto
qed simp

lemma waits_too_many: "ok s \<Longrightarrow> count s < n \<Longrightarrow> waits n s = Blocked"
proof (induction n arbitrary: s)
  case (Suc n)
  show ?case
  proof (cases "count s = 0")
    case True
    then have "wait s = Blocked" using Suc.prems wait_blocks by blast
    then show ?thesis by simp
  next
    case False
    with Suc.prems obtain s' where "wait s = Done (0, s')" "ok s'" "Suc (count s') = count s"
      using wait_done by blast
    then show ?thesis using Suc by simp
  qed
qed simp

lemma waits_after_posts:
  assumes "ok s"
  shows "(\<exists>s'. waits k (posts n s) = Done s') \<longleftrightarrow> k \<le> min (cap s) (count s + n)"
  using assms posts_ok_cap [of s n] posts_count [of s n]
    waits_enough [of "posts n s" k] waits_too_many [of "posts n s" k]
  by (cases "k \<le> min (cap s) (count s + n)") auto

end

interpretation ez_sem: counting_semaphore Post Wait sem_value sem_max sem_ok
  by unfold_locales
    (auto simp: Post_value Wait_Blocked_iff, auto simp: sem_ok_def Wait_def)

end
