(* ===== verification/MsgQue.thy ===== *)
theory MsgQue
  imports Sync
begin

section \<open>CEZMsgQue: the message queue of a thread\<close>

text \<open>
  \<^verbatim>\<open>src/EZMsgQue.h\<close> and \<^verbatim>\<open>src/EZMsgQue.cpp\<close>. The queue is a \<^verbatim>\<open>std::list\<close> whose front is
  the head of the model's list: messages enter at the front and leave at the back. The
  semaphore counts the messages, and \<^verbatim>\<open>m_nMsg\<close> counts them again. Each operation is
  given here as one caller runs it from start to end; the interleavings of several
  callers are in the theory \<open>MsgQueConc\<close>.
\<close>

subsection \<open>Data\<close>

definition MSG_PRIORITY :: u32 where
  "MSG_PRIORITY = 10"

definition MSG_On_UserData :: u32 where
  "MSG_On_UserData = 1"

definition XM_QUIT :: u32 where
  "XM_QUIT = 1"

record MSG_NODE =
  msg :: u32
  wpa :: EZTHREAD_PARAM
  lpa :: EZTHREAD_PARAM
  pData :: "addr option"
  time :: u32

record CEZMsgQue =
  m_Queue :: "MSG_NODE list"
  m_bMsgFlg :: EZTHREAD_BOOL
  m_MutexMsg :: CEZMutex
  m_CEZSemaphore :: CEZSemaphore
  m_nMsg :: int
  m_nMaxMsg :: int

definition CEZMsgQue_new :: "platform \<Rightarrow> int \<Rightarrow> CEZMsgQue" where
  "CEZMsgQue_new p sz =
     \<lparr>m_Queue = [], m_bMsgFlg = True, m_MutexMsg = CEZMutex_new p MUTEX_FAST,
      m_CEZSemaphore = CEZSemaphore_new p 0, m_nMsg = 0, m_nMaxMsg = sz\<rparr>"

subsection \<open>Operations\<close>

text \<open>
  The critical sections. \<open>send_refused\<close> is the disjunction of the guards that make
  \<^verbatim>\<open>SendMessage\<close> return FALSE, \<open>push_msg\<close> what the rest of the section does to the
  queue, \<open>pop_msg\<close> the end of \<^verbatim>\<open>RecvMessage\<close>.
\<close>

definition send_refused :: "CEZMsgQue \<Rightarrow> u32 \<Rightarrow> bool" where
  "send_refused q priority \<longleftrightarrow>
     m_nMaxMsg q \<le> m_nMsg q \<or> MSG_PRIORITY \<le> priority \<or> \<not> m_bMsgFlg q"

definition push_msg :: "MSG_NODE \<Rightarrow> CEZMsgQue \<Rightarrow> CEZMsgQue" where
  "push_msg x q = q\<lparr>m_Queue := x # m_Queue q, m_nMsg := m_nMsg q + 1\<rparr>"

definition post_msg :: "CEZMsgQue \<Rightarrow> CEZMsgQue" where
  "post_msg q = q\<lparr>m_CEZSemaphore := snd (Post (m_CEZSemaphore q))\<rparr>"

definition wait_msg :: "CEZMsgQue \<Rightarrow> CEZMsgQue outcome" where
  "wait_msg q =
     obind (Wait (m_CEZSemaphore q)) (\<lambda>(_, s). Done (q\<lparr>m_CEZSemaphore := s\<rparr>))"

definition pop_msg :: "CEZMsgQue \<Rightarrow> (MSG_NODE \<times> CEZMsgQue) outcome" where
  "pop_msg q =
     (if m_nMsg q = 0 then Aborted
      else if m_Queue q = [] then Undefined
      else Done (last (m_Queue q),
                 q\<lparr>m_Queue := butlast (m_Queue q), m_nMsg := m_nMsg q - 1\<rparr>))"

text \<open>
  \<^verbatim>\<open>SendMessage(msg, wpa, lpa, priority)\<close> at the clock reading \<open>now\<close>, and the overload
  for user data, which has no priority to check.
\<close>

definition SendMessage ::
    "u32 \<Rightarrow> u32 \<Rightarrow> EZTHREAD_PARAM \<Rightarrow> EZTHREAD_PARAM \<Rightarrow> u32 \<Rightarrow> CEZMsgQue \<Rightarrow> EZTHREAD_BOOL \<times> CEZMsgQue"
  where
  "SendMessage now m w l priority q =
     (if send_refused q priority then (False, q)
      else (True, post_msg (push_msg \<lparr>msg = m, wpa = w, lpa = l, pData = None, time = now\<rparr> q)))"

definition SendMessage_data ::
    "u32 \<Rightarrow> addr option \<Rightarrow> CEZMsgQue \<Rightarrow> EZTHREAD_BOOL \<times> CEZMsgQue" where
  "SendMessage_data now p q =
     (if m_nMaxMsg q \<le> m_nMsg q then (False, q)
      else if \<not> m_bMsgFlg q then (False, q)
      else (True, post_msg (push_msg
              \<lparr>msg = MSG_On_UserData, wpa = 0, lpa = 0, pData = p, time = now\<rparr> q)))"

text \<open>
  \<^verbatim>\<open>RecvMessage\<close>: the message \<open>*pMsg\<close> is \<open>None\<close> when the call returns FALSE. With
  \<^verbatim>\<open>wait\<close> the token is taken before the lock, without it under the lock and only for
  a queue that is not empty.
\<close>

definition RecvMessage ::
    "EZTHREAD_BOOL \<Rightarrow> CEZMsgQue \<Rightarrow> (EZTHREAD_BOOL \<times> MSG_NODE option \<times> CEZMsgQue) outcome" where
  "RecvMessage wait q =
     obind (if wait then wait_msg q else Done q) (\<lambda>q.
     if m_Queue q = [] then Done (False, None, q)
     else obind (if wait then Done q else wait_msg q) (\<lambda>q.
          obind (pop_msg q) (\<lambda>(x, q). Done (True, Some x, q))))"

definition QuitMessage :: "CEZMsgQue \<Rightarrow> CEZMsgQue" where
  "QuitMessage q = q\<lparr>m_bMsgFlg := False\<rparr>"

text \<open>\<^verbatim>\<open>ClearMessage\<close>: \<^verbatim>\<open>n = m_nMsg\<close> rounds of wait, \<^verbatim>\<open>pop_back\<close> and decrement.\<close>

primrec clear_loop :: "nat \<Rightarrow> CEZMsgQue \<Rightarrow> CEZMsgQue outcome" where
  "clear_loop 0 q = Done q"
| "clear_loop (Suc n) q =
     obind (wait_msg q) (\<lambda>q.
     if m_Queue q = [] then Undefined
     else clear_loop n (q\<lparr>m_Queue := butlast (m_Queue q), m_nMsg := m_nMsg q - 1\<rparr>))"

definition ClearMessage :: "CEZMsgQue \<Rightarrow> CEZMsgQue outcome" where
  "ClearMessage q = clear_loop (nat (m_nMsg q)) q"

definition GetMessageCount :: "CEZMsgQue \<Rightarrow> int" where
  "GetMessageCount q = m_nMsg q"

definition GetMessageSize :: "CEZMsgQue \<Rightarrow> int" where
  "GetMessageSize q = m_nMaxMsg q"

definition SetMessageSize :: "int \<Rightarrow> CEZMsgQue \<Rightarrow> CEZMsgQue" where
  "SetMessageSize sz q = q\<lparr>m_nMaxMsg := sz\<rparr>"

lemmas msgque_defs =
  send_refused_def push_msg_def post_msg_def wait_msg_def pop_msg_def SendMessage_def
  SendMessage_data_def RecvMessage_def QuitMessage_def ClearMessage_def
  GetMessageCount_def GetMessageSize_def SetMessageSize_def

subsection \<open>The invariant between calls\<close>

text \<open>
  Between calls the two counters agree with the list, and the size limit fits an
  \<^verbatim>\<open>int\<close> and the count of the semaphore, so neither can overflow.
\<close>

definition mq_inv :: "CEZMsgQue \<Rightarrow> bool" where
  "mq_inv q \<longleftrightarrow>
     m_nMsg q = int (length (m_Queue q)) \<and>
     sem_value (m_CEZSemaphore q) = length (m_Queue q) \<and>
     sem_ok (m_CEZSemaphore q) \<and>
     m_nMaxMsg q \<le> int (sem_max (m_CEZSemaphore q))"

definition mq_fits :: "platform \<Rightarrow> int \<Rightarrow> bool" where
  "mq_fits p sz \<longleftrightarrow> sz \<le> (case p of Posix k \<Rightarrow> int k | Win32 \<Rightarrow> 1)"

lemma mq_inv_new: "mq_fits p sz \<Longrightarrow> mq_inv (CEZMsgQue_new p sz)"
  by (cases p) (auto simp: mq_inv_def mq_fits_def CEZMsgQue_new_def sem_ok_def)

lemma mq_inv_push_post:
  assumes "mq_inv q" and "m_nMsg q < m_nMaxMsg q"
  shows "mq_inv (post_msg (push_msg x q))"
  using assms by (auto simp: mq_inv_def msgque_defs Post_value)

lemma mq_inv_SendMessage: "mq_inv q \<Longrightarrow> mq_inv (snd (SendMessage now m w l p q))"
  by (auto simp: SendMessage_def send_refused_def intro: mq_inv_push_post)

lemma mq_inv_SendMessage_data: "mq_inv q \<Longrightarrow> mq_inv (snd (SendMessage_data now d q))"
  by (auto simp: SendMessage_data_def intro: mq_inv_push_post)

lemma mq_inv_QuitMessage [simp]: "mq_inv (QuitMessage q) = mq_inv q"
  by (simp add: mq_inv_def QuitMessage_def)

lemma mq_inv_SetMessageSize:
  "mq_inv q \<Longrightarrow> sz \<le> int (sem_max (m_CEZSemaphore q)) \<Longrightarrow> mq_inv (SetMessageSize sz q)"
  by (simp add: mq_inv_def SetMessageSize_def)

text \<open>Under the invariant a wait succeeds exactly for a queue that is not empty.\<close>

lemma wait_msg_Done:
  "mq_inv q \<Longrightarrow> m_Queue q \<noteq> [] \<Longrightarrow>
    wait_msg q = Done (q\<lparr>m_CEZSemaphore := (m_CEZSemaphore q)
      \<lparr>sem_value := sem_value (m_CEZSemaphore q) - 1\<rparr>\<rparr>)"
  by (auto simp: wait_msg_def mq_inv_def Wait_def sem_ok_def)

lemma wait_msg_Blocked: "mq_inv q \<Longrightarrow> m_Queue q = [] \<Longrightarrow> wait_msg q = Blocked"
  by (auto simp: wait_msg_def mq_inv_def Wait_def sem_ok_def)

text \<open>The state after a message left the queue, in one piece.\<close>

definition taken :: "CEZMsgQue \<Rightarrow> CEZMsgQue" where
  "taken q = q\<lparr>m_Queue := butlast (m_Queue q), m_nMsg := m_nMsg q - 1,
     m_CEZSemaphore := (m_CEZSemaphore q)
       \<lparr>sem_value := sem_value (m_CEZSemaphore q) - 1\<rparr>\<rparr>"

lemma mq_inv_taken: "mq_inv q \<Longrightarrow> m_Queue q \<noteq> [] \<Longrightarrow> mq_inv (taken q)"
  by (cases "m_Queue q") (auto simp: mq_inv_def taken_def sem_ok_def)

lemma taken_queue [simp]: "m_Queue (taken q) = butlast (m_Queue q)"
  by (simp add: taken_def)

lemma taken_wait_first:
  "q\<lparr>m_CEZSemaphore := (m_CEZSemaphore q)\<lparr>sem_value := sem_value (m_CEZSemaphore q) - 1\<rparr>,
     m_Queue := butlast (m_Queue q), m_nMsg := m_nMsg q - 1\<rparr> = taken q"
  by (cases q) (simp add: taken_def)

lemma RecvMessage_some:
  "mq_inv q \<Longrightarrow> m_Queue q \<noteq> [] \<Longrightarrow> RecvMessage wait q = Done (True, Some (last (m_Queue q)), taken q)"
  by (auto simp: RecvMessage_def wait_msg_Done pop_msg_def taken_def) (auto simp: mq_inv_def)

lemma RecvMessage_none:
  "mq_inv q \<Longrightarrow> m_Queue q = [] \<Longrightarrow>
    RecvMessage wait q = (if wait then Blocked else Done (False, None, q))"
  by (simp add: RecvMessage_def wait_msg_Blocked)

lemma clear_loop_all:
  "mq_inv q \<Longrightarrow> length (m_Queue q) = n \<Longrightarrow>
    \<exists>q'. clear_loop n q = Done q' \<and> mq_inv q' \<and> m_Queue q' = [] \<and>
      m_bMsgFlg q' = m_bMsgFlg q \<and> m_nMaxMsg q' = m_nMaxMsg q"
proof (induction n arbitrary: q)
  case (Suc n)
  then have ne: "m_Queue q \<noteq> []" by auto
  then have "mq_inv (taken q)" "length (m_Queue (taken q)) = n"
    using Suc.prems by (auto intro: mq_inv_taken)
  then obtain q' where q': "clear_loop n (taken q) = Done q'" "mq_inv q'" "m_Queue q' = []"
      "m_bMsgFlg q' = m_bMsgFlg (taken q)" "m_nMaxMsg q' = m_nMaxMsg (taken q)"
    using Suc.IH by blast
  have step: "clear_loop (Suc n) q = clear_loop n (taken q)"
    using ne Suc.prems taken_wait_first [of q] by (simp add: wait_msg_Done)
  show ?case unfolding step using q' by (auto simp: taken_def)
qed auto

subsection \<open>The queue as a bounded first-in first-out buffer\<close>

text \<open>
  The contract the users of a queue rely on. \<open>contents\<close> lists the messages, oldest
  first. A \<open>put\<close> appends if it returns TRUE and changes nothing if it returns FALSE;
  a \<open>get\<close> takes the oldest message and returns FALSE, or blocks, when there is none.
\<close>

locale bounded_fifo =
  fixes contents :: "'q \<Rightarrow> 'm list"
    and limit :: "'q \<Rightarrow> int"
    and ok :: "'q \<Rightarrow> bool"
    and put :: "'m \<Rightarrow> 'q \<Rightarrow> bool \<times> 'q"
    and get :: "bool \<Rightarrow> 'q \<Rightarrow> (bool \<times> 'm option \<times> 'q) outcome"
  assumes put_ok: "ok q \<Longrightarrow> ok (snd (put x q))"
    and put_contents: "ok q \<Longrightarrow>
      contents (snd (put x q)) = contents q @ (if fst (put x q) then [x] else [])"
    and put_full: "ok q \<Longrightarrow> fst (put x q) \<Longrightarrow> int (length (contents q)) < limit q"
    and put_limit: "limit (snd (put x q)) = limit q"
    and get_some: "ok q \<Longrightarrow> contents q \<noteq> [] \<Longrightarrow>
      \<exists>q'. get w q = Done (True, Some (hd (contents q)), q') \<and> ok q' \<and>
        contents q' = tl (contents q) \<and> limit q' = limit q"
    and get_none: "ok q \<Longrightarrow> contents q = [] \<Longrightarrow>
      get w q = (if w then Blocked else Done (False, None, q))"
begin

text \<open>
  A history of calls by one caller at a time: \<open>Inl x\<close> is a put, \<open>Inr w\<close> a get. A get
  that blocks waits for the next put, so the history skips it. The run returns the
  messages that were accepted and those that were delivered.
\<close>

fun run :: "('m + bool) list \<Rightarrow> 'q \<Rightarrow> 'm list \<times> 'm list \<times> 'q" where
  "run [] q = ([], [], q)"
| "run (Inl x # es) q =
     (let (b, q') = put x q; (ins, outs, q'') = run es q'
      in (if b then x # ins else ins, outs, q''))"
| "run (Inr w # es) q =
     (case get w q of
        Done (b, y, q') \<Rightarrow>
          (let (ins, outs, q'') = run es q'
           in (ins, (case y of None \<Rightarrow> outs | Some m \<Rightarrow> m # outs), q''))
      | _ \<Rightarrow> run es q)"

lemma fifo:
  "ok q \<Longrightarrow> run es q = (ins, outs, q') \<Longrightarrow> ok q' \<and> contents q @ ins = outs @ contents q'"
proof (induction es q arbitrary: ins outs q' rule: run.induct)
  case (1 q)
  then show ?case by simp
next
  case (2 x es q)
  obtain b q1 where put: "put x q = (b, q1)" by fastforce
  obtain ins1 outs1 where run: "run es q1 = (ins1, outs1, q')"
      "ins = (if b then x # ins1 else ins1)" "outs = outs1"
    using "2.prems" put by (auto split: prod.splits)
  have "ok q1" "contents q1 = contents q @ (if b then [x] else [])"
    using put_ok [of q x] put_contents [of q x] "2.prems" put by auto
  then show ?case using "2.IH" [OF refl] put run by fastforce
next
  case (3 w es q)
  show ?case
  proof (cases "contents q = []")
    case True
    then have "get w q = (if w then Blocked else Done (False, None, q))"
      using get_none "3.prems" by blast
    then show ?thesis using "3.IH" "3.prems"
      by (cases w) (auto split: prod.splits)
  next
    case False
    then obtain h q1 where g: "get w q = Done (True, Some h, q1)" "ok q1"
        and c: "contents q = h # contents q1"
      using get_some [of q w] "3.prems"(1) by (cases "contents q") auto
    obtain outs1 where r: "run es q1 = (ins, outs1, q')" and o: "outs = h # outs1"
      using "3.prems" g by (auto split: prod.splits)
    have "ok q' \<and> contents q1 @ ins = outs1 @ contents q'"
      using "3.IH"(1) [OF g(1) refl refl g(2) r] .
    then show ?thesis unfolding c o by simp
  qed
qed

lemma run_limit:
  "ok q \<Longrightarrow> run es q = (ins, outs, q') \<Longrightarrow> int (length (contents q)) \<le> limit q \<Longrightarrow>
    int (length (contents q')) \<le> limit q' \<and> limit q' = limit q"
proof (induction es q arbitrary: ins outs q' rule: run.induct)
  case (1 q)
  then show ?case by simp
next
  case (2 x es q)
  obtain b q1 where put: "put x q = (b, q1)" by fastforce
  then have "int (length (contents q1)) \<le> limit q1" "limit q1 = limit q" "ok q1"
    using put_contents [of q x] put_full [of q x] put_limit [of x q] put_ok [of q x] "2.prems"
    by auto
  moreover obtain ins1 where "run es q1 = (ins1, outs, q')"
    using "2.prems" put by (auto split: prod.splits)
  ultimately show ?case using "2.IH" [OF put [symmetric] refl] by simp
next
  case (3 w es q)
  show ?case
  proof (cases "contents q = []")
    case True
    then have g: "get w q = (if w then Blocked else Done (False, None, q))"
      using get_none "3.prems" by blast
    then have r: "run es q = (ins, outs, q')"
      using "3.prems"(2) by (cases w) (auto split: prod.splits)
    show ?thesis
    proof (cases w)
      case True
      with g have "get w q = Blocked" by simp
      from "3.IH"(2) [OF this "3.prems"(1) r "3.prems"(3)] show ?thesis .
    next
      case False
      with g have "get w q = Done (False, None, q)" by simp
      from "3.IH"(1) [OF this refl refl "3.prems"(1) r "3.prems"(3)] show ?thesis .
    qed
  next
    case False
    then obtain q1 where g: "get w q = Done (True, Some (hd (contents q)), q1)" "ok q1"
        "contents q1 = tl (contents q)" "limit q1 = limit q"
      using get_some "3.prems" by blast
    then show ?thesis using "3.IH" "3.prems" by (fastforce split: prod.splits)
  qed
qed

end

text \<open>
  A put is a \<^verbatim>\<open>SendMessage\<close> of the node's fields at the node's time; nodes built by
  \<^verbatim>\<open>SendMessage\<close> carry no user data.
\<close>

definition put_msg :: "MSG_NODE \<Rightarrow> CEZMsgQue \<Rightarrow> EZTHREAD_BOOL \<times> CEZMsgQue" where
  "put_msg x q =
     (case pData x of
        None \<Rightarrow> SendMessage (time x) (msg x) (wpa x) (lpa x) 0 q
      | Some p \<Rightarrow>
          if msg x = MSG_On_UserData \<and> wpa x = 0 \<and> lpa x = 0
          then SendMessage_data (time x) (Some p) q else (False, q))"

lemma put_msg_cases:
  "put_msg x q = (False, q) \<or>
    m_nMsg q < m_nMaxMsg q \<and> put_msg x q = (True, post_msg (push_msg x q))"
  by (cases x) (auto simp: put_msg_def SendMessage_def SendMessage_data_def send_refused_def
    split: option.splits if_splits)

interpretation ez_queue: bounded_fifo
  "\<lambda>q. rev (m_Queue q)" m_nMaxMsg mq_inv put_msg RecvMessage
proof (unfold_locales, goal_cases)
  case (1 q x)
  then show ?case using put_msg_cases [of x q] by (auto intro: mq_inv_push_post)
next
  case (2 q x)
  then show ?case using put_msg_cases [of x q] by (auto simp: post_msg_def push_msg_def)
next
  case (3 q x)
  then show ?case using put_msg_cases [of x q] by (auto simp: mq_inv_def)
next
  case (4 x q)
  then show ?case using put_msg_cases [of x q] by (auto simp: post_msg_def push_msg_def)
next
  case (5 q w)
  then have ne: "m_Queue q \<noteq> []" by simp
  then have "RecvMessage w q = Done (True, Some (hd (rev (m_Queue q))), taken q)"
    using 5(1) by (simp add: RecvMessage_some hd_rev)
  moreover have "rev (m_Queue (taken q)) = tl (rev (m_Queue q))"
    by (cases "m_Queue q" rule: rev_cases) auto
  moreover have "m_nMaxMsg (taken q) = m_nMaxMsg q" by (simp add: taken_def)
  ultimately show ?case using mq_inv_taken [OF 5(1) ne] by blast
next
  case (6 q w)
  then show ?case by (simp add: RecvMessage_none)
qed


subsection \<open>Properties\<close>

text \<open>
  C1. \<^verbatim>\<open>SendMessage\<close> accepts a message exactly when the queue has room, the priority is
  below \<^verbatim>\<open>MSG_PRIORITY\<close> and the queue has not been quit. An accepted message is put at
  the front with the clock's reading and counted by both counters; a refused one leaves
  the queue as it was. Either way the invariant holds afterwards.
\<close>

theorem SendMessage_spec:
  assumes "mq_inv q" and "SendMessage now m w l p q = (r, q')"
  shows "(r \<longleftrightarrow> m_nMsg q < m_nMaxMsg q \<and> p < MSG_PRIORITY \<and> m_bMsgFlg q) \<and>
    m_Queue q' = (if r then \<lparr>msg = m, wpa = w, lpa = l, pData = None, time = now\<rparr> # m_Queue q
                  else m_Queue q) \<and>
    m_nMsg q' = m_nMsg q + (if r then 1 else 0) \<and>
    sem_value (m_CEZSemaphore q') = sem_value (m_CEZSemaphore q) + (if r then 1 else 0) \<and>
    (m_bMsgFlg q' \<longleftrightarrow> m_bMsgFlg q) \<and> m_nMaxMsg q' = m_nMaxMsg q \<and> mq_inv q'"
proof -
  have "mq_inv q'" using mq_inv_SendMessage [OF assms(1)] assms(2) by (metis snd_conv)
  moreover have "m_nMsg q < m_nMaxMsg q \<Longrightarrow>
      sem_value (snd (Post (m_CEZSemaphore q))) = Suc (sem_value (m_CEZSemaphore q))"
    using assms(1) by (auto simp: mq_inv_def Post_value)
  ultimately show ?thesis using assms(2)
    by (auto simp: SendMessage_def send_refused_def push_msg_def post_msg_def not_less not_le
      split: if_splits)
qed

theorem SendMessage_spec_witness:
  "mq_inv (CEZMsgQue_new (Posix 10) 1) \<and>
   m_Queue (snd (SendMessage 5 100 1 2 0 (CEZMsgQue_new (Posix 10) 1))) =
     [\<lparr>msg = 100, wpa = 1, lpa = 2, pData = None, time = 5\<rparr>]"
proof -
  have inv: "mq_inv (CEZMsgQue_new (Posix 10) 1)"
    by (rule mq_inv_new) (simp add: mq_fits_def)
  have r: "fst (SendMessage 5 100 1 2 0 (CEZMsgQue_new (Posix 10) 1))"
    by (simp add: SendMessage_def send_refused_def CEZMsgQue_new_def MSG_PRIORITY_def)
  show ?thesis
    using inv r SendMessage_spec [OF inv surjective_pairing, of 5 100 1 2 0]
    by (simp add: CEZMsgQue_new_def)
qed

text \<open>
  \<^verbatim>\<open>RecvMessage\<close> on a queue with messages returns TRUE and the oldest one, whether
  or not it is asked to wait, and removes exactly that message. On an empty queue it
  blocks if it is asked to wait and returns FALSE, with nothing changed, if not. Its
  assertion on \<^verbatim>\<open>m_nMsg\<close> never fails.
\<close>

lemma RecvMessage_spec:
  assumes "mq_inv q"
  shows "if m_Queue q = []
    then RecvMessage wait q = (if wait then Blocked else Done (False, None, q))
    else RecvMessage wait q = Done (True, Some (last (m_Queue q)), taken q) \<and>
      m_Queue (taken q) = butlast (m_Queue q) \<and> mq_inv (taken q)"
  using assms by (simp add: RecvMessage_some RecvMessage_none mq_inv_taken)

text \<open>
  \<^verbatim>\<open>ClearMessage\<close> always terminates without blocking, empties the queue and both
  counters, and changes neither the size limit nor the quit flag.
\<close>

lemma ClearMessage_spec:
  assumes "mq_inv q"
  shows "\<exists>q'. ClearMessage q = Done q' \<and> mq_inv q' \<and> m_Queue q' = [] \<and> m_nMsg q' = 0 \<and>
    sem_value (m_CEZSemaphore q') = 0 \<and> m_bMsgFlg q' = m_bMsgFlg q \<and> m_nMaxMsg q' = m_nMaxMsg q"
proof -
  have "nat (m_nMsg q) = length (m_Queue q)" using assms by (simp add: mq_inv_def)
  then obtain q' where "ClearMessage q = Done q'" "mq_inv q'" "m_Queue q' = []"
      "m_bMsgFlg q' = m_bMsgFlg q" "m_nMaxMsg q' = m_nMaxMsg q"
    using clear_loop_all [OF assms] by (auto simp: ClearMessage_def)
  then show ?thesis by (auto simp: mq_inv_def)
qed

text \<open>
  C2. Over any history of sends and receives on a fresh queue whose size the platform's
  semaphore can count, the messages delivered, followed by those still queued from the
  oldest to the newest, are exactly the accepted ones in the order of their acceptance;
  and the queue never holds more than its size.
\<close>

theorem queue_history_fifo:
  assumes "mq_fits p sz" and "0 \<le> sz"
    and "ez_queue.run es (CEZMsgQue_new p sz) = (ins, outs, q)"
  shows "ins = outs @ rev (m_Queue q) \<and> int (length (m_Queue q)) \<le> sz \<and> mq_inv q"
proof -
  have inv: "mq_inv (CEZMsgQue_new p sz)" using assms(1) by (rule mq_inv_new)
  have "m_Queue (CEZMsgQue_new p sz) = []" "m_nMaxMsg (CEZMsgQue_new p sz) = sz"
    by (simp_all add: CEZMsgQue_new_def)
  with ez_queue.fifo [OF inv assms(3)] ez_queue.run_limit [OF inv assms(3)] assms(2)
  show ?thesis by simp
qed

theorem queue_history_fifo_witness:
  "\<exists>ins outs q. ez_queue.run [Inl \<lparr>msg = 7, wpa = 0, lpa = 0, pData = None, time = 1\<rparr>,
      Inr True, Inl \<lparr>msg = 8, wpa = 0, lpa = 0, pData = None, time = 2\<rparr>]
      (CEZMsgQue_new (Posix 10) 4) = (ins, outs, q) \<and> ins = outs @ rev (m_Queue q)"
proof -
  let ?es = "[Inl \<lparr>msg = 7, wpa = 0, lpa = 0, pData = None, time = 1\<rparr>,
      Inr True, Inl \<lparr>msg = 8, wpa = 0, lpa = 0, pData = None, time = 2\<rparr>]"
  have f: "mq_fits (Posix 10) 4" by (simp add: mq_fits_def)
  obtain ins outs q where r: "ez_queue.run ?es (CEZMsgQue_new (Posix 10) 4) = (ins, outs, q)"
    by (cases "ez_queue.run ?es (CEZMsgQue_new (Posix 10) 4)") auto
  have "ins = outs @ rev (m_Queue q)"
    using queue_history_fifo [OF f _ r] by simp
  with r show ?thesis by blast
qed

text \<open>
  The priority has no effect beyond the range check: two valid priorities give the
  same result, although the comment in \<^verbatim>\<open>SendMessage\<close> says the message is inserted by
  priority.
\<close>

lemma SendMessage_ignores_priority:
  assumes "p < MSG_PRIORITY" and "p' < MSG_PRIORITY"
  shows "SendMessage now m w l p q = SendMessage now m w l p' q"
  using assms by (simp add: SendMessage_def send_refused_def flip: not_le)

text \<open>
  On Win32 the semaphore's maximum is 1, so a queue of size 2 or more loses a
  wake-up: after two accepted messages and one receive, a waiting receive blocks although
  a message is in the queue.
\<close>

theorem win32_queue_stuck:
  assumes "2 \<le> sz"
  shows "\<exists>q1 q2 x y. SendMessage t1 m1 w1 l1 0 (CEZMsgQue_new Win32 sz) = (True, q1) \<and>
    SendMessage t2 m2 w2 l2 0 q1 = (True, q2) \<and>
    (\<exists>q3. RecvMessage True q2 = Done (True, Some x, q3) \<and> m_Queue q3 = [y] \<and>
      RecvMessage True q3 = Blocked)"
  using assms
  by (simp add: SendMessage_def send_refused_def CEZMsgQue_new_def MSG_PRIORITY_def push_msg_def
    post_msg_def Post_def RecvMessage_def wait_msg_def Wait_def pop_msg_def)

theorem win32_queue_stuck_witness:
  "\<exists>q1 q2 x y. SendMessage 1 100 0 0 0 (CEZMsgQue_new Win32 1024) = (True, q1) \<and>
    SendMessage 2 101 0 0 0 q1 = (True, q2) \<and>
    (\<exists>q3. RecvMessage True q2 = Done (True, Some x, q3) \<and> m_Queue q3 = [y] \<and>
      RecvMessage True q3 = Blocked)"
  by (rule win32_queue_stuck) simp

end
