(* ===== verification/MsgQueConc.thy ===== *)
theory MsgQueConc
  imports MsgQue
begin

section \<open>CEZMsgQue under concurrent callers\<close>

text \<open>
  The same methods as in \<open>MsgQue\<close>, now with any number of threads inside them. A
  thread is at a program point of \<^verbatim>\<open>EZMsgQue.cpp\<close>; one step runs it to the next point
  at which another thread can interfere. What happens between \<^verbatim>\<open>Lock\<close> and \<^verbatim>\<open>Unlock\<close> is
  cut only where the code may block, at \<^verbatim>\<open>m_CEZSemaphore.Wait()\<close>. The list of messages
  that ever entered the queue and of those that left it are history variables.
\<close>

subsection \<open>Program points and states\<close>

datatype mq_pc =
    Idle
  | SendLock MSG_NODE "u32 option"  \<comment> \<open>before \<^verbatim>\<open>m_MutexMsg.Lock()\<close>; the priority, if the overload has one\<close>
  | SendCrit MSG_NODE "u32 option"  \<comment> \<open>the lock is held\<close>
  | SendPost                        \<comment> \<open>unlocked, before \<^verbatim>\<open>m_CEZSemaphore.Post()\<close>\<close>
  | RecvWait                        \<comment> \<open>\<^verbatim>\<open>wait\<close> is TRUE, at the first \<^verbatim>\<open>Wait()\<close>\<close>
  | RecvLock EZTHREAD_BOOL          \<comment> \<open>before \<^verbatim>\<open>CEZLock __lock(m_MutexMsg)\<close>\<close>
  | RecvCrit EZTHREAD_BOOL
  | RecvTake                        \<comment> \<open>\<^verbatim>\<open>wait\<close> is FALSE, at \<^verbatim>\<open>Wait()\<close> with the lock held\<close>
  | RecvPop
  | ClearLock
  | ClearLoop nat                   \<comment> \<open>rounds left, lock held, at the loop's \<^verbatim>\<open>Wait()\<close>\<close>
  | ClearPop nat

record mq_sys =
  mq :: CEZMsgQue
  pcs :: "mq_pc list"
  entered :: "MSG_NODE list"
  left :: "MSG_NODE list"

definition goto :: "tid \<Rightarrow> mq_pc \<Rightarrow> mq_sys \<Rightarrow> mq_sys" where
  "goto i p s = s\<lparr>pcs := (pcs s)[i := p]\<rparr>"

definition pc_at :: "mq_sys \<Rightarrow> tid \<Rightarrow> mq_pc \<Rightarrow> bool" where
  "pc_at s i p \<longleftrightarrow> i < length (pcs s) \<and> pcs s ! i = p"

definition with_mutex :: "CEZMutex \<Rightarrow> CEZMsgQue \<Rightarrow> CEZMsgQue" where
  "with_mutex m q = q\<lparr>m_MutexMsg := m\<rparr>"

definition with_sem :: "CEZSemaphore \<Rightarrow> CEZMsgQue \<Rightarrow> CEZMsgQue" where
  "with_sem x q = q\<lparr>m_CEZSemaphore := x\<rparr>"

definition send_refused_opt :: "CEZMsgQue \<Rightarrow> u32 option \<Rightarrow> bool" where
  "send_refused_opt q pr =
     (case pr of
        Some p \<Rightarrow> send_refused q p
      | None \<Rightarrow> m_nMaxMsg q \<le> m_nMsg q \<or> \<not> m_bMsgFlg q)"

definition mq_start :: "platform \<Rightarrow> int \<Rightarrow> nat \<Rightarrow> mq_sys \<Rightarrow> bool" where
  "mq_start p sz n s \<longleftrightarrow>
     s = \<lparr>mq = CEZMsgQue_new p sz, pcs = replicate n Idle, entered = [], left = []\<rparr>"

subsection \<open>Steps\<close>

text \<open>A thread that is outside the queue calls one of the methods that may wait.\<close>

inductive mq_call :: "mq_sys \<Rightarrow> mq_sys \<Rightarrow> bool" where
  call_send:
    "pc_at s i Idle \<Longrightarrow>
     mq_call s (goto i (SendLock
       \<lparr>msg = m, wpa = w, lpa = l, pData = None, time = 0\<rparr> (Some priority)) s)"
| call_send_data:
    "pc_at s i Idle \<Longrightarrow>
     mq_call s (goto i (SendLock
       \<lparr>msg = MSG_On_UserData, wpa = 0, lpa = 0, pData = p, time = 0\<rparr> None) s)"
| call_recv:
    "pc_at s i Idle \<Longrightarrow>
     mq_call s (goto i (if wait then RecvWait else RecvLock False) s)"
| call_clear:
    "pc_at s i Idle \<Longrightarrow> mq_call s (goto i ClearLock s)"

text \<open>
  A thread inside a method advances. \<^verbatim>\<open>QuitMessage\<close> and \<^verbatim>\<open>SetMessageSize\<close> hold the lock
  for one assignment and are one step of an idle thread; a new size is an \<^verbatim>\<open>int\<close>, which
  the semaphore can count.
\<close>

inductive mq_step :: "tid \<Rightarrow> mq_sys \<Rightarrow> mq_sys \<Rightarrow> bool" where
  send_lock:
    "pc_at s i (SendLock x pr) \<Longrightarrow> Lock i (m_MutexMsg (mq s)) = Done m \<Longrightarrow>
     mq_step i s (goto i (SendCrit x pr) (s\<lparr>mq := with_mutex m (mq s)\<rparr>))"
| send_refuse:
    "pc_at s i (SendCrit x pr) \<Longrightarrow> send_refused_opt (mq s) pr \<Longrightarrow>
     Unlock i (m_MutexMsg (mq s)) = Done m \<Longrightarrow>
     mq_step i s (goto i Idle (s\<lparr>mq := with_mutex m (mq s)\<rparr>))"
| send_push:
    "pc_at s i (SendCrit x pr) \<Longrightarrow> \<not> send_refused_opt (mq s) pr \<Longrightarrow>
     Unlock i (m_MutexMsg (mq s)) = Done m \<Longrightarrow>
     mq_step i s (goto i SendPost
       (s\<lparr>mq := with_mutex m (push_msg (x\<lparr>time := now\<rparr>) (mq s)),
          entered := entered s @ [x\<lparr>time := now\<rparr>]\<rparr>))"
| send_post:
    "pc_at s i SendPost \<Longrightarrow>
     mq_step i s (goto i Idle (s\<lparr>mq := post_msg (mq s)\<rparr>))"
| recv_wait:
    "pc_at s i RecvWait \<Longrightarrow> Wait (m_CEZSemaphore (mq s)) = Done (r, x) \<Longrightarrow>
     mq_step i s (goto i (RecvLock True) (s\<lparr>mq := with_sem x (mq s)\<rparr>))"
| recv_lock:
    "pc_at s i (RecvLock w) \<Longrightarrow> Lock i (m_MutexMsg (mq s)) = Done m \<Longrightarrow>
     mq_step i s (goto i (RecvCrit w) (s\<lparr>mq := with_mutex m (mq s)\<rparr>))"
| recv_empty:
    "pc_at s i (RecvCrit w) \<Longrightarrow> m_Queue (mq s) = [] \<Longrightarrow>
     Unlock i (m_MutexMsg (mq s)) = Done m \<Longrightarrow>
     mq_step i s (goto i Idle (s\<lparr>mq := with_mutex m (mq s)\<rparr>))"
| recv_ready:
    "pc_at s i (RecvCrit w) \<Longrightarrow> m_Queue (mq s) \<noteq> [] \<Longrightarrow>
     mq_step i s (goto i (if w then RecvPop else RecvTake) s)"
| recv_take:
    "pc_at s i RecvTake \<Longrightarrow> Wait (m_CEZSemaphore (mq s)) = Done (r, x) \<Longrightarrow>
     mq_step i s (goto i RecvPop (s\<lparr>mq := with_sem x (mq s)\<rparr>))"
| recv_pop:
    "pc_at s i RecvPop \<Longrightarrow> pop_msg (mq s) = Done (x, q) \<Longrightarrow>
     Unlock i (m_MutexMsg (mq s)) = Done m \<Longrightarrow>
     mq_step i s (goto i Idle (s\<lparr>mq := with_mutex m q, left := left s @ [x]\<rparr>))"
| clear_lock:
    "pc_at s i ClearLock \<Longrightarrow> Lock i (m_MutexMsg (mq s)) = Done m \<Longrightarrow>
     mq_step i s (goto i (ClearLoop (nat (m_nMsg (mq s)))) (s\<lparr>mq := with_mutex m (mq s)\<rparr>))"
| clear_wait:
    "pc_at s i (ClearLoop (Suc n)) \<Longrightarrow> Wait (m_CEZSemaphore (mq s)) = Done (r, x) \<Longrightarrow>
     mq_step i s (goto i (ClearPop n) (s\<lparr>mq := with_sem x (mq s)\<rparr>))"
| clear_pop:
    "pc_at s i (ClearPop n) \<Longrightarrow> m_Queue (mq s) \<noteq> [] \<Longrightarrow>
     mq_step i s (goto i (ClearLoop n)
       (s\<lparr>mq := (mq s)\<lparr>m_Queue := butlast (m_Queue (mq s)), m_nMsg := m_nMsg (mq s) - 1\<rparr>,
          left := left s @ [last (m_Queue (mq s))]\<rparr>))"
| clear_done:
    "pc_at s i (ClearLoop 0) \<Longrightarrow> Unlock i (m_MutexMsg (mq s)) = Done m \<Longrightarrow>
     mq_step i s (goto i Idle (s\<lparr>mq := with_mutex m (mq s)\<rparr>))"

inductive mq_admin :: "mq_sys \<Rightarrow> mq_sys \<Rightarrow> bool" where
  quit_message:
    "pc_at s i Idle \<Longrightarrow> mtx_owner (m_MutexMsg (mq s)) = None \<Longrightarrow>
     mq_admin s (s\<lparr>mq := QuitMessage (mq s)\<rparr>)"
| set_message_size:
    "pc_at s i Idle \<Longrightarrow> mtx_owner (m_MutexMsg (mq s)) = None \<Longrightarrow>
     sz \<le> int (sem_max (m_CEZSemaphore (mq s))) \<Longrightarrow>
     mq_admin s (s\<lparr>mq := SetMessageSize sz (mq s)\<rparr>)"

inductive_cases mq_callE: "mq_call s t"

inductive_cases mq_stepE: "mq_step i s t"

inductive_cases mq_adminE: "mq_admin s t"

definition mq_next :: "mq_sys \<Rightarrow> mq_sys \<Rightarrow> bool" where
  "mq_next s t \<longleftrightarrow> mq_call s t \<or> (\<exists>i. mq_step i s t) \<or> mq_admin s t"

subsection \<open>The invariant\<close>

text \<open>
  \<open>crit\<close>: the thread holds the lock. \<open>weight\<close>: a receiver that has taken its token and
  not yet its message holds one message of the queue; a sender that has not posted yet
  owes the token of one. The queue's length is the semaphore's count plus these.
\<close>

fun crit :: "mq_pc \<Rightarrow> bool" where
  "crit (SendCrit x pr) = True"
| "crit (RecvCrit w) = True"
| "crit RecvTake = True"
| "crit RecvPop = True"
| "crit (ClearLoop n) = True"
| "crit (ClearPop n) = True"
| "crit _ = False"

fun weight :: "mq_pc \<Rightarrow> nat" where
  "weight SendPost = 1"
| "weight (RecvLock w) = (if w then 1 else 0)"
| "weight (RecvCrit w) = (if w then 1 else 0)"
| "weight RecvPop = 1"
| "weight (ClearPop n) = 1"
| "weight _ = 0"

fun pc_fact :: "MSG_NODE list \<Rightarrow> mq_pc \<Rightarrow> bool" where
  "pc_fact xs RecvTake = (xs \<noteq> [])"
| "pc_fact xs (ClearLoop n) = (length xs = n)"
| "pc_fact xs (ClearPop n) = (length xs = Suc n)"
| "pc_fact xs _ = True"

definition mq_count_inv :: "CEZMsgQue \<Rightarrow> nat \<Rightarrow> bool" where
  "mq_count_inv q n \<longleftrightarrow>
     mutex_ok (m_MutexMsg q) \<and> mtx_depth (m_MutexMsg q) \<le> 1 \<and>
     m_nMsg q = int (length (m_Queue q)) \<and>
     sem_ok (m_CEZSemaphore q) \<and>
     length (m_Queue q) \<le> sem_max (m_CEZSemaphore q) \<and>
     m_nMaxMsg q \<le> int (sem_max (m_CEZSemaphore q)) \<and>
     length (m_Queue q) = sem_value (m_CEZSemaphore q) + n"

definition mq_sys_inv :: "mq_sys \<Rightarrow> bool" where
  "mq_sys_inv s \<longleftrightarrow>
     mq_count_inv (mq s) (sum_list (map weight (pcs s))) \<and>
     (\<forall>i. mtx_owner (m_MutexMsg (mq s)) = Some i \<longleftrightarrow> i < length (pcs s) \<and> crit (pcs s ! i)) \<and>
     (\<forall>i < length (pcs s). pc_fact (m_Queue (mq s)) (pcs s ! i)) \<and>
     entered s = left s @ rev (m_Queue (mq s))"

lemma pc_fact_not_crit: "\<not> crit p \<Longrightarrow> pc_fact xs p"
  by (cases p) auto

text \<open>
  One lemma carries every step: thread \<open>i\<close> moves from its program point to \<open>p\<close> and the
  queue changes to \<open>q\<close>.
\<close>

lemma mq_sys_inv_move:
  assumes inv: "mq_sys_inv s" and at: "pc_at s i p0"
    and owner: "mtx_owner (m_MutexMsg q) =
      (if crit p then Some i else if crit p0 then None else mtx_owner (m_MutexMsg (mq s)))"
    and free: "crit p \<Longrightarrow> \<not> crit p0 \<Longrightarrow> mtx_owner (m_MutexMsg (mq s)) = None"
    and count: "\<And>n. mq_count_inv (mq s) (n + weight p0) \<Longrightarrow> mq_count_inv q (n + weight p)"
    and fact: "pc_fact (m_Queue q) p"
    and queue: "m_Queue q = m_Queue (mq s) \<or> crit p0"
    and hist: "e = l @ rev (m_Queue q)"
  shows "mq_sys_inv (goto i p (s\<lparr>mq := q, entered := e, left := l\<rparr>))"
proof -
  have i: "i < length (pcs s)" "pcs s ! i = p0"
    using at by (auto simp: pc_at_def)
  let ?W = "sum_list (map weight (pcs s))"
  let ?W' = "sum_list (map weight ((pcs s)[i := p]))"
  have w: "?W' + weight p0 = ?W + weight p"
    using sum_list_update_eq [OF i(1), of weight p] i(2) by simp
  have le: "weight p0 \<le> ?W"
    using sum_list_member_le [OF i(1), of weight] i(2) by simp
  have "mq_count_inv (mq s) ((?W - weight p0) + weight p0)"
    using inv le by (simp add: mq_sys_inv_def)
  then have "mq_count_inv q ((?W - weight p0) + weight p)" by (rule count)
  then have c: "mq_count_inv q ?W'"
    using w le by (metis Nat.add_diff_assoc2 add_diff_cancel_right')
  have own: "mtx_owner (m_MutexMsg (mq s)) = Some j \<longleftrightarrow> j < length (pcs s) \<and> crit (pcs s ! j)" for j
    using inv by (simp add: mq_sys_inv_def)
  have o: "mtx_owner (m_MutexMsg q) = Some j \<longleftrightarrow>
      j < length (pcs s) \<and> crit ((pcs s)[i := p] ! j)" for j
    using owner free own [of i] own [of j] i by (cases "j = i") auto
  have "pc_fact (m_Queue q) ((pcs s)[i := p] ! j)" if "j < length (pcs s)" for j
  proof (cases "j = i")
    case False
    have f: "pc_fact (m_Queue (mq s)) (pcs s ! j)"
      using inv that by (simp add: mq_sys_inv_def)
    show ?thesis
    proof (cases "crit (pcs s ! j)")
      case True
      then have "\<not> crit p0" using own [of i] own [of j] i that False by auto
      then show ?thesis using f queue False by simp
    qed (use False pc_fact_not_crit in simp)
  qed (use fact i in simp)
  with c o hist show ?thesis by (simp add: mq_sys_inv_def goto_def)
qed

text \<open>The two common shapes: the list of messages stays, or the whole queue stays.\<close>

lemma mq_sys_history: "mq_sys_inv s \<Longrightarrow> entered s = left s @ rev (m_Queue (mq s))"
  by (simp add: mq_sys_inv_def)

lemma mq_sys_fact: "mq_sys_inv s \<Longrightarrow> pc_at s i p \<Longrightarrow> pc_fact (m_Queue (mq s)) p"
  by (auto simp: mq_sys_inv_def pc_at_def)

lemma mq_sys_inv_keep:
  assumes "mq_sys_inv s" and "pc_at s i p0"
    and "mtx_owner (m_MutexMsg q) =
      (if crit p then Some i else if crit p0 then None else mtx_owner (m_MutexMsg (mq s)))"
    and "crit p \<Longrightarrow> \<not> crit p0 \<Longrightarrow> mtx_owner (m_MutexMsg (mq s)) = None"
    and "\<And>n. mq_count_inv (mq s) (n + weight p0) \<Longrightarrow> mq_count_inv q (n + weight p)"
    and "pc_fact (m_Queue (mq s)) p"
    and "m_Queue q = m_Queue (mq s)"
  shows "mq_sys_inv (goto i p (s\<lparr>mq := q\<rparr>))"
proof -
  have "mq_sys_inv (goto i p (s\<lparr>mq := q, entered := entered s, left := left s\<rparr>))"
    by (rule mq_sys_inv_move [OF assms(1,2)])
      (use assms mq_sys_history [OF assms(1)] in \<open>simp_all\<close>)
  moreover have "s\<lparr>mq := q, entered := entered s, left := left s\<rparr> = s\<lparr>mq := q\<rparr>"
    by (cases s) simp
  ultimately show ?thesis by simp
qed

lemma mq_sys_inv_stay:
  assumes "mq_sys_inv s" and "pc_at s i p0"
    and "crit p = crit p0" and "weight p = weight p0" and "pc_fact (m_Queue (mq s)) p"
  shows "mq_sys_inv (goto i p s)"
proof -
  have "pc_at s i p0 \<Longrightarrow> crit p0 \<Longrightarrow> mtx_owner (m_MutexMsg (mq s)) = Some i"
    using assms(1) by (auto simp: mq_sys_inv_def pc_at_def)
  then have "mq_sys_inv (goto i p (s\<lparr>mq := mq s\<rparr>))"
    by (intro mq_sys_inv_keep [OF assms(1,2)]) (use assms in auto)
  moreover have "s\<lparr>mq := mq s\<rparr> = s" by (cases s) simp
  ultimately show ?thesis by simp
qed

lemma crit_holds_lock:
  "mq_sys_inv s \<Longrightarrow> pc_at s i p \<Longrightarrow> crit p \<Longrightarrow> mtx_owner (m_MutexMsg (mq s)) = Some i"
  by (auto simp: mq_sys_inv_def pc_at_def)

lemma crit_unlock:
  assumes "mq_sys_inv s" and "pc_at s i p" and "crit p"
  shows "Unlock i (m_MutexMsg (mq s)) = Done m \<longleftrightarrow>
    m = (m_MutexMsg (mq s))\<lparr>mtx_owner := None, mtx_depth := 0\<rparr>"
  using crit_holds_lock [OF assms] assms(1)
  by (auto simp: Unlock_def mq_sys_inv_def mq_count_inv_def mutex_ok_def)

lemma outside_lock:
  assumes "mq_sys_inv s" and "pc_at s i p" and "\<not> crit p"
  shows "Lock i (m_MutexMsg (mq s)) = Done m \<longleftrightarrow>
    mtx_owner (m_MutexMsg (mq s)) = None \<and>
    m = (m_MutexMsg (mq s))\<lparr>mtx_owner := Some i, mtx_depth := 1\<rparr>"
proof -
  have "mtx_owner (m_MutexMsg (mq s)) \<noteq> Some i"
    using assms by (auto simp: mq_sys_inv_def pc_at_def)
  then show ?thesis by (auto simp: Lock_Done_iff)
qed

lemma mq_count_inv_lock:
  "mq_count_inv q n \<Longrightarrow> mutex_ok m \<Longrightarrow> mtx_depth m \<le> 1 \<Longrightarrow> mq_count_inv (with_mutex m q) n"
  by (simp add: mq_count_inv_def with_mutex_def)


subsection \<open>Every step keeps the invariant\<close>

definition free_mutex :: "CEZMutex \<Rightarrow> CEZMutex" where
  "free_mutex m = m\<lparr>mtx_owner := None, mtx_depth := 0\<rparr>"

definition held_mutex :: "tid \<Rightarrow> CEZMutex \<Rightarrow> CEZMutex" where
  "held_mutex i m = m\<lparr>mtx_owner := Some i, mtx_depth := 1\<rparr>"

lemma mutex_frame [simp]:
  "mtx_owner (free_mutex m) = None" "mtx_owner (held_mutex i m) = Some i"
  "mtx_depth (free_mutex m) = 0" "mtx_depth (held_mutex i m) = 1"
  "mutex_ok (free_mutex m)" "mutex_ok (held_mutex i m)"
  by (auto simp: free_mutex_def held_mutex_def mutex_ok_def)

lemma queue_frame [simp]:
  "m_Queue (with_mutex m q) = m_Queue q" "m_Queue (with_sem x q) = m_Queue q"
  "m_Queue (post_msg q) = m_Queue q" "m_Queue (push_msg y q) = y # m_Queue q"
  "m_MutexMsg (with_mutex m q) = m" "m_MutexMsg (with_sem x q) = m_MutexMsg q"
  "m_MutexMsg (post_msg q) = m_MutexMsg q" "m_MutexMsg (push_msg y q) = m_MutexMsg q"
  by (simp_all add: with_mutex_def with_sem_def post_msg_def push_msg_def)

text \<open>The count invariant under the elementary changes of the queue.\<close>

lemma count_mutex [simp]:
  "mq_count_inv q n \<Longrightarrow> mq_count_inv (with_mutex (free_mutex (m_MutexMsg q)) q) n"
  "mq_count_inv q n \<Longrightarrow> mq_count_inv (with_mutex (held_mutex i (m_MutexMsg q)) q) n"
  by (rule mq_count_inv_lock; simp add: mq_count_inv_def)+

lemma count_post: "mq_count_inv q (Suc n) \<Longrightarrow> mq_count_inv (post_msg q) n"
  by (auto simp: mq_count_inv_def post_msg_def Post_value)

lemma count_wait:
  "mq_count_inv q n \<Longrightarrow> Wait (m_CEZSemaphore q) = Done (r, x) \<Longrightarrow> mq_count_inv (with_sem x q) (Suc n)"
  by (auto simp: mq_count_inv_def with_sem_def Wait_Done_iff sem_ok_def)

lemma count_push:
  "mq_count_inv q n \<Longrightarrow> m_nMsg q < m_nMaxMsg q \<Longrightarrow>
    mq_count_inv (with_mutex (free_mutex (m_MutexMsg q)) (push_msg y q)) (Suc n)"
  by (auto simp: mq_count_inv_def with_mutex_def push_msg_def)

lemma count_drop:
  "mq_count_inv q (Suc n) \<Longrightarrow>
    mq_count_inv (q\<lparr>m_Queue := butlast (m_Queue q), m_nMsg := m_nMsg q - 1\<rparr>) n"
  by (auto simp: mq_count_inv_def)

lemma pop_msg_Done_iff:
  "pop_msg q = Done (x, q') \<longleftrightarrow>
    m_nMsg q \<noteq> 0 \<and> m_Queue q \<noteq> [] \<and> x = last (m_Queue q) \<and>
    q' = q\<lparr>m_Queue := butlast (m_Queue q), m_nMsg := m_nMsg q - 1\<rparr>"
  by (auto simp: pop_msg_def)

lemma send_refused_optD: "\<not> send_refused_opt q pr \<Longrightarrow> m_nMsg q < m_nMaxMsg q"
  by (cases pr) (auto simp: send_refused_opt_def send_refused_def)

lemma locks_iff:
  assumes "mq_sys_inv s" and "pc_at s i p"
  shows "\<not> crit p \<Longrightarrow> Lock i (m_MutexMsg (mq s)) = Done m \<longleftrightarrow>
      mtx_owner (m_MutexMsg (mq s)) = None \<and> m = held_mutex i (m_MutexMsg (mq s))"
    and "crit p \<Longrightarrow> Unlock i (m_MutexMsg (mq s)) = Done m \<longleftrightarrow>
      m = free_mutex (m_MutexMsg (mq s))"
  using outside_lock [OF assms] crit_unlock [OF assms]
  by (auto simp: held_mutex_def free_mutex_def)

lemma mq_call_inv: "mq_call s t \<Longrightarrow> mq_sys_inv s \<Longrightarrow> mq_sys_inv t"
  by (induction rule: mq_call.induct) (auto intro!: mq_sys_inv_stay)

lemma mq_admin_inv: "mq_admin s t \<Longrightarrow> mq_sys_inv s \<Longrightarrow> mq_sys_inv t"
  by (induction rule: mq_admin.induct)
    (auto simp: mq_sys_inv_def mq_count_inv_def QuitMessage_def SetMessageSize_def)

lemma mq_sys_inv_lock:
  assumes "mq_sys_inv s" and "pc_at s i p0" and "Lock i (m_MutexMsg (mq s)) = Done m"
    and "\<not> crit p0" and "crit p" and "weight p = weight p0" and "pc_fact (m_Queue (mq s)) p"
  shows "mq_sys_inv (goto i p (s\<lparr>mq := with_mutex m (mq s)\<rparr>))"
proof -
  have m: "m = held_mutex i (m_MutexMsg (mq s))" "mtx_owner (m_MutexMsg (mq s)) = None"
    using assms by (simp_all add: locks_iff [OF assms(1,2)])
  show ?thesis unfolding m(1)
    by (rule mq_sys_inv_keep [OF assms(1,2)]) (use assms m in simp_all)
qed

lemma mq_sys_inv_unlock:
  assumes "mq_sys_inv s" and "pc_at s i p0" and "Unlock i (m_MutexMsg (mq s)) = Done m"
    and "crit p0" and "weight p0 = 0"
  shows "mq_sys_inv (goto i Idle (s\<lparr>mq := with_mutex m (mq s)\<rparr>))"
proof -
  have m: "m = free_mutex (m_MutexMsg (mq s))"
    using assms by (simp add: locks_iff [OF assms(1,2)])
  show ?thesis unfolding m(1)
    by (rule mq_sys_inv_keep [OF assms(1,2)]) (use assms in simp_all)
qed

lemma mq_sys_inv_wait:
  assumes "mq_sys_inv s" and "pc_at s i p0" and "Wait (m_CEZSemaphore (mq s)) = Done (r, x)"
    and "crit p = crit p0" and "weight p = Suc (weight p0)" and "pc_fact (m_Queue (mq s)) p"
  shows "mq_sys_inv (goto i p (s\<lparr>mq := with_sem x (mq s)\<rparr>))"
proof -
  have "crit p0 \<Longrightarrow> mtx_owner (m_MutexMsg (mq s)) = Some i"
    using assms(1,2) crit_holds_lock by blast
  then show ?thesis
    by (intro mq_sys_inv_keep [OF assms(1,2)]) (use assms in \<open>auto intro: count_wait\<close>)
qed

lemma mq_sys_inv_pop:
  assumes "mq_sys_inv s" and "pc_at s i p0" and "crit p0" and "weight p0 = 1"
    and "weight p = 0" and "m_Queue (mq s) \<noteq> []" and "pc_fact (butlast (m_Queue (mq s))) p"
    and "m = (if crit p then m_MutexMsg (mq s) else free_mutex (m_MutexMsg (mq s)))"
  shows "mq_sys_inv (goto i p
    (s\<lparr>mq := with_mutex m ((mq s)\<lparr>m_Queue := butlast (m_Queue (mq s)), m_nMsg := m_nMsg (mq s) - 1\<rparr>),
       left := left s @ [last (m_Queue (mq s))]\<rparr>))"
proof -
  let ?q = "(mq s)\<lparr>m_Queue := butlast (m_Queue (mq s)), m_nMsg := m_nMsg (mq s) - 1\<rparr>"
  let ?l = "left s @ [last (m_Queue (mq s))]"
  have own: "mtx_owner (m_MutexMsg (mq s)) = Some i"
    using assms(1,2,3) crit_holds_lock by blast
  have "mq_count_inv (with_mutex m ?q) n" if "mq_count_inv (mq s) (Suc n)" for n
    by (rule mq_count_inv_lock [OF count_drop [OF that]])
      (use that assms(8) in \<open>auto simp: mq_count_inv_def\<close>)
  moreover have "entered s = ?l @ rev (m_Queue (with_mutex m ?q))"
    using mq_sys_history [OF assms(1)] assms(6)
    by (cases "m_Queue (mq s)" rule: rev_cases) auto
  ultimately have "mq_sys_inv (goto i p
      (s\<lparr>mq := with_mutex m ?q, entered := entered s, left := ?l\<rparr>))"
    by (intro mq_sys_inv_move [OF assms(1,2)]) (use assms own in auto)
  moreover have "s\<lparr>mq := with_mutex m ?q, entered := entered s, left := ?l\<rparr> =
      s\<lparr>mq := with_mutex m ?q, left := ?l\<rparr>"
    by (cases s) simp
  ultimately show ?thesis by simp
qed

lemma mq_sys_inv_push:
  assumes "mq_sys_inv s" and "pc_at s i (SendCrit x pr)" and "m_nMsg (mq s) < m_nMaxMsg (mq s)"
  shows "mq_sys_inv (goto i SendPost
    (s\<lparr>mq := with_mutex (free_mutex (m_MutexMsg (mq s))) (push_msg y (mq s)),
       entered := entered s @ [y]\<rparr>))"
proof -
  let ?q = "with_mutex (free_mutex (m_MutexMsg (mq s))) (push_msg y (mq s))"
  have "mq_sys_inv (goto i SendPost (s\<lparr>mq := ?q, entered := entered s @ [y], left := left s\<rparr>))"
    by (rule mq_sys_inv_move [OF assms(1,2)])
      (use assms(3) mq_sys_history [OF assms(1)] in \<open>auto intro: count_push\<close>)
  moreover have "s\<lparr>mq := ?q, entered := entered s @ [y], left := left s\<rparr> =
      s\<lparr>mq := ?q, entered := entered s @ [y]\<rparr>"
    by (cases s) simp
  ultimately show ?thesis by simp
qed

text \<open>
  A receiver that has taken its token finds a message: \<open>weight\<close> counts it, and the
  queue is at least as long as the weights together.
\<close>

lemma weight_le_length:
  assumes "mq_sys_inv s" and "pc_at s i p"
  shows "weight p \<le> length (m_Queue (mq s))"
proof -
  have "weight p \<le> sum_list (map weight (pcs s))"
    using assms(2) sum_list_member_le [of i "pcs s" weight] by (auto simp: pc_at_def)
  then show ?thesis using assms(1) by (auto simp: mq_sys_inv_def mq_count_inv_def)
qed

lemma mq_step_inv: "mq_step i s t \<Longrightarrow> mq_sys_inv s \<Longrightarrow> mq_sys_inv t"
proof (induction rule: mq_step.induct)
  case (send_push s i x pr m now)
  then show ?case
    using mq_sys_inv_push [of s i x pr] locks_iff(2) [of s i "SendCrit x pr"]
    by (simp add: send_refused_optD)
next
  case (send_post s i)
  then show ?case
    by (intro mq_sys_inv_keep [of s i SendPost]) (auto intro: count_post)
next
  case (recv_empty s i w m)
  then have "weight (RecvCrit w) = 0"
    using weight_le_length by fastforce
  with recv_empty show ?case by (intro mq_sys_inv_unlock) auto
next
  case (recv_pop s i x q m)
  then show ?case
    using mq_sys_inv_pop [of s i RecvPop Idle m] locks_iff(2) [of s i RecvPop]
    by (simp add: pop_msg_Done_iff)
next
  case (clear_lock s i m)
  then have "nat (m_nMsg (mq s)) = length (m_Queue (mq s))"
    by (simp add: mq_sys_inv_def mq_count_inv_def)
  with clear_lock show ?case by (intro mq_sys_inv_lock) auto
next
  case (clear_pop s i n)
  have "with_mutex (m_MutexMsg (mq s)) ((mq s)\<lparr>m_Queue := xs, m_nMsg := k\<rparr>) =
      (mq s)\<lparr>m_Queue := xs, m_nMsg := k\<rparr>" for xs k
    by (cases "mq s") (simp add: with_mutex_def)
  then show ?case
    using clear_pop mq_sys_inv_pop [of s i "ClearPop n" "ClearLoop n" "m_MutexMsg (mq s)"]
      mq_sys_fact [of s i "ClearPop n"] by simp
next
  case (clear_wait s i n r x)
  then show ?case
    using mq_sys_fact [of s i "ClearLoop (Suc n)"]
    by (intro mq_sys_inv_wait [of s i "ClearLoop (Suc n)"]) auto
qed (auto intro: mq_sys_inv_lock mq_sys_inv_unlock mq_sys_inv_stay mq_sys_inv_wait)

lemma mq_start_inv:
  assumes "mq_start p sz n s" and "mq_fits p sz"
  shows "mq_sys_inv s"
proof -
  have "sum_list (map weight (replicate n Idle)) = 0"
    by (induction n) auto
  then show ?thesis using assms
    by (cases p) (auto simp: mq_start_def mq_sys_inv_def mq_count_inv_def mq_fits_def
      CEZMsgQue_new_def sem_ok_def mutex_ok_def)
qed

text \<open>
  The queue with a size the semaphore can count is a step system with this invariant:
  on POSIX every size up to \<^verbatim>\<open>SEM_VALUE_MAX\<close>, on Win32 only 1.
\<close>

definition mq_fitting_start :: "mq_sys \<Rightarrow> bool" where
  "mq_fitting_start s \<longleftrightarrow> (\<exists>p sz n. mq_start p sz n s \<and> mq_fits p sz)"

interpretation mq_system: invariant_system mq_fitting_start mq_next mq_sys_inv
  by unfold_locales
    (auto simp: mq_fitting_start_def mq_next_def
      intro: mq_start_inv mq_call_inv mq_step_inv mq_admin_inv)

definition mq_reachable :: "mq_sys \<Rightarrow> bool" where
  "mq_reachable s \<longleftrightarrow> reach mq_fitting_start mq_next s"

lemma mq_reachable_inv: "mq_reachable s \<Longrightarrow> mq_sys_inv s"
  unfolding mq_reachable_def by (rule mq_system.reach_inv)

subsection \<open>Progress with one consumer\<close>

text \<open>A thread inside \<^verbatim>\<open>RecvMessage\<close> or \<^verbatim>\<open>ClearMessage\<close>.\<close>

fun consuming :: "mq_pc \<Rightarrow> bool" where
  "consuming Idle = False"
| "consuming (SendLock x pr) = False"
| "consuming (SendCrit x pr) = False"
| "consuming SendPost = False"
| "consuming _ = True"

definition sole_consumer :: "tid \<Rightarrow> mq_sys \<Rightarrow> bool" where
  "sole_consumer c s \<longleftrightarrow> (\<forall>i < length (pcs s). consuming (pcs s ! i) \<longrightarrow> i = c)"

definition mq_waits_for_message :: "mq_sys \<Rightarrow> tid \<Rightarrow> bool" where
  "mq_waits_for_message s i \<longleftrightarrow> pc_at s i RecvWait \<and> m_Queue (mq s) = []"

lemma weight_only_posts:
  assumes "sole_consumer c s" and "c < length (pcs s) \<Longrightarrow> weight (pcs s ! c) = 0"
    and "\<And>i. i < length (pcs s) \<Longrightarrow> pcs s ! i \<noteq> SendPost"
  shows "sum_list (map weight (pcs s)) = 0"
proof (rule sum_list_all_zero)
  fix i
  assume i: "i < length (pcs s)"
  show "weight (pcs s ! i) = 0"
  proof (cases "consuming (pcs s ! i)")
    case True
    then show ?thesis using assms(1,2) i by (auto simp: sole_consumer_def)
  next
    case False
    then show ?thesis using assms(3) [OF i] by (cases "pcs s ! i") auto
  qed
qed

lemma post_step: "i < length (pcs s) \<Longrightarrow> pcs s ! i = SendPost \<Longrightarrow> \<exists>t. mq_step i s t"
  by (rule exI, rule send_post) (simp add: pc_at_def)

text \<open>At a \<^verbatim>\<open>Wait\<close> with a message in the queue: the token is there, or a sender owes it.\<close>

lemma wait_or_post:
  assumes "mq_sys_inv s" and "sole_consumer c s" and "pc_at s c p" and "weight p = 0"
    and "m_Queue (mq s) \<noteq> []"
  shows "(\<exists>r x. Wait (m_CEZSemaphore (mq s)) = Done (r, x)) \<or> (\<exists>i t. mq_step i s t)"
proof (cases "\<exists>i < length (pcs s). pcs s ! i = SendPost")
  case True
  then show ?thesis using post_step by blast
next
  case False
  then have "sum_list (map weight (pcs s)) = 0"
    using weight_only_posts [OF assms(2)] assms(3,4) by (auto simp: pc_at_def)
  moreover have "length (m_Queue (mq s)) =
      sem_value (m_CEZSemaphore (mq s)) + sum_list (map weight (pcs s))"
    using assms(1) by (simp add: mq_sys_inv_def mq_count_inv_def)
  ultimately have "sem_value (m_CEZSemaphore (mq s)) \<noteq> 0"
    using assms(5) by (metis add_0 length_0_conv)
  then show ?thesis
    using assms(1) by (auto simp: mq_sys_inv_def mq_count_inv_def Wait_def sem_ok_def)
qed

lemma consumer_at:
  "sole_consumer c s \<Longrightarrow> pc_at s i p \<Longrightarrow> consuming p \<Longrightarrow> i = c"
  by (auto simp: sole_consumer_def pc_at_def)

lemma crit_progress:
  assumes inv: "mq_sys_inv s" and sole: "sole_consumer c s" and at: "pc_at s i p" and "crit p"
  shows "\<exists>j t. mq_step j s t"
proof -
  let ?m = "free_mutex (m_MutexMsg (mq s))"
  have unl: "Unlock i (m_MutexMsg (mq s)) = Done ?m"
    using locks_iff(2) [OF inv at assms(4)] by simp
  have wait: "(\<exists>r x. Wait (m_CEZSemaphore (mq s)) = Done (r, x)) \<or> (\<exists>i t. mq_step i s t)"
    if "weight p = 0" and "consuming p" and "m_Queue (mq s) \<noteq> []"
    using wait_or_post [OF inv sole _ that(1,3)] at consumer_at [OF sole at that(2)] by simp
  have fact: "pc_fact (m_Queue (mq s)) p" by (rule mq_sys_fact [OF inv at])
  have len: "weight p \<le> length (m_Queue (mq s))" by (rule weight_le_length [OF inv at])
  show ?thesis
  proof (cases p)
    case (SendCrit x pr)
    then show ?thesis using at unl by (cases "send_refused_opt (mq s) pr") (blast intro: mq_step.intros)+
  next
    case (RecvCrit w)
    then show ?thesis using at unl
      by (cases "m_Queue (mq s) = []") (blast intro: mq_step.intros)+
  next
    case RecvTake
    then show ?thesis using at wait fact by (auto intro: recv_take)
  next
    case RecvPop
    then have "m_Queue (mq s) \<noteq> []" using len by auto
    moreover have "m_nMsg (mq s) = int (length (m_Queue (mq s)))"
      using inv by (simp add: mq_sys_inv_def mq_count_inv_def)
    ultimately obtain y where "pop_msg (mq s) = Done y" by (simp add: pop_msg_def)
    then show ?thesis using at unl RecvPop by (cases y) (blast intro: recv_pop)
  next
    case (ClearLoop n)
    show ?thesis
    proof (cases n)
      case 0
      then show ?thesis using at unl ClearLoop by (blast intro: clear_done)
    next
      case (Suc k)
      then have "m_Queue (mq s) \<noteq> []" using fact ClearLoop by auto
      then show ?thesis using wait at ClearLoop Suc by (auto intro: clear_wait)
    qed
  next
    case (ClearPop n)
    then show ?thesis using at len by (auto intro!: clear_pop exI)
  qed (use assms(4) in auto)
qed

lemma unlocked_progress:
  assumes inv: "mq_sys_inv s" and sole: "sole_consumer c s" and at: "pc_at s i p"
    and free: "mtx_owner (m_MutexMsg (mq s)) = None"
    and "p \<noteq> Idle" and "\<not> mq_waits_for_message s i"
  shows "\<exists>j t. mq_step j s t"
proof -
  have nc: "\<not> crit p"
    using crit_holds_lock [OF inv at] free by auto
  have lock: "Lock i (m_MutexMsg (mq s)) = Done (held_mutex i (m_MutexMsg (mq s)))"
    using locks_iff(1) [OF inv at nc] free by blast
  show ?thesis
  proof (cases p)
    case RecvWait
    then have "m_Queue (mq s) \<noteq> []" using assms(6) at by (simp add: mq_waits_for_message_def)
    then have "(\<exists>r x. Wait (m_CEZSemaphore (mq s)) = Done (r, x)) \<or> (\<exists>i t. mq_step i s t)"
      using wait_or_post [OF inv sole, of RecvWait] at RecvWait consumer_at [OF sole at] by auto
    then show ?thesis using at RecvWait by (auto intro: recv_wait)
  qed (use at lock nc assms(5) in \<open>auto intro: mq_step.intros\<close>)
qed

lemma mq_progress:
  assumes "mq_sys_inv s" and "sole_consumer c s"
    and "i < length (pcs s)" and "pcs s ! i \<noteq> Idle" and "\<not> mq_waits_for_message s i"
  shows "\<exists>j t. mq_step j s t"
proof (cases "mtx_owner (m_MutexMsg (mq s))")
  case None
  then show ?thesis
    using unlocked_progress [OF assms(1,2), of i] assms(3-5) by (simp add: pc_at_def)
next
  case (Some k)
  then have "pc_at s k (pcs s ! k)" "crit (pcs s ! k)"
    using assms(1) by (auto simp: mq_sys_inv_def pc_at_def)
  then show ?thesis by (rule crit_progress [OF assms(1,2)])
qed


subsection \<open>Properties\<close>

lemma mq_reach_call: "mq_reachable s \<Longrightarrow> mq_call s t \<Longrightarrow> mq_reachable t"
  unfolding mq_reachable_def by (erule reach_step) (simp add: mq_next_def)

lemma mq_reach_step: "mq_reachable s \<Longrightarrow> mq_step i s t \<Longrightarrow> mq_reachable t"
  unfolding mq_reachable_def by (erule reach_step) (auto simp: mq_next_def)

lemma mq_reach_start: "mq_fits p sz \<Longrightarrow> mq_start p sz n s \<Longrightarrow> mq_reachable s"
  unfolding mq_reachable_def by (rule reach_init) (auto simp: mq_fitting_start_def)

text \<open>A concrete run used by the witnesses: two threads; the first sends one message.\<close>

definition mq_two :: mq_sys where
  "mq_two = \<lparr>mq = CEZMsgQue_new (Posix 100) 5, pcs = [Idle, Idle], entered = [], left = []\<rparr>"

abbreviation note100 :: MSG_NODE where
  "note100 \<equiv> \<lparr>msg = 100, wpa = 0, lpa = 0, pData = None, time = 0\<rparr>"

definition mq_two_sent :: mq_sys where
  "mq_two_sent = mq_two\<lparr>mq := (CEZMsgQue_new (Posix 100) 5)\<lparr>m_Queue := [note100], m_nMsg := 1,
     m_CEZSemaphore := (CEZSemaphore_new (Posix 100) 0)\<lparr>sem_value := 1\<rparr>\<rparr>,
     entered := [note100]\<rparr>"

lemmas run_defs =
  goto_def pc_at_def with_mutex_def with_sem_def CEZMsgQue_new_def mq_two_def
  mq_two_sent_def Lock_def Unlock_def Wait_def

lemma mq_two_reachable: "mq_reachable mq_two"
  by (rule mq_reach_start [of "Posix 100" 5 2])
    (simp_all add: mq_fits_def mq_start_def mq_two_def numeral_2_eq_2)

lemma mq_two_sent_reachable: "mq_reachable mq_two_sent"
proof -
  let ?s1 = "goto 0 (SendLock note100 (Some 0)) mq_two"
  have 1: "mq_reachable ?s1"
    by (rule mq_reach_call [OF mq_two_reachable], rule call_send) (simp add: run_defs)
  let ?m = "held_mutex 0 (m_MutexMsg (mq mq_two))"
  let ?s2 = "goto 0 (SendCrit note100 (Some 0)) (?s1\<lparr>mq := with_mutex ?m (mq ?s1)\<rparr>)"
  have 2: "mq_reachable ?s2"
    by (rule mq_reach_step [OF 1], rule send_lock) (simp_all add: run_defs held_mutex_def)
  let ?s3 = "goto 0 SendPost (?s2\<lparr>mq := with_mutex (free_mutex ?m)
      (push_msg (note100\<lparr>time := 0\<rparr>) (mq ?s2)), entered := entered ?s2 @ [note100\<lparr>time := 0\<rparr>]\<rparr>)"
  have 3: "mq_reachable ?s3"
    by (rule mq_reach_step [OF 2], rule send_push [where pr = "Some 0" and x = note100 and now = 0])
      (simp_all add: run_defs held_mutex_def free_mutex_def send_refused_opt_def
        send_refused_def MSG_PRIORITY_def)
  have 4: "mq_reachable (goto 0 Idle (?s3\<lparr>mq := post_msg (mq ?s3)\<rparr>))"
    by (rule mq_reach_step [OF 3], rule send_post) (simp add: run_defs)
  have "goto 0 Idle (?s3\<lparr>mq := post_msg (mq ?s3)\<rparr>) = mq_two_sent"
    by (simp add: run_defs held_mutex_def free_mutex_def push_msg_def post_msg_def Post_def)
  with 4 show ?thesis by simp
qed

text \<open>
  C3. In every interleaving of any number of senders, receivers and clearing threads, the
  messages leave the queue in the order in which they entered it, none is lost and none
  is duplicated, and \<^verbatim>\<open>m_nMsg\<close> is the length of the list.
\<close>

theorem concurrent_fifo:
  assumes "mq_reachable s"
  shows "entered s = left s @ rev (m_Queue (mq s)) \<and>
    m_nMsg (mq s) = int (length (entered s)) - int (length (left s))"
proof -
  have inv: "mq_sys_inv s" using assms by (rule mq_reachable_inv)
  then have e: "entered s = left s @ rev (m_Queue (mq s))" by (rule mq_sys_history)
  moreover have "m_nMsg (mq s) = int (length (m_Queue (mq s)))"
    using inv by (simp add: mq_sys_inv_def mq_count_inv_def)
  moreover have "length (entered s) = length (left s) + length (m_Queue (mq s))"
    unfolding e by simp
  ultimately show ?thesis by simp
qed

theorem concurrent_fifo_witness:
  "mq_reachable mq_two_sent \<and> m_nMsg (mq mq_two_sent) = 1"
  using mq_two_sent_reachable concurrent_fifo [OF mq_two_sent_reachable]
  by (simp add: mq_two_sent_def)

text \<open>
  At most one thread is inside a critical section of the queue.
\<close>

lemma queue_mutual_exclusion:
  assumes "mq_reachable s" and "pc_at s i p" and "pc_at s j p'" and "crit p" and "crit p'"
  shows "i = j"
  using crit_holds_lock [OF mq_reachable_inv [OF assms(1)] assms(2,4)]
    crit_holds_lock [OF mq_reachable_inv [OF assms(1)] assms(3,5)] by simp

text \<open>
  A receiver that waited finds a message: past its \<^verbatim>\<open>Wait\<close> the queue is never empty
  when it holds the lock, so \<^verbatim>\<open>RecvMessage(pMsg, TRUE)\<close> never returns FALSE, and the
  assertion \<^verbatim>\<open>assert(m_nMsg)\<close> and the \<^verbatim>\<open>pop_back\<close> that follow are safe.
\<close>

theorem waiting_receiver_gets_message:
  assumes "mq_reachable s" and "pc_at s i p" and "p = RecvCrit True \<or> p = RecvPop"
  shows "m_Queue (mq s) \<noteq> [] \<and> (\<exists>x q. pop_msg (mq s) = Done (x, q))"
proof -
  have inv: "mq_sys_inv s" using assms(1) by (rule mq_reachable_inv)
  have "m_Queue (mq s) \<noteq> []"
    using weight_le_length [OF inv assms(2)] assms(3) by auto
  moreover have "m_nMsg (mq s) = int (length (m_Queue (mq s)))"
    using inv by (simp add: mq_sys_inv_def mq_count_inv_def)
  ultimately show ?thesis by (simp add: pop_msg_def)
qed

definition mq_two_popping :: mq_sys where
  "mq_two_popping = goto 0 (RecvLock True) (mq_two_sent\<lparr>mq :=
     with_sem (CEZSemaphore_new (Posix 100) 0) (mq mq_two_sent)\<rparr>)"

lemma mq_two_popping_reachable: "mq_reachable mq_two_popping"
proof -
  let ?s1 = "goto 0 (if True then RecvWait else RecvLock False) mq_two_sent"
  have 1: "mq_reachable ?s1"
    by (rule mq_reach_call [OF mq_two_sent_reachable], rule call_recv) (simp add: run_defs)
  have "mq_reachable (goto 0 (RecvLock True)
      (?s1\<lparr>mq := with_sem (CEZSemaphore_new (Posix 100) 0) (mq ?s1)\<rparr>))"
    by (rule mq_reach_step [OF 1], rule recv_wait [where r = 0]) (simp_all add: run_defs)
  then show ?thesis by (simp add: mq_two_popping_def run_defs)
qed

definition mq_two_locked :: mq_sys where
  "mq_two_locked = goto 0 (RecvCrit True) (mq_two_popping\<lparr>mq :=
     with_mutex (held_mutex 0 (CEZMutex_new (Posix 100) MUTEX_FAST)) (mq mq_two_popping)\<rparr>)"

lemma mq_two_locked_reachable: "mq_reachable mq_two_locked"
  unfolding mq_two_locked_def
  by (rule mq_reach_step [OF mq_two_popping_reachable], rule recv_lock)
    (simp_all add: mq_two_popping_def run_defs held_mutex_def)

theorem waiting_receiver_gets_message_witness:
  "m_Queue (mq mq_two_locked) \<noteq> [] \<and> (\<exists>x q. pop_msg (mq mq_two_locked) = Done (x, q))"
  by (rule waiting_receiver_gets_message [OF mq_two_locked_reachable, of 0 "RecvCrit True"])
    (simp_all add: mq_two_locked_def mq_two_popping_def run_defs)

text \<open>
  C4. With one consumer the queue never deadlocks: in every reachable state in which at
  most one thread is inside \<^verbatim>\<open>RecvMessage\<close> or \<^verbatim>\<open>ClearMessage\<close>, a thread inside any method
  can always be served by some step of some thread, unless it is the consumer waiting
  for a message and the queue is empty.
\<close>

theorem single_consumer_progress:
  assumes "mq_reachable s" and "sole_consumer c s" and "i < length (pcs s)"
    and "pcs s ! i \<noteq> Idle" and "\<not> mq_waits_for_message s i"
  shows "\<exists>j t. mq_step j s t"
  using mq_progress [OF mq_reachable_inv [OF assms(1)] assms(2-5)] .

theorem single_consumer_progress_witness:
  "\<exists>j t. mq_step j mq_two_popping t"
  by (rule single_consumer_progress [OF mq_two_popping_reachable, of 0 0])
    (auto simp: mq_two_popping_def run_defs sole_consumer_def mq_waits_for_message_def nth_Cons'
      split: if_splits)

definition mq_two_dead :: mq_sys where
  "mq_two_dead = goto 1 RecvTake (mq_two_popping\<lparr>mq :=
     with_mutex (held_mutex 1 (CEZMutex_new (Posix 100) MUTEX_FAST)) (mq mq_two_popping)\<rparr>)"

lemma mq_two_dead_reachable: "mq_reachable mq_two_dead"
proof -
  let ?s1 = "goto 1 (if False then RecvWait else RecvLock False) mq_two_popping"
  have 1: "mq_reachable ?s1"
    by (rule mq_reach_call [OF mq_two_popping_reachable], rule call_recv)
      (simp add: mq_two_popping_def run_defs)
  let ?s2 = "goto 1 (RecvCrit False) (?s1\<lparr>mq :=
     with_mutex (held_mutex 1 (CEZMutex_new (Posix 100) MUTEX_FAST)) (mq ?s1)\<rparr>)"
  have 2: "mq_reachable ?s2"
    by (rule mq_reach_step [OF 1], rule recv_lock)
      (simp_all add: mq_two_popping_def run_defs held_mutex_def)
  have "mq_reachable (goto 1 (if False then RecvPop else RecvTake) ?s2)"
    by (rule mq_reach_step [OF 2], rule recv_ready)
      (simp_all add: mq_two_popping_def run_defs)
  then show ?thesis by (simp add: mq_two_dead_def mq_two_popping_def run_defs)
qed

lemma mq_two_dead_stuck: "\<not> mq_next mq_two_dead t"
  unfolding mq_next_def
  by (auto elim!: mq_stepE mq_callE mq_adminE
    simp: mq_two_dead_def mq_two_popping_def run_defs held_mutex_def nth_Cons' split: if_splits)

text \<open>
  C32. With two consumers it can: if one receiver waits and another polls
  (\<^verbatim>\<open>RecvMessage(pMsg, FALSE)\<close>), the poller may hold the lock and wait for the token the
  first receiver has taken, while that receiver waits for the lock. A message is in the
  queue and no thread can ever move.
\<close>

theorem two_consumers_deadlock:
  "\<exists>s. mq_reachable s \<and> m_Queue (mq s) \<noteq> [] \<and> pcs s = [RecvLock True, RecvTake] \<and>
    \<not> (\<exists>t. mq_next s t)"
proof (intro exI conjI)
  show "mq_reachable mq_two_dead" by (rule mq_two_dead_reachable)
  show "m_Queue (mq mq_two_dead) \<noteq> []"
    "pcs mq_two_dead = [RecvLock True, RecvTake]"
    by (simp_all add: mq_two_dead_def mq_two_popping_def run_defs)
  show "\<not> (\<exists>t. mq_next mq_two_dead t)" using mq_two_dead_stuck by blast
qed

end
