(* ===== verification/Signal.thy ===== *)
theory Signal
  imports Sync
begin

section \<open>Signals: lists of observers\<close>

text \<open>
  \<^verbatim>\<open>src/EZSignal.h\<close>, instantiated by \<^verbatim>\<open>src/EZSignals.h\<close> for one to six arguments. A signal
  is a vector of slots; an observer is an object and a member function of it. \<^verbatim>\<open>Attach\<close>,
  \<^verbatim>\<open>Detach\<close> and \<^verbatim>\<open>IsAttached\<close> scan the slots under the signal's mutex; the call operator
  scans them without it and calls each observer. Objects are addresses, member functions
  are of a type \<open>'p\<close>; comparing two of them by \<^verbatim>\<open>memcmp\<close> is equality here.
\<close>

subsection \<open>Data\<close>

datatype sig_status =
  SIGNAL_NODE_EMPTY | SIGNAL_NODE_NEW | SIGNAL_NODE_DELETE | SIGNAL_NODE_NORMAL

record 'p TSigNode =
  m_pObj :: "addr option"
  m_pProc :: "'p option"
  m_Status :: sig_status

definition TSigNode_new :: "'p TSigNode" where
  "TSigNode_new = \<lparr>m_pObj = None, m_pProc = None, m_Status = SIGNAL_NODE_EMPTY\<rparr>"

record 'p TSignal =
  m_nMaxSlots :: int
  m_Vector :: "'p TSigNode list"
  m_CMutex :: CEZMutex

text \<open>
  The constructor: a negative number of slots is a huge \<^verbatim>\<open>size_t\<close> and \<^verbatim>\<open>std::vector\<close>
  throws; fewer than four slots are raised to four.
\<close>

definition TSignal_new :: "platform \<Rightarrow> int \<Rightarrow> 'p TSignal outcome" where
  "TSignal_new p MaxSlots =
     (if MaxSlots < 0 then Aborted
      else let n = (if MaxSlots < 4 then 4 else MaxSlots) in
        Done \<lparr>m_nMaxSlots = n, m_Vector = replicate (nat n) TSigNode_new,
              m_CMutex = CEZMutex_new p MUTEX_FAST\<rparr>)"

subsection \<open>Operations\<close>

text \<open>The loops of the methods, from index \<open>i\<close> on; \<open>mx\<close> is \<^verbatim>\<open>m_nMaxSlots\<close>.\<close>

function calcSize_loop :: "int \<Rightarrow> 'p TSigNode list \<Rightarrow> nat \<Rightarrow> int \<Rightarrow> int" where
  "calcSize_loop mx v i ret =
     (if int i < mx then
        calcSize_loop mx v (Suc i)
          (if m_Status (v ! i) = SIGNAL_NODE_NORMAL then ret + 1 else ret)
      else ret)"
  by pat_completeness auto
termination by (relation "measure (\<lambda>(mx, v, i, ret). nat (mx - int i))") auto

definition calcSize :: "int \<Rightarrow> 'p TSigNode list \<Rightarrow> int" where
  "calcSize mx v = calcSize_loop mx v 0 0"

definition same_target :: "addr option \<Rightarrow> 'p option \<Rightarrow> 'p TSigNode \<Rightarrow> bool" where
  "same_target obj proc n \<longleftrightarrow> m_pObj n = obj \<and> m_pProc n = proc"

function attach_loop ::
    "int \<Rightarrow> addr option \<Rightarrow> 'p option \<Rightarrow> 'p TSigNode list \<Rightarrow> nat \<Rightarrow> int \<times> 'p TSigNode list" where
  "attach_loop mx obj proc v i =
     (if int i < mx then
        if same_target obj proc (v ! i) \<and> m_Status (v ! i) = SIGNAL_NODE_NORMAL then (-2, v)
        else if m_Status (v ! i) = SIGNAL_NODE_EMPTY then
          let v' = v[i := \<lparr>m_pObj = obj, m_pProc = proc, m_Status = SIGNAL_NODE_NORMAL\<rparr>]
          in (calcSize mx v', v')
        else attach_loop mx obj proc v (Suc i)
      else (-1, v))"
  by pat_completeness auto
termination by (relation "measure (\<lambda>(mx, obj, proc, v, i). nat (mx - int i))") auto

function detach_loop ::
    "int \<Rightarrow> addr option \<Rightarrow> 'p option \<Rightarrow> 'p TSigNode list \<Rightarrow> nat \<Rightarrow> int \<times> 'p TSigNode list" where
  "detach_loop mx obj proc v i =
     (if int i < mx then
        if same_target obj proc (v ! i) then
          let v' = v[i := (v ! i)\<lparr>m_Status := SIGNAL_NODE_EMPTY\<rparr>] in (calcSize mx v', v')
        else detach_loop mx obj proc v (Suc i)
      else (-1, v))"
  by pat_completeness auto
termination by (relation "measure (\<lambda>(mx, obj, proc, v, i). nat (mx - int i))") auto

function attached_loop :: "int \<Rightarrow> addr option \<Rightarrow> 'p option \<Rightarrow> 'p TSigNode list \<Rightarrow> nat \<Rightarrow> int" where
  "attached_loop mx obj proc v i =
     (if int i < mx then
        if same_target obj proc (v ! i) \<and> m_Status (v ! i) = SIGNAL_NODE_NORMAL
        then calcSize mx v
        else attached_loop mx obj proc v (Suc i)
      else -1)"
  by pat_completeness auto
termination by (relation "measure (\<lambda>(mx, obj, proc, v, i). nat (mx - int i))") auto

declare calcSize_loop.simps [simp del] attach_loop.simps [simp del]
  detach_loop.simps [simp del] attached_loop.simps [simp del]

text \<open>Each method runs its loop between \<^verbatim>\<open>m_CMutex.Lock()\<close> and \<^verbatim>\<open>m_CMutex.Unlock()\<close>.\<close>

definition locked_scan ::
    "tid \<Rightarrow> ('p TSigNode list \<Rightarrow> int \<times> 'p TSigNode list) \<Rightarrow> 'p TSignal \<Rightarrow> (int \<times> 'p TSignal) outcome"
  where
  "locked_scan t loop s =
     obind (CEZLock_scope t (\<lambda>v. Done (loop v)) (m_CMutex s, m_Vector s))
       (\<lambda>(r, m, v). Done (r, s\<lparr>m_Vector := v, m_CMutex := m\<rparr>))"

definition Attach ::
    "tid \<Rightarrow> addr option \<Rightarrow> 'p option \<Rightarrow> 'p TSignal \<Rightarrow> (int \<times> 'p TSignal) outcome" where
  "Attach t obj proc s =
     locked_scan t (\<lambda>v. attach_loop (m_nMaxSlots s) obj proc v 0) s"

definition Detach ::
    "tid \<Rightarrow> addr option \<Rightarrow> 'p option \<Rightarrow> 'p TSignal \<Rightarrow> (int \<times> 'p TSignal) outcome" where
  "Detach t obj proc s =
     locked_scan t (\<lambda>v. detach_loop (m_nMaxSlots s) obj proc v 0) s"

definition IsAttached ::
    "tid \<Rightarrow> addr option \<Rightarrow> 'p option \<Rightarrow> 'p TSignal \<Rightarrow> (int \<times> 'p TSignal) outcome" where
  "IsAttached t obj proc s =
     locked_scan t (\<lambda>v. (attached_loop (m_nMaxSlots s) obj proc v 0, v)) s"

text \<open>
  The call operator. An observer \<open>cb\<close> acts on the world \<open>'w\<close> and may attach or detach, so
  it may change the vector, which is read again at every slot. Calling through a null
  object or a null member function is undefined.
\<close>

function emit_loop ::
    "(addr \<Rightarrow> 'p \<Rightarrow> 'p TSigNode list \<times> 'w \<Rightarrow> 'p TSigNode list \<times> 'w) \<Rightarrow> int \<Rightarrow> nat \<Rightarrow>
     'p TSigNode list \<times> 'w \<Rightarrow> ('p TSigNode list \<times> 'w) outcome" where
  "emit_loop cb mx i vw =
     (if int i < mx then
        if m_Status (fst vw ! i) = SIGNAL_NODE_NORMAL then
          (case (m_pObj (fst vw ! i), m_pProc (fst vw ! i)) of
             (Some obj, Some proc) \<Rightarrow> emit_loop cb mx (Suc i) (cb obj proc vw)
           | _ \<Rightarrow> Undefined)
        else emit_loop cb mx (Suc i) vw
      else Done vw)"
  by pat_completeness auto
termination by (relation "measure (\<lambda>(cb, mx, i, vw). nat (mx - int i))") auto

declare emit_loop.simps [simp del]

definition emit ::
    "(addr \<Rightarrow> 'p \<Rightarrow> 'p TSigNode list \<times> 'w \<Rightarrow> 'p TSigNode list \<times> 'w) \<Rightarrow> 'p TSignal \<times> 'w \<Rightarrow>
     ('p TSignal \<times> 'w) outcome" where
  "emit cb sw =
     obind (emit_loop cb (m_nMaxSlots (fst sw)) 0 (m_Vector (fst sw), snd sw))
       (\<lambda>(v, w). Done ((fst sw)\<lparr>m_Vector := v\<rparr>, w))"

subsection \<open>What the loops compute\<close>

abbreviation normal :: "'p TSigNode \<Rightarrow> bool" where
  "normal n \<equiv> m_Status n = SIGNAL_NODE_NORMAL"

abbreviation vacant :: "'p TSigNode \<Rightarrow> bool" where
  "vacant n \<equiv> m_Status n = SIGNAL_NODE_EMPTY"

definition target :: "'p TSigNode \<Rightarrow> addr option \<times> 'p option" where
  "target n = (m_pObj n, m_pProc n)"

definition observers :: "'p TSigNode list \<Rightarrow> (addr option \<times> 'p option) set" where
  "observers v = target ` {n \<in> set v. normal n}"

lemma same_target_iff: "same_target obj proc n \<longleftrightarrow> target n = (obj, proc)"
  by (auto simp: same_target_def target_def)

lemma calcSize_loop_eq:
  "i \<le> length v \<Longrightarrow> calcSize_loop (int (length v)) v i r = r + int (length (filter normal (drop i v)))"
proof (induction "length v - i" arbitrary: i r)
  case 0
  then show ?case by (simp add: calcSize_loop.simps [of _ v i])
next
  case (Suc k)
  then have i: "i < length v" by simp
  then have "drop i v = v ! i # drop (Suc i) v" by (simp add: Cons_nth_drop_Suc)
  then show ?case using Suc i by (simp add: calcSize_loop.simps [of _ v i])
qed

lemma calcSize_eq: "calcSize (int (length v)) v = int (length (filter normal v))"
  using calcSize_loop_eq [of 0 v 0] by (simp add: calcSize_def)

lemma attach_loop_none:
  assumes "i \<le> length v" and "\<And>j. i \<le> j \<Longrightarrow> j < length v \<Longrightarrow>
    \<not> vacant (v ! j) \<and> \<not> (same_target obj proc (v ! j) \<and> normal (v ! j))"
  shows "attach_loop (int (length v)) obj proc v i = (-1, v)"
  using assms
proof (induction rule: inc_induct)
  case base
  then show ?case by (simp add: attach_loop.simps [of _ obj proc v])
next
  case (step n)
  then show ?case by (subst attach_loop.simps) simp
qed

lemma attach_loop_first:
  assumes "j < length v" and "i \<le> j" and "vacant (v ! j) \<or> same_target obj proc (v ! j) \<and> normal (v ! j)"
    and "\<And>k. i \<le> k \<Longrightarrow> k < j \<Longrightarrow> \<not> vacant (v ! k) \<and> \<not> (same_target obj proc (v ! k) \<and> normal (v ! k))"
  shows "attach_loop (int (length v)) obj proc v i =
    (if vacant (v ! j) then
       (int (length (filter normal (v[j := \<lparr>m_pObj = obj, m_pProc = proc, m_Status = SIGNAL_NODE_NORMAL\<rparr>]))),
        v[j := \<lparr>m_pObj = obj, m_pProc = proc, m_Status = SIGNAL_NODE_NORMAL\<rparr>])
     else (-2, v))"
  using assms(2-4)
proof (induction rule: inc_induct)
  case base
  then show ?case using assms(1)
      calcSize_eq [of "v[j := \<lparr>m_pObj = obj, m_pProc = proc, m_Status = SIGNAL_NODE_NORMAL\<rparr>]"]
    by (subst attach_loop.simps) (auto simp: Let_def)
next
  case (step n)
  then show ?case using assms(1) by (subst attach_loop.simps) auto
qed

lemma detach_loop_none:
  assumes "i \<le> length v" and "\<And>j. i \<le> j \<Longrightarrow> j < length v \<Longrightarrow> \<not> same_target obj proc (v ! j)"
  shows "detach_loop (int (length v)) obj proc v i = (-1, v)"
  using assms
proof (induction rule: inc_induct)
  case base
  then show ?case by (simp add: detach_loop.simps [of _ obj proc v])
next
  case (step n)
  then show ?case by (subst detach_loop.simps) simp
qed

lemma detach_loop_first:
  assumes "j < length v" and "i \<le> j" and "same_target obj proc (v ! j)"
    and "\<And>k. i \<le> k \<Longrightarrow> k < j \<Longrightarrow> \<not> same_target obj proc (v ! k)"
  shows "detach_loop (int (length v)) obj proc v i =
    (int (length (filter normal (v[j := (v ! j)\<lparr>m_Status := SIGNAL_NODE_EMPTY\<rparr>]))),
     v[j := (v ! j)\<lparr>m_Status := SIGNAL_NODE_EMPTY\<rparr>])"
  using assms(2-4)
proof (induction rule: inc_induct)
  case base
  then show ?case using assms(1) calcSize_eq [of "v[j := (v ! j)\<lparr>m_Status := SIGNAL_NODE_EMPTY\<rparr>]"]
    by (subst detach_loop.simps) (simp add: Let_def)
next
  case (step n)
  then show ?case using assms(1) by (subst detach_loop.simps) simp
qed

lemma attached_loop_eq:
  "i \<le> length v \<Longrightarrow> attached_loop (int (length v)) obj proc v i =
    (if \<exists>j. i \<le> j \<and> j < length v \<and> same_target obj proc (v ! j) \<and> normal (v ! j)
     then int (length (filter normal v)) else -1)"
proof (induction rule: inc_induct)
  case base
  then show ?case by (subst attached_loop.simps) simp
next
  case (step n)
  then show ?case
    by (subst attached_loop.simps) (auto simp: calcSize_eq le_eq_less_or_eq Suc_le_eq)
qed

subsection \<open>The invariant of a signal whose users pair their calls\<close>

text \<open>
  A slot that is in use is the first slot with its object and function: neither another
  slot in use nor a vacated slot, which keeps both, comes before it.
\<close>

definition slots_ok :: "'p TSigNode list \<Rightarrow> bool" where
  "slots_ok v \<longleftrightarrow> (\<forall>n \<in> set v. normal n \<or> vacant n) \<and>
     (\<forall>j < length v. normal (v ! j) \<longrightarrow> (\<forall>i < j. target (v ! i) \<noteq> target (v ! j)))"

definition sig_ok :: "'p TSignal \<Rightarrow> bool" where
  "sig_ok s \<longleftrightarrow> mutex_ok (m_CMutex s) \<and> mtx_owner (m_CMutex s) = None \<and>
     m_nMaxSlots s = int (length (m_Vector s)) \<and> slots_ok (m_Vector s)"

lemma sig_ok_new: "TSignal_new p n = Done s \<Longrightarrow> sig_ok s \<and> observers (m_Vector s) = {}"
  by (cases p)
    (auto simp: TSignal_new_def sig_ok_def slots_ok_def mutex_ok_def TSigNode_new_def
      observers_def Let_def split: if_splits)

lemma locked_scan_free:
  assumes "mutex_ok (m_CMutex s)" and "mtx_owner (m_CMutex s) = None"
  shows "locked_scan t loop s =
    Done (fst (loop (m_Vector s)), s\<lparr>m_Vector := snd (loop (m_Vector s))\<rparr>)"
proof -
  have "Lock t (m_CMutex s) \<noteq> Blocked" using assms(2) by (simp add: Lock_def)
  then have "CEZLock_scope t (\<lambda>v. Done (loop v)) (m_CMutex s, m_Vector s) =
      Done (fst (loop (m_Vector s)), m_CMutex s, snd (loop (m_Vector s)))"
    by (subst CEZLock_scope_Done [OF assms(1)]) simp
  then show ?thesis by (cases s) (simp add: locked_scan_def)
qed

lemma filter_update_length:
  assumes "j < length v"
  shows "length (filter P (v[j := x])) + (if P (v ! j) then 1 else 0) =
    length (filter P v) + (if P x then 1 else 0)"
proof -
  have v: "v = take j v @ v ! j # drop (Suc j) v" using assms by (simp add: id_take_nth_drop)
  have "v[j := x] = take j v @ x # drop (Suc j) v" using assms by (simp add: upd_conv_take_nth_drop)
  then show ?thesis by (subst (3) v) simp
qed

text \<open>Under the invariant the slots in use are as many as the observers.\<close>

lemma slots_ok_distinct: "slots_ok v \<Longrightarrow> distinct (map target (filter normal v))"
proof (induction v rule: rev_induct)
  case (snoc n v)
  have "slots_ok v"
    using snoc.prems by (auto simp: slots_ok_def nth_append split: if_splits)
  moreover have "target n \<notin> target ` {m \<in> set v. normal m}" if "normal n"
  proof
    assume "target n \<in> target ` {m \<in> set v. normal m}"
    then obtain i where "i < length v" "target (v ! i) = target n"
      by (auto simp: in_set_conv_nth)
    moreover have "\<forall>i < length v. target ((v @ [n]) ! i) \<noteq> target ((v @ [n]) ! length v)"
      using snoc.prems that unfolding slots_ok_def by (metis length_append_singleton lessI nth_append_length)
    ultimately show False by (auto simp: nth_append)
  qed
  ultimately show ?case using snoc.IH by auto
qed simp

lemma card_observers: "slots_ok v \<Longrightarrow> card (observers v) = length (filter normal v)"
  using distinct_card [OF slots_ok_distinct] by (simp add: observers_def)

lemma slots_ok_vacant:
  assumes "slots_ok v" and "card (observers v) < length v"
  shows "\<exists>j < length v. vacant (v ! j) \<and> (\<forall>k < j. normal (v ! k))"
proof -
  have "\<exists>j < length v. \<not> normal (v ! j)"
  proof (rule ccontr)
    assume "\<not> ?thesis"
    then have "filter normal v = v" by (auto simp: filter_id_conv in_set_conv_nth)
    then show False using assms card_observers by fastforce
  qed
  then obtain j where "j < length v" "\<not> normal (v ! j)" "\<forall>k<j. \<not> (k < length v \<and> \<not> normal (v ! k))"
    using exists_least_iff [of "\<lambda>j. j < length v \<and> \<not> normal (v ! j)"] by blast
  then show ?thesis using assms(1) by (auto simp: slots_ok_def intro!: exI [of _ j])
qed

lemma slots_ok_full:
  assumes "slots_ok v" and "length v \<le> card (observers v)" and "n \<in> set v"
  shows "normal n"
proof (rule ccontr)
  assume "\<not> normal n"
  then have "length (filter normal v) < length v" using assms(3) by (rule length_filter_less [rotated])
  then show False using assms(1,2) card_observers by fastforce
qed

lemma observers_nth: "p \<in> observers v \<longleftrightarrow> (\<exists>j < length v. normal (v ! j) \<and> target (v ! j) = p)"
  by (auto simp: observers_def in_set_conv_nth)

lemma attach_slot:
  assumes "slots_ok v" and "(obj, proc) \<notin> observers v" and "j < length v" and "vacant (v ! j)"
    and "\<And>k. k < j \<Longrightarrow> normal (v ! k)"
  defines "v' \<equiv> v[j := \<lparr>m_pObj = obj, m_pProc = proc, m_Status = SIGNAL_NODE_NORMAL\<rparr>]"
  shows "slots_ok v' \<and> observers v' = insert (obj, proc) (observers v)"
proof
  have t: "target (v' ! i) = (if i = j then (obj, proc) else target (v ! i))"
    and n: "normal (v' ! i) \<longleftrightarrow> i = j \<or> normal (v ! i)" if "i < length v" for i
    using that assms(3) by (auto simp: v'_def nth_list_update target_def)
  have no: "target (v ! i) \<noteq> (obj, proc)" if "i < length v" "normal (v ! i)" for i
    using that assms(2) by (auto simp: observers_nth)
  have old: "target (v ! i) \<noteq> target (v ! k)" if "i < k" "k < length v" "normal (v ! k)" for i k
    using assms(1) that by (auto simp: slots_ok_def)
  have "\<forall>m \<in> set v'. normal m \<or> vacant m"
    using assms(1) set_update_subset_insert [of v j] by (fastforce simp: slots_ok_def v'_def)
  moreover have "target (v' ! i) \<noteq> target (v' ! k)" if "k < length v'" "normal (v' ! k)" "i < k" for i k
  proof -
    have k: "k < length v" "i < length v" using that by (auto simp: v'_def)
    show ?thesis
      using t [OF k(1)] t [OF k(2)] n [OF k(1)] that no [OF k(1)] no [OF k(2)] old [of i k]
        assms(5) [of i] k by (cases "k = j"; cases "i = j") auto
  qed
  ultimately show "slots_ok v'" by (auto simp: slots_ok_def)
  show "observers v' = insert (obj, proc) (observers v)"
  proof (rule set_eqI)
    fix p
    have len: "length v' = length v" by (simp add: v'_def)
    show "p \<in> observers v' \<longleftrightarrow> p \<in> insert (obj, proc) (observers v)"
      using t n assms(3,4) unfolding observers_nth len insert_iff
      by (metis sig_status.distinct(5))
  qed
qed

lemma detach_slot:
  assumes "slots_ok v" and "j < length v" and "\<And>k. k < j \<Longrightarrow> target (v ! k) \<noteq> target (v ! j)"
  defines "v' \<equiv> v[j := (v ! j)\<lparr>m_Status := SIGNAL_NODE_EMPTY\<rparr>]"
  shows "slots_ok v' \<and> observers v' = observers v - {target (v ! j)}"
proof
  have t: "target (v' ! i) = target (v ! i)" and n: "normal (v' ! i) \<longleftrightarrow> i \<noteq> j \<and> normal (v ! i)"
    if "i < length v" for i
    using that assms(2) by (auto simp: v'_def nth_list_update target_def)
  have len: "length v' = length v" by (simp add: v'_def)
  have old: "target (v ! i) \<noteq> target (v ! k)" if "i < k" "k < length v" "normal (v ! k)" for i k
    using assms(1) that by (auto simp: slots_ok_def)
  have "\<forall>m \<in> set v'. normal m \<or> vacant m"
    using assms(1) set_update_subset_insert [of v j] by (fastforce simp: slots_ok_def v'_def)
  then show "slots_ok v'" using t n old len by (auto simp: slots_ok_def)
  show "observers v' = observers v - {target (v ! j)}"
  proof (rule set_eqI)
    fix p
    have "target (v ! i) = target (v ! j) \<Longrightarrow> i < length v \<Longrightarrow> normal (v ! i) \<Longrightarrow> i = j" for i
      using old [of j i] assms(3) [of i] by (metis linorder_neqE_nat)
    then show "p \<in> observers v' \<longleftrightarrow> p \<in> observers v - {target (v ! j)}"
      using t n unfolding observers_nth len Diff_iff singleton_iff by metis
  qed
qed

subsection \<open>The registry a user of a signal relies on\<close>

text \<open>
  Histories of a registry's calls, and the abstract registry: a set of at most \<open>n\<close> keys.
  \<open>paired\<close> users register a key that is not registered and unregister one that is.
\<close>

datatype 'k reg_op = Reg 'k | Unreg 'k | Ask 'k

fun paired :: "nat \<Rightarrow> 'k reg_op list \<Rightarrow> 'k set \<Rightarrow> bool" where
  "paired n [] M \<longleftrightarrow> True"
| "paired n (Reg k # os) M \<longleftrightarrow>
     k \<notin> M \<and> paired n os (if card M < n then insert k M else M)"
| "paired n (Unreg k # os) M \<longleftrightarrow> k \<in> M \<and> paired n os (M - {k})"
| "paired n (Ask k # os) M \<longleftrightarrow> paired n os M"

fun reg_spec :: "nat \<Rightarrow> 'k reg_op list \<Rightarrow> 'k set \<Rightarrow> int list \<times> 'k set" where
  "reg_spec n [] M = ([], M)"
| "reg_spec n (Reg k # os) M =
     (if card M < n then apfst ((#) (int (card M) + 1)) (reg_spec n os (insert k M))
      else apfst ((#) (-1)) (reg_spec n os M))"
| "reg_spec n (Unreg k # os) M = apfst ((#) (int (card M) - 1)) (reg_spec n os (M - {k}))"
| "reg_spec n (Ask k # os) M =
     apfst ((#) (if k \<in> M then int (card M) else -1)) (reg_spec n os M)"

locale observer_registry =
  fixes attach :: "'k \<Rightarrow> 's \<Rightarrow> (int \<times> 's) outcome"
    and detach :: "'k \<Rightarrow> 's \<Rightarrow> (int \<times> 's) outcome"
    and attached :: "'k \<Rightarrow> 's \<Rightarrow> (int \<times> 's) outcome"
    and members :: "'s \<Rightarrow> 'k set"
    and slots :: "'s \<Rightarrow> nat"
    and ok :: "'s \<Rightarrow> bool"
  assumes attach_room: "ok s \<Longrightarrow> k \<notin> members s \<Longrightarrow> card (members s) < slots s \<Longrightarrow>
      \<exists>s'. attach k s = Done (int (card (members s)) + 1, s') \<and> ok s' \<and>
        members s' = insert k (members s) \<and> slots s' = slots s"
    and attach_full: "ok s \<Longrightarrow> k \<notin> members s \<Longrightarrow> \<not> card (members s) < slots s \<Longrightarrow>
      attach k s = Done (-1, s)"
    and detach_member: "ok s \<Longrightarrow> k \<in> members s \<Longrightarrow>
      \<exists>s'. detach k s = Done (int (card (members s)) - 1, s') \<and> ok s' \<and>
        members s' = members s - {k} \<and> slots s' = slots s"
    and attached_eq: "ok s \<Longrightarrow>
      attached k s = Done (if k \<in> members s then int (card (members s)) else -1, s)"
begin

fun exec :: "'k reg_op list \<Rightarrow> 's \<Rightarrow> (int list \<times> 's) outcome" where
  "exec [] s = Done ([], s)"
| "exec (Reg k # os) s =
     obind (attach k s) (\<lambda>(r, s). obind (exec os s) (\<lambda>(rs, s). Done (r # rs, s)))"
| "exec (Unreg k # os) s =
     obind (detach k s) (\<lambda>(r, s). obind (exec os s) (\<lambda>(rs, s). Done (r # rs, s)))"
| "exec (Ask k # os) s =
     obind (attached k s) (\<lambda>(r, s). obind (exec os s) (\<lambda>(rs, s). Done (r # rs, s)))"

lemma exec_refines:
  "ok s \<Longrightarrow> paired (slots s) os (members s) \<Longrightarrow>
    \<exists>s'. exec os s = Done (fst (reg_spec (slots s) os (members s)), s') \<and> ok s' \<and>
      members s' = snd (reg_spec (slots s) os (members s)) \<and> slots s' = slots s"
proof (induction os arbitrary: s)
  case (Cons x os)
  show ?case
  proof (cases x)
    case (Reg k)
    show ?thesis
    proof (cases "card (members s) < slots s")
      case True
      then obtain s1 where "attach k s = Done (int (card (members s)) + 1, s1)" "ok s1"
          "members s1 = insert k (members s)" "slots s1 = slots s"
        using attach_room Cons.prems Reg by fastforce
      then show ?thesis using Cons.IH [of s1] Cons.prems True Reg by auto
    next
      case False
      then have "attach k s = Done (-1, s)" using attach_full Cons.prems Reg by auto
      then show ?thesis using Cons.IH [of s] Cons.prems False Reg by auto
    qed
  next
    case (Unreg k)
    then obtain s1 where "detach k s = Done (int (card (members s)) - 1, s1)" "ok s1"
        "members s1 = members s - {k}" "slots s1 = slots s"
      using detach_member Cons.prems by fastforce
    then show ?thesis using Cons.IH [of s1] Cons.prems Unreg by auto
  next
    case (Ask k)
    then show ?thesis using attached_eq Cons.IH [of s] Cons.prems by auto
  qed
qed simp

end

lemma sig_okD:
  assumes "sig_ok s"
  shows "mutex_ok (m_CMutex s)" "mtx_owner (m_CMutex s) = None" "slots_ok (m_Vector s)"
    "m_nMaxSlots s = int (length (m_Vector s))"
  using assms by (auto simp: sig_ok_def)

lemma sig_ok_vector:
  "sig_ok s \<Longrightarrow> slots_ok v \<Longrightarrow> length v = length (m_Vector s) \<Longrightarrow> sig_ok (s\<lparr>m_Vector := v\<rparr>)"
  by (simp add: sig_ok_def)

lemma first_with:
  fixes P :: "nat \<Rightarrow> bool"
  assumes "P j"
  obtains i where "i \<le> j" "P i" "\<And>k. k < i \<Longrightarrow> \<not> P k"
  using assms exists_least_iff [of P] by (metis not_le)

lemma Attach_new:
  assumes ok: "sig_ok s" and new: "(obj, proc) \<notin> observers (m_Vector s)"
  shows "if card (observers (m_Vector s)) < length (m_Vector s)
    then \<exists>s'. Attach t obj proc s = Done (int (card (observers (m_Vector s))) + 1, s') \<and> sig_ok s' \<and>
      observers (m_Vector s') = insert (obj, proc) (observers (m_Vector s)) \<and>
      length (m_Vector s') = length (m_Vector s)
    else Attach t obj proc s = Done (-1, s)"
proof (cases "card (observers (m_Vector s)) < length (m_Vector s)")
  case True
  note d = sig_okD [OF ok]
  let ?v = "m_Vector s"
  obtain j where j: "j < length ?v" "vacant (?v ! j)" "\<And>k. k < j \<Longrightarrow> normal (?v ! k)"
    using slots_ok_vacant [OF d(3) True] by blast
  let ?w = "?v[j := \<lparr>m_pObj = obj, m_pProc = proc, m_Status = SIGNAL_NODE_NORMAL\<rparr>]"
  have "\<not> vacant (?v ! k) \<and> \<not> (same_target obj proc (?v ! k) \<and> normal (?v ! k))"
    if "k < j" for k
    using new that j by (auto simp: observers_nth same_target_iff)
  then have l: "attach_loop (int (length ?v)) obj proc ?v 0 = (int (length (filter normal ?w)), ?w)"
    using attach_loop_first [OF j(1), of 0 obj proc] j(2) by simp
  have w: "slots_ok ?w" "observers ?w = insert (obj, proc) (observers ?v)"
    using attach_slot [OF d(3) new j] by auto
  have "length (filter normal ?w) = Suc (card (observers ?v))"
    using filter_update_length [OF j(1), of normal] j(2) card_observers [OF d(3)] by simp
  then have "Attach t obj proc s = Done (int (card (observers ?v)) + 1, s\<lparr>m_Vector := ?w\<rparr>)"
    by (simp add: Attach_def locked_scan_free d l)
  then show ?thesis using True w sig_ok_vector [OF ok w(1)] by simp
next
  case False
  note d = sig_okD [OF ok]
  have "normal (m_Vector s ! j) \<and> \<not> same_target obj proc (m_Vector s ! j)"
    if "j < length (m_Vector s)" for j
    using slots_ok_full [OF d(3)] False new that
    by (fastforce simp: same_target_iff observers_nth)
  then have "attach_loop (int (length (m_Vector s))) obj proc (m_Vector s) 0 = (-1, m_Vector s)"
    by (intro attach_loop_none) auto
  then have "Attach t obj proc s = Done (-1, s\<lparr>m_Vector := m_Vector s\<rparr>)"
    by (simp add: Attach_def locked_scan_free d)
  then show ?thesis using False by simp
qed

lemma Detach_member:
  assumes ok: "sig_ok s" and mem: "(obj, proc) \<in> observers (m_Vector s)"
  shows "\<exists>s'. Detach t obj proc s = Done (int (card (observers (m_Vector s))) - 1, s') \<and> sig_ok s' \<and>
    observers (m_Vector s') = observers (m_Vector s) - {(obj, proc)} \<and>
    length (m_Vector s') = length (m_Vector s)"
proof -
  note d = sig_okD [OF ok]
  let ?v = "m_Vector s"
  obtain j where j: "j < length ?v" "normal (?v ! j)" "target (?v ! j) = (obj, proc)"
    using mem by (auto simp: observers_nth)
  have f: "target (?v ! k) \<noteq> target (?v ! j)" if "k < j" for k
    using d(3) j that by (auto simp: slots_ok_def)
  let ?w = "?v[j := (?v ! j)\<lparr>m_Status := SIGNAL_NODE_EMPTY\<rparr>]"
  have l: "detach_loop (int (length ?v)) obj proc ?v 0 = (int (length (filter normal ?w)), ?w)"
    using detach_loop_first [OF j(1), of 0 obj proc] j f by (auto simp: same_target_iff)
  have w: "slots_ok ?w" "observers ?w = observers ?v - {(obj, proc)}"
    using detach_slot [OF d(3) j(1) f] j(3) by auto
  have "Suc (length (filter normal ?w)) = card (observers ?v)"
    using filter_update_length [OF j(1), of normal] j(2) card_observers [OF d(3)] by simp
  then have "Detach t obj proc s = Done (int (card (observers ?v)) - 1, s\<lparr>m_Vector := ?w\<rparr>)"
    by (simp add: Detach_def locked_scan_free d l)
  then show ?thesis using w sig_ok_vector [OF ok w(1)] by simp
qed

lemma IsAttached_eq:
  assumes "sig_ok s"
  shows "IsAttached t obj proc s =
    Done (if (obj, proc) \<in> observers (m_Vector s) then int (card (observers (m_Vector s))) else -1, s)"
proof -
  note d = sig_okD [OF assms]
  have "attached_loop (int (length (m_Vector s))) obj proc (m_Vector s) 0 =
      (if (obj, proc) \<in> observers (m_Vector s) then int (card (observers (m_Vector s))) else -1)"
    using attached_loop_eq [of 0 "m_Vector s" obj proc] card_observers [OF d(3)]
    by (auto simp: observers_nth same_target_iff)
  moreover have "s\<lparr>m_Vector := m_Vector s\<rparr> = s" by simp
  ultimately show ?thesis by (simp add: IsAttached_def locked_scan_free d)
qed

interpretation ez_signal: observer_registry
  "\<lambda>(obj, proc). Attach t obj proc" "\<lambda>(obj, proc). Detach t obj proc"
  "\<lambda>(obj, proc). IsAttached t obj proc" "\<lambda>s. observers (m_Vector s)"
  "\<lambda>s. length (m_Vector s)" sig_ok
  for t
proof (unfold_locales, goal_cases)
  case (1 s k)
  then show ?case using Attach_new [of s "fst k" "snd k" t] by (auto simp: split_beta)
next
  case (2 s k)
  then show ?case using Attach_new [of s "fst k" "snd k" t] by (auto simp: split_beta)
next
  case (3 s k)
  then show ?case using Detach_member [of s "fst k" "snd k" t] by (auto simp: split_beta)
next
  case (4 s k)
  then show ?case using IsAttached_eq [of s t "fst k" "snd k"] by (auto simp: split_beta)
qed

subsection \<open>Emission\<close>

lemma emit_loop_eq:
  assumes "\<And>obj proc v w. cb obj proc (v, w) = (v, act (Some obj, Some proc) w)"
    and "\<forall>n \<in> set v. normal n \<longrightarrow> m_pObj n \<noteq> None \<and> m_pProc n \<noteq> None"
    and "i \<le> length v"
  shows "emit_loop cb (int (length v)) i (v, w) =
    Done (v, fold act (map target (filter normal (drop i v))) w)"
  using assms(3)
proof (induction "length v - i" arbitrary: i w)
  case 0
  then show ?case by (simp add: emit_loop.simps [of cb _ i])
next
  case (Suc k)
  then have i: "i < length v" by simp
  then have d: "drop i v = v ! i # drop (Suc i) v" by (simp add: Cons_nth_drop_Suc)
  have IH: "emit_loop cb (int (length v)) (Suc i) (v, w) =
      Done (v, fold act (map target (filter normal (drop (Suc i) v))) w)" for w
    using Suc i by simp
  show ?case
  proof (cases "normal (v ! i)")
    case True
    then obtain ob pr where "m_pObj (v ! i) = Some ob" "m_pProc (v ! i) = Some pr"
      using assms(2) i by (metis not_None_eq nth_mem)
    then show ?thesis using i d IH assms(1) True
      by (subst emit_loop.simps) (simp add: target_def)
  next
    case False
    then show ?thesis using i d IH by (subst emit_loop.simps) simp
  qed
qed

text \<open>
  The shape of a signal with \<open>n\<close> slots, which no call changes, paired or not: the vector has
  \<open>n\<close> slots, each empty or in use, and the mutex is free.
\<close>

definition sig_shape :: "nat \<Rightarrow> 'p TSignal \<Rightarrow> bool" where
  "sig_shape n s \<longleftrightarrow> m_nMaxSlots s = int n \<and> length (m_Vector s) = n \<and>
     (\<forall>x \<in> set (m_Vector s). normal x \<or> vacant x) \<and>
     mutex_ok (m_CMutex s) \<and> mtx_owner (m_CMutex s) = None"

definition scan_shape :: "'p TSigNode list \<Rightarrow> int \<times> 'p TSigNode list \<Rightarrow> bool" where
  "scan_shape v rv \<longleftrightarrow> length (snd rv) = length v \<and> (\<forall>x \<in> set (snd rv). normal x \<or> vacant x) \<and>
     (fst rv \<in> {-1, -2} \<and> snd rv = v \<or> fst rv = int (length (filter normal (snd rv))))"

lemma slots_update:
  "\<forall>x \<in> set v. normal x \<or> vacant x \<Longrightarrow> normal y \<or> vacant y \<Longrightarrow> \<forall>x \<in> set (v[i := y]). normal x \<or> vacant x"
  using set_update_subset_insert [of v i y] by blast

lemma attach_loop_shape:
  "mx = int (length v) \<Longrightarrow> \<forall>x \<in> set v. normal x \<or> vacant x \<Longrightarrow> scan_shape v (attach_loop mx obj proc v i)"
proof (induction mx obj proc v i rule: attach_loop.induct)
  case (1 mx obj proc v i)
  let ?v = "v[i := \<lparr>m_pObj = obj, m_pProc = proc, m_Status = SIGNAL_NODE_NORMAL\<rparr>]"
  have "\<forall>x \<in> set ?v. normal x \<or> vacant x" using "1.prems"(2) by (rule slots_update) simp
  then show ?case using "1.IH" "1.prems" calcSize_eq [of ?v]
    by (subst attach_loop.simps) (auto simp: scan_shape_def Let_def)
qed

lemma detach_loop_shape:
  "mx = int (length v) \<Longrightarrow> \<forall>x \<in> set v. normal x \<or> vacant x \<Longrightarrow> scan_shape v (detach_loop mx obj proc v i)"
proof (induction mx obj proc v i rule: detach_loop.induct)
  case (1 mx obj proc v i)
  let ?v = "v[i := (v ! i)\<lparr>m_Status := SIGNAL_NODE_EMPTY\<rparr>]"
  have "\<forall>x \<in> set ?v. normal x \<or> vacant x" using "1.prems"(2) by (rule slots_update) simp
  then show ?case using "1.IH" "1.prems" calcSize_eq [of ?v]
    by (subst detach_loop.simps) (auto simp: scan_shape_def Let_def)
qed

lemma scan_keeps_shape:
  assumes s: "sig_shape n s" and l: "scan_shape (m_Vector s) (loop (m_Vector s))"
  shows "\<exists>r s'. locked_scan t loop s = Done (r, s') \<and> sig_shape n s' \<and> - 2 \<le> r \<and> r \<le> int n"
proof (intro exI conjI)
  let ?r = "fst (loop (m_Vector s))" and ?v = "snd (loop (m_Vector s))"
  show "locked_scan t loop s = Done (?r, s\<lparr>m_Vector := ?v\<rparr>)"
    using s by (intro locked_scan_free) (simp_all add: sig_shape_def)
  show "sig_shape n (s\<lparr>m_Vector := ?v\<rparr>)" using s l by (simp add: sig_shape_def scan_shape_def)
  have "length ?v = n" using s l by (simp add: sig_shape_def scan_shape_def)
  moreover have "?r = -1 \<or> ?r = -2 \<or> ?r = int (length (filter normal ?v))"
    using l by (auto simp: scan_shape_def)
  ultimately show "- 2 \<le> ?r" "?r \<le> int n" using length_filter_le [of normal ?v] by auto
qed

lemma any_call_shape:
  assumes "sig_shape n s"
  shows "\<exists>r s'. Attach t obj proc s = Done (r, s') \<and> sig_shape n s' \<and> - 2 \<le> r \<and> r \<le> int n"
    and "\<exists>r s'. Detach t obj proc s = Done (r, s') \<and> sig_shape n s' \<and> - 2 \<le> r \<and> r \<le> int n"
    and "\<exists>r s'. IsAttached t obj proc s = Done (r, s') \<and> sig_shape n s' \<and> - 2 \<le> r \<and> r \<le> int n"
proof -
  have v: "m_nMaxSlots s = int (length (m_Vector s))" "\<forall>x \<in> set (m_Vector s). normal x \<or> vacant x"
    using assms by (simp_all add: sig_shape_def)
  show "\<exists>r s'. Attach t obj proc s = Done (r, s') \<and> sig_shape n s' \<and> - 2 \<le> r \<and> r \<le> int n"
    unfolding Attach_def using attach_loop_shape [OF v] by (intro scan_keeps_shape [OF assms])
  show "\<exists>r s'. Detach t obj proc s = Done (r, s') \<and> sig_shape n s' \<and> - 2 \<le> r \<and> r \<le> int n"
    unfolding Detach_def using detach_loop_shape [OF v] by (intro scan_keeps_shape [OF assms])
  have "scan_shape (m_Vector s) (attached_loop (m_nMaxSlots s) obj proc (m_Vector s) 0, m_Vector s)"
    using v by (simp add: scan_shape_def attached_loop_eq)
  then show "\<exists>r s'. IsAttached t obj proc s = Done (r, s') \<and> sig_shape n s' \<and> - 2 \<le> r \<and> r \<le> int n"
    unfolding IsAttached_def by (intro scan_keeps_shape [OF assms])
qed

subsection \<open>Properties\<close>

text \<open>
  C27. Whatever calls its users make, paired or not, a signal stays well formed: no call
  blocks, the vector keeps its slots, each empty or in use and never in the states NEW or
  DELETE, and every result is an error code, -1 or -2, or a number of slots.
\<close>

theorem signal_well_formed:
  assumes "TSignal_new p n = Done s"
  shows "\<exists>rs s'. ez_signal.exec t os s = Done (rs, s') \<and> sig_shape (nat (max 4 n)) s' \<and>
    set rs \<subseteq> {- 2 .. max 4 n}"
proof -
  have s: "sig_shape (nat (max 4 n)) s"
    using assms sig_ok_new [OF assms]
    by (auto simp: TSignal_new_def sig_shape_def TSigNode_new_def sig_ok_def Let_def split: if_splits)
  have "\<exists>rs s'. ez_signal.exec t os s = Done (rs, s') \<and> sig_shape m s' \<and> set rs \<subseteq> {- 2 .. int m}"
    if "sig_shape m s" for m and s :: "'a TSignal"
    using that
  proof (induction os arbitrary: s)
    case (Cons x os)
    have "\<exists>r s1. ez_signal.exec t (x # os) s =
        obind (ez_signal.exec t os s1) (\<lambda>(rs, s). Done (r # rs, s)) \<and>
        sig_shape m s1 \<and> - 2 \<le> r \<and> r \<le> int m"
    proof (cases x)
      case (Reg k)
      obtain r s1 where "Attach t (fst k) (snd k) s = Done (r, s1)" "sig_shape m s1" "- 2 \<le> r" "r \<le> int m"
        using any_call_shape(1) [OF Cons.prems] by blast
      then show ?thesis using Reg by (intro exI [of _ r] exI [of _ s1]) (simp add: split_beta)
    next
      case (Unreg k)
      obtain r s1 where "Detach t (fst k) (snd k) s = Done (r, s1)" "sig_shape m s1" "- 2 \<le> r" "r \<le> int m"
        using any_call_shape(2) [OF Cons.prems] by blast
      then show ?thesis using Unreg by (intro exI [of _ r] exI [of _ s1]) (simp add: split_beta)
    next
      case (Ask k)
      obtain r s1 where "IsAttached t (fst k) (snd k) s = Done (r, s1)" "sig_shape m s1" "- 2 \<le> r" "r \<le> int m"
        using any_call_shape(3) [OF Cons.prems] by blast
      then show ?thesis using Ask by (intro exI [of _ r] exI [of _ s1]) (simp add: split_beta)
    qed
    then obtain r s1 where s1: "ez_signal.exec t (x # os) s =
        obind (ez_signal.exec t os s1) (\<lambda>(rs, s). Done (r # rs, s))"
        "sig_shape m s1" "- 2 \<le> r \<and> r \<le> int m"
      by blast
    obtain rs s2 where "ez_signal.exec t os s1 = Done (rs, s2)" "sig_shape m s2" "set rs \<subseteq> {- 2 .. int m}"
      using Cons.IH [OF s1(2)] by blast
    then show ?case using s1(1,3) by (intro exI [of _ "r # rs"] exI [of _ s2]) simp
  qed simp
  moreover have "int (nat (max 4 n)) = max 4 n" by (simp add: max_def)
  ultimately show ?thesis using s by metis
qed

theorem signal_well_formed_witness:
  "\<exists>s rs s'. TSignal_new (Posix 1) 2 = Done s \<and>
    ez_signal.exec 0 [Reg (Some (1::addr), Some ''f''), Reg (Some 1, Some ''f''),
      Unreg (Some 1, Some ''f''), Unreg (Some 1, Some ''f'')] s = Done (rs, s') \<and> sig_shape 4 s'"
proof -
  let ?os = "[Reg (Some (1::addr), Some ''f''), Reg (Some 1, Some ''f''),
      Unreg (Some 1, Some ''f''), Unreg (Some 1, Some ''f'')]"
  obtain s where s: "TSignal_new (Posix 1) 2 = Done (s :: string TSignal)"
    by (auto simp: TSignal_new_def)
  from signal_well_formed [OF s, of 0 ?os] show ?thesis using s by auto
qed

text \<open>
  C10. For users that pair their calls a signal is a bounded set of observers: over any
  history every \<^verbatim>\<open>Attach\<close>, \<^verbatim>\<open>Detach\<close> and \<^verbatim>\<open>IsAttached\<close> returns what the set prescribes (the
  new number of observers, -1 when the signal is full or the observer is not there), and
  the slots in use are the observers registered and not yet unregistered. No call blocks.
\<close>

theorem signal_history:
  assumes "TSignal_new p n = Done s" and "paired (nat (max 4 n)) os {}"
  shows "\<exists>s'. ez_signal.exec t os s = Done (fst (reg_spec (nat (max 4 n)) os {}), s') \<and>
    observers (m_Vector s') = snd (reg_spec (nat (max 4 n)) os {})"
proof -
  have "sig_ok s" "observers (m_Vector s) = {}" using sig_ok_new [OF assms(1)] by auto
  moreover have "length (m_Vector s) = nat (max 4 n)"
    using assms(1) by (auto simp: TSignal_new_def Let_def split: if_splits)
  ultimately show ?thesis using ez_signal.exec_refines [of s os t] assms(2) by auto
qed

theorem signal_history_witness:
  "\<exists>s s'. TSignal_new (Posix 1) 2 = Done s \<and>
    ez_signal.exec 0 [Reg (Some (1::addr), Some ''f''), Reg (Some 2, Some ''f''),
      Unreg (Some 1, Some ''f''), Ask (Some 2, Some ''f'')] s = Done ([1, 2, 1, 1], s') \<and>
    observers (m_Vector s') = {(Some 2, Some ''f'')}"
proof -
  let ?os = "[Reg (Some (1::addr), Some ''f''), Reg (Some 2, Some ''f''),
      Unreg (Some 1, Some ''f''), Ask (Some 2, Some ''f'')]"
  obtain s where s: "TSignal_new (Posix 1) 2 = Done (s :: string TSignal)"
    by (auto simp: TSignal_new_def)
  have "paired (nat (max 4 2)) ?os {}" by simp
  from signal_history [OF s this, of 0] s show ?thesis by auto
qed

text \<open>
  Emitting a signal calls every observer exactly once, in the order of the slots,
  and leaves the signal as it is, provided the observers do not attach or detach
  meanwhile and none is null.
\<close>

theorem emit_each_once:
  assumes "sig_ok s"
    and "\<forall>n \<in> set (m_Vector s). normal n \<longrightarrow> m_pObj n \<noteq> None \<and> m_pProc n \<noteq> None"
    and "\<And>obj proc v w. cb obj proc (v, w) = (v, act (Some obj, Some proc) w)"
  shows "\<exists>ks. emit cb (s, w) = Done (s, fold act ks w) \<and> distinct ks \<and>
    set ks = observers (m_Vector s)"
proof -
  note d = sig_okD [OF assms(1)]
  let ?ks = "map target (filter normal (m_Vector s))"
  have "emit_loop cb (int (length (m_Vector s))) 0 (m_Vector s, w) = Done (m_Vector s, fold act ?ks w)"
    using emit_loop_eq [where cb = cb and act = act, OF assms(3) assms(2), of 0 w] by simp
  then have "emit cb (s, w) = Done (s, fold act ?ks w)"
    by (simp add: emit_def d)
  moreover have "distinct ?ks" by (rule slots_ok_distinct [OF d(3)])
  moreover have "set ?ks = observers (m_Vector s)" by (auto simp: observers_def)
  ultimately show ?thesis by blast
qed

theorem emit_each_once_witness:
  "\<exists>s s' log. TSignal_new (Posix 1) 2 = Done s \<and> Attach 0 (Some 7) (Some ''f'') s = Done (1, s') \<and>
    emit (\<lambda>obj proc (v, w). (v, w @ [(Some obj, Some proc)])) (s', []) =
      Done (s', [(Some 7, Some ''f'')])"
proof -
  obtain s where s: "TSignal_new (Posix 1) 2 = Done (s :: string TSignal)"
    by (auto simp: TSignal_new_def)
  have ok: "sig_ok s" "observers (m_Vector s) = {}" using sig_ok_new [OF s] by auto
  have "length (m_Vector s) = 4" using s by (auto simp: TSignal_new_def)
  then obtain s' where a: "Attach 0 (Some 7) (Some ''f'') s = Done (1, s')" "sig_ok s'"
      and o: "observers (m_Vector s') = {(Some 7, Some ''f'')}"
    using Attach_new [OF ok(1), of "Some 7" "Some ''f''" 0] ok(2) by auto
  have nn: "\<forall>n \<in> set (m_Vector s'). normal n \<longrightarrow> m_pObj n \<noteq> None \<and> m_pProc n \<noteq> None"
    using o by (auto simp: observers_def target_def set_eq_iff)
  obtain ks where ks: "emit (\<lambda>obj proc (v, w). (v, w @ [(Some obj, Some proc)])) (s', []) =
      Done (s', fold (\<lambda>k w. w @ [k]) ks [])" "distinct ks" "set ks = {(Some 7, Some ''f'')}"
    using emit_each_once [OF a(2) nn, of "\<lambda>obj proc (v, w). (v, w @ [(Some obj, Some proc)])"
      "\<lambda>k w. w @ [k]" "[]"] o by auto
  then have "ks = [(Some 7, Some ''f'')]"
    using ks(2,3) by (cases ks; cases "tl ks") auto
  then show ?thesis using s a(1) ks(1) by auto
qed

primrec detaches :: "nat \<Rightarrow> addr option \<Rightarrow> 'p option \<Rightarrow> 'p TSignal \<Rightarrow> 'p TSignal outcome" where
  "detaches 0 obj proc s = Done s"
| "detaches (Suc k) obj proc s = obind (Detach 0 obj proc s) (\<lambda>(r, s). detaches k obj proc s)"

text \<open>The slots of the signal in the history of the property, after each call.\<close>

abbreviation used :: "addr \<Rightarrow> string TSigNode" where
  "used a \<equiv> \<lparr>m_pObj = Some a, m_pProc = Some ''notify'', m_Status = SIGNAL_NODE_NORMAL\<rparr>"

abbreviation left_over :: "addr \<Rightarrow> string TSigNode" where
  "left_over a \<equiv> \<lparr>m_pObj = Some a, m_pProc = Some ''notify'', m_Status = SIGNAL_NODE_EMPTY\<rparr>"

definition four :: "string TSigNode \<Rightarrow> string TSigNode \<Rightarrow> string TSignal" where
  "four x y = \<lparr>m_nMaxSlots = 4, m_Vector = [x, y, TSigNode_new, TSigNode_new],
     m_CMutex = CEZMutex_new (Posix 1) MUTEX_FAST\<rparr>"

lemma detaches_stuck:
  "detaches k (Some 2) (Some ''notify'') (four (left_over 2) (used 2)) =
     Done (four (left_over 2) (used 2))"
proof (induction k)
  case (Suc k)
  have "Detach 0 (Some 2) (Some ''notify'') (four (left_over 2) (used 2)) =
      Done (1, four (left_over 2) (used 2))"
    by code_simp
  with Suc show ?case by simp
qed simp

text \<open>
  Users that do not pair their calls break the registry. If an observer is attached
  again while a vacated slot precedes its own, \<^verbatim>\<open>Attach\<close> does not see the duplicate and
  succeeds; and then \<^verbatim>\<open>Detach\<close> finds the vacated slot every time: it keeps returning
  success, and the observer stays attached for ever.
\<close>

lemma signal_double_registration:
  "\<exists>s0 s1 s2 s3 s4 s5. TSignal_new (Posix 1) 4 = Done s0 \<and>
    Attach 0 (Some 1) (Some ''notify'') s0 = Done (1, s1) \<and>
    Attach 0 (Some 2) (Some ''notify'') s1 = Done (2, s2) \<and>
    Detach 0 (Some 1) (Some ''notify'') s2 = Done (1, s3) \<and>
    Attach 0 (Some 2) (Some ''notify'') s3 = Done (2, s4) \<and>
    Detach 0 (Some 2) (Some ''notify'') s4 = Done (1, s5) \<and>
    (\<forall>k. detaches k (Some 2) (Some ''notify'') s5 = Done s5) \<and>
    IsAttached 0 (Some 2) (Some ''notify'') s5 = Done (1, s5)"
proof (intro exI conjI allI)
  show "TSignal_new (Posix 1) 4 = Done (four TSigNode_new TSigNode_new)"
    by code_simp
  show "Attach 0 (Some 1) (Some ''notify'') (four TSigNode_new TSigNode_new) =
      Done (1, four (used 1) TSigNode_new)"
    by code_simp
  show "Attach 0 (Some 2) (Some ''notify'') (four (used 1) TSigNode_new) =
      Done (2, four (used 1) (used 2))"
    by code_simp
  show "Detach 0 (Some 1) (Some ''notify'') (four (used 1) (used 2)) =
      Done (1, four (left_over 1) (used 2))"
    by code_simp
  show "Attach 0 (Some 2) (Some ''notify'') (four (left_over 1) (used 2)) =
      Done (2, four (used 2) (used 2))"
    by code_simp
  show "Detach 0 (Some 2) (Some ''notify'') (four (used 2) (used 2)) =
      Done (1, four (left_over 2) (used 2))"
    by code_simp
  show "IsAttached 0 (Some 2) (Some ''notify'') (four (left_over 2) (used 2)) =
      Done (1, four (left_over 2) (used 2))"
    by code_simp
qed (rule detaches_stuck)

end
