(* ===== verification/Format.thy ===== *)
theory Format
  imports EZPrelude
begin

section \<open>Formatted text\<close>

text \<open>
  The conversions of \<^verbatim>\<open>printf\<close> the library uses: decimal numbers, and fields padded on the
  left with blanks or zeros. A \<^verbatim>\<open>sprintf\<close> into a buffer of \<open>cap\<close> bytes is undefined when
  the text with its terminating NUL does not fit.
\<close>

fun digits :: "nat \<Rightarrow> string" where
  "digits n = (if n < 10 then [char_of (48 + n)] else digits (n div 10) @ [char_of (48 + n mod 10)])"

declare digits.simps [simp del]

definition dec :: "int \<Rightarrow> string" where
  "dec i = (if i < 0 then CHR ''-'' # digits (nat (- i)) else digits (nat i))"

definition pad :: "nat \<Rightarrow> string \<Rightarrow> string" where
  "pad k s = replicate (k - length s) CHR '' '' @ s"

definition zpad :: "nat \<Rightarrow> string \<Rightarrow> string" where
  "zpad k s = replicate (k - length s) CHR ''0'' @ s"

definition newline :: string where
  "newline = [CHR 0x0A]"

text \<open>The ruled line of the listings of threads and timers.\<close>

definition dashes :: string where
  "dashes = replicate 64 CHR ''-'' @ newline"

definition sprintf :: "nat \<Rightarrow> string \<Rightarrow> string outcome" where
  "sprintf cap s = (if length s < cap then Done s else Undefined)"

lemma length_pad [simp]: "length (pad k s) = max k (length s)"
  by (simp add: pad_def)

lemma length_newline [simp]: "length newline = 1"
  by (simp add: newline_def)

lemma length_digits: "n < 10 ^ k \<Longrightarrow> 0 < k \<Longrightarrow> length (digits n) \<le> k"
proof (induction n arbitrary: k rule: digits.induct)
  case (1 n)
  show ?case
  proof (cases "n < 10")
    case True
    then show ?thesis using "1.prems" by (simp add: digits.simps)
  next
    case False
    obtain j where k: "k = Suc j" using "1.prems"(2) by (cases k) auto
    have j: "0 < j" using "1.prems"(1) False k by (cases j) auto
    have "n div 10 < 10 ^ j" using "1.prems"(1) k by (simp add: div_less_iff_less_mult mult.commute)
    then have "length (digits (n div 10)) \<le> j" using "1.IH" False j by blast
    then show ?thesis using False k by (simp add: digits.simps [of n])
  qed
qed

text \<open>An \<^verbatim>\<open>int\<close> takes at most 11 characters, an \<^verbatim>\<open>unsigned int\<close> 10.\<close>

lemma length_dec_int:
  assumes "- (2 ^ 31) \<le> i" and "i < 2 ^ 31"
  shows "length (dec i) \<le> 11"
proof -
  have "length (digits (nat (- i))) \<le> 10" "length (digits (nat i)) \<le> 10"
    using assms by (auto intro!: length_digits simp: nat_less_iff)
  then show ?thesis by (auto simp: dec_def)
qed

lemma length_dec_u32: "length (dec (int (unat (w :: u32)))) \<le> 10"
proof -
  have "length (digits (unat w)) \<le> 10"
    using unat_u32_less [of w] by (intro length_digits) auto
  then show ?thesis by (simp add: dec_def)
qed

end
