(* ===== verification/Links.thy ===== *)
theory Links
  imports EZPrelude
begin

section \<open>Linked lists in memory\<close>

text \<open>
  The intrusive lists of the library: free elements and pooled threads in singly linked
  lists, threads and timers in doubly linked ones. A pointer field of the objects is a
  function from addresses to pointers; the predicates say which list of addresses a head
  pointer and the fields represent. The two interfaces at the end are what the users of
  such lists rely on.
\<close>

subsection \<open>Singly linked lists\<close>

fun chain :: "(addr \<Rightarrow> addr option) \<Rightarrow> addr option \<Rightarrow> addr list \<Rightarrow> bool" where
  "chain nx p [] \<longleftrightarrow> p = None"
| "chain nx p (x # xs) \<longleftrightarrow> p = Some x \<and> chain nx (nx x) xs"

lemma chain_fun_upd [simp]: "x \<notin> set xs \<Longrightarrow> chain (nx(x := v)) p xs = chain nx p xs"
  by (induction xs arbitrary: p) auto

lemma chain_None [simp]: "chain nx None xs \<longleftrightarrow> xs = []"
  by (cases xs) auto

lemma chain_Some: "chain nx (Some x) xs \<longleftrightarrow> (\<exists>ys. xs = x # ys \<and> chain nx (nx x) ys)"
  by (cases xs) auto

lemma chain_unique: "chain nx p xs \<Longrightarrow> chain nx p ys \<Longrightarrow> xs = ys"
proof (induction xs arbitrary: p ys)
  case (Cons x xs)
  then show ?case by (cases ys) auto
qed simp

lemma chain_suffix: "chain nx p (xs @ ys) \<Longrightarrow> \<exists>q. chain nx q ys"
  by (induction xs arbitrary: p) auto

lemma chain_distinct: "chain nx p xs \<Longrightarrow> distinct xs"
proof (induction xs arbitrary: p)
  case (Cons x xs)
  then have "distinct xs" by auto
  moreover have "x \<notin> set xs"
  proof
    assume "x \<in> set xs"
    then obtain as bs where xs: "xs = as @ x # bs" by (meson split_list)
    have "chain nx (nx x) xs" using Cons.prems by simp
    then obtain q where "chain nx q (x # bs)" unfolding xs using chain_suffix by blast
    then have "chain nx (nx x) bs" by simp
    with \<open>chain nx (nx x) xs\<close> have "xs = bs" by (rule chain_unique)
    then show False using xs by simp
  qed
  ultimately show ?case by simp
qed simp

lemma chain_cong: "(\<And>x. x \<in> set xs \<Longrightarrow> nx x = nx' x) \<Longrightarrow> chain nx p xs = chain nx' p xs"
  by (induction xs arbitrary: p) auto

subsection \<open>Doubly linked lists\<close>

text \<open>
  \<open>dseg nx pv b p xs q\<close>: from \<open>p\<close> the next pointers run through \<open>xs\<close> to \<open>q\<close>, and the
  previous pointers run back to \<open>b\<close>.
\<close>

fun dseg :: "(addr \<Rightarrow> addr option) \<Rightarrow> (addr \<Rightarrow> addr option) \<Rightarrow> addr option \<Rightarrow> addr option \<Rightarrow>
    addr list \<Rightarrow> addr option \<Rightarrow> bool" where
  "dseg nx pv b p [] q \<longleftrightarrow> p = q"
| "dseg nx pv b p (x # xs) q \<longleftrightarrow> p = Some x \<and> pv x = b \<and> dseg nx pv (Some x) (nx x) xs q"

definition dlist :: "(addr \<Rightarrow> addr option) \<Rightarrow> (addr \<Rightarrow> addr option) \<Rightarrow> addr option \<Rightarrow> addr list \<Rightarrow> bool"
  where "dlist nx pv h xs \<longleftrightarrow> dseg nx pv None h xs None \<and> distinct xs"

definition last_ptr :: "addr option \<Rightarrow> addr list \<Rightarrow> addr option" where
  "last_ptr b xs = (if xs = [] then b else Some (last xs))"

definition head_ptr :: "addr list \<Rightarrow> addr option" where
  "head_ptr xs = (case xs of [] \<Rightarrow> None | x # _ \<Rightarrow> Some x)"

lemma last_ptr_simps [simp]:
  "last_ptr b [] = b" "last_ptr b (x # xs) = last_ptr (Some x) xs"
  "last_ptr b (xs @ [x]) = Some x"
  by (auto simp: last_ptr_def)

lemma head_ptr_simps [simp]: "head_ptr [] = None" "head_ptr (x # xs) = Some x"
  by (auto simp: head_ptr_def)

lemma last_ptr_in: "last_ptr None xs = Some x \<Longrightarrow> x \<in> set xs"
  by (auto simp: last_ptr_def split: if_splits)

lemma head_ptr_in: "head_ptr xs = Some x \<Longrightarrow> x \<in> set xs"
  by (cases xs) auto

lemma dseg_append:
  "dseg nx pv b p (xs @ ys) q \<longleftrightarrow> (\<exists>r. dseg nx pv b p xs r \<and> dseg nx pv (last_ptr b xs) r ys q)"
  by (induction xs arbitrary: b p) auto

lemma dseg_next_upd [simp]: "x \<notin> set xs \<Longrightarrow> dseg (nx(x := v)) pv b p xs q = dseg nx pv b p xs q"
  by (induction xs arbitrary: b p) auto

lemma dseg_prev_upd [simp]: "x \<notin> set xs \<Longrightarrow> dseg nx (pv(x := v)) b p xs q = dseg nx pv b p xs q"
  by (induction xs arbitrary: b p) auto

lemma dseg_head: "dseg nx pv b p xs None \<Longrightarrow> p = head_ptr xs"
  by (cases xs) auto

lemma dseg_chain: "dseg nx pv b p xs None \<Longrightarrow> chain nx p xs"
  by (induction xs arbitrary: b p) auto

lemma dlist_chain: "dlist nx pv h xs \<Longrightarrow> chain nx h xs"
  by (auto simp: dlist_def dseg_chain)

lemma dlist_head: "dlist nx pv h xs \<Longrightarrow> h = head_ptr xs"
  by (auto simp: dlist_def dseg_head)

text \<open>Both ends of a segment can be moved: the last next pointer and the first previous one.\<close>

lemma dseg_set_last:
  "dseg nx pv b p (xs @ [x]) q \<Longrightarrow> distinct (xs @ [x]) \<Longrightarrow> dseg (nx(x := r)) pv b p (xs @ [x]) r"
  by (auto simp: dseg_append)

lemma dseg_set_first:
  "dseg nx pv b p (x # xs) q \<Longrightarrow> x \<notin> set xs \<Longrightarrow> dseg nx (pv(x := c)) c p (x # xs) q"
  by simp

lemma dlist_prev:
  "dlist nx pv h (ys @ x # zs) \<Longrightarrow> pv x = last_ptr None ys"
  by (auto simp: dlist_def dseg_append)

lemma dlist_next:
  "dlist nx pv h (ys @ x # zs) \<Longrightarrow> nx x = head_ptr zs"
  by (auto simp: dlist_def dseg_append dest: dseg_head)

subsection \<open>Linking and unlinking a node\<close>

definition unlink_next :: "(addr \<Rightarrow> addr option) \<Rightarrow> (addr \<Rightarrow> addr option) \<Rightarrow> addr \<Rightarrow> addr \<Rightarrow> addr option"
  where "unlink_next nx pv x = (case pv x of None \<Rightarrow> nx | Some p \<Rightarrow> nx(p := nx x))"

definition unlink_prev :: "(addr \<Rightarrow> addr option) \<Rightarrow> (addr \<Rightarrow> addr option) \<Rightarrow> addr \<Rightarrow> addr \<Rightarrow> addr option"
  where "unlink_prev nx pv x = (case nx x of None \<Rightarrow> pv | Some n \<Rightarrow> pv(n := pv x))"

definition unlink_head ::
    "(addr \<Rightarrow> addr option) \<Rightarrow> (addr \<Rightarrow> addr option) \<Rightarrow> addr \<Rightarrow> addr option \<Rightarrow> addr option" where
  "unlink_head nx pv x h = (if pv x = None then nx x else h)"

lemma list_end_cases: "xs = [] \<or> (\<exists>ys y. xs = ys @ [y])"
  by (metis rev_exhaust)

lemma dlist_unlink:
  assumes "dlist nx pv h (ys @ x # zs)"
  shows "dlist (unlink_next nx pv x) (unlink_prev nx pv x) (unlink_head nx pv x h) (ys @ zs)"
proof -
  have d: "distinct (ys @ x # zs)" using assms by (simp add: dlist_def)
  obtain r where r: "dseg nx pv None h ys r" "dseg nx pv (last_ptr None ys) r (x # zs) None"
    using assms by (auto simp: dlist_def dseg_append)
  have p: "pv x = last_ptr None ys" and n: "nx x = head_ptr zs"
    using assms by (auto simp: dlist_prev dlist_next)
  have zs: "dseg nx (unlink_prev nx pv x) (last_ptr None ys) (head_ptr zs) zs None"
  proof (cases zs)
    case (Cons z zs')
    then show ?thesis using r(2) d n p by (auto simp: unlink_prev_def)
  qed simp
  have ys: "dseg nx (unlink_prev nx pv x) None h ys r"
    using r(1) d n by (cases zs) (auto simp: unlink_prev_def)
  from list_end_cases [of ys] show ?thesis
  proof (elim disjE exE)
    assume "ys = []"
    then show ?thesis using zs d p n
      by (simp add: dlist_def unlink_next_def unlink_head_def)
  next
    fix us u
    assume u: "ys = us @ [u]"
    have "dseg (nx(u := head_ptr zs)) (unlink_prev nx pv x) None h (us @ [u]) (head_ptr zs)"
      using ys d unfolding u by (intro dseg_set_last) auto
    moreover have "dseg (nx(u := head_ptr zs)) (unlink_prev nx pv x) (Some u) (head_ptr zs) zs None"
      using zs d u by simp
    ultimately show ?thesis using d p n u
      by (auto simp: dlist_def unlink_next_def unlink_head_def dseg_append)
  qed
qed

definition link_next :: "(addr \<Rightarrow> addr option) \<Rightarrow> addr option \<Rightarrow> addr \<Rightarrow> addr option \<Rightarrow> addr \<Rightarrow> addr option"
  where "link_next nx pp x pn = (case pp of None \<Rightarrow> nx | Some p \<Rightarrow> nx(p := Some x))(x := pn)"

definition link_prev :: "(addr \<Rightarrow> addr option) \<Rightarrow> addr option \<Rightarrow> addr \<Rightarrow> addr option \<Rightarrow> addr \<Rightarrow> addr option"
  where "link_prev pv pp x pn = (case pn of None \<Rightarrow> pv | Some n \<Rightarrow> pv(n := Some x))(x := pp)"

definition link_head :: "addr option \<Rightarrow> addr \<Rightarrow> addr option \<Rightarrow> addr option" where
  "link_head pp x h = (if pp = None then Some x else h)"

lemma dlist_link:
  assumes "dlist nx pv h (ys @ zs)" and "x \<notin> set (ys @ zs)"
    and "pp = last_ptr None ys" and "pn = head_ptr zs"
  shows "dlist (link_next nx pp x pn) (link_prev pv pp x pn) (link_head pp x h) (ys @ x # zs)"
proof -
  have d: "distinct (ys @ zs)" using assms(1) by (simp add: dlist_def)
  obtain r where r: "dseg nx pv None h ys r" "dseg nx pv (last_ptr None ys) r zs None"
    using assms(1) by (auto simp: dlist_def dseg_append)
  have zs: "dseg nx (link_prev pv pp x pn) (Some x) (head_ptr zs) zs None"
    using r(2) assms(2,4) d by (cases zs) (auto simp: link_prev_def)
  have ys: "dseg nx (link_prev pv pp x pn) None h ys r"
    using r(1) assms(2,4) d by (cases zs) (auto simp: link_prev_def)
  have x: "link_prev pv pp x pn x = pp" "link_next nx pp x pn x = pn"
    by (simp_all add: link_prev_def link_next_def)
  from list_end_cases [of ys] show ?thesis
  proof (elim disjE exE)
    assume "ys = []"
    then show ?thesis using zs d x assms(2-4)
      by (simp add: dlist_def link_next_def link_head_def)
  next
    fix us u
    assume u: "ys = us @ [u]"
    have "dseg (nx(u := Some x)) (link_prev pv pp x pn) None h (us @ [u]) (Some x)"
      using ys d unfolding u by (intro dseg_set_last) auto
    moreover have "dseg (nx(u := Some x)) (link_prev pv pp x pn) (Some x) (head_ptr zs) zs None"
      using zs d u by simp
    ultimately show ?thesis using d x u assms(2-4)
      by (auto simp: dlist_def link_next_def link_head_def dseg_append)
  qed
qed

subsection \<open>The interface of a linked registry\<close>

text \<open>
  A registry keeps nodes in a list: \<open>add\<close> puts a new node somewhere in the list,
  \<open>remove\<close> takes a node out, and neither touches the order of the others. A history adds
  a node that is not in the list and removes one that is.
\<close>

fun members_after :: "(addr + addr) list \<Rightarrow> addr set \<Rightarrow> addr set" where
  "members_after [] M = M"
| "members_after (Inl x # os) M = members_after os (insert x M)"
| "members_after (Inr x # os) M = members_after os (M - {x})"

fun well_used :: "(addr + addr) list \<Rightarrow> addr set \<Rightarrow> bool" where
  "well_used [] M \<longleftrightarrow> True"
| "well_used (Inl x # os) M \<longleftrightarrow> x \<notin> M \<and> well_used os (insert x M)"
| "well_used (Inr x # os) M \<longleftrightarrow> x \<in> M \<and> well_used os (M - {x})"

locale linked_registry =
  fixes add :: "addr \<Rightarrow> 's \<Rightarrow> 's"
    and remove :: "addr \<Rightarrow> 's \<Rightarrow> 's"
    and repr :: "'s \<Rightarrow> addr list \<Rightarrow> bool"
  assumes repr_distinct: "repr s xs \<Longrightarrow> distinct xs"
    and add_repr: "repr s xs \<Longrightarrow> x \<notin> set xs \<Longrightarrow> \<exists>ys zs. xs = ys @ zs \<and> repr (add x s) (ys @ x # zs)"
    and remove_repr: "repr s (ys @ x # zs) \<Longrightarrow> repr (remove x s) (ys @ zs)"
begin

fun history :: "(addr + addr) list \<Rightarrow> 's \<Rightarrow> 's" where
  "history [] s = s"
| "history (Inl x # os) s = history os (add x s)"
| "history (Inr x # os) s = history os (remove x s)"

lemma history_members:
  "repr s xs \<Longrightarrow> well_used os (set xs) \<Longrightarrow>
    \<exists>ys. repr (history os s) ys \<and> set ys = members_after os (set xs)"
proof (induction os arbitrary: s xs)
  case (Cons e os)
  show ?case
  proof (cases e)
    case (Inl x)
    then have "x \<notin> set xs" using Cons.prems(2) by simp
    then obtain ys zs where "repr (add x s) (ys @ x # zs)" "xs = ys @ zs"
      using add_repr [OF Cons.prems(1)] by blast
    then have "repr (add x s) (ys @ x # zs)" "set (ys @ x # zs) = insert x (set xs)" by auto
    then show ?thesis using Cons.IH [of "add x s" "ys @ x # zs"] Cons.prems(2) Inl by auto
  next
    case (Inr x)
    then obtain ys zs where xs: "xs = ys @ x # zs" using Cons.prems(2) by (auto dest: split_list)
    then have "repr (remove x s) (ys @ zs)" "set (ys @ zs) = set xs - {x}"
      using remove_repr Cons.prems(1) repr_distinct by (blast, fastforce)
    then show ?thesis using Cons.IH [of "remove x s" "ys @ zs"] Cons.prems(2) Inr by auto
  qed
qed auto

end

subsection \<open>The interface of an allocator with a free list\<close>

text \<open>
  The state and the set of elements in the users' hands determine whether the allocator
  is in order. An allocation never hands out an element that is in use, and the element
  freed last is the next one handed out.
\<close>

locale free_list_allocator =
  fixes get :: "'s \<Rightarrow> (addr \<times> 's) outcome"
    and put :: "addr \<Rightarrow> 's \<Rightarrow> 's outcome"
    and ok :: "'s \<Rightarrow> addr set \<Rightarrow> bool"
  assumes get_fresh: "ok s L \<Longrightarrow> get s = Done (a, s') \<Longrightarrow> a \<notin> L \<and> ok s' (insert a L)"
    and get_total: "ok s L \<Longrightarrow> \<exists>a s'. get s = Done (a, s')"
    and put_ok: "ok s L \<Longrightarrow> a \<in> L \<Longrightarrow> \<exists>s'. put a s = Done s' \<and> ok s' (L - {a})"
    and put_get: "ok s L \<Longrightarrow> a \<in> L \<Longrightarrow> put a s = Done s' \<Longrightarrow> \<exists>s''. get s' = Done (a, s'')"
begin

text \<open>
  A run of a client: \<open>None\<close> allocates, \<open>Some i\<close> frees the \<open>i\<close>th of the elements it holds,
  oldest first, if it holds that many.
\<close>

fun client :: "nat option list \<Rightarrow> 's \<Rightarrow> addr list \<Rightarrow> ('s \<times> addr list) outcome" where
  "client [] s held = Done (s, held)"
| "client (None # os) s held = obind (get s) (\<lambda>(a, s). client os s (held @ [a]))"
| "client (Some i # os) s held =
     (if i < length held then
        obind (put (held ! i) s) (\<lambda>s. client os s (take i held @ drop (Suc i) held))
      else client os s held)"

lemma client_safe:
  "ok s (set held) \<Longrightarrow> distinct held \<Longrightarrow>
    \<exists>s' held'. client os s held = Done (s', held') \<and> distinct held' \<and> ok s' (set held')"
proof (induction os s held rule: client.induct)
  case (1 s held)
  then show ?case by simp
next
  case (2 os s held)
  obtain a s1 where g: "get s = Done (a, s1)" using get_total [OF "2.prems"(1)] by blast
  then have "a \<notin> set held" "ok s1 (insert a (set held))"
    using get_fresh [OF "2.prems"(1)] by auto
  then show ?case using "2.IH" g "2.prems"(2) by simp
next
  case (3 i os s held)
  show ?case
  proof (cases "i < length held")
    case True
    let ?h = "take i held @ drop (Suc i) held"
    have h: "held = take i held @ held ! i # drop (Suc i) held"
      using True by (simp add: id_take_nth_drop)
    then have "distinct (take i held @ held ! i # drop (Suc i) held)" using "3.prems"(2) by simp
    moreover have "set held = set (take i held @ held ! i # drop (Suc i) held)"
      using h by (rule arg_cong)
    ultimately have d: "distinct ?h" and s: "set ?h = set held - {held ! i}" by auto
    obtain s1 where "put (held ! i) s = Done s1" "ok s1 (set ?h)"
      using put_ok [OF "3.prems"(1), of "held ! i"] True s by auto
    then show ?thesis using "3.IH"(1) [OF True, of s1] d True by auto
  next
    case False
    then show ?thesis using 3 by simp
  qed
qed

end

end
