(* ===== verification/Thread.thy ===== *)
theory Thread
  imports Format Links MsgQue
begin

section \<open>CEZThread and CEZThreadManager\<close>

text \<open>
  \<^verbatim>\<open>src/EZThread.h\<close>, \<^verbatim>\<open>src/EZThread.cpp\<close> and \<^verbatim>\<open>ThreadCreate\<close> of \<^verbatim>\<open>src/api_thread.c\<close>. Here are
  the state of a thread object, its methods as one caller runs them, and the manager's
  list of running threads. How the life of a thread interleaves with its creator's is in
  \<open>ThreadLife\<close>; the pooled threads are in \<open>Threadlet\<close>.
\<close>

subsection \<open>ThreadCreate\<close>

text \<open>
  The POSIX calls are parameters, as the results they give to this call: the handle of
  \<^verbatim>\<open>pthread_create\<close> when it starts a thread, and \<^verbatim>\<open>pthread_detach\<close>'s result.
\<close>

datatype sched_policy = SCHED_FIFO | SCHED_OTHER

record thread_os =
  sched_get_priority_min :: "sched_policy \<Rightarrow> int"
  sched_get_priority_max :: "sched_policy \<Rightarrow> int"
  pthread_attr_init :: int
  pthread_create :: "addr option"
  pthread_detach :: "addr \<Rightarrow> int"

definition TSK_DEF_STACK_SIZE :: u32 where
  "TSK_DEF_STACK_SIZE = 16384"

record thread_request =
  policy :: sched_policy
  prio :: int
  stk_sz :: u32

text \<open>
  The policy, priority and stack size the function works out. (It passes none of them on:
  \<^verbatim>\<open>pthread_create\<close> gets no attributes and \<^verbatim>\<open>SCHED_FIFO_SUPPORT\<close> is 0.)
\<close>

definition ThreadCreate_request :: "thread_os \<Rightarrow> int \<Rightarrow> u32 \<Rightarrow> thread_request option" where
  "ThreadCreate_request os pr stk =
     (let pol = (if 0 < pr \<and> pr < 30 then SCHED_FIFO else SCHED_OTHER);
          pmin = sched_get_priority_min os pol;
          pmax = sched_get_priority_max os pol
      in if pmin = -1 then None
         else if pmax = -1 then None
         else let pr1 = (if pmax < pr then pmax else pr);
                  pr2 = (if pr1 < pmin then pmin else pr1);
                  pr3 = (if pol \<noteq> SCHED_OTHER then pmax - pr2 else 50);
                  sz = (if stk < TSK_DEF_STACK_SIZE then TSK_DEF_STACK_SIZE else stk)
              in Some \<lparr>policy = pol, prio = pr3, stk_sz = sz\<rparr>)"

text \<open>The result, and the handle stored through \<^verbatim>\<open>phthread\<close> if a thread was started.\<close>

definition ThreadCreate :: "thread_os \<Rightarrow> int \<Rightarrow> u32 \<Rightarrow> int \<times> addr option" where
  "ThreadCreate os pr stk =
     (case ThreadCreate_request os pr stk of
        None \<Rightarrow> (-1, None)
      | Some _ \<Rightarrow>
          if pthread_attr_init os \<noteq> 0 then (-1, None)
          else case pthread_create os of
                 None \<Rightarrow> (-1, None)
               | Some h \<Rightarrow> if pthread_detach os h \<noteq> 0 then (-1, Some h) else (0, Some h))"

definition ThreadShareSocket :: "addr option \<Rightarrow> int \<Rightarrow> int" where
  "ThreadShareSocket h nSocket = 0"

subsection \<open>CEZThread\<close>

definition defDefaultThreadName :: string where
  "defDefaultThreadName = ''Nonamed''"

record CEZThread =
  m_bLoop :: EZTHREAD_BOOL
  m_bWaitThreadExit :: EZTHREAD_BOOL
  m_nPriority :: int
  m_dwStackSize :: u32
  m_hThread :: "addr option"
  m_ID :: int
  m_pStrThreadName :: string
  m_pMsgQue :: "CEZMsgQue option"
  m_pPrev :: "addr option"
  m_pNext :: "addr option"
  m_cCEZSemaphore :: CEZSemaphore
  m_expectedTime :: u32
  m_desCEZSemaphore :: CEZSemaphore

definition thread_name :: "string \<Rightarrow> string" where
  "thread_name s = (if 0 < length s then s else defDefaultThreadName)"

text \<open>
  The constructor, over the memory \<open>old\<close> the object is made in: the list pointers keep
  what was there.
\<close>

definition CEZThread_new ::
    "platform \<Rightarrow> CEZThread \<Rightarrow> string \<Rightarrow> int \<Rightarrow> int \<Rightarrow> u32 \<Rightarrow> CEZThread" where
  "CEZThread_new p old strName nPriority nMsgQueSize dwStackSize =
     old\<lparr>m_cCEZSemaphore := CEZSemaphore_new p 1, m_desCEZSemaphore := CEZSemaphore_new p 0,
         m_nPriority := nPriority, m_dwStackSize := dwStackSize,
         m_pStrThreadName := thread_name strName, m_hThread := None, m_ID := -1,
         m_bLoop := False,
         m_pMsgQue := (if nMsgQueSize \<noteq> 0 then Some (CEZMsgQue_new p nMsgQueSize) else None),
         m_expectedTime := 0, m_bWaitThreadExit := False\<rparr>"

definition SetThreadName :: "string \<Rightarrow> CEZThread \<Rightarrow> int \<times> CEZThread" where
  "SetThreadName s t = (0, t\<lparr>m_pStrThreadName := thread_name s\<rparr>)"

definition CreateThread :: "thread_os \<Rightarrow> CEZThread \<Rightarrow> (EZTHREAD_BOOL \<times> CEZThread) outcome" where
  "CreateThread os t =
     obind (Wait (m_cCEZSemaphore t)) (\<lambda>(_, c).
     let t = t\<lparr>m_cCEZSemaphore := c, m_bLoop := True\<rparr>;
         (r, h) = ThreadCreate os (m_nPriority t) (m_dwStackSize t)
     in Done (r = 0, if h = None then t else t\<lparr>m_hThread := h\<rparr>))"

definition IsStoped :: "CEZThread \<Rightarrow> EZTHREAD_BOOL" where
  "IsStoped t = (\<not> m_bLoop t)"

definition IsRunning :: "CEZThread \<Rightarrow> EZTHREAD_BOOL" where
  "IsRunning t = m_bLoop t"

definition GetThreadID :: "CEZThread \<Rightarrow> int" where
  "GetThreadID t = m_ID t"

definition ShareSocket :: "int \<Rightarrow> CEZThread \<Rightarrow> int" where
  "ShareSocket nSocket t = ThreadShareSocket (m_hThread t) nSocket"

text \<open>The message methods hand on to the queue, if the thread has one.\<close>

definition Thread_SendMessage ::
    "u32 \<Rightarrow> u32 \<Rightarrow> EZTHREAD_PARAM \<Rightarrow> EZTHREAD_PARAM \<Rightarrow> u32 \<Rightarrow> CEZThread \<Rightarrow> EZTHREAD_BOOL \<times> CEZThread" where
  "Thread_SendMessage now m w l priority t =
     (case m_pMsgQue t of
        None \<Rightarrow> (False, t)
      | Some q \<Rightarrow> let (r, q') = SendMessage now m w l priority q in (r, t\<lparr>m_pMsgQue := Some q'\<rparr>))"

definition Thread_SendMessage_data ::
    "u32 \<Rightarrow> addr option \<Rightarrow> CEZThread \<Rightarrow> EZTHREAD_BOOL \<times> CEZThread" where
  "Thread_SendMessage_data now p t =
     (case m_pMsgQue t of
        None \<Rightarrow> (False, t)
      | Some q \<Rightarrow> let (r, q') = SendMessage_data now p q in (r, t\<lparr>m_pMsgQue := Some q'\<rparr>))"

definition Thread_RecvMessage ::
    "EZTHREAD_BOOL \<Rightarrow> CEZThread \<Rightarrow> (EZTHREAD_BOOL \<times> MSG_NODE option \<times> CEZThread) outcome" where
  "Thread_RecvMessage wait t =
     (case m_pMsgQue t of
        None \<Rightarrow> Done (False, None, t)
      | Some q \<Rightarrow> obind (RecvMessage wait q) (\<lambda>(r, x, q'). Done (r, x, t\<lparr>m_pMsgQue := Some q'\<rparr>)))"

definition Thread_QuitMessage :: "CEZThread \<Rightarrow> CEZThread" where
  "Thread_QuitMessage t =
     (case m_pMsgQue t of None \<Rightarrow> t | Some q \<Rightarrow> t\<lparr>m_pMsgQue := Some (QuitMessage q)\<rparr>)"

definition Thread_ClearMessage :: "CEZThread \<Rightarrow> CEZThread outcome" where
  "Thread_ClearMessage t =
     (case m_pMsgQue t of
        None \<Rightarrow> Done t
      | Some q \<Rightarrow> obind (ClearMessage q) (\<lambda>q'. Done (t\<lparr>m_pMsgQue := Some q'\<rparr>)))"

definition Thread_GetMessageCount :: "CEZThread \<Rightarrow> u32" where
  "Thread_GetMessageCount t =
     (case m_pMsgQue t of None \<Rightarrow> 0 | Some q \<Rightarrow> word_of_int (GetMessageCount q))"

text \<open>
  \<^verbatim>\<open>DestroyThread\<close> called by the thread with the id \<open>self\<close>: it asks the thread to stop and,
  if told to wait and not called by the thread itself, waits for its end.
\<close>

definition DestroyThread ::
    "u32 \<Rightarrow> int \<Rightarrow> EZTHREAD_BOOL \<Rightarrow> CEZThread \<Rightarrow> (EZTHREAD_BOOL \<times> CEZThread) outcome" where
  "DestroyThread now self bWaited t =
     (if \<not> IsStoped t then
        let t = snd (Thread_SendMessage now XM_QUIT 0 0 0 (t\<lparr>m_bLoop := False\<rparr>))
        in if m_ID t \<noteq> self then
             let t = t\<lparr>m_bWaitThreadExit := bWaited\<rparr>
             in if m_bWaitThreadExit t then
                  obind (Wait (m_desCEZSemaphore t)) (\<lambda>(_, d). Done (True, t\<lparr>m_desCEZSemaphore := d\<rparr>))
                else Done (True, t)
           else Done (True, t)
      else Done (True, t))"

text \<open>\<^verbatim>\<open>SetTimeout\<close> at the clock reading \<open>now\<close>, and \<^verbatim>\<open>IsTimeout\<close>.\<close>

definition SetTimeout :: "u32 \<Rightarrow> u32 \<Rightarrow> CEZThread \<Rightarrow> CEZThread" where
  "SetTimeout now milliSeconds t =
     (if milliSeconds = 0 then t\<lparr>m_expectedTime := 0\<rparr>
      else let e = now + milliSeconds
           in if e < milliSeconds then t\<lparr>m_expectedTime := 0\<rparr> else t\<lparr>m_expectedTime := e\<rparr>)"

definition IsTimeout :: "u32 \<Rightarrow> CEZThread \<Rightarrow> EZTHREAD_BOOL" where
  "IsTimeout now t = (m_expectedTime t \<noteq> 0 \<and> m_expectedTime t < now)"

subsection \<open>CEZThreadManager\<close>

record CEZThreadManager =
  threads :: "addr \<Rightarrow> CEZThread"
  m_pHead :: "addr option"
  m_CMutexMgr :: CEZMutex
  m_mainThreadID :: int

definition RegisterMainThread :: "int \<Rightarrow> CEZThreadManager \<Rightarrow> CEZThreadManager" where
  "RegisterMainThread i s = s\<lparr>m_mainThreadID := i\<rparr>"

text \<open>Assignments to the list pointers of the object at an address.\<close>

definition set_prev :: "addr \<Rightarrow> addr option \<Rightarrow> CEZThreadManager \<Rightarrow> CEZThreadManager" where
  "set_prev a v s = s\<lparr>threads := (threads s)(a := (threads s a)\<lparr>m_pPrev := v\<rparr>)\<rparr>"

definition set_next :: "addr \<Rightarrow> addr option \<Rightarrow> CEZThreadManager \<Rightarrow> CEZThreadManager" where
  "set_next a v s = s\<lparr>threads := (threads s)(a := (threads s a)\<lparr>m_pNext := v\<rparr>)\<rparr>"

text \<open>The bodies of \<^verbatim>\<open>AddThread\<close> and \<^verbatim>\<open>RemoveThread\<close> under the lock.\<close>

definition AddThread_body :: "addr \<Rightarrow> CEZThreadManager \<Rightarrow> CEZThreadManager" where
  "AddThread_body x s =
     (let s = set_prev x None s;
          s = set_next x (m_pHead s) s;
          s = (case m_pHead s of None \<Rightarrow> s | Some h \<Rightarrow> set_prev h (Some x) s)
      in s\<lparr>m_pHead := Some x\<rparr>)"

definition RemoveThread_body :: "addr \<Rightarrow> CEZThreadManager \<Rightarrow> CEZThreadManager" where
  "RemoveThread_body x s =
     (case m_pPrev (threads s x) of
        None \<Rightarrow>
          let s = s\<lparr>m_pHead := m_pNext (threads s x)\<rparr>
          in (case m_pHead s of None \<Rightarrow> s | Some h \<Rightarrow> set_prev h None s)
      | Some p \<Rightarrow>
          let s = set_next p (m_pNext (threads s x)) s
          in (case m_pNext (threads s x) of
                None \<Rightarrow> s
              | Some n \<Rightarrow> set_prev n (m_pPrev (threads s x)) s))"

definition manager_locked ::
    "tid \<Rightarrow> (CEZThreadManager \<Rightarrow> 'a \<times> CEZThreadManager) \<Rightarrow> CEZThreadManager \<Rightarrow>
     ('a \<times> CEZThreadManager) outcome" where
  "manager_locked t body s =
     obind (CEZLock_scope t (\<lambda>s. Done (body s)) (m_CMutexMgr s, s))
       (\<lambda>(r, m, s). Done (r, s\<lparr>m_CMutexMgr := m\<rparr>))"

definition AddThread ::
    "tid \<Rightarrow> addr \<Rightarrow> CEZThreadManager \<Rightarrow> (EZTHREAD_BOOL \<times> CEZThreadManager) outcome" where
  "AddThread t x = manager_locked t (\<lambda>s. (True, AddThread_body x s))"

definition RemoveThread ::
    "tid \<Rightarrow> addr \<Rightarrow> CEZThreadManager \<Rightarrow> (EZTHREAD_BOOL \<times> CEZThreadManager) outcome" where
  "RemoveThread t x = manager_locked t (\<lambda>s. (True, RemoveThread_body x s))"

text \<open>\<^verbatim>\<open>HasThread\<close>: the walk may not end on a cyclic list, and then its value is \<open>None\<close>.\<close>

partial_function (option) has_loop ::
    "(addr \<Rightarrow> addr option) \<Rightarrow> addr \<Rightarrow> addr option \<Rightarrow> EZTHREAD_BOOL option" where
  "has_loop nx x p =
     (case p of None \<Rightarrow> Some False | Some a \<Rightarrow> if a = x then Some True else has_loop nx x (nx a))"

definition HasThread :: "addr \<Rightarrow> CEZThreadManager \<Rightarrow> EZTHREAD_BOOL option" where
  "HasThread x s = has_loop (\<lambda>a. m_pNext (threads s a)) x (m_pHead s)"

subsection \<open>DumpThreads\<close>

definition THREAD_PRIORITY_DEFAULT :: int where
  "THREAD_PRIORITY_DEFAULT = 64"

definition thread_row :: "string \<Rightarrow> string \<Rightarrow> string \<Rightarrow> string \<Rightarrow> string" where
  "thread_row name pid pri st = pad 33 name @ pad 10 pid @ pad 10 pri @ pad 10 st @ newline"

definition thread_line :: "u32 \<Rightarrow> CEZThread \<Rightarrow> string" where
  "thread_line now t =
     thread_row (m_pStrThreadName t) (dec (m_ID t)) (dec (m_nPriority t))
       (if IsTimeout now t then ''Timeout'' else ''Normal'')"

text \<open>The title lines, and the main thread's line.\<close>

definition dump_header :: "CEZThreadManager \<Rightarrow> string" where
  "dump_header s =
     ''Threads:'' @ newline @ thread_row ''Name'' ''PID'' ''Prior'' ''State'' @ dashes @
     thread_row ''Main'' (dec (m_mainThreadID s)) (dec THREAD_PRIORITY_DEFAULT) ''Normal''"

definition dump_footer :: "int \<Rightarrow> int \<Rightarrow> int \<Rightarrow> string" where
  "dump_footer voidPriority i jj =
     dashes @ pad 21 ''Total'' @ '':'' @ dec i @ newline @
     (if 0 < jj then pad 16 ''voidPriority'' @ ''['' @ zpad 3 (dec voidPriority) @ '']:'' @
        dec jj @ newline else [])"

text \<open>
  The loops of the two versions: the console's, which prints every thread, and the
  string's, which leaves out the threads of a given priority and formats each line in
  \<^verbatim>\<open>char tmpBuf[1024]\<close>. \<open>now i\<close> is the reading of the clock at the \<open>i\<close>th thread. The result
  is the text and the counts; a cyclic list gives \<open>None\<close>.
\<close>

partial_function (option) dump_console_loop ::
    "(addr \<Rightarrow> CEZThread) \<Rightarrow> (int \<Rightarrow> u32) \<Rightarrow> addr option \<Rightarrow> int \<Rightarrow> string \<Rightarrow> (string \<times> int) option" where
  "dump_console_loop ths now p i out =
     (case p of
        None \<Rightarrow> Some (out, i)
      | Some a \<Rightarrow>
          dump_console_loop ths now (m_pNext (ths a)) (i + 1)
            (out @ thread_line (now (i + 1)) (ths a)))"

definition DumpThreads_console :: "(int \<Rightarrow> u32) \<Rightarrow> CEZThreadManager \<Rightarrow> string option" where
  "DumpThreads_console now s =
     map_option (\<lambda>(out, i). out @ dashes @ CHR 0x09 # ''Total:'' @ dec i @ newline)
       (dump_console_loop (threads s) now (m_pHead s) 1
         (dump_header s))"

partial_function (option) dump_loop ::
    "(addr \<Rightarrow> CEZThread) \<Rightarrow> (int \<Rightarrow> u32) \<Rightarrow> int \<Rightarrow> addr option \<Rightarrow> int \<Rightarrow> int \<Rightarrow> string \<Rightarrow>
     (string \<times> int \<times> int) outcome option" where
  "dump_loop ths now voidPriority p i jj out =
     (case p of
        None \<Rightarrow> Some (Done (out, i, jj))
      | Some a \<Rightarrow>
          if 0 < voidPriority \<and> m_nPriority (ths a) = voidPriority
          then dump_loop ths now voidPriority (m_pNext (ths a)) (i + 1) (jj + 1) out
          else (case sprintf 1024 (thread_line (now (i + 1)) (ths a)) of
                  Done line \<Rightarrow>
                    dump_loop ths now voidPriority (m_pNext (ths a)) (i + 1) jj (out @ line)
                | _ \<Rightarrow> Some Undefined))"

definition DumpThreads :: "(int \<Rightarrow> u32) \<Rightarrow> int \<Rightarrow> CEZThreadManager \<Rightarrow> string outcome option" where
  "DumpThreads now voidPriority s =
     map_option (\<lambda>r. obind r (\<lambda>(out, i, jj).
         Done (out @ dump_footer voidPriority i jj)))
       (dump_loop (threads s) now voidPriority (m_pHead s) 1 0
         (dump_header s))"

subsection \<open>The manager keeps a doubly linked list\<close>

definition nexts :: "CEZThreadManager \<Rightarrow> addr \<Rightarrow> addr option" where
  "nexts s a = m_pNext (threads s a)"

definition prevs :: "CEZThreadManager \<Rightarrow> addr \<Rightarrow> addr option" where
  "prevs s a = m_pPrev (threads s a)"

lemma set_prev_fields [simp]:
  "nexts (set_prev a v s) = nexts s" "prevs (set_prev a v s) = (prevs s)(a := v)"
  "m_pHead (set_prev a v s) = m_pHead s"
  by (auto simp: nexts_def prevs_def set_prev_def)

lemma set_next_fields [simp]:
  "nexts (set_next a v s) = (nexts s)(a := v)" "prevs (set_next a v s) = prevs s"
  "m_pHead (set_next a v s) = m_pHead s"
  by (auto simp: nexts_def prevs_def set_next_def)

lemma manager_head_upd [simp]:
  "nexts (s\<lparr>m_pHead := h\<rparr>) = nexts s" "prevs (s\<lparr>m_pHead := h\<rparr>) = prevs s"
  "nexts (s\<lparr>m_CMutexMgr := m\<rparr>) = nexts s" "prevs (s\<lparr>m_CMutexMgr := m\<rparr>) = prevs s"
  by (auto simp: nexts_def prevs_def)

definition manager_repr :: "CEZThreadManager \<Rightarrow> addr list \<Rightarrow> bool" where
  "manager_repr s xs \<longleftrightarrow> dlist (nexts s) (prevs s) (m_pHead s) xs"

lemma AddThread_body_links:
  assumes "m_pHead s \<noteq> Some x"
  shows "nexts (AddThread_body x s) = link_next (nexts s) None x (m_pHead s) \<and>
    prevs (AddThread_body x s) = link_prev (prevs s) None x (m_pHead s) \<and>
    m_pHead (AddThread_body x s) = Some x"
  using assms by (cases "m_pHead s") (auto simp: AddThread_body_def Let_def link_next_def link_prev_def)

lemma prevs_fold: "m_pPrev (threads s x) = prevs s x" and nexts_fold: "m_pNext (threads s x) = nexts s x"
  by (simp_all add: prevs_def nexts_def)

lemma RemoveThread_body_links:
  assumes "prevs s x \<noteq> Some x"
  shows "nexts (RemoveThread_body x s) = unlink_next (nexts s) (prevs s) x \<and>
    prevs (RemoveThread_body x s) = unlink_prev (nexts s) (prevs s) x \<and>
    m_pHead (RemoveThread_body x s) = unlink_head (nexts s) (prevs s) x (m_pHead s)"
  using assms unfolding RemoveThread_body_def Let_def prevs_fold nexts_fold
  by (cases "prevs s x"; cases "nexts s x")
    (auto simp: unlink_next_def unlink_prev_def unlink_head_def)

lemma manager_add:
  assumes "manager_repr s xs" and "x \<notin> set xs"
  shows "manager_repr (AddThread_body x s) (x # xs)"
proof -
  have h: "m_pHead s = head_ptr xs" using assms(1) dlist_head by (auto simp: manager_repr_def)
  then have "m_pHead s \<noteq> Some x" using assms(2) by (cases xs) auto
  then show ?thesis
    using AddThread_body_links [of s x] dlist_link [of "nexts s" "prevs s" "m_pHead s" "[]" xs x None]
      assms h by (simp add: manager_repr_def link_head_def)
qed

lemma manager_remove:
  assumes "manager_repr s (ys @ x # zs)"
  shows "manager_repr (RemoveThread_body x s) (ys @ zs)"
proof -
  have "distinct (ys @ x # zs)" using assms by (simp add: manager_repr_def dlist_def)
  moreover have "prevs s x = last_ptr None ys"
    using assms dlist_prev by (auto simp: manager_repr_def)
  ultimately have "prevs s x \<noteq> Some x" by (auto simp: last_ptr_def)
  then show ?thesis
    using RemoveThread_body_links [of s x] dlist_unlink assms by (simp add: manager_repr_def)
qed

interpretation thread_list: linked_registry AddThread_body RemoveThread_body manager_repr
proof (unfold_locales, goal_cases)
  case (1 s xs)
  then show ?case by (simp add: manager_repr_def dlist_def)
next
  case (2 s xs x)
  then show ?case using manager_add by (intro exI [of _ "[]"] exI [of _ xs]) simp
next
  case (3 s ys x zs)
  then show ?case by (rule manager_remove)
qed

lemma has_loop_chain: "chain nx p xs \<Longrightarrow> has_loop nx x p = Some (x \<in> set xs)"
proof (induction xs arbitrary: p)
  case Nil
  then show ?case by (simp add: has_loop.simps)
next
  case (Cons a xs)
  then show ?case by (subst has_loop.simps) auto
qed

lemma HasThread_repr: "manager_repr s xs \<Longrightarrow> HasThread x s = Some (x \<in> set xs)"
  unfolding HasThread_def manager_repr_def
  using has_loop_chain dlist_chain by (metis (full_types) nexts_def ext)

lemma manager_locked_free:
  assumes "mutex_ok (m_CMutexMgr s)" and "mtx_owner (m_CMutexMgr s) = None"
    and "m_CMutexMgr (snd (body s)) = m_CMutexMgr s"
  shows "manager_locked t body s = Done (body s)"
proof -
  have l: "Lock t (m_CMutexMgr s) \<noteq> Blocked" using assms(2) by (simp add: Lock_def)
  have "CEZLock_scope t (\<lambda>s. Done (body s)) (m_CMutexMgr s, s) =
      Done (fst (body s), m_CMutexMgr s, snd (body s))"
    by (subst CEZLock_scope_Done [OF assms(1)]) (simp add: l)
  moreover have "snd (body s)\<lparr>m_CMutexMgr := m_CMutexMgr s\<rparr> = snd (body s)"
    using assms(3) by (cases "snd (body s)") simp
  ultimately show ?thesis by (cases "body s") (simp add: manager_locked_def)
qed

subsection \<open>Properties\<close>

text \<open>
  C7. The manager's list is right after any history in which a running thread is added
  once and removed once: it is a proper doubly linked list of exactly the threads added
  and not removed, and \<^verbatim>\<open>HasThread\<close> ends and answers accordingly.
\<close>

theorem thread_list_history:
  assumes "m_pHead s = None" and "well_used os {}"
  shows "(\<exists>xs. manager_repr (thread_list.history os s) xs \<and> set xs = members_after os {}) \<and>
    HasThread x (thread_list.history os s) = Some (x \<in> members_after os {})"
proof -
  have "manager_repr s []" using assms(1) by (simp add: manager_repr_def dlist_def)
  then obtain xs where xs: "manager_repr (thread_list.history os s) xs" "set xs = members_after os {}"
    using thread_list.history_members [of s "[]" os] assms(2) by auto
  then show ?thesis using HasThread_repr by metis
qed

definition raw_thread :: CEZThread where
  "raw_thread = \<lparr>m_bLoop = False, m_bWaitThreadExit = False, m_nPriority = 0, m_dwStackSize = 0,
     m_hThread = None, m_ID = 0, m_pStrThreadName = [], m_pMsgQue = None, m_pPrev = None,
     m_pNext = None, m_cCEZSemaphore = CEZSemaphore_new (Posix 9) 0, m_expectedTime = 0,
     m_desCEZSemaphore = CEZSemaphore_new (Posix 9) 0\<rparr>"

text \<open>The manager's constructor; it leaves \<^verbatim>\<open>m_mainThreadID\<close> as the memory \<open>old\<close> had it.\<close>

definition CEZThreadManager_new :: "platform \<Rightarrow> CEZThreadManager \<Rightarrow> CEZThreadManager" where [simp]:
  "CEZThreadManager_new p old =
     old\<lparr>m_pHead := None, m_CMutexMgr := CEZMutex_new p MUTEX_RECURSIVE\<rparr>"

definition no_threads :: "(addr \<Rightarrow> CEZThread) \<Rightarrow> CEZThreadManager" where
  "no_threads ths = CEZThreadManager_new (Posix 1) \<lparr>threads = ths, m_pHead = None,
     m_CMutexMgr = CEZMutex_new (Posix 1) MUTEX_FAST, m_mainThreadID = 0\<rparr>"

theorem thread_list_history_witness:
  "HasThread 2 (thread_list.history [Inl 1, Inl 2, Inl 3, Inr 1] (no_threads (\<lambda>_. raw_thread))) = Some True \<and>
   HasThread 1 (thread_list.history [Inl 1, Inl 2, Inl 3, Inr 1] (no_threads (\<lambda>_. raw_thread))) = Some False"
  using thread_list_history [of "no_threads (\<lambda>_. raw_thread)" "[Inl 1, Inl 2, Inl 3, Inr 1]" 1]
    thread_list_history [of "no_threads (\<lambda>_. raw_thread)" "[Inl 1, Inl 2, Inl 3, Inr 1]" 2]
  by (simp add: no_threads_def)

text \<open>
  \<^verbatim>\<open>CreateThread\<close> on a new object never blocks and reports whether the system started
  a thread. But whatever it reports, it has taken the object's token: the object then says
  that it is running, and creating it again blocks until a thread of it ends, which is
  for ever when none was started.
\<close>

lemma CreateThread_once:
  assumes "case p of Posix k \<Rightarrow> 1 \<le> k | Win32 \<Rightarrow> True"
  shows "\<exists>r t'. CreateThread os (CEZThread_new p old nm pr qsz stk) = Done (r, t') \<and>
    (r \<longleftrightarrow> fst (ThreadCreate os pr stk) = 0) \<and> IsRunning t' \<and>
    (\<forall>os'. CreateThread os' t' = Blocked)"
proof -
  let ?t = "CEZThread_new p old nm pr qsz stk"
  have "m_cCEZSemaphore ?t = CEZSemaphore_new p 1" "m_nPriority ?t = pr" "m_dwStackSize ?t = stk"
    by (simp_all add: CEZThread_new_def)
  then show ?thesis using assms
    by (cases p; cases "snd (ThreadCreate os pr stk)")
      (simp_all add: CreateThread_def Wait_def IsRunning_def split_beta)
qed

text \<open>A system in which \<^verbatim>\<open>pthread_create\<close> fails.\<close>

definition exhausted_os :: thread_os where
  "exhausted_os = \<lparr>sched_get_priority_min = (\<lambda>_. 0), sched_get_priority_max = (\<lambda>_. 0),
     pthread_attr_init = 0, pthread_create = None, pthread_detach = (\<lambda>_. 0)\<rparr>"

text \<open>One in which it succeeds.\<close>

definition good_os :: thread_os where
  "good_os = exhausted_os\<lparr>pthread_create := Some 77\<rparr>"

text \<open>
  A thread times out exactly when more than the set number of milliseconds have passed
  on a clock that has not wrapped; a timeout of 0, or one beyond the wrap, never comes.
\<close>

lemma timeout_spec:
  "IsTimeout now' (SetTimeout now ms t) \<longleftrightarrow> ms \<noteq> 0 \<and> unat now + unat ms < unat now'"
proof (cases "ms = 0")
  case True
  then show ?thesis by (simp add: IsTimeout_def SetTimeout_def)
next
  case False
  show ?thesis
  proof (cases "2 ^ 32 \<le> unat now + unat ms")
    case True
    then have "now + ms < ms" by (simp only: u32_plus_carry)
    then show ?thesis using True False unat_u32_less [of now']
      by (simp add: IsTimeout_def SetTimeout_def Let_def)
  next
    case small: False
    then have n: "\<not> now + ms < ms" by (simp only: u32_plus_carry not_False_eq_True)
    have u: "unat (now + ms) = unat now + unat ms" using small by (simp add: unat_u32_plus)
    then have "now + ms \<noteq> 0" using False by (metis add_eq_0_iff_both_eq_0 unat_eq_zero unat_0)
    then show ?thesis using n u False
      by (simp add: IsTimeout_def SetTimeout_def Let_def word_less_nat_alt)
  qed
qed

lemma dump_loop_chain:
  assumes "chain (\<lambda>a. m_pNext (ths a)) p xs"
    and "\<forall>a \<in> set xs. length (m_pStrThreadName (ths a)) \<le> 900 \<and>
      m_ID (ths a) \<in> {- (2 ^ 31) ..< 2 ^ 31} \<and> m_nPriority (ths a) \<in> {- (2 ^ 31) ..< 2 ^ 31}"
  shows "dump_loop ths now vp p i jj out = Some (Done
    (out @ concat (map (\<lambda>(k, a). thread_line (now (i + 1 + int k)) (ths a))
        (filter (\<lambda>(k, a). \<not> (0 < vp \<and> m_nPriority (ths a) = vp)) (enumerate 0 xs))),
     i + int (length xs),
     jj + int (length (filter (\<lambda>a. 0 < vp \<and> m_nPriority (ths a) = vp) xs))))"
  using assms
proof (induction xs arbitrary: p i jj out)
  case Nil
  then show ?case by (simp add: dump_loop.simps)
next
  case (Cons a xs)
  have en: "enumerate (Suc 0) xs = map (\<lambda>(k, a). (Suc k, a)) (enumerate 0 xs)"
    by (auto simp: enumerate_Suc_eq)
  have p: "p = Some a" "chain (\<lambda>a. m_pNext (ths a)) (m_pNext (ths a)) xs" using Cons.prems(1) by auto
  have "length (dec (m_ID (ths a))) \<le> 11" "length (dec (m_nPriority (ths a))) \<le> 11"
    using Cons.prems(2) by (auto intro!: length_dec_int)
  then have "length (thread_line w (ths a)) < 1024" for w
    using Cons.prems(2) by (simp add: thread_line_def thread_row_def max_def)
  then have sp: "sprintf 1024 (thread_line w (ths a)) = Done (thread_line w (ths a))" for w
    by (simp add: sprintf_def)
  show ?case
    unfolding p(1)
    using Cons.IH [OF p(2)] Cons.prems(2) sp
    by (subst dump_loop.simps)
      (simp add: en filter_map comp_def split_beta add.assoc add.commute add.left_commute)
qed

text \<open>
  \<^verbatim>\<open>DumpThreads\<close> lists the main thread and then every running thread of another
  priority than the excluded one, in the order of the list, each on one line, and counts
  them all, provided the names are at most 900 characters long.
\<close>

lemma DumpThreads_lists_all:
  assumes "manager_repr s xs"
    and "\<forall>a \<in> set xs. length (m_pStrThreadName (threads s a)) \<le> 900 \<and>
      m_ID (threads s a) \<in> {- (2 ^ 31) ..< 2 ^ 31} \<and> m_nPriority (threads s a) \<in> {- (2 ^ 31) ..< 2 ^ 31}"
  shows "DumpThreads now vp s = Some (Done
    (dump_header s @
     concat (map (\<lambda>(k, a). thread_line (now (2 + int k)) (threads s a))
        (filter (\<lambda>(k, a). \<not> (0 < vp \<and> m_nPriority (threads s a) = vp)) (enumerate 0 xs))) @
     dump_footer vp (1 + int (length xs))
       (int (length (filter (\<lambda>a. 0 < vp \<and> m_nPriority (threads s a) = vp) xs)))))"
proof -
  have "chain (\<lambda>a. m_pNext (threads s a)) (m_pHead s) xs"
    using assms(1) dlist_chain by (auto simp: manager_repr_def nexts_def [abs_def])
  note l = dump_loop_chain [OF this assms(2), of now vp 1 0]
  show ?thesis unfolding DumpThreads_def l by simp
qed

text \<open>A name of 1024 characters or more overflows \<^verbatim>\<open>tmpBuf\<close>.\<close>

lemma DumpThreads_overflow:
  assumes "m_pHead s = Some a" and "1024 \<le> length (m_pStrThreadName (threads s a))"
  shows "DumpThreads now (-1) s = Some Undefined"
proof -
  have "sprintf 1024 (thread_line w (threads s a)) = Undefined" for w
    using assms(2) by (simp add: sprintf_def thread_line_def thread_row_def)
  then show ?thesis using assms(1)
    by (simp add: DumpThreads_def dump_loop.simps [of _ _ _ "Some a"])
qed

end
