(* ===== verification/ThreadLife.thy ===== *)
theory ThreadLife
  imports Thread
begin

section \<open>The life of a thread among its creators\<close>

text \<open>
  \<^verbatim>\<open>ThreadBody\<close>, \<^verbatim>\<open>CreateThread\<close> and \<^verbatim>\<open>DestroyThread\<close> of one thread object, interleaved:
  any number of callers create and destroy the thread, and every \<^verbatim>\<open>pthread_create\<close> that
  succeeds adds a running \<^verbatim>\<open>ThreadBody\<close>. A step runs one caller or one body to its next
  access of shared state; the sections under the manager's and the queue's lock are one
  step. \<^verbatim>\<open>ThreadProc\<close> is the user's: it may return at any time.
\<close>

subsection \<open>Program points and states\<close>

datatype caller_pc =
    C_Idle
  | C_Wait                 \<comment> \<open>\<^verbatim>\<open>CreateThread\<close>: at \<^verbatim>\<open>m_cCEZSemaphore.Wait()\<close>\<close>
  | C_Loop                 \<comment> \<open>before \<^verbatim>\<open>m_bLoop = TRUE\<close>\<close>
  | C_Spawn                \<comment> \<open>before \<^verbatim>\<open>ThreadCreate\<close>\<close>
  | D_Check EZTHREAD_BOOL  \<comment> \<open>\<^verbatim>\<open>DestroyThread(bWaited)\<close>: before \<^verbatim>\<open>IsStoped()\<close>\<close>
  | D_Loop EZTHREAD_BOOL   \<comment> \<open>before \<^verbatim>\<open>m_bLoop = FALSE\<close>\<close>
  | D_Send EZTHREAD_BOOL   \<comment> \<open>before \<^verbatim>\<open>SendMessage(XM_QUIT)\<close>\<close>
  | D_Self EZTHREAD_BOOL   \<comment> \<open>before the comparison of the thread ids\<close>
  | D_Flag EZTHREAD_BOOL   \<comment> \<open>before \<^verbatim>\<open>m_bWaitThreadExit = bWaited\<close>\<close>
  | D_Test                 \<comment> \<open>before the test of \<^verbatim>\<open>m_bWaitThreadExit\<close>\<close>
  | D_Wait                 \<comment> \<open>at \<^verbatim>\<open>m_desCEZSemaphore.Wait()\<close>\<close>

datatype body_pc =
    B_ID      \<comment> \<open>before \<^verbatim>\<open>m_ID = ThreadGetID()\<close>\<close>
  | B_Add     \<comment> \<open>before \<^verbatim>\<open>AddThread\<close>\<close>
  | B_Proc    \<comment> \<open>in \<^verbatim>\<open>ThreadProc\<close>\<close>
  | B_Clear   \<comment> \<open>before \<^verbatim>\<open>ClearMessage\<close>\<close>
  | B_Check   \<comment> \<open>before the test of \<^verbatim>\<open>m_bWaitThreadExit\<close>\<close>
  | B_PostD   \<comment> \<open>before \<^verbatim>\<open>m_desCEZSemaphore.Post()\<close>\<close>
  | B_PostC   \<comment> \<open>before \<^verbatim>\<open>m_cCEZSemaphore.Post()\<close>\<close>
  | B_Remove  \<comment> \<open>before \<^verbatim>\<open>RemoveThread\<close>\<close>
  | B_Exit

record life =
  self :: addr
  mgr :: CEZThreadManager
  callers :: "caller_pc list"
  bodies :: "body_pc list"
  failed :: nat            \<comment> \<open>the \<^verbatim>\<open>ThreadCreate\<close> calls that started no thread\<close>

definition obj :: "life \<Rightarrow> CEZThread" where
  "obj s = threads (mgr s) (self s)"

definition upd_obj :: "(CEZThread \<Rightarrow> CEZThread) \<Rightarrow> life \<Rightarrow> life" where
  "upd_obj f s = s\<lparr>mgr := (mgr s)\<lparr>threads := (threads (mgr s))(self s := f (obj s))\<rparr>\<rparr>"

definition upd_mgr :: "(CEZThreadManager \<Rightarrow> CEZThreadManager) \<Rightarrow> life \<Rightarrow> life" where
  "upd_mgr f s = s\<lparr>mgr := f (mgr s)\<rparr>"

definition caller_at :: "nat \<Rightarrow> caller_pc \<Rightarrow> life \<Rightarrow> life" where
  "caller_at i p s = s\<lparr>callers := (callers s)[i := p]\<rparr>"

definition body_at :: "nat \<Rightarrow> body_pc \<Rightarrow> life \<Rightarrow> life" where
  "body_at j p s = s\<lparr>bodies := (bodies s)[j := p]\<rparr>"

text \<open>The thread ids: the callers are numbered first, then the bodies.\<close>

definition caller_id :: "nat \<Rightarrow> int" where
  "caller_id i = int i"

definition body_id :: "life \<Rightarrow> nat \<Rightarrow> int" where
  "body_id s j = int (length (callers s) + j)"

subsection \<open>Steps\<close>

text \<open>\<^verbatim>\<open>DestroyThread\<close> and \<^verbatim>\<open>CreateThread\<close> by caller \<open>i\<close>; \<open>os\<close> is the system at \<^verbatim>\<open>ThreadCreate\<close>.\<close>

fun caller_step :: "thread_os \<Rightarrow> u32 \<Rightarrow> nat \<Rightarrow> caller_pc \<Rightarrow> life \<Rightarrow> life option" where
  "caller_step os now i C_Idle s = None"
| "caller_step os now i C_Wait s =
     (case Wait (m_cCEZSemaphore (obj s)) of
        Done (_, c) \<Rightarrow> Some (caller_at i C_Loop (upd_obj (\<lambda>t. t\<lparr>m_cCEZSemaphore := c\<rparr>) s))
      | _ \<Rightarrow> None)"
| "caller_step os now i C_Loop s =
     Some (caller_at i C_Spawn (upd_obj (\<lambda>t. t\<lparr>m_bLoop := True\<rparr>) s))"
| "caller_step os now i C_Spawn s =
     (case snd (ThreadCreate os (m_nPriority (obj s)) (m_dwStackSize (obj s))) of
        None \<Rightarrow> Some (caller_at i C_Idle (s\<lparr>failed := Suc (failed s)\<rparr>))
      | Some h \<Rightarrow> Some (caller_at i C_Idle
          ((upd_obj (\<lambda>t. t\<lparr>m_hThread := Some h\<rparr>) s)\<lparr>bodies := bodies s @ [B_ID]\<rparr>)))"
| "caller_step os now i (D_Check b) s =
     Some (caller_at i (if IsStoped (obj s) then C_Idle else D_Loop b) s)"
| "caller_step os now i (D_Loop b) s =
     Some (caller_at i (D_Send b) (upd_obj (\<lambda>t. t\<lparr>m_bLoop := False\<rparr>) s))"
| "caller_step os now i (D_Send b) s =
     Some (caller_at i (D_Self b) (upd_obj (\<lambda>t. snd (Thread_SendMessage now XM_QUIT 0 0 0 t)) s))"
| "caller_step os now i (D_Self b) s =
     Some (caller_at i (if m_ID (obj s) \<noteq> caller_id i then D_Flag b else C_Idle) s)"
| "caller_step os now i (D_Flag b) s =
     Some (caller_at i D_Test (upd_obj (\<lambda>t. t\<lparr>m_bWaitThreadExit := b\<rparr>) s))"
| "caller_step os now i D_Test s =
     Some (caller_at i (if m_bWaitThreadExit (obj s) then D_Wait else C_Idle) s)"
| "caller_step os now i D_Wait s =
     (case Wait (m_desCEZSemaphore (obj s)) of
        Done (_, d) \<Rightarrow> Some (caller_at i C_Idle (upd_obj (\<lambda>t. t\<lparr>m_desCEZSemaphore := d\<rparr>) s))
      | _ \<Rightarrow> None)"

text \<open>\<^verbatim>\<open>ThreadBody\<close> in the \<open>j\<close>th thread started.\<close>

fun body_step :: "nat \<Rightarrow> body_pc \<Rightarrow> life \<Rightarrow> life option" where
  "body_step j B_ID s = Some (body_at j B_Add (upd_obj (\<lambda>t. t\<lparr>m_ID := body_id s j\<rparr>) s))"
| "body_step j B_Add s = Some (body_at j B_Proc (upd_mgr (AddThread_body (self s)) s))"
| "body_step j B_Proc s = Some (body_at j B_Clear s)"
| "body_step j B_Clear s =
     (case Thread_ClearMessage (obj s) of
        Done t \<Rightarrow> Some (body_at j B_Check (upd_obj (\<lambda>_. t) s))
      | _ \<Rightarrow> None)"
| "body_step j B_Check s =
     Some (body_at j (if m_bWaitThreadExit (obj s) then B_PostD else B_PostC) s)"
| "body_step j B_PostD s = Some (body_at j B_PostC
     (upd_obj (\<lambda>t. t\<lparr>m_desCEZSemaphore := snd (Post (m_desCEZSemaphore t))\<rparr>) s))"
| "body_step j B_PostC s = Some (body_at j B_Remove
     (upd_obj (\<lambda>t. t\<lparr>m_cCEZSemaphore := snd (Post (m_cCEZSemaphore t))\<rparr>) s))"
| "body_step j B_Remove s = Some (body_at j B_Exit (upd_mgr (RemoveThread_body (self s)) s))"
| "body_step j B_Exit s = None"

datatype life_action =
    Create nat                    \<comment> \<open>caller \<open>i\<close> calls \<^verbatim>\<open>CreateThread\<close>\<close>
  | Destroy nat EZTHREAD_BOOL     \<comment> \<open>caller \<open>i\<close> calls \<^verbatim>\<open>DestroyThread\<close>\<close>
  | Caller nat thread_os u32      \<comment> \<open>caller \<open>i\<close> makes its next step\<close>
  | Body nat                      \<comment> \<open>body \<open>j\<close> makes its next step\<close>

fun life_exec :: "life_action \<Rightarrow> life \<Rightarrow> life option" where
  "life_exec (Create i) s =
     (if i < length (callers s) \<and> callers s ! i = C_Idle then Some (caller_at i C_Wait s) else None)"
| "life_exec (Destroy i b) s =
     (if i < length (callers s) \<and> callers s ! i = C_Idle then Some (caller_at i (D_Check b) s)
      else None)"
| "life_exec (Caller i os now) s =
     (if i < length (callers s) then caller_step os now i (callers s ! i) s else None)"
| "life_exec (Body j) s =
     (if j < length (bodies s) then body_step j (bodies s ! j) s else None)"

definition life_step :: "life \<Rightarrow> life \<Rightarrow> bool" where
  "life_step s t \<longleftrightarrow> (\<exists>a. life_exec a s = Some t)"

fun life_run :: "life_action list \<Rightarrow> life \<Rightarrow> life option" where
  "life_run [] s = Some s"
| "life_run (a # as) s = (case life_exec a s of None \<Rightarrow> None | Some t \<Rightarrow> life_run as t)"

text \<open>The start: a new thread object, not in the manager's list, and \<open>n\<close> callers.\<close>

definition life_init :: "life \<Rightarrow> bool" where
  "life_init s \<longleftrightarrow> (\<exists>p old nm pr qsz stk.
     (case p of Posix k \<Rightarrow> 1 \<le> k | Win32 \<Rightarrow> True) \<and> obj s = CEZThread_new p old nm pr qsz stk) \<and>
     m_pHead (mgr s) = None \<and> (\<forall>p \<in> set (callers s). p = C_Idle) \<and> bodies s = [] \<and> failed s = 0"

lemma life_run_reach:
  "reach life_init life_step s \<Longrightarrow> life_run as s = Some t \<Longrightarrow> reach life_init life_step t"
proof (induction as arbitrary: s)
  case (Cons a as)
  then obtain u where "life_exec a s = Some u" "life_run as u = Some t"
    by (auto split: option.splits)
  moreover have "life_step s u" using calculation(1) by (auto simp: life_step_def)
  ultimately show ?case using Cons.IH reach_step [OF Cons.prems(1)] by blast
qed simp

subsection \<open>The token of the object\<close>

text \<open>
  A caller between its wait and the start of the thread holds the token, and so does a
  body until it posts; a failed start loses it.
\<close>

fun caller_holds :: "caller_pc \<Rightarrow> nat" where
  "caller_holds C_Loop = 1"
| "caller_holds C_Spawn = 1"
| "caller_holds _ = 0"

fun body_holds :: "body_pc \<Rightarrow> nat" where
  "body_holds B_Remove = 0"
| "body_holds B_Exit = 0"
| "body_holds _ = 1"

lemma body_holds_eq: "body_holds p = (if p = B_Remove \<or> p = B_Exit then 0 else 1)"
  by (cases p) simp_all

definition life_inv :: "life \<Rightarrow> bool" where
  "life_inv s \<longleftrightarrow> sem_ok (m_cCEZSemaphore (obj s)) \<and> 1 \<le> sem_max (m_cCEZSemaphore (obj s)) \<and>
     sem_value (m_cCEZSemaphore (obj s)) + sum_list (map caller_holds (callers s)) +
       sum_list (map body_holds (bodies s)) + failed s = 1"

lemma obj_upd [simp]:
  "obj (upd_obj f s) = f (obj s)" "callers (upd_obj f s) = callers s"
  "bodies (upd_obj f s) = bodies s" "failed (upd_obj f s) = failed s" "self (upd_obj f s) = self s"
  by (simp_all add: obj_def upd_obj_def)

lemma at_fields [simp]:
  "obj (caller_at i p s) = obj s" "callers (caller_at i p s) = (callers s)[i := p]"
  "bodies (caller_at i p s) = bodies s" "failed (caller_at i p s) = failed s"
  "obj (body_at j q s) = obj s" "callers (body_at j q s) = callers s"
  "bodies (body_at j q s) = (bodies s)[j := q]" "failed (body_at j q s) = failed s"
  by (simp_all add: obj_def caller_at_def body_at_def)

lemma upd_mgr_fields [simp]:
  "callers (upd_mgr f s) = callers s" "bodies (upd_mgr f s) = bodies s"
  "failed (upd_mgr f s) = failed s" "obj (upd_mgr f s) = threads (f (mgr s)) (self s)"
  by (simp_all add: upd_mgr_def obj_def)

lemma obj_fields [simp]:
  "obj (s\<lparr>bodies := b\<rparr>) = obj s" "obj (s\<lparr>failed := n\<rparr>) = obj s"
  by (simp_all add: obj_def)

text \<open>Linking and unlinking changes nothing but the list pointers of an object.\<close>

definition without_links :: "CEZThread \<Rightarrow> CEZThread" where
  "without_links t = t\<lparr>m_pPrev := None, m_pNext := None\<rparr>"

lemma list_ops_links:
  "without_links (threads (AddThread_body a m) x) = without_links (threads m x)"
  "without_links (threads (RemoveThread_body a m) x) = without_links (threads m x)"
  by (auto simp: without_links_def AddThread_body_def RemoveThread_body_def Let_def set_prev_def
    set_next_def split: option.splits)

lemma without_links_fields:
  assumes "without_links t = without_links t'"
  shows "m_cCEZSemaphore t = m_cCEZSemaphore t'" "m_desCEZSemaphore t = m_desCEZSemaphore t'"
    "m_bLoop t = m_bLoop t'" "m_bWaitThreadExit t = m_bWaitThreadExit t'" "m_ID t = m_ID t'"
    "m_pMsgQue t = m_pMsgQue t'" "m_nPriority t = m_nPriority t'" "m_dwStackSize t = m_dwStackSize t'"
  using assms by (cases t; cases t'; simp add: without_links_def)+

lemmas list_ops_sem [simp] =
  without_links_fields [OF list_ops_links(1)] without_links_fields [OF list_ops_links(2)]

lemma message_ops_sem [simp]:
  "m_cCEZSemaphore (snd (Thread_SendMessage now m w l p t)) = m_cCEZSemaphore t"
  "Thread_ClearMessage t = Done t' \<Longrightarrow> m_cCEZSemaphore t' = m_cCEZSemaphore t"
  by (auto simp: Thread_SendMessage_def Thread_ClearMessage_def split: option.splits prod.splits)

text \<open>One caller or one body moves; the token moves with it.\<close>

lemma life_inv_caller:
  assumes "life_inv s" and "i < length (callers s)"
    and "sem_ok c" and "1 \<le> sem_max c" and "c = m_cCEZSemaphore (obj t)"
    and "callers t = (callers s)[i := p]"
    and "sem_value c + caller_holds p + sum_list (map body_holds (bodies t)) + failed t =
      sem_value (m_cCEZSemaphore (obj s)) + caller_holds (callers s ! i) +
      sum_list (map body_holds (bodies s)) + failed s"
  shows "life_inv t"
  using assms sum_list_update_eq [OF assms(2), of caller_holds p]
  by (simp add: life_inv_def)

lemma life_inv_body:
  assumes "life_inv s" and "j < length (bodies s)"
    and "sem_ok (m_cCEZSemaphore (obj t))" and "1 \<le> sem_max (m_cCEZSemaphore (obj t))"
    and "bodies t = (bodies s)[j := p]" and "callers t = callers s" and "failed t = failed s"
    and "sem_value (m_cCEZSemaphore (obj t)) + body_holds p =
      sem_value (m_cCEZSemaphore (obj s)) + body_holds (bodies s ! j)"
  shows "life_inv t"
  using assms sum_list_update_eq [OF assms(2), of body_holds p]
  by (simp add: life_inv_def)

lemma life_inv_caller_step:
  assumes inv: "life_inv s" and i: "i < length (callers s)"
    and st: "caller_step os now i (callers s ! i) s = Some t"
  shows "life_inv t"
proof -
  have ok: "sem_ok (m_cCEZSemaphore (obj s))" "1 \<le> sem_max (m_cCEZSemaphore (obj s))"
    using inv by (auto simp: life_inv_def)
  show ?thesis
  proof (cases "callers s ! i")
    case C_Wait
    then obtain c where c: "Wait (m_cCEZSemaphore (obj s)) = Done (0, c)" "0 < sem_value (m_cCEZSemaphore (obj s))"
        "c = (m_cCEZSemaphore (obj s))\<lparr>sem_value := sem_value (m_cCEZSemaphore (obj s)) - 1\<rparr>"
        "t = caller_at i C_Loop (upd_obj (\<lambda>t. t\<lparr>m_cCEZSemaphore := c\<rparr>) s)"
      using st ok by (auto simp: Wait_Done_iff split: outcome.splits)
    show ?thesis
      by (rule life_inv_caller [OF inv i, where p = C_Loop and c = c])
        (use c ok C_Wait in \<open>auto simp: sem_ok_def\<close>)
  next
    case C_Spawn
    show ?thesis
      by (rule life_inv_caller [OF inv i ok, where p = C_Idle])
        (use st C_Spawn in \<open>auto split: option.splits\<close>)
  qed (use st in \<open>auto split: outcome.splits
    intro!: life_inv_caller [OF inv i ok]\<close>)
qed

lemma life_inv_body_step:
  assumes inv: "life_inv s" and j: "j < length (bodies s)"
    and st: "body_step j (bodies s ! j) s = Some t"
  shows "life_inv t"
proof -
  have ok: "sem_ok (m_cCEZSemaphore (obj s))" "1 \<le> sem_max (m_cCEZSemaphore (obj s))"
    using inv by (auto simp: life_inv_def)
  show ?thesis
  proof (cases "bodies s ! j")
    case B_PostC
    have "body_holds (bodies s ! j) \<le> sum_list (map body_holds (bodies s))"
      using j by (rule sum_list_member_le)
    then have v: "sem_value (m_cCEZSemaphore (obj s)) = 0"
      using inv B_PostC by (simp add: life_inv_def)
    show ?thesis
      by (rule life_inv_body [OF inv j, where p = B_Remove])
        (use st B_PostC ok v in \<open>auto simp: Post_value\<close>)
  next
    case B_Clear
    then obtain o' where o': "Thread_ClearMessage (obj s) = Done o'"
        "t = body_at j B_Check (upd_obj (\<lambda>_. o') s)"
      using st by (auto split: outcome.splits)
    show ?thesis
      by (rule life_inv_body [OF inv j, where p = B_Check])
        (use o' ok B_Clear message_ops_sem(2) [OF o'(1)] in \<open>auto\<close>)
  qed (use st ok in \<open>auto simp: obj_def [symmetric] intro!: life_inv_body [OF inv j]\<close>)
qed

lemma life_inv_exec:
  assumes inv: "life_inv s" and ex: "life_exec a s = Some t"
  shows "life_inv t"
proof -
  have ok: "sem_ok (m_cCEZSemaphore (obj s))" "1 \<le> sem_max (m_cCEZSemaphore (obj s))"
    using inv by (auto simp: life_inv_def)
  show ?thesis
  proof (cases a)
    case (Create i)
    then show ?thesis using ex
      by (auto split: if_splits intro!: life_inv_caller [OF inv _ ok, of i])
  next
    case (Destroy i b)
    then show ?thesis using ex
      by (auto split: if_splits intro!: life_inv_caller [OF inv _ ok, of i])
  qed (use inv ex in \<open>auto split: if_splits intro: life_inv_caller_step life_inv_body_step\<close>)
qed

lemma sum_list_zero_map: "(\<forall>x \<in> set xs. f x = (0::nat)) \<Longrightarrow> sum_list (map f xs) = 0"
  by (induction xs) auto

lemma life_inv_init: "life_init s \<Longrightarrow> life_inv s"
proof -
  assume "life_init s"
  then obtain p old nm pr qsz stk where
      p: "case p of Posix k \<Rightarrow> 1 \<le> k | Win32 \<Rightarrow> True" "obj s = CEZThread_new p old nm pr qsz stk"
    and l: "\<forall>p \<in> set (callers s). p = C_Idle" "bodies s = []" "failed s = 0"
    by (auto simp: life_init_def)
  have "sum_list (map caller_holds (callers s)) = 0"
    using l(1) by (intro sum_list_zero_map) auto
  moreover have "m_cCEZSemaphore (obj s) = CEZSemaphore_new p 1"
    using p(2) by (simp add: CEZThread_new_def)
  ultimately show ?thesis using p(1) l(2,3)
    by (cases p) (simp_all add: life_inv_def sem_ok_def)
qed

interpretation life_system: invariant_system life_init life_step life_inv
proof (unfold_locales, goal_cases)
  case (1 s)
  then show ?case by (rule life_inv_init)
next
  case (2 s t)
  then show ?case by (auto simp: life_step_def intro: life_inv_exec)
qed

subsection \<open>Properties\<close>

lemma one_holder:
  assumes "life_inv s" and "i < length (bodies s)" and "j < length (bodies s)"
    and "bodies s ! i \<notin> {B_Remove, B_Exit}" and "bodies s ! j \<notin> {B_Remove, B_Exit}"
  shows "i = j"
proof (rule ccontr)
  assume "i \<noteq> j"
  then have "body_holds (bodies s ! i) + body_holds (bodies s ! j) \<le> sum_list (map body_holds (bodies s))"
    using assms(2,3) by (intro sum_list_two_le)
  moreover have "body_holds (bodies s ! i) = 1" "body_holds (bodies s ! j) = 1"
    using assms(4,5) by (simp_all add: body_holds_eq)
  ultimately show False using assms(1) by (simp add: life_inv_def)
qed

text \<open>
  C8. However its creators interleave, at most one \<^verbatim>\<open>ThreadBody\<close> of an object is in the part
  from its first step to its last post, \<^verbatim>\<open>ThreadProc\<close> included.
\<close>

theorem one_body_at_a_time:
  assumes "reach life_init life_step s" and "i < length (bodies s)" and "j < length (bodies s)"
    and "bodies s ! i \<notin> {B_Remove, B_Exit}" and "bodies s ! j \<notin> {B_Remove, B_Exit}"
  shows "i = j"
  using one_holder [OF life_system.reach_inv [OF assms(1)] assms(2-)] .

text \<open>A concrete object and runs of it, for the witnesses and the failures below.\<close>

definition life0 :: life where
  "life0 = \<lparr>self = 1, mgr = no_threads (\<lambda>_. CEZThread_new (Posix 9) raw_thread ''w'' 64 0 0),
     callers = [C_Idle], bodies = [], failed = 0\<rparr>"

definition creates :: "life_action list" where
  "creates = [Create 0, Caller 0 good_os 0, Caller 0 good_os 0, Caller 0 good_os 0]"

definition enters :: "nat \<Rightarrow> life_action list" where
  "enters j = [Body j, Body j]"

lemma life0_init: "life_init life0"
  unfolding life_init_def
  by (intro conjI exI [of _ "Posix 9"] exI [of _ raw_thread] exI [of _ "''w''"] exI [of _ 64]
      exI [of _ 0]) (simp_all add: life0_def obj_def no_threads_def)

lemma life0_run: "life_run as life0 = Some t \<Longrightarrow> reach life_init life_step t"
  by (rule life_run_reach) (auto intro: reach_init life0_init)

lemmas life_eval =
  life0_def raw_thread_def creates_def enters_def good_os_def exhausted_os_def obj_def upd_obj_def upd_mgr_def
  caller_at_def body_at_def CEZThread_new_def Wait_def Post_def ThreadCreate_def
  ThreadCreate_request_def IsStoped_def Thread_SendMessage_def Thread_ClearMessage_def
  caller_id_def body_id_def no_threads_def AddThread_body_def RemoveThread_body_def set_prev_def
  set_next_def

definition in_proc :: "life_action list" where
  "in_proc = creates @ [Body 0, Body 0]"

lemma in_proc_run:
  "\<exists>t. life_run in_proc life0 = Some t \<and> bodies t = [B_Proc] \<and> callers t = [C_Idle]"
  by (simp add: in_proc_def life_eval)

theorem one_body_at_a_time_witness:
  "\<exists>t. life_run in_proc life0 = Some t \<and> bodies t = [B_Proc] \<and>
    (\<forall>j < 1. bodies t ! j \<notin> {B_Remove, B_Exit} \<longrightarrow> j = 0)"
proof -
  obtain t where t: "life_run in_proc life0 = Some t" "bodies t = [B_Proc]"
    using in_proc_run by blast
  have "j = 0" if "j < 1" "bodies t ! j \<notin> {B_Remove, B_Exit}" for j
    by (rule one_body_at_a_time [OF life0_run [OF t(1)]]) (use t that in auto)
  with t show ?thesis by blast
qed


definition destroys :: "life_action list" where
  "destroys = Destroy 0 True # replicate 6 (Caller 0 good_os 0)"

subsection \<open>Waiting for a thread that has ended by itself\<close>


lemma message_ops_fields [simp]:
  "m_desCEZSemaphore (snd (Thread_SendMessage now m w l p t)) = m_desCEZSemaphore t"
  "m_ID (snd (Thread_SendMessage now m w l p t)) = m_ID t"
  "m_bLoop (snd (Thread_SendMessage now m w l p t)) = m_bLoop t"
  by (auto simp: Thread_SendMessage_def split: option.splits prod.splits)


















lemma has_loop_cycle:
  assumes "nx x = Some x" and "y \<noteq> x"
  shows "has_loop nx y (Some x) = None"
proof (rule ccontr)
  assume "has_loop nx y (Some x) \<noteq> None"
  then obtain r where "has_loop nx y (Some x) = Some r" by auto
  then have "nx = nx \<longrightarrow> y = y \<longrightarrow> Some x \<noteq> Some x"
  proof (rule has_loop.raw_induct [where P = "\<lambda>nx' y' p _. nx' = nx \<longrightarrow> y' = y \<longrightarrow> p \<noteq> Some x"
      and xa = "((nx, y), Some x)" and y = r, unfolded prod.case, rotated])
    fix loop nx' y' p r
    assume IH: "\<And>nx' y' p r. loop nx' y' p = Some r \<Longrightarrow> nx' = nx \<longrightarrow> y' = y \<longrightarrow> p \<noteq> Some x"
      and "(case p of None \<Rightarrow> Some False
        | Some a \<Rightarrow> if a = y' then Some True else loop nx' y' (nx' a)) = Some r"
    then show "nx' = nx \<longrightarrow> y' = y \<longrightarrow> p \<noteq> Some x"
      using assms IH [of nx y "Some x" r] by (auto split: if_splits)
  qed
  then show False by simp
qed

definition recreated :: "life_action list" where
  "recreated = in_proc @ replicate 4 (Body 0) @ creates @ [Body 1, Body 1]"

text \<open>
  A thread may be created again as soon as its token is posted, before the old body has
  removed the object from the manager's list. The object is then added twice and the list
  is a cycle: \<^verbatim>\<open>HasThread\<close> of any other thread never returns.
\<close>

lemma recreated_list_cyclic:
  "\<exists>s. reach life_init life_step s \<and> bodies s = [B_Remove, B_Proc] \<and>
    (\<forall>y. y = self s \<or> HasThread y (mgr s) = None)"
proof -
  obtain t where t: "life_run recreated life0 = Some t" "bodies t = [B_Remove, B_Proc]"
      "m_pHead (mgr t) = Some (self t)" "nexts (mgr t) (self t) = Some (self t)"
    by (simp add: recreated_def in_proc_def eval_nat_numeral life_eval nexts_def)
  have "y = self t \<or> HasThread y (mgr t) = None" for y
    using has_loop_cycle [of "nexts (mgr t)" "self t" y] t(3,4)
    by (cases "y = self t") (simp_all add: HasThread_def nexts_def [abs_def])
  then show ?thesis using life0_run [OF t(1)] t(2) by (intro exI [of _ t]) simp
qed

definition third_life :: "life_action list" where
  "third_life = in_proc @ destroys @ replicate 6 (Body 0) @ [Caller 0 good_os 0] @
     creates @ replicate 8 (Body 1) @ creates @ [Body 2, Body 2]"

text \<open>
  \<^verbatim>\<open>m_bWaitThreadExit\<close> is never reset, so the next body that ends by itself posts a
  token for nobody; with it a later \<^verbatim>\<open>DestroyThread(TRUE)\<close> returns while \<^verbatim>\<open>ThreadProc\<close> is
  still running, although it is asked to wait for the end of the thread.
\<close>

lemma destroy_returns_early:
  "\<exists>s t. reach life_init life_step s \<and> bodies s = [B_Exit, B_Exit, B_Proc] \<and>
    callers s = [C_Idle] \<and> life_run (destroys @ [Caller 0 good_os 0]) s = Some t \<and>
    bodies t = [B_Exit, B_Exit, B_Proc] \<and> callers t = [C_Idle]"
proof -
  have "\<exists>s t. life_run third_life life0 = Some s \<and> bodies s = [B_Exit, B_Exit, B_Proc] \<and>
      callers s = [C_Idle] \<and> life_run (destroys @ [Caller 0 good_os 0]) s = Some t \<and>
      bodies t = [B_Exit, B_Exit, B_Proc] \<and> callers t = [C_Idle]"
    by (simp add: third_life_def in_proc_def destroys_def eval_nat_numeral life_eval)
  then show ?thesis using life0_run by blast
qed

end
