(* ===== verification/ThreadDelete.thy ===== *)
theory ThreadDelete
  imports ThreadLife
begin

section \<open>Deleting a thread object\<close>

text \<open>
  \<^verbatim>\<open>CEZThread::~CEZThread\<close> of \<^verbatim>\<open>src/EZThread.cpp\<close>, run by one of the callers of \<open>ThreadLife\<close>
  among all the others. It asks a thread that was ever created to end, does not wait for
  it, and deletes the queue and the name; then the memory of the object is given back. A
  step that reads or writes the object or its queue after that leaves what C++ defines:
  \<open>wild\<close> is set and nothing else is said of it.
\<close>

subsection \<open>Steps\<close>

datatype del_pc =
    X_Alive          \<comment> \<open>not being deleted\<close>
  | X_Test nat       \<comment> \<open>caller \<open>i\<close> is in the destructor, before \<^verbatim>\<open>if (m_hThread)\<close>\<close>
  | X_Destroy nat    \<comment> \<open>in \<^verbatim>\<open>DestroyThread()\<close>\<close>
  | X_Queue nat      \<comment> \<open>before \<^verbatim>\<open>delete m_pMsgQue\<close>\<close>
  | X_Name nat       \<comment> \<open>before \<^verbatim>\<open>delete m_pStrThreadName\<close>, the last use of the object\<close>
  | X_Gone           \<comment> \<open>the memory has been given back\<close>

record owned =
  lf :: life
  del :: del_pc
  wild :: bool

datatype del_action =
    Life life_action
  | Delete nat       \<comment> \<open>caller \<open>i\<close> deletes the object\<close>
  | Del              \<comment> \<open>the next step of the destructor\<close>

text \<open>Whether caller \<open>i\<close> is in the destructor, outside \<^verbatim>\<open>DestroyThread\<close>.\<close>

fun deleting :: "nat \<Rightarrow> del_pc \<Rightarrow> bool" where
  "deleting i (X_Test k) = (k = i)"
| "deleting i (X_Destroy k) = (k = i)"
| "deleting i (X_Queue k) = (k = i)"
| "deleting i (X_Name k) = (k = i)"
| "deleting i _ = False"

text \<open>A step that starts a call; the caller in the destructor starts none.\<close>

fun starts_call :: "life_action \<Rightarrow> nat option" where
  "starts_call (Create i) = Some i"
| "starts_call (Destroy i b) = Some i"
| "starts_call _ = None"

text \<open>A step in \<^verbatim>\<open>SendMessage\<close> or \<^verbatim>\<open>ClearMessage\<close> of the queue.\<close>

fun uses_queue :: "life_action \<Rightarrow> life \<Rightarrow> bool" where
  "uses_queue (Caller i os now) l \<longleftrightarrow> i < length (callers l) \<and> callers l ! i \<in> {D_Send False, D_Send True}"
| "uses_queue (Body j) l \<longleftrightarrow> j < length (bodies l) \<and> bodies l ! j = B_Clear"
| "uses_queue _ l \<longleftrightarrow> False"

definition touches_freed :: "life_action \<Rightarrow> owned \<Rightarrow> bool" where
  "touches_freed a s \<longleftrightarrow>
     (case del s of
        X_Gone \<Rightarrow> True
      | X_Name _ \<Rightarrow> m_pMsgQue (obj (lf s)) \<noteq> None \<and> uses_queue a (lf s)
      | _ \<Rightarrow> False)"

definition CEZThread_delete_step :: "owned \<Rightarrow> owned option" where
  "CEZThread_delete_step s =
     (case del s of
        X_Test i \<Rightarrow>
          if m_hThread (obj (lf s)) \<noteq> None
          then map_option (\<lambda>l. s\<lparr>lf := l, del := X_Destroy i\<rparr>) (life_exec (Destroy i False) (lf s))
          else Some (s\<lparr>del := X_Queue i\<rparr>)
      | X_Destroy i \<Rightarrow> if callers (lf s) ! i = C_Idle then Some (s\<lparr>del := X_Queue i\<rparr>) else None
      | X_Queue i \<Rightarrow> Some (s\<lparr>del := X_Name i\<rparr>)
      | X_Name i \<Rightarrow> Some (s\<lparr>del := X_Gone\<rparr>)
      | _ \<Rightarrow> None)"

fun del_exec :: "del_action \<Rightarrow> owned \<Rightarrow> owned option" where
  "del_exec (Life a) s =
     (if (case starts_call a of None \<Rightarrow> False | Some i \<Rightarrow> deleting i (del s)) then None
      else case life_exec a (lf s) of
             None \<Rightarrow> None
           | Some l \<Rightarrow> Some (if touches_freed a s then s\<lparr>wild := True\<rparr> else s\<lparr>lf := l\<rparr>))"
| "del_exec (Delete i) s =
     (if del s = X_Alive \<and> i < length (callers (lf s)) \<and> callers (lf s) ! i = C_Idle
      then Some (s\<lparr>del := X_Test i\<rparr>) else None)"
| "del_exec Del s = CEZThread_delete_step s"

fun del_run :: "del_action list \<Rightarrow> owned \<Rightarrow> owned option" where
  "del_run [] s = Some s"
| "del_run (a # as) s = Option.bind (del_exec a s) (del_run as)"

definition del_step :: "owned \<Rightarrow> owned \<Rightarrow> bool" where
  "del_step s t \<longleftrightarrow> (\<exists>a. del_exec a s = Some t)"

definition del_init :: "owned \<Rightarrow> bool" where
  "del_init s \<longleftrightarrow> life_init (lf s) \<and> del s = X_Alive \<and> \<not> wild s"

lemma del_run_reach:
  "reach del_init del_step s \<Longrightarrow> del_run as s = Some t \<Longrightarrow> reach del_init del_step t"
proof (induction as arbitrary: s)
  case (Cons a as)
  then obtain u where u: "del_exec a s = Some u" "del_run as u = Some t"
    by (auto simp: bind_eq_Some_conv)
  then have "del_step s u" by (auto simp: del_step_def)
  then show ?case using Cons.IH [OF reach_step [OF Cons.prems(1)]] u(2) by blast
qed simp

subsection \<open>Deleting a thread that has exited\<close>

text \<open>
  From here on the client makes no more calls: the destructor goes on, and whatever is left
  of calls and threads.
\<close>

definition quiet_step :: "owned \<Rightarrow> owned \<Rightarrow> bool" where
  "quiet_step s t \<longleftrightarrow>
     (\<exists>a. (case a of Life b \<Rightarrow> starts_call b = None | Delete _ \<Rightarrow> False | Del \<Rightarrow> True) \<and> del_exec a s = Some t)"

text \<open>The steps left to the destructor run by caller \<open>i\<close>.\<close>

fun destroy_left :: "caller_pc \<Rightarrow> nat" where
  "destroy_left (D_Check b) = 6"
| "destroy_left (D_Loop b) = 5"
| "destroy_left (D_Send b) = 4"
| "destroy_left (D_Self b) = 3"
| "destroy_left (D_Flag b) = 2"
| "destroy_left D_Test = 1"
| "destroy_left _ = 0"

definition delete_left :: "owned \<Rightarrow> nat" where
  "delete_left s =
     (case del s of X_Alive \<Rightarrow> 11 | X_Test _ \<Rightarrow> 10 | X_Destroy i \<Rightarrow> 3 + destroy_left (callers (lf s) ! i)
      | X_Queue _ \<Rightarrow> 2 | X_Name _ \<Rightarrow> 1 | X_Gone \<Rightarrow> 0)"

fun no_wait :: "life \<Rightarrow> caller_pc \<Rightarrow> bool" where
  "no_wait l D_Test \<longleftrightarrow> \<not> m_bWaitThreadExit (obj l)"
| "no_wait l p \<longleftrightarrow> p \<in> {C_Idle, D_Check False, D_Loop False, D_Send False, D_Self False, D_Flag False}"

definition quiet :: "nat \<Rightarrow> owned \<Rightarrow> bool" where
  "quiet i s \<longleftrightarrow> i < length (callers (lf s)) \<and> \<not> wild s \<and> (\<forall>p \<in> set (bodies (lf s)). p = B_Exit) \<and>
     (\<forall>k < length (callers (lf s)). k \<noteq> i \<longrightarrow> callers (lf s) ! k = C_Idle) \<and>
     del s \<in> {X_Test i, X_Destroy i, X_Queue i, X_Name i, X_Gone} \<and>
     (if del s = X_Destroy i then no_wait (lf s) (callers (lf s) ! i) else callers (lf s) ! i = C_Idle)"

lemma quiet_body:
  assumes "quiet i s"
  shows "life_exec (Body j) (lf s) = None"
proof (cases "j < length (bodies (lf s))")
  case True
  then have "bodies (lf s) ! j = B_Exit" using assms by (simp add: quiet_def)
  then show ?thesis by simp
qed simp

lemma quiet_caller:
  assumes "quiet i s" and "life_exec (Caller k os now) (lf s) = Some l"
  shows "k = i \<and> del s = X_Destroy i \<and> quiet i (s\<lparr>lf := l\<rparr>) \<and>
    destroy_left (callers l ! i) < destroy_left (callers (lf s) ! i)"
proof -
  have k: "k < length (callers (lf s))" using assms(2) by (simp split: if_splits)
  have "k = i" using assms k by (cases "k = i") (auto simp: quiet_def)
  moreover have d: "del s = X_Destroy i"
    using assms \<open>k = i\<close> k by (cases "del s = X_Destroy i") (auto simp: quiet_def)
  moreover have "no_wait (lf s) (callers (lf s) ! i)" using assms(1) d by (simp add: quiet_def)
  ultimately show ?thesis using assms k
    by (cases "callers (lf s) ! i") (auto simp: quiet_def)
qed

lemma quiet_del:
  assumes "quiet i s" and "CEZThread_delete_step s = Some t"
  shows "quiet i t \<and> delete_left t < delete_left s"
  using assms
  by (cases "del s") (auto simp: CEZThread_delete_step_def quiet_def delete_left_def caller_at_def obj_def split: if_splits)

lemma quiet_keeps:
  assumes "quiet_step s t" and "quiet i s"
  shows "quiet i t \<and> delete_left t < delete_left s"
proof -
  obtain a where a: "(case a of Life b \<Rightarrow> starts_call b = None | Delete _ \<Rightarrow> False | Del \<Rightarrow> True)"
      "del_exec a s = Some t"
    using assms(1) by (auto simp: quiet_step_def)
  show ?thesis
  proof (cases a)
    case (Life b)
    then obtain l where l: "life_exec b (lf s) = Some l"
        "t = (if touches_freed b s then s\<lparr>wild := True\<rparr> else s\<lparr>lf := l\<rparr>)"
      using a(2) by (auto split: if_splits option.splits)
    have "b \<noteq> Body j" for j using quiet_body [OF assms(2)] l(1) by (cases b) auto
    then obtain k os now where b: "b = Caller k os now" using a(1) Life by (cases b) auto
    note c = quiet_caller [OF assms(2) l(1) [unfolded b]]
    then have "\<not> touches_freed b s" by (simp add: touches_freed_def)
    then show ?thesis using c l(2) by (auto simp: delete_left_def)
  qed (use a assms(2) quiet_del in auto)
qed

lemma quiet_progress:
  assumes "quiet i s" and "del s \<noteq> X_Gone"
  shows "\<exists>t. quiet_step s t"
proof -
  have i: "i < length (callers (lf s))" using assms(1) by (simp add: quiet_def)
  have go: "\<exists>t. quiet_step s t" if d: "CEZThread_delete_step s \<noteq> None"
  proof -
    obtain t where "del_exec Del s = Some t" using d by auto
    then have "quiet_step s t" unfolding quiet_step_def by (intro exI [of _ Del]) simp
    then show ?thesis ..
  qed
  show ?thesis
  proof (cases "del s = X_Destroy i \<and> callers (lf s) ! i \<noteq> C_Idle")
    case True
    then have d: "del s = X_Destroy i" "callers (lf s) ! i \<noteq> C_Idle" by simp_all
    then have "no_wait (lf s) (callers (lf s) ! i)" using assms(1) by (simp add: quiet_def)
    then have "life_exec (Caller i good_os 0) (lf s) \<noteq> None"
      using d(2) i by (cases "callers (lf s) ! i") auto
    then obtain l where "del_exec (Life (Caller i good_os 0)) s = Some (s\<lparr>lf := l\<rparr>)"
      using d(1) by (auto simp: touches_freed_def)
    then show ?thesis by (auto simp: quiet_step_def intro!: exI [of _ "Life (Caller i good_os 0)"])
  next
    case False
    then show ?thesis using assms i by (intro go) (auto simp: quiet_def CEZThread_delete_step_def)
  qed
qed

lemma quiet_run:
  assumes "(quiet_step ^^ n) s t" and "quiet i s"
  shows "quiet i t \<and> n + delete_left t \<le> delete_left s"
  using assms
proof (induction n arbitrary: t)
  case (Suc n)
  then obtain u where u: "(quiet_step ^^ n) s u" "quiet_step u t" by auto
  show ?case using Suc.IH [OF u(1) Suc.prems(2)] quiet_keeps [OF u(2)] by fastforce
qed simp

text \<open>
  C28. An object may be deleted when every thread it was given has ended and nobody is in a call
  of it or makes one: whatever is scheduled, \<^verbatim>\<open>CEZThread::~CEZThread\<close> gets to its end in
  at most ten steps, never waits, and nobody touches the object after it is gone.
\<close>

theorem delete_after_exit_safe:
  assumes "reach del_init del_step s" and "\<not> wild s" and "\<forall>p \<in> set (bodies (lf s)). p = B_Exit"
    and "\<forall>p \<in> set (callers (lf s)). p = C_Idle" and "del_exec (Delete i) s = Some s'"
    and "(quiet_step ^^ n) s' t"
  shows "n \<le> 10 \<and> \<not> wild t \<and> (del t = X_Gone \<or> (\<exists>u. quiet_step t u))"
proof -
  have s': "s' = s\<lparr>del := X_Test i\<rparr>" "i < length (callers (lf s))"
    using assms(5) by (simp_all split: if_splits)
  then have "quiet i s'" using assms(2-4) by (auto simp: quiet_def)
  from quiet_run [OF assms(6) this] show ?thesis
    using quiet_progress s'(1) by (auto simp: delete_left_def quiet_def)
qed

subsection \<open>Concrete runs\<close>

definition owned0 :: owned where
  "owned0 = \<lparr>lf = life0, del = X_Alive, wild = False\<rparr>"

lemma owned0_run: "del_run as owned0 = Some t \<Longrightarrow> reach del_init del_step t"
  by (rule del_run_reach [of owned0]) (auto intro: reach_init simp: del_init_def owned0_def life0_init)

text \<open>The thread ends by itself, and is then deleted.\<close>

definition exited :: "del_action list" where
  "exited = map Life (in_proc @ replicate 5 (Body 0))"

lemma exited_eq:
  "map_option (\<lambda>s. (wild s, bodies (lf s), callers (lf s), del s)) (del_run exited owned0) =
    Some (False, [B_Exit], [C_Idle], X_Alive)"
  by code_simp

theorem delete_after_exit_safe_witness:
  "\<exists>s. del_run exited owned0 = Some s \<and>
    (\<exists>u. quiet_step (s\<lparr>del := X_Test 0\<rparr>) u)"
proof -
  obtain s where s: "del_run exited owned0 = Some s" "\<not> wild s" "bodies (lf s) = [B_Exit]"
      "callers (lf s) = [C_Idle]" "del s = X_Alive"
    using exited_eq by (auto simp: map_option_eq_Some)
  have "del_exec (Delete 0) s = Some (s\<lparr>del := X_Test 0\<rparr>)" using s(4,5) by simp
  then show ?thesis
    using delete_after_exit_safe [OF owned0_run [OF s(1)] s(2), of 0 "s\<lparr>del := X_Test 0\<rparr>" 0 "s\<lparr>del := X_Test 0\<rparr>"]
      s by auto
qed

text \<open>
  A thread in \<^verbatim>\<open>ThreadProc\<close> is deleted; and a thread is destroyed by \<^verbatim>\<open>DestroyThread(TRUE)\<close>, which
  returns, and then deleted.
\<close>

definition delete_running :: "del_action list" where
  "delete_running = map Life in_proc @ [Delete 0, Del] @
     replicate 6 (Life (Caller 0 good_os 0)) @ [Del, Del, Del]"

definition delete_destroyed :: "del_action list" where
  "delete_destroyed = map Life (in_proc @ destroys @ replicate 4 (Body 0) @ [Caller 0 good_os 0]) @
     [Delete 0, Del, Life (Caller 0 good_os 0), Del, Del, Del]"

lemma delete_runs_eq:
  "map_option (\<lambda>s. (wild s, bodies (lf s), del s, map_option wild (del_exec (Life (Body 0)) s)))
    (del_run delete_running owned0) = Some (False, [B_Proc], X_Gone, Some True)"
  "map_option (\<lambda>s. (wild s, bodies (lf s), del s, map_option wild (del_exec (Life (Body 0)) s)))
    (del_run delete_destroyed owned0) = Some (False, [B_PostC], X_Gone, Some True)"
  by code_simp+

text \<open>
  C33. The destructor does not wait for the thread: \<^verbatim>\<open>delete\<close> of a running thread leaves it running
  on freed memory. \<^verbatim>\<open>DestroyThread(TRUE)\<close> before \<^verbatim>\<open>delete\<close> does not help: it returns as soon as
  \<^verbatim>\<open>m_desCEZSemaphore\<close> is posted, after which \<^verbatim>\<open>ThreadBody\<close> still posts \<^verbatim>\<open>m_cCEZSemaphore\<close> and
  takes the object off the manager's list.
\<close>

theorem delete_dangles:
  "(\<exists>s t. reach del_init del_step s \<and> del s = X_Gone \<and> \<not> wild s \<and> bodies (lf s) = [B_Proc] \<and>
      del_exec (Life (Body 0)) s = Some t \<and> wild t) \<and>
   (\<exists>s t. del_run delete_destroyed owned0 = Some s \<and> reach del_init del_step s \<and> del s = X_Gone \<and>
      \<not> wild s \<and> bodies (lf s) = [B_PostC] \<and> del_exec (Life (Body 0)) s = Some t \<and> wild t)"
  using delete_runs_eq owned0_run by (fastforce simp: map_option_eq_Some)

end
