(* ===== verification/SemLock.thy ===== *)
theory SemLock
  imports Sync
begin

section \<open>Adding under a lock\<close>

text \<open>
  \<^verbatim>\<open>tutorial_libezthread/SemaphoreMutexLock.cpp\<close>: a scope \<^verbatim>\<open>SemCLock\<close> over a semaphore, the
  counterpart of \<^verbatim>\<open>CEZLock\<close> over a mutex, and two overloads of \<^verbatim>\<open>lock\<close> that add to a global
  \<^verbatim>\<open>int\<close> inside such a scope. \<^verbatim>\<open>main\<close> runs each of them \<^verbatim>\<open>LOCK_TIMES_FOR_TEST\<close> times. Here both
  are given as one thread runs them and then as any number of threads do, \<^verbatim>\<open>val += i\<close> being
  a read and a write. \<^verbatim>\<open>SemCLock\<close> does not look at the result of \<^verbatim>\<open>Wait\<close>.
\<close>

subsection \<open>The scopes and \<^verbatim>\<open>lock\<close>\<close>

datatype lk = Sem_Lk CEZSemaphore | Mutex_Lk CEZMutex

text \<open>The constructors and the destructors of \<^verbatim>\<open>SemCLock\<close> and \<^verbatim>\<open>CEZLock\<close>.\<close>

fun lk_enter :: "tid \<Rightarrow> lk \<Rightarrow> lk outcome" where
  "lk_enter t (Sem_Lk s) = obind (Wait s) (\<lambda>(_, s). Done (Sem_Lk s))"
| "lk_enter t (Mutex_Lk m) = obind (Lock t m) (\<lambda>m. Done (Mutex_Lk m))"

fun lk_leave :: "tid \<Rightarrow> lk \<Rightarrow> lk outcome" where
  "lk_leave t (Sem_Lk s) = Done (Sem_Lk (snd (Post s)))"
| "lk_leave t (Mutex_Lk m) = obind (Unlock t m) (\<lambda>m. Done (Mutex_Lk m))"

text \<open>\<^verbatim>\<open>val += i\<close> on \<^verbatim>\<open>int\<close>s of 32 bits: an overflow is undefined.\<close>

definition add_int :: "int \<Rightarrow> int \<Rightarrow> int outcome" where
  "add_int v i = (if - (2 ^ 31) \<le> v + i \<and> v + i < 2 ^ 31 then Done (v + i) else Undefined)"

text \<open>\<^verbatim>\<open>lock(m, i)\<close> and \<^verbatim>\<open>lock(s, i)\<close>.\<close>

definition lock_add :: "tid \<Rightarrow> int \<Rightarrow> lk \<times> int \<Rightarrow> (lk \<times> int) outcome" where
  "lock_add t i x =
     obind (lk_enter t (fst x)) (\<lambda>l.
     obind (add_int (snd x) i) (\<lambda>v.
     obind (lk_leave t l) (\<lambda>l. Done (l, v))))"

text \<open>The loop of \<^verbatim>\<open>main\<close>, with \<open>n\<close> rounds left from \<open>i\<close> on.\<close>

fun lock_loop :: "tid \<Rightarrow> nat \<Rightarrow> nat \<Rightarrow> lk \<times> int \<Rightarrow> (lk \<times> int) outcome" where
  "lock_loop t i 0 x = Done x"
| "lock_loop t i (Suc n) x = obind (lock_add t (int i) x) (lock_loop t (Suc i) n)"

definition LOCK_TIMES_FOR_TEST :: nat where
  "LOCK_TIMES_FOR_TEST = 1000000000"

definition lock_main :: "platform \<Rightarrow> tid \<Rightarrow> (lk \<times> int) outcome" where
  "lock_main p t =
     obind (lock_loop t 0 LOCK_TIMES_FOR_TEST (Sem_Lk (CEZSemaphore_new p 1), 0)) (\<lambda>(_, v).
     lock_loop t 0 LOCK_TIMES_FOR_TEST (Mutex_Lk (CEZMutex_new p MUTEX_FAST), v))"

subsection \<open>Many threads\<close>

datatype adder_pc =
    A_Idle
  | A_Enter int       \<comment> \<open>in \<^verbatim>\<open>lock(_, i)\<close>, before the constructor of the scope\<close>
  | A_Read int        \<comment> \<open>inside, before \<^verbatim>\<open>val\<close> is read\<close>
  | A_Write int int   \<comment> \<open>\<^verbatim>\<open>val\<close> has been read\<close>
  | A_Leave           \<comment> \<open>before the destructor\<close>

text \<open>
  \<open>added\<close> is the history of the numbers whose addition is done, \<open>ub\<close> whether an addition
  has overflowed, after which the behaviour is undefined.
\<close>

record 'l adders =
  the_lock :: 'l
  val :: int
  adders :: "adder_pc list"
  added :: "int list"
  ub :: bool

definition adder_at :: "nat \<Rightarrow> adder_pc \<Rightarrow> 'l adders \<Rightarrow> 'l adders" where
  "adder_at t p s = s\<lparr>adders := (adders s)[t := p]\<rparr>"

fun adder_step ::
    "(tid \<Rightarrow> 'l \<Rightarrow> 'l outcome) \<Rightarrow> (tid \<Rightarrow> 'l \<Rightarrow> 'l outcome) \<Rightarrow> nat \<Rightarrow> adder_pc \<Rightarrow> 'l adders \<Rightarrow> 'l adders option" where
  "adder_step enter leave t A_Idle s = None"
| "adder_step enter leave t (A_Enter i) s =
     (case enter t (the_lock s) of
        Done l \<Rightarrow> Some (adder_at t (A_Read i) (s\<lparr>the_lock := l\<rparr>)) | _ \<Rightarrow> None)"
| "adder_step enter leave t (A_Read i) s = Some (adder_at t (A_Write i (val s)) s)"
| "adder_step enter leave t (A_Write i v) s =
     (case add_int v i of
        Done w \<Rightarrow> Some (adder_at t A_Leave (s\<lparr>val := w, added := added s @ [i]\<rparr>))
      | _ \<Rightarrow> Some (s\<lparr>ub := True\<rparr>))"
| "adder_step enter leave t A_Leave s =
     (case leave t (the_lock s) of
        Done l \<Rightarrow> Some (adder_at t A_Idle (s\<lparr>the_lock := l\<rparr>)) | _ \<Rightarrow> None)"

datatype adder_action = Call_Lock nat int | Step_Lock nat

fun adder_exec ::
    "(tid \<Rightarrow> 'l \<Rightarrow> 'l outcome) \<Rightarrow> (tid \<Rightarrow> 'l \<Rightarrow> 'l outcome) \<Rightarrow> adder_action \<Rightarrow> 'l adders \<Rightarrow> 'l adders option" where
  "adder_exec enter leave (Call_Lock t i) s =
     (if t < length (adders s) \<and> adders s ! t = A_Idle then Some (adder_at t (A_Enter i) s) else None)"
| "adder_exec enter leave (Step_Lock t) s =
     (if t < length (adders s) then adder_step enter leave t (adders s ! t) s else None)"

definition adder_next ::
    "(tid \<Rightarrow> 'l \<Rightarrow> 'l outcome) \<Rightarrow> (tid \<Rightarrow> 'l \<Rightarrow> 'l outcome) \<Rightarrow> 'l adders \<Rightarrow> 'l adders \<Rightarrow> bool" where
  "adder_next enter leave s t \<longleftrightarrow> (\<exists>a. adder_exec enter leave a s = Some t)"

fun inside :: "adder_pc \<Rightarrow> bool" where
  "inside (A_Read i) = True"
| "inside (A_Write i v) = True"
| "inside A_Leave = True"
| "inside _ = False"

subsection \<open>What makes a scope exclusive\<close>

text \<open>
  A lock is free or taken by a thread. Both kinds of lock keep the laws, although a
  semaphore does not know who has taken it.
\<close>

locale exclusive_scope =
  fixes enter :: "tid \<Rightarrow> 'l \<Rightarrow> 'l outcome"
    and leave :: "tid \<Rightarrow> 'l \<Rightarrow> 'l outcome"
    and free :: "'l \<Rightarrow> bool"
    and taken :: "tid \<Rightarrow> 'l \<Rightarrow> bool"
  assumes enter_free: "free l \<Longrightarrow> \<exists>l'. enter t l = Done l' \<and> taken t l'"
    and enter_taken: "taken t l \<Longrightarrow> u \<noteq> t \<Longrightarrow> enter u l = Blocked"
    and leave_taken: "taken t l \<Longrightarrow> \<exists>l'. leave t l = Done l' \<and> free l'"
begin

definition exclusive :: "'l adders \<Rightarrow> bool" where
  "exclusive s \<longleftrightarrow>
     (free (the_lock s) \<and> (\<forall>t < length (adders s). \<not> inside (adders s ! t))) \<or>
     (\<exists>t < length (adders s). taken t (the_lock s) \<and> inside (adders s ! t) \<and>
        (\<forall>u < length (adders s). u \<noteq> t \<longrightarrow> \<not> inside (adders s ! u)))"

definition adders_inv :: "int \<Rightarrow> 'l adders \<Rightarrow> bool" where
  "adders_inv v0 s \<longleftrightarrow> ub s \<or>
     exclusive s \<and> val s = v0 + sum_list (added s) \<and>
     (\<forall>t < length (adders s). \<forall>i v. adders s ! t = A_Write i v \<longrightarrow> v = val s)"

lemma exclusive_inside:
  assumes "exclusive s" and "t < length (adders s)" and "inside (adders s ! t)"
  shows "taken t (the_lock s)" and "\<forall>u < length (adders s). u \<noteq> t \<longrightarrow> \<not> inside (adders s ! u)"
  using assms by (auto simp: exclusive_def)

lemma exclusive_outside:
  assumes "exclusive s" and "t < length (adders s)" and "\<not> inside p" and "\<not> inside (adders s ! t)"
  shows "exclusive (adder_at t p s)"
  using assms unfolding exclusive_def by (auto simp: adder_at_def nth_list_update)

lemma exclusive_stay:
  assumes "exclusive s" and "t < length (adders s)" and "inside p" and "inside (adders s ! t)"
  shows "exclusive (adder_at t p (s\<lparr>val := v, added := a\<rparr>))" "exclusive (adder_at t p s)"
  using exclusive_inside [OF assms(1,2,4)] assms(2,3)
  by (auto simp: exclusive_def adder_at_def nth_list_update intro!: disjI2 exI [of _ t])

lemma exclusive_enter:
  assumes "exclusive s" and "t < length (adders s)" and "\<not> inside (adders s ! t)"
    and "enter t (the_lock s) = Done l" and "inside p"
  shows "exclusive (adder_at t p (s\<lparr>the_lock := l\<rparr>))"
proof -
  have f: "free (the_lock s)" "\<forall>u < length (adders s). \<not> inside (adders s ! u)"
  proof -
    have "\<not> taken u (the_lock s)" if "u \<noteq> t" for u
      using enter_taken [OF _ that [symmetric], of "the_lock s"] assms(4) by auto
    then have "free (the_lock s) \<and> (\<forall>u < length (adders s). \<not> inside (adders s ! u))"
      using assms(1,3) unfolding exclusive_def by metis
    then show "free (the_lock s)" "\<forall>u < length (adders s). \<not> inside (adders s ! u)" by simp_all
  qed
  then have "taken t l" using enter_free [OF f(1), of t] assms(4) by auto
  then show ?thesis using assms(2,5) f(2)
    by (auto simp: exclusive_def adder_at_def nth_list_update intro!: disjI2 exI [of _ t])
qed

lemma exclusive_leave:
  assumes "exclusive s" and "t < length (adders s)" and "inside (adders s ! t)"
    and "leave t (the_lock s) = Done l"
  shows "exclusive (adder_at t A_Idle (s\<lparr>the_lock := l\<rparr>))"
  using exclusive_inside [OF assms(1-3)] leave_taken [of t "the_lock s"] assms(2,4)
  by (auto simp: exclusive_def adder_at_def nth_list_update intro!: disjI1)

lemma adder_fields [simp]:
  "val (adder_at t p s) = val s" "added (adder_at t p s) = added s" "ub (adder_at t p s) = ub s"
  "adders (adder_at t p s) = (adders s)[t := p]"
  by (simp_all add: adder_at_def)

lemma adders_inv_step:
  assumes "adder_exec enter leave a s = Some s'" and "adders_inv v0 s"
  shows "adders_inv v0 s'"
proof (cases "ub s")
  case True
  then have "ub s'" using assms(1)
    by (cases a; cases "adders s ! (case a of Call_Lock t _ \<Rightarrow> t | Step_Lock t \<Rightarrow> t)")
      (auto split: if_splits outcome.splits)
  then show ?thesis by (simp add: adders_inv_def)
next
  case False
  then have s: "exclusive s" "val s = v0 + sum_list (added s)"
      "\<forall>t < length (adders s). \<forall>i v. adders s ! t = A_Write i v \<longrightarrow> v = val s"
    using assms(2) False unfolding adders_inv_def by blast+
  show ?thesis
  proof (cases a)
    case (Call_Lock t i)
    then have "t < length (adders s)" "s' = adder_at t (A_Enter i) s" "adders s ! t = A_Idle"
      using assms(1) by (simp_all split: if_splits)
    then show ?thesis using s exclusive_outside [OF s(1), of t "A_Enter i"]
      by (auto simp: adders_inv_def nth_list_update split: if_splits)
  next
    case (Step_Lock t)
    then have t: "t < length (adders s)" and st: "adder_step enter leave t (adders s ! t) s = Some s'"
      using assms(1) by (simp_all split: if_splits)
    note t' = exclusive_inside [OF s(1) t]
    show ?thesis
    proof (cases "adders s ! t")
      case (A_Enter i)
      then show ?thesis using st s t exclusive_enter [OF s(1) t, of _ "A_Read i"]
        by (auto simp: adders_inv_def nth_list_update split: outcome.splits if_splits)
    next
      case (A_Read i)
      then show ?thesis using st s t exclusive_stay [OF s(1) t, of "A_Write i (val s)"]
        by (auto simp: adders_inv_def nth_list_update split: if_splits)
    next
      case (A_Write i v)
      then have "\<forall>u < length (adders s). u \<noteq> t \<longrightarrow> \<not> inside (adders s ! u)" using t'(2) by simp
      then have "\<forall>u < length (adders s). u \<noteq> t \<longrightarrow> (\<forall>i v. adders s ! u \<noteq> A_Write i v)" by force
      then show ?thesis using st s t exclusive_stay [OF s(1) t, of A_Leave] A_Write
        by (auto simp: adders_inv_def nth_list_update add_int_def split: if_splits)
    next
      case A_Leave
      then show ?thesis using st s t exclusive_leave [OF s(1) t]
        by (auto simp: adders_inv_def nth_list_update split: outcome.splits if_splits)
    qed (use st in simp)
  qed
qed

text \<open>As long as a thread is in a call, some thread can make a step.\<close>

lemma adders_progress:
  assumes "exclusive s" and "t < length (adders s)" and "adders s ! t \<noteq> A_Idle"
  shows "\<exists>u s'. adder_exec enter leave (Step_Lock u) s = Some s'"
proof (cases "\<exists>u < length (adders s). inside (adders s ! u)")
  case True
  then obtain u where u: "u < length (adders s)" "inside (adders s ! u)" by blast
  have "adder_step enter leave u (adders s ! u) s \<noteq> None"
    using u exclusive_inside(1) [OF assms(1) u] leave_taken [of u "the_lock s"]
    by (cases "adders s ! u") (auto split: outcome.splits)
  then show ?thesis using u(1) by (intro exI [of _ u]) auto
next
  case False
  then have "free (the_lock s)" using assms(1) by (auto simp: exclusive_def)
  moreover obtain i where "adders s ! t = A_Enter i"
    using False assms(2,3) by (cases "adders s ! t") auto
  ultimately show ?thesis using assms(2) enter_free [of "the_lock s" t]
    by (intro exI [of _ t]) auto
qed

end

subsection \<open>Both locks are exclusive\<close>

fun lk_free :: "lk \<Rightarrow> bool" where
  "lk_free (Sem_Lk s) \<longleftrightarrow> sem_ok s \<and> sem_value s = 1"
| "lk_free (Mutex_Lk m) \<longleftrightarrow> mutex_ok m \<and> mtx_owner m = None"

fun lk_taken :: "tid \<Rightarrow> lk \<Rightarrow> bool" where
  "lk_taken t (Sem_Lk s) \<longleftrightarrow> sem_ok s \<and> sem_value s = 0 \<and> 1 \<le> sem_max s"
| "lk_taken t (Mutex_Lk m) \<longleftrightarrow> mutex_ok m \<and> mtx_owner m = Some t \<and> mtx_depth m = 1"

interpretation lk_scope: exclusive_scope lk_enter lk_leave lk_free lk_taken
proof (unfold_locales, goal_cases)
  case (1 l t)
  then show ?case
    by (cases l) (auto simp: Wait_def sem_ok_def Lock_def mutex_ok_def)
next
  case (2 t l u)
  then show ?case by (cases l) (auto simp: Wait_def sem_ok_def Lock_def)
next
  case (3 t l)
  then show ?case by (cases l) (auto simp: Post_def sem_ok_def Unlock_def mutex_ok_def)
qed

lemma lk_leave_enter: "lk_free l \<Longrightarrow> lk_enter t l = Done l' \<Longrightarrow> lk_leave t l' = Done l"
  by (cases l) (auto simp: Wait_def Post_def sem_ok_def Lock_def Unlock_def mutex_ok_def split: if_splits)

definition adders_init :: "int \<Rightarrow> lk adders \<Rightarrow> bool" where
  "adders_init v0 s \<longleftrightarrow>
     (\<exists>p. (case p of Posix k \<Rightarrow> 1 \<le> k | Win32 \<Rightarrow> True) \<and>
       the_lock s \<in> {Sem_Lk (CEZSemaphore_new p 1), Mutex_Lk (CEZMutex_new p MUTEX_FAST)}) \<and>
     (\<forall>p \<in> set (adders s). p = A_Idle) \<and> val s = v0 \<and> added s = [] \<and> \<not> ub s"

lemma new_lk_free:
  assumes "case p of Posix k \<Rightarrow> 1 \<le> k | Win32 \<Rightarrow> True"
  shows "lk_free (Sem_Lk (CEZSemaphore_new p 1))" "lk_free (Mutex_Lk (CEZMutex_new p ty))"
  using assms by (cases p; simp add: sem_ok_def mutex_ok_def)+

lemma adders_init_inv: "adders_init v0 s \<Longrightarrow> lk_scope.adders_inv v0 s"
proof -
  assume a: "adders_init v0 s"
  then have idle: "adders s ! t = A_Idle" if "t < length (adders s)" for t
    using that by (simp add: adders_init_def)
  obtain p where p: "case p of Posix k \<Rightarrow> 1 \<le> k | Win32 \<Rightarrow> True"
      "the_lock s \<in> {Sem_Lk (CEZSemaphore_new p 1), Mutex_Lk (CEZMutex_new p MUTEX_FAST)}"
    using a by (auto simp: adders_init_def)
  then have "lk_free (the_lock s)" using new_lk_free [OF p(1)] by auto
  then have "lk_scope.exclusive s" using idle by (simp add: lk_scope.exclusive_def)
  moreover have "val s = v0" "added s = []" using a by (simp_all add: adders_init_def)
  ultimately show ?thesis by (simp add: lk_scope.adders_inv_def idle)
qed

interpretation adder_system: invariant_system "adders_init v0" "adder_next lk_enter lk_leave"
  "lk_scope.adders_inv v0" for v0
  by unfold_locales
    (auto simp: adder_next_def intro: adders_init_inv lk_scope.adders_inv_step)

subsection \<open>Properties\<close>

text \<open>
  C5. However many threads add, and however they interleave, under the semaphore of count 1 or
  under the mutex: as long as the \<^verbatim>\<open>int\<close> has not overflowed it holds the start value plus all
  that has been added, no update is lost; at most one thread is inside; and as long as
  a thread is in a call, some thread can go on.
\<close>

theorem no_update_lost:
  assumes "reach (adders_init v0) (adder_next lk_enter lk_leave) s" and "\<not> ub s"
  shows "val s = v0 + sum_list (added s) \<and>
    (\<forall>t < length (adders s). \<forall>u < length (adders s).
       inside (adders s ! t) \<and> inside (adders s ! u) \<longrightarrow> t = u) \<and>
    ((\<exists>p \<in> set (adders s). p \<noteq> A_Idle) \<longrightarrow>
       (\<exists>t s'. adder_exec lk_enter lk_leave (Step_Lock t) s = Some s'))"
proof -
  have e: "lk_scope.exclusive s" "val s = v0 + sum_list (added s)"
    using adder_system.reach_inv [OF assms(1)] assms(2) by (simp_all add: lk_scope.adders_inv_def)
  have "t = u" if "t < length (adders s)" "u < length (adders s)" "inside (adders s ! t)"
      "inside (adders s ! u)" for t u
    using lk_scope.exclusive_inside(2) [OF e(1) that(1,3)] that(2,4) by blast
  moreover have "\<exists>t s'. adder_exec lk_enter lk_leave (Step_Lock t) s = Some s'"
    if "p \<in> set (adders s)" "p \<noteq> A_Idle" for p
  proof -
    obtain t where "t < length (adders s)" "adders s ! t \<noteq> A_Idle"
      using \<open>p \<in> set (adders s)\<close> \<open>p \<noteq> A_Idle\<close> by (auto simp: in_set_conv_nth)
    from lk_scope.adders_progress [OF e(1) this] show ?thesis .
  qed
  ultimately show ?thesis using e(2) by blast
qed

text \<open>Two threads add 3 and 4 to 5, the second waiting for the semaphore.\<close>

definition two_adders :: "lk adders" where
  "two_adders = \<lparr>the_lock = Sem_Lk (CEZSemaphore_new (Posix 9) 1), val = 5,
     adders = [A_Idle, A_Idle], added = [], ub = False\<rparr>"

fun adder_run :: "adder_action list \<Rightarrow> lk adders \<Rightarrow> lk adders option" where
  "adder_run [] s = Some s"
| "adder_run (a # as) s = Option.bind (adder_exec lk_enter lk_leave a s) (adder_run as)"

lemma adder_run_reach:
  "reach (adders_init v0) (adder_next lk_enter lk_leave) s \<Longrightarrow> adder_run as s = Some t \<Longrightarrow>
   reach (adders_init v0) (adder_next lk_enter lk_leave) t"
proof (induction as arbitrary: s)
  case (Cons a as)
  then obtain u where u: "adder_exec lk_enter lk_leave a s = Some u" "adder_run as u = Some t"
    by (auto simp: bind_eq_Some_conv)
  then have "adder_next lk_enter lk_leave s u" by (auto simp: adder_next_def)
  then show ?case using Cons.IH [OF reach_step [OF Cons.prems(1)]] u(2) by blast
qed simp

definition two_adds :: "adder_action list" where
  "two_adds = [Call_Lock 0 3, Call_Lock 1 4, Step_Lock 1, Step_Lock 1, Step_Lock 1, Step_Lock 1,
     Step_Lock 0, Step_Lock 0, Step_Lock 0]"

lemma two_adds_eq:
  "map_option (\<lambda>s. (added s, adders s, ub s)) (adder_run two_adds two_adders) =
    Some ([4, 3], [A_Leave, A_Idle], False)"
  by code_simp

theorem no_update_lost_witness:
  "\<exists>s. adder_run two_adds two_adders = Some s \<and> val s = 12 \<and> adders s = [A_Leave, A_Idle]"
proof -
  obtain s where s: "adder_run two_adds two_adders = Some s" "added s = [4, 3]"
      "adders s = [A_Leave, A_Idle]" "\<not> ub s"
    using two_adds_eq by (auto simp: map_option_eq_Some)
  have "adders_init 5 two_adders"
    unfolding adders_init_def by (intro conjI exI [of _ "Posix 9"]) (simp_all add: two_adders_def)
  then have "reach (adders_init 5) (adder_next lk_enter lk_leave) s"
    using adder_run_reach [OF reach_init s(1)] by blast
  from no_update_lost [OF this s(4)] show ?thesis using s(1-3) by simp
qed

lemma lock_add_eq: "lk_free l \<Longrightarrow> lock_add t i (l, v) = obind (add_int v i) (\<lambda>w. Done (l, w))"
  using lk_scope.enter_free [of l t] lk_leave_enter [of l t] by (auto simp: lock_add_def)

lemma lock_loop_eq:
  assumes "lk_free l"
  shows "0 \<le> v \<Longrightarrow> v < 2 ^ 31 \<Longrightarrow> lock_loop t k n (l, v) =
    (if v + (\<Sum>i = k..<k + n. int i) < 2 ^ 31 then Done (l, v + (\<Sum>i = k..<k + n. int i)) else Undefined)"
proof (induction n arbitrary: k v)
  case (Suc n)
  have e: "(\<Sum>i = k..<k + Suc n. int i) = int k + (\<Sum>i = Suc k..<Suc k + n. int i)"
    by (subst sum.atLeast_Suc_lessThan) simp_all
  have pos: "0 \<le> (\<Sum>i = Suc k..<Suc k + n. int i)" by (rule sum_nonneg) simp
  show ?case
  proof (cases "v + int k < 2 ^ 31")
    case True
    then have "add_int v (int k) = Done (v + int k)" using Suc.prems by (simp add: add_int_def)
    then have "lock_loop t k (Suc n) (l, v) = lock_loop t (Suc k) n (l, v + int k)"
      using assms by (simp add: lock_add_eq)
    also have "\<dots> = (if v + int k + (\<Sum>i = Suc k..<Suc k + n. int i) < 2 ^ 31
        then Done (l, v + int k + (\<Sum>i = Suc k..<Suc k + n. int i)) else Undefined)"
      by (rule Suc.IH) (use Suc.prems True in simp_all)
    finally show ?thesis by (simp only: e add.assoc)
  next
    case False
    then have "add_int v (int k) = Undefined" by (simp add: add_int_def)
    moreover have "\<not> v + (\<Sum>i = k..<k + Suc n. int i) < 2 ^ 31" using False pos unfolding e by simp
    ultimately show ?thesis using assms by (simp add: lock_add_eq)
  qed
qed simp

lemma sum_below: "(\<Sum>i = 0..<n. int i) = int (n * (n - 1) div 2)"
proof -
  have "2 * (\<Sum>i = 0..<n. i) = n * (n - 1)"
  proof (induction n)
    case (Suc n)
    then show ?case by (cases n) (simp_all add: algebra_simps)
  qed simp
  then show ?thesis by (simp flip: of_nat_sum)
qed

text \<open>
  C39. Whichever lock is used, \<open>n\<close> rounds of the loop of \<^verbatim>\<open>main\<close> add \<open>0 + \<dots> + (n - 1)\<close> and leave the
  lock as it was, unless the sum does not fit an \<^verbatim>\<open>int\<close>, which is undefined. With the
  1000000000 rounds of \<^verbatim>\<open>main\<close> it is: from 0 on no more than 65536 fit.
\<close>

theorem lock_loop_sum:
  assumes "lk_free l" and "0 \<le> v" and "v < 2 ^ 31" and "case p of Posix k \<Rightarrow> 1 \<le> k | Win32 \<Rightarrow> True"
  shows "lock_loop t 0 n (l, v) =
      (if v + int (n * (n - 1) div 2) < 2 ^ 31 then Done (l, v + int (n * (n - 1) div 2)) else Undefined) \<and>
    lock_main p t = Undefined"
proof -
  have e: "lock_loop t 0 n (l, v) = (if v + int (n * (n - 1) div 2) < 2 ^ 31
      then Done (l, v + int (n * (n - 1) div 2)) else Undefined)"
    if "lk_free l" "0 \<le> v" "v < 2 ^ 31" for l v n
    using lock_loop_eq [OF that, of t 0 n] by (simp only: sum_below add_0)
  have "lock_loop t 0 LOCK_TIMES_FOR_TEST (Sem_Lk (CEZSemaphore_new p 1), 0) = Undefined"
    by (subst e) (use new_lk_free [OF assms(4)] in \<open>simp_all add: LOCK_TIMES_FOR_TEST_def\<close>)
  then show ?thesis using e [OF assms(1-3)] by (simp add: lock_main_def)
qed

theorem lock_loop_sum_witness:
  "lock_loop 0 0 65536 (Mutex_Lk (CEZMutex_new Win32 MUTEX_FAST), 0) =
     Done (Mutex_Lk (CEZMutex_new Win32 MUTEX_FAST), 2147450880) \<and>
   lock_loop 0 0 65537 (Mutex_Lk (CEZMutex_new Win32 MUTEX_FAST), 0) = Undefined"
proof -
  have "lk_free (Mutex_Lk (CEZMutex_new Win32 MUTEX_FAST))" by (simp add: mutex_ok_def)
  from lock_loop_sum [OF this, of 0 Win32 0 65536] lock_loop_sum [OF this, of 0 Win32 0 65537]
  show ?thesis by simp
qed

end
