(* ===== verification/Threadlet.thy ===== *)
theory Threadlet
  imports Thread "HOL-Library.Multiset"
begin

section \<open>CEZThreadlet and the pooled threads\<close>

text \<open>
  A threadlet lends a pooled thread to run one function asynchronously. \<^verbatim>\<open>run\<close> takes a
  thread from the manager's free list, or makes one, gives it the function and posts its
  semaphore; \<^verbatim>\<open>CEZPooledThread::ThreadProc\<close> waits for the post, calls the function, ends
  the tie to the threadlet and goes back to the free list. \<^verbatim>\<open>CEZThreadlet::m_mutex\<close> makes
  \<^verbatim>\<open>run\<close>, the destructor and the untying single steps; the manager's lock does so for the
  free list.
\<close>

subsection \<open>Data\<close>

text \<open>
  \<^verbatim>\<open>m_asynFunc\<close> is a member function, named by a number. The constructor leaves the
  members of \<^verbatim>\<open>CEZPooledThread\<close> as the memory had them.
\<close>

record CEZPooledThread = CEZThread +
  m_obj :: "addr option"
  m_asynFunc :: nat
  m_param :: EZTHREAD_PARAM
  m_semaphore :: CEZSemaphore
  m_nextPooled :: "addr option"
  m_caller :: "addr option"

text \<open>
  The memory of the pooled threads, the head of the free list, and the addresses \<^verbatim>\<open>new\<close>
  has given.
\<close>

record pooled_mem =
  pooled :: "addr \<Rightarrow> CEZPooledThread"
  m_headPooled :: "addr option"
  made :: "addr list"

definition upd_pooled :: "addr \<Rightarrow> (CEZPooledThread \<Rightarrow> CEZPooledThread) \<Rightarrow> pooled_mem \<Rightarrow> pooled_mem" where
  "upd_pooled a f s = s\<lparr>pooled := (pooled s)(a := f (pooled s a))\<rparr>"

text \<open>The constructor: \<^verbatim>\<open>CEZThread("Pooled", THREAD_PRIORITY_DEFAULT)\<close>, and a semaphore at 0.\<close>

definition CEZPooledThread_new :: "platform \<Rightarrow> CEZPooledThread \<Rightarrow> CEZPooledThread" where
  "CEZPooledThread_new p old =
     old\<lparr>m_cCEZSemaphore := CEZSemaphore_new p 1, m_desCEZSemaphore := CEZSemaphore_new p 0,
         m_nPriority := THREAD_PRIORITY_DEFAULT, m_dwStackSize := 0,
         m_pStrThreadName := thread_name ''Pooled'', m_hThread := None, m_ID := -1,
         m_bLoop := False, m_pMsgQue := None, m_expectedTime := 0,
         m_bWaitThreadExit := False, m_semaphore := CEZSemaphore_new p 0\<rparr>"

text \<open>\<^verbatim>\<open>CreateThread\<close> of a pooled thread just made, when \<^verbatim>\<open>ThreadCreate\<close> starts a thread or not.\<close>

definition started :: "CEZPooledThread \<Rightarrow> CEZPooledThread" where
  "started t = t\<lparr>m_cCEZSemaphore := (m_cCEZSemaphore t)\<lparr>sem_value := 0\<rparr>, m_bLoop := True\<rparr>"

subsection \<open>The free list\<close>

definition GetPooledThread ::
    "platform \<Rightarrow> (addr list \<Rightarrow> addr) \<Rightarrow> pooled_mem \<Rightarrow> addr \<times> pooled_mem" where
  "GetPooledThread p new s =
     (case m_headPooled s of
        Some a \<Rightarrow> (a, s\<lparr>m_headPooled := m_nextPooled (pooled s a)\<rparr>)
      | None \<Rightarrow>
          let a = new (made s)
          in (a, upd_pooled a (\<lambda>t. started (CEZPooledThread_new p t)) (s\<lparr>made := a # made s\<rparr>)))"

definition ReleasePooledThread :: "addr \<Rightarrow> pooled_mem \<Rightarrow> pooled_mem" where
  "ReleasePooledThread a s =
     (upd_pooled a (\<lambda>t. t\<lparr>m_nextPooled := m_headPooled s\<rparr>) s)\<lparr>m_headPooled := Some a\<rparr>"

definition free_next :: "pooled_mem \<Rightarrow> addr \<Rightarrow> addr option" where
  "free_next s a = m_nextPooled (pooled s a)"

definition pooled_ok :: "pooled_mem \<Rightarrow> addr set \<Rightarrow> bool" where
  "pooled_ok s L \<longleftrightarrow>
     (\<exists>fs. chain (free_next s) (m_headPooled s) fs \<and> set fs \<inter> L = {} \<and> set fs \<union> L \<subseteq> set (made s))"

lemma free_next_upd [simp]:
  "free_next (s\<lparr>m_headPooled := h\<rparr>) = free_next s" "free_next (s\<lparr>made := l\<rparr>) = free_next s"
  "free_next (upd_pooled a f s) = (free_next s)(a := m_nextPooled (f (pooled s a)))"
  by (auto simp: free_next_def upd_pooled_def)

lemma upd_pooled_fields [simp]:
  "m_headPooled (upd_pooled a f s) = m_headPooled s" "made (upd_pooled a f s) = made s"
  by (simp_all add: upd_pooled_def)

lemma GetPooledThread_ok:
  assumes "pooled_ok s L" and "\<forall>l. new l \<notin> set l" and "GetPooledThread p new s = (a, s')"
  shows "a \<notin> L \<and> pooled_ok s' (insert a L)"
proof -
  obtain fs where fs: "chain (free_next s) (m_headPooled s) fs" "set fs \<inter> L = {}"
      "set fs \<union> L \<subseteq> set (made s)"
    using assms(1) by (auto simp: pooled_ok_def)
  show ?thesis
  proof (cases "m_headPooled s")
    case None
    then have "fs = []" using fs(1) by simp
    then show ?thesis
      using assms(2,3) None fs by (auto simp: GetPooledThread_def pooled_ok_def Let_def)
  next
    case (Some h)
    then obtain gs where g: "fs = h # gs" "chain (free_next s) (free_next s h) gs"
      using fs(1) by (auto simp: chain_Some)
    then have "h \<notin> set gs" using chain_distinct [OF fs(1)] by simp
    then show ?thesis using assms(3) Some fs g
      by (auto simp: GetPooledThread_def pooled_ok_def free_next_def [symmetric] intro!: exI [of _ gs])
  qed
qed

lemma ReleasePooledThread_ok:
  assumes "pooled_ok s L" and "a \<in> L"
  shows "pooled_ok (ReleasePooledThread a s) (L - {a})"
proof -
  obtain fs where fs: "chain (free_next s) (m_headPooled s) fs" "set fs \<inter> L = {}"
      "set fs \<union> L \<subseteq> set (made s)"
    using assms(1) by (auto simp: pooled_ok_def)
  moreover have "a \<notin> set fs" using fs(2) assms(2) by auto
  ultimately show ?thesis using assms(2)
    unfolding pooled_ok_def by (intro exI [of _ "a # fs"]) (auto simp: ReleasePooledThread_def)
qed

interpretation pooled_threads: free_list_allocator
  "\<lambda>s. Done (GetPooledThread p new s)" "\<lambda>a s. Done (ReleasePooledThread a s)"
  "\<lambda>s L. (\<forall>l. new l \<notin> set l) \<and> pooled_ok s L"
  for p new
proof (unfold_locales, goal_cases)
  case (1 s L a s')
  then show ?case using GetPooledThread_ok by auto
next
  case (2 s L)
  then show ?case by (cases "GetPooledThread p new s") auto
next
  case (3 s L a)
  then show ?case using ReleasePooledThread_ok by auto
next
  case (4 s L a s')
  then show ?case by (auto simp: ReleasePooledThread_def GetPooledThread_def)
qed

subsection \<open>Threadlets and pooled threads at work\<close>

datatype pooled_pc =
    P_NotStarted  \<comment> \<open>\<^verbatim>\<open>CreateThread\<close> failed; the pool does not look at its result\<close>
  | P_Wait        \<comment> \<open>at \<^verbatim>\<open>m_semaphore.Wait()\<close>\<close>
  | P_Call        \<comment> \<open>at \<^verbatim>\<open>(m_obj->*m_asynFunc)(m_param)\<close>; the step is the call up to its return\<close>
  | P_Reset       \<comment> \<open>before \<^verbatim>\<open>SetThreadName\<close> and \<^verbatim>\<open>SetTimeout\<close>\<close>
  | P_Untie       \<comment> \<open>before the section under \<^verbatim>\<open>CEZThreadlet::m_mutex\<close>\<close>
  | P_Release     \<comment> \<open>before \<^verbatim>\<open>ReleasePooledThread\<close>\<close>

type_synonym job = "addr option \<times> nat \<times> EZTHREAD_PARAM"

text \<open>
  The threadlets that exist, each with its \<^verbatim>\<open>m_thread\<close>; the program points of the pooled
  threads; and as history the jobs accepted by \<^verbatim>\<open>run\<close> and the calls made.
\<close>

record let_sys =
  mem :: pooled_mem
  lets :: "addr \<Rightarrow> addr option option"
  pcs :: "addr \<Rightarrow> pooled_pc"
  accepted :: "job list"
  called :: "job list"

definition job_of :: "CEZPooledThread \<Rightarrow> job" where
  "job_of t = (m_obj t, m_asynFunc t, m_param t)"

text \<open>
  \<^verbatim>\<open>run\<close>. \<open>ok\<close> says whether a thread that has to be made starts. The steps after
  \<^verbatim>\<open>GetPooledThread\<close> set the members of the thread and post its semaphore.
\<close>

definition give_job ::
    "string \<Rightarrow> job \<Rightarrow> u32 \<Rightarrow> u32 \<Rightarrow> addr \<Rightarrow> CEZPooledThread \<Rightarrow> CEZPooledThread" where
  "give_job name j now timeout caller t =
     (let t = t\<lparr>m_pStrThreadName := thread_name name\<rparr>;
          t = t\<lparr>m_expectedTime := m_expectedTime (SetTimeout now timeout (CEZThread.truncate t))\<rparr>
      in t\<lparr>m_obj := fst j, m_asynFunc := fst (snd j), m_param := snd (snd j),
           m_caller := Some caller, m_semaphore := snd (Post (m_semaphore t))\<rparr>)"

definition run ::
    "platform \<Rightarrow> (addr list \<Rightarrow> addr) \<Rightarrow> bool \<Rightarrow> string \<Rightarrow> job \<Rightarrow> u32 \<Rightarrow> u32 \<Rightarrow> addr \<Rightarrow> addr option \<Rightarrow>
     let_sys \<Rightarrow> EZTHREAD_BOOL \<times> let_sys" where
  "run p new ok name j now timeout lt m_thread s =
     (if m_thread \<noteq> None then (False, s)
      else let (a, m) = GetPooledThread p new (mem s);
               fresh = (m_headPooled (mem s) = None)
           in (True, s\<lparr>mem := upd_pooled a (give_job name j now timeout lt) m,
                 lets := (lets s)(lt := Some (Some a)),
                 pcs := (if fresh then (pcs s)(a := if ok then P_Wait else P_NotStarted) else pcs s),
                 accepted := accepted s @ [j]\<rparr>))"

definition isRunning :: "addr option \<Rightarrow> EZTHREAD_BOOL" where
  "isRunning m_thread = (m_thread \<noteq> None)"

text \<open>The destructor of a threadlet.\<close>

definition Threadlet_delete :: "addr \<Rightarrow> addr option \<Rightarrow> let_sys \<Rightarrow> let_sys" where
  "Threadlet_delete lt m_thread s =
     (case m_thread of
        None \<Rightarrow> s\<lparr>lets := (lets s)(lt := None)\<rparr>
      | Some a \<Rightarrow> s\<lparr>mem := upd_pooled a (\<lambda>t. t\<lparr>m_caller := None\<rparr>) (mem s),
                   lets := (lets s)(lt := None)\<rparr>)"

text \<open>\<^verbatim>\<open>CEZPooledThread::ThreadProc\<close> from one point to the next.\<close>

fun pooled_step :: "addr \<Rightarrow> pooled_pc \<Rightarrow> let_sys \<Rightarrow> let_sys option" where
  "pooled_step a P_NotStarted s = None"
| "pooled_step a P_Wait s =
     (case Wait (m_semaphore (pooled (mem s) a)) of
        Done (_, c) \<Rightarrow> Some (s\<lparr>mem := upd_pooled a (\<lambda>t. t\<lparr>m_semaphore := c\<rparr>) (mem s),
                               pcs := (pcs s)(a := P_Call)\<rparr>)
      | _ \<Rightarrow> None)"
| "pooled_step a P_Call s =
     Some (s\<lparr>called := called s @ [job_of (pooled (mem s) a)], pcs := (pcs s)(a := P_Reset)\<rparr>)"
| "pooled_step a P_Reset s =
     Some (s\<lparr>mem := upd_pooled a (\<lambda>t. t\<lparr>m_pStrThreadName := thread_name ''Pooled'', m_expectedTime := 0\<rparr>)
               (mem s), pcs := (pcs s)(a := P_Untie)\<rparr>)"
| "pooled_step a P_Untie s =
     (case m_caller (pooled (mem s) a) of
        None \<Rightarrow> Some (s\<lparr>pcs := (pcs s)(a := P_Release)\<rparr>)
      | Some lt \<Rightarrow> Some (s\<lparr>lets := (lets s)(lt := Some None),
            mem := upd_pooled a (\<lambda>t. t\<lparr>m_caller := None\<rparr>) (mem s), pcs := (pcs s)(a := P_Release)\<rparr>))"
| "pooled_step a P_Release s =
     Some (s\<lparr>mem := ReleasePooledThread a (mem s), pcs := (pcs s)(a := P_Wait)\<rparr>)"

inductive let_step :: "platform \<Rightarrow> (addr list \<Rightarrow> addr) \<Rightarrow> let_sys \<Rightarrow> let_sys \<Rightarrow> bool"
  for p :: platform and new :: "addr list \<Rightarrow> addr" where
  new_threadlet: "lets s lt = None \<Longrightarrow> let_step p new s (s\<lparr>lets := (lets s)(lt := Some None)\<rparr>)"
| run_threadlet: "lets s lt = Some th \<Longrightarrow>
     let_step p new s (snd (run p new ok name j now timeout lt th s))"
| delete_threadlet: "lets s lt = Some th \<Longrightarrow> let_step p new s (Threadlet_delete lt th s)"
| pooled_moves: "a \<in> set (made (mem s)) \<Longrightarrow> pooled_step a (pcs s a) s = Some t \<Longrightarrow> let_step p new s t"

definition let_init :: "let_sys \<Rightarrow> bool" where
  "let_init s \<longleftrightarrow> made (mem s) = [] \<and> m_headPooled (mem s) = None \<and> (\<forall>lt. lets s lt = None) \<and>
     accepted s = [] \<and> called s = []"

subsection \<open>The invariant\<close>

definition idle :: "let_sys \<Rightarrow> addr \<Rightarrow> bool" where
  "idle s a \<longleftrightarrow> pcs s a = P_Wait \<and> sem_value (m_semaphore (pooled (mem s) a)) = 0"

definition pending :: "let_sys \<Rightarrow> addr \<Rightarrow> bool" where
  "pending s a \<longleftrightarrow> pcs s a = P_Call \<or> 0 < sem_value (m_semaphore (pooled (mem s) a))"

text \<open>What holds of one pooled thread.\<close>

definition thread_ok :: "pooled_pc \<Rightarrow> CEZPooledThread \<Rightarrow> bool" where
  "thread_ok pc t \<longleftrightarrow>
     sem_ok (m_semaphore t) \<and> 1 \<le> sem_max (m_semaphore t) \<and> sem_value (m_semaphore t) \<le> 1 \<and>
     (sem_value (m_semaphore t) = 1 \<longrightarrow> pc = P_NotStarted \<or> pc = P_Wait) \<and>
     (pc = P_NotStarted \<longrightarrow> sem_value (m_semaphore t) = 1) \<and>
     (pc = P_Wait \<and> sem_value (m_semaphore t) = 0 \<or> pc = P_Release \<longrightarrow> m_caller t = None)"

text \<open>The free list holds the idle threads.\<close>

definition free_list_ok :: "let_sys \<Rightarrow> bool" where
  "free_list_ok s \<longleftrightarrow>
     (\<exists>fs. chain (free_next (mem s)) (m_headPooled (mem s)) fs \<and>
        set fs = {a \<in> set (made (mem s)). idle s a})"

text \<open>A threadlet has a thread exactly if that thread has it as its caller.\<close>

definition ties_ok :: "let_sys \<Rightarrow> bool" where
  "ties_ok s \<longleftrightarrow> (\<forall>lt a. lets s lt = Some (Some a) \<longleftrightarrow>
     a \<in> set (made (mem s)) \<and> m_caller (pooled (mem s) a) = Some lt)"

definition pending_jobs :: "let_sys \<Rightarrow> addr list \<Rightarrow> job multiset" where
  "pending_jobs s l = mset (map (\<lambda>a. job_of (pooled (mem s) a)) (filter (pending s) l))"

definition let_inv :: "let_sys \<Rightarrow> bool" where
  "let_inv s \<longleftrightarrow> distinct (made (mem s)) \<and>
     (\<forall>a \<in> set (made (mem s)). thread_ok (pcs s a) (pooled (mem s) a)) \<and>
     free_list_ok s \<and> ties_ok s \<and>
     mset (accepted s) = mset (called s) + pending_jobs s (made (mem s))"

definition pending_at :: "let_sys \<Rightarrow> addr \<Rightarrow> job multiset" where
  "pending_at s a = (if pending s a then {#job_of (pooled (mem s) a)#} else {#})"

lemma pending_jobs_at:
  "a \<in> set l \<Longrightarrow> pending_jobs s l = pending_at s a + pending_jobs s (remove1 a l)"
proof (induction l)
  case (Cons b l)
  then show ?case by (auto simp: pending_jobs_def pending_at_def)
qed simp

lemma pending_jobs_cong:
  assumes "\<And>b. b \<in> set l \<Longrightarrow> pcs t b = pcs s b \<and> pooled (mem t) b = pooled (mem s) b"
  shows "pending_jobs t l = pending_jobs s l"
proof -
  have "filter (pending t) l = filter (pending s) l"
    using assms by (intro filter_cong) (auto simp: pending_def)
  moreover have "map (\<lambda>a. job_of (pooled (mem t) a)) (filter (pending s) l) =
      map (\<lambda>a. job_of (pooled (mem s) a)) (filter (pending s) l)"
    using assms by (intro map_cong) auto
  ultimately show ?thesis by (simp only: pending_jobs_def)
qed

text \<open>Only the thread \<open>a\<close>, made before, changes.\<close>

lemma let_inv_thread:
  assumes inv: "let_inv s" and a: "a \<in> set (made (mem s))" and m: "made (mem t) = made (mem s)"
    and same: "\<And>b. b \<noteq> a \<Longrightarrow> pcs t b = pcs s b \<and> pooled (mem t) b = pooled (mem s) b"
    and ok: "thread_ok (pcs t a) (pooled (mem t) a)"
    and fl: "free_list_ok t" and ties: "ties_ok t"
    and jobs: "mset (accepted t) + mset (called s) + pending_at s a =
      mset (accepted s) + mset (called t) + pending_at t a"
  shows "let_inv t"
proof -
  let ?l = "made (mem s)"
  have d: "distinct ?l" using inv by (simp add: let_inv_def)
  have r: "pending_jobs t (remove1 a ?l) = pending_jobs s (remove1 a ?l)"
    using same d by (intro pending_jobs_cong) auto
  have "mset (accepted s) = mset (called s) + (pending_at s a + pending_jobs s (remove1 a ?l))"
    using inv pending_jobs_at [OF a] by (simp add: let_inv_def)
  then have "mset (accepted t) = mset (called t) + (pending_at t a + pending_jobs s (remove1 a ?l))"
    using jobs by (simp add: algebra_simps)
  then have "mset (accepted t) = mset (called t) + pending_jobs t ?l"
    using pending_jobs_at [OF a, of t] r by simp
  moreover have "\<forall>b \<in> set ?l. thread_ok (pcs t b) (pooled (mem t) b)"
    using inv same ok unfolding let_inv_def by metis
  ultimately show ?thesis using d fl ties m by (simp add: let_inv_def)
qed

lemma upd_pooled_apply [simp]:
  "pooled (upd_pooled a f s) b = (if b = a then f (pooled s a) else pooled s b)"
  by (simp add: upd_pooled_def)

lemma let_invD:
  assumes "let_inv s"
  shows "free_list_ok s" "ties_ok s" "a \<in> set (made (mem s)) \<Longrightarrow> thread_ok (pcs s a) (pooled (mem s) a)"
  using assms by (auto simp: let_inv_def)

text \<open>The free list stays as it is if \<open>a\<close> is not idle before and after and keeps its link.\<close>

lemma free_list_keep:
  assumes "free_list_ok s" and "made (mem t) = made (mem s)"
    and "m_headPooled (mem t) = m_headPooled (mem s)" and "free_next (mem t) = free_next (mem s)"
    and "\<And>b. b \<in> set (made (mem s)) \<Longrightarrow> idle t b = idle s b"
  shows "free_list_ok t"
  using assms by (auto simp: free_list_ok_def)

text \<open>The thread \<open>a\<close> and the threadlet \<open>lt\<close> change their tie.\<close>

lemma ties_ok_change:
  assumes ties: "ties_ok s" and a: "a \<in> set (made (mem t))"
    and same: "\<And>b. b \<noteq> a \<Longrightarrow> (b \<in> set (made (mem t)) \<longleftrightarrow> b \<in> set (made (mem s))) \<and>
      m_caller (pooled (mem t) b) = m_caller (pooled (mem s) b)"
    and lets: "lets t = (lets s)(lt := v)"
    and old: "\<And>b. lets s lt = Some (Some b) \<Longrightarrow> b = a" and new: "\<And>b. v = Some (Some b) \<Longrightarrow> b = a"
    and tie: "v = Some (Some a) \<longleftrightarrow> m_caller (pooled (mem t) a) = Some lt"
    and rest: "\<And>k. k \<noteq> lt \<Longrightarrow> lets s k = Some (Some a) \<longleftrightarrow> m_caller (pooled (mem t) a) = Some k"
  shows "ties_ok t"
  unfolding ties_ok_def
proof (intro allI)
  fix k b
  have o: "lets s k = Some (Some b) \<longleftrightarrow> b \<in> set (made (mem s)) \<and> m_caller (pooled (mem s) b) = Some k"
    using ties by (simp add: ties_ok_def)
  show "lets t k = Some (Some b) \<longleftrightarrow>
      b \<in> set (made (mem t)) \<and> m_caller (pooled (mem t) b) = Some k"
  proof (cases "k = lt")
    case True
    show ?thesis
    proof (cases "b = a")
      case True
      then show ?thesis using \<open>k = lt\<close> tie a lets by simp
    next
      case False
      then have "v \<noteq> Some (Some b)" "lets s lt \<noteq> Some (Some b)" using old new by blast+
      then show ?thesis using \<open>k = lt\<close> o same [OF False] lets by simp
    qed
  next
    case False
    then show ?thesis using o a same [of b] rest [OF False] lets by (cases "b = a") simp_all
  qed
qed

lemma pooled_step_inv:
  assumes inv: "let_inv s" and a: "a \<in> set (made (mem s))"
    and st: "pooled_step a (pcs s a) s = Some t"
  shows "let_inv t"
proof -
  note d = let_invD [OF inv]
  have ok: "thread_ok (pcs s a) (pooled (mem s) a)" using d(3) a by blast
  then have sem: "sem_ok (m_semaphore (pooled (mem s) a))" by (simp add: thread_ok_def)
  show ?thesis
  proof (cases "pcs s a")
    case P_NotStarted
    then show ?thesis using st by simp
  next
    case P_Wait
    then obtain r c where c: "Wait (m_semaphore (pooled (mem s) a)) = Done (r, c)"
        "t = s\<lparr>mem := upd_pooled a (\<lambda>t. t\<lparr>m_semaphore := c\<rparr>) (mem s), pcs := (pcs s)(a := P_Call)\<rparr>"
      using st by (auto split: outcome.splits)
    then have v: "0 < sem_value (m_semaphore (pooled (mem s) a))"
        "c = (m_semaphore (pooled (mem s) a))\<lparr>sem_value := sem_value (m_semaphore (pooled (mem s) a)) - 1\<rparr>"
      using Wait_Done_iff [OF sem] by auto
    have i: "idle t b = idle s b" for b
      using v(1) by (auto simp: idle_def c(2) P_Wait)
    show ?thesis
    proof (rule let_inv_thread [OF inv a])
      show "free_list_ok t"
        by (rule free_list_keep [OF d(1) _ _ _ i]) (auto simp: c(2) free_next_def [abs_def])
      show "ties_ok t" using d(2) by (auto simp: ties_ok_def c(2))
    qed (use ok v in \<open>auto simp: c(2) P_Wait thread_ok_def sem_ok_def pending_at_def pending_def job_of_def\<close>)
  next
    case P_Call
    then have t: "t = s\<lparr>called := called s @ [job_of (pooled (mem s) a)], pcs := (pcs s)(a := P_Reset)\<rparr>"
      using st by simp
    show ?thesis
    proof (rule let_inv_thread [OF inv a])
      show "free_list_ok t"
        by (rule free_list_keep [OF d(1)]) (auto simp: t P_Call idle_def)
      show "ties_ok t" using d(2) by (auto simp: ties_ok_def t)
    qed (use ok in \<open>auto simp: t P_Call thread_ok_def pending_at_def pending_def\<close>)
  next
    case P_Reset
    then have t: "t = s\<lparr>mem := upd_pooled a (\<lambda>t. t\<lparr>m_pStrThreadName := thread_name ''Pooled'',
        m_expectedTime := 0\<rparr>) (mem s), pcs := (pcs s)(a := P_Untie)\<rparr>"
      using st by simp
    show ?thesis
    proof (rule let_inv_thread [OF inv a])
      show "free_list_ok t"
        by (rule free_list_keep [OF d(1)]) (auto simp: t P_Reset idle_def free_next_def [abs_def])
      show "ties_ok t" using d(2) by (auto simp: ties_ok_def t)
    qed (use ok in \<open>auto simp: t P_Reset thread_ok_def pending_at_def pending_def\<close>)
  next
    case P_Untie
    show ?thesis
    proof (cases "m_caller (pooled (mem s) a)")
      case None
      then have t: "t = s\<lparr>pcs := (pcs s)(a := P_Release)\<rparr>" using st P_Untie by simp
      show ?thesis
      proof (rule let_inv_thread [OF inv a])
        show "free_list_ok t"
          by (rule free_list_keep [OF d(1)]) (auto simp: t P_Untie idle_def)
        show "ties_ok t" using d(2) by (auto simp: ties_ok_def t)
      qed (use ok None in \<open>auto simp: t P_Untie thread_ok_def pending_at_def pending_def\<close>)
    next
      case (Some lt)
      then have t: "t = s\<lparr>lets := (lets s)(lt := Some None),
            mem := upd_pooled a (\<lambda>t. t\<lparr>m_caller := None\<rparr>) (mem s), pcs := (pcs s)(a := P_Release)\<rparr>"
        using st P_Untie by simp
      show ?thesis
      proof (rule let_inv_thread [OF inv a])
        show "free_list_ok t"
          by (rule free_list_keep [OF d(1)]) (auto simp: t P_Untie idle_def free_next_def [abs_def])
        have la: "lets s lt = Some (Some a)" and lk: "lets s k = Some (Some a) \<longleftrightarrow> k = lt" for k
          using d(2) Some a by (auto simp: ties_ok_def)
        show "ties_ok t"
          by (rule ties_ok_change [OF d(2), where a = a and lt = lt and v = "Some None"])
            (use a in \<open>simp_all add: t la lk\<close>)
      qed (use ok in \<open>auto simp: t P_Untie thread_ok_def pending_at_def pending_def job_of_def\<close>)
    qed
  next
    case P_Release
    then have t: "t = s\<lparr>mem := ReleasePooledThread a (mem s), pcs := (pcs s)(a := P_Wait)\<rparr>"
      using st by simp
    have v: "sem_value (m_semaphore (pooled (mem s) a)) = 0"
      using ok P_Release by (auto simp: thread_ok_def)
    obtain fs where fs: "chain (free_next (mem s)) (m_headPooled (mem s)) fs"
        "set fs = {b \<in> set (made (mem s)). idle s b}"
      using d(1) by (auto simp: free_list_ok_def)
    then have na: "a \<notin> set fs" using P_Release by (auto simp: idle_def)
    show ?thesis
    proof (rule let_inv_thread [OF inv a])
      show "free_list_ok t" unfolding free_list_ok_def
        by (rule exI [of _ "a # fs"])
          (use fs na a v in \<open>auto simp: t ReleasePooledThread_def idle_def\<close>)
      show "ties_ok t" using d(2) by (auto simp: ties_ok_def t ReleasePooledThread_def)
    qed (use ok v in \<open>auto simp: t P_Release ReleasePooledThread_def thread_ok_def pending_at_def
        pending_def\<close>)
  qed
qed

text \<open>The steps of the threadlets.\<close>

lemma let_inv_lets: "let_inv s \<Longrightarrow> ties_ok (s\<lparr>lets := l\<rparr>) \<Longrightarrow> let_inv (s\<lparr>lets := l\<rparr>)"
  by (simp add: let_inv_def free_list_ok_def idle_def pending_jobs_def pending_def)

lemma ties_untied:
  assumes "ties_ok s" and "\<And>a. lets s lt \<noteq> Some (Some a)" and "\<And>a. v \<noteq> Some (Some a)"
  shows "ties_ok (s\<lparr>lets := (lets s)(lt := v)\<rparr>)"
  unfolding ties_ok_def
proof (intro allI)
  fix k a
  have "lets s k = Some (Some a) \<longleftrightarrow> a \<in> set (made (mem s)) \<and> m_caller (pooled (mem s) a) = Some k"
    using assms(1) by (simp add: ties_ok_def)
  then show "lets (s\<lparr>lets := (lets s)(lt := v)\<rparr>) k = Some (Some a) \<longleftrightarrow>
      a \<in> set (made (mem (s\<lparr>lets := (lets s)(lt := v)\<rparr>))) \<and>
      m_caller (pooled (mem (s\<lparr>lets := (lets s)(lt := v)\<rparr>)) a) = Some k"
    using assms(2,3) by (cases "k = lt") auto
qed

lemma new_threadlet_inv:
  "let_inv s \<Longrightarrow> lets s lt = None \<Longrightarrow> let_inv (s\<lparr>lets := (lets s)(lt := Some None)\<rparr>)"
  by (rule let_inv_lets, assumption, rule ties_untied) (auto dest: let_invD)

lemma delete_threadlet_inv:
  assumes inv: "let_inv s" and lt: "lets s lt = Some th"
  shows "let_inv (Threadlet_delete lt th s)"
proof (cases th)
  case None
  then have "let_inv (s\<lparr>lets := (lets s)(lt := None)\<rparr>)"
    using inv lt by (intro let_inv_lets ties_untied) (auto dest: let_invD)
  then show ?thesis using None by (simp add: Threadlet_delete_def)
next
  case (Some a)
  note d = let_invD [OF inv]
  have a: "a \<in> set (made (mem s))" "m_caller (pooled (mem s) a) = Some lt"
    using d(2) lt Some by (auto simp: ties_ok_def)
  have t: "Threadlet_delete lt th s = s\<lparr>mem := upd_pooled a (\<lambda>t. t\<lparr>m_caller := None\<rparr>) (mem s),
      lets := (lets s)(lt := None)\<rparr>"
    by (simp add: Threadlet_delete_def Some)
  show ?thesis unfolding t
  proof (rule let_inv_thread [OF inv a(1)])
    let ?t = "s\<lparr>mem := upd_pooled a (\<lambda>t. t\<lparr>m_caller := None\<rparr>) (mem s), lets := (lets s)(lt := None)\<rparr>"
    show "free_list_ok ?t"
      by (rule free_list_keep [OF d(1)]) (auto simp: idle_def free_next_def [abs_def])
    have la: "lets s lt = Some (Some a)" and lk: "lets s k = Some (Some a) \<longleftrightarrow> k = lt" for k
      using d(2) a by (auto simp: ties_ok_def)
    show "ties_ok ?t"
      by (rule ties_ok_change [OF d(2), where a = a and lt = lt and v = None])
        (use a in \<open>simp_all add: la lk\<close>)
    show "thread_ok (pcs ?t a) (pooled (mem ?t) a)"
      using d(3) [OF a(1)] by (auto simp: thread_ok_def)
  qed (auto simp: pending_at_def pending_def job_of_def)
qed

lemma give_job_fields [simp]:
  "m_nextPooled (give_job name j now timeout c t) = m_nextPooled t"
  "m_caller (give_job name j now timeout c t) = Some c"
  "m_semaphore (give_job name j now timeout c t) = snd (Post (m_semaphore t))"
  "job_of (give_job name j now timeout c t) = j"
  by (simp_all add: give_job_def Let_def job_of_def)

lemma run_old_inv:
  assumes inv: "let_inv s" and lt: "lets s lt = Some None" and h: "m_headPooled (mem s) = Some a"
  shows "let_inv (snd (run p new ok name j now timeout lt None s))"
proof -
  note d = let_invD [OF inv]
  obtain fs where fs: "chain (free_next (mem s)) (Some a) fs"
      "set fs = {b \<in> set (made (mem s)). idle s b}"
    using d(1) h by (auto simp: free_list_ok_def)
  then obtain gs where g: "fs = a # gs" "chain (free_next (mem s)) (free_next (mem s) a) gs"
    by (auto simp: chain_Some)
  then have na: "a \<notin> set gs" using chain_distinct [OF fs(1)] by simp
  have a: "a \<in> set (made (mem s))" "idle s a" using fs(2) g(1) by auto
  have ok: "thread_ok (pcs s a) (pooled (mem s) a)" using d(3) a(1) .
  have v: "sem_value (m_semaphore (pooled (mem s) a)) = 0" "pcs s a = P_Wait"
      "m_caller (pooled (mem s) a) = None"
    using ok a(2) by (auto simp: idle_def thread_ok_def)
  have post: "sem_value (snd (Post (m_semaphore (pooled (mem s) a)))) = 1"
    using ok v(1) by (auto simp: thread_ok_def Post_value)
  let ?t = "s\<lparr>mem := upd_pooled a (give_job name j now timeout lt)
        ((mem s)\<lparr>m_headPooled := free_next (mem s) a\<rparr>),
      lets := (lets s)(lt := Some (Some a)), accepted := accepted s @ [j]\<rparr>"
  have t: "snd (run p new ok name j now timeout lt None s) = ?t"
    using h by (simp add: run_def GetPooledThread_def free_next_def)
  have i: "idle ?t b \<longleftrightarrow> b \<noteq> a \<and> idle s b" for b
    using post by (auto simp: idle_def)
  show ?thesis unfolding t
  proof (rule let_inv_thread [OF inv a(1)])
    show "free_list_ok ?t" unfolding free_list_ok_def i
      by (rule exI [of _ gs]) (use fs g na in \<open>auto simp: free_next_def [symmetric]\<close>)
    have "lets s k \<noteq> Some (Some a)" for k using d(2) v(3) by (auto simp: ties_ok_def)
    then show "ties_ok ?t"
      by (intro ties_ok_change [OF d(2), where a = a and lt = lt and v = "Some (Some a)"])
        (use a lt in auto)
    show "thread_ok (pcs ?t a) (pooled (mem ?t) a)"
      using ok post v by (auto simp: thread_ok_def)
  qed (use v post in \<open>auto simp: pending_at_def pending_def\<close>)
qed

lemma new_pooled_fields [simp]:
  "m_semaphore (started (CEZPooledThread_new p t)) = CEZSemaphore_new p 0"
  "m_nextPooled (started (CEZPooledThread_new p t)) = m_nextPooled t"
  by (simp_all add: started_def CEZPooledThread_new_def)

lemma run_new_inv:
  assumes inv: "let_inv s" and lt: "lets s lt = Some None" and h: "m_headPooled (mem s) = None"
    and new: "\<forall>l. new l \<notin> set l" and p: "case p of Posix k \<Rightarrow> 1 \<le> k | Win32 \<Rightarrow> True"
  shows "let_inv (snd (run p new ok name j now timeout lt None s))"
proof -
  note d = let_invD [OF inv]
  let ?a = "new (made (mem s))"
  have na: "?a \<notin> set (made (mem s))" using new by blast
  have "{b \<in> set (made (mem s)). idle s b} = {}"
    using d(1) h by (auto simp: free_list_ok_def)
  then have none: "b \<in> set (made (mem s)) \<Longrightarrow> \<not> idle s b" for b by auto
  have sem: "sem_ok (CEZSemaphore_new p 0)" "1 \<le> sem_max (CEZSemaphore_new p 0)"
      "sem_value (CEZSemaphore_new p 0) = 0"
    using p by (cases p; simp add: sem_ok_def)+
  then have post: "sem_ok (snd (Post (CEZSemaphore_new p 0)))"
      "sem_value (snd (Post (CEZSemaphore_new p 0))) = 1"
    by (auto simp: Post_value)
  let ?T = "give_job name j now timeout lt (started (CEZPooledThread_new p (pooled (mem s) ?a)))"
  let ?t = "s\<lparr>mem := (upd_pooled ?a (\<lambda>_. ?T) (mem s))\<lparr>made := ?a # made (mem s)\<rparr>,
      lets := (lets s)(lt := Some (Some ?a)),
      pcs := (pcs s)(?a := if ok then P_Wait else P_NotStarted), accepted := accepted s @ [j]\<rparr>"
  have t: "snd (run p new ok name j now timeout lt None s) = ?t"
    using h by (cases s; cases "mem s") (simp add: run_def GetPooledThread_def Let_def upd_pooled_def)
  have same: "b \<noteq> ?a \<Longrightarrow> pcs ?t b = pcs s b \<and> pooled (mem ?t) b = pooled (mem s) b" for b
    by (simp add: upd_pooled_def)
  have "distinct (made (mem ?t))" using inv na by (simp add: let_inv_def)
  moreover have T: "thread_ok (pcs ?t ?a) (pooled (mem ?t) ?a)"
    using post sem by (auto simp: thread_ok_def upd_pooled_def)
  have "\<forall>b \<in> set (made (mem ?t)). thread_ok (pcs ?t b) (pooled (mem ?t) b)"
  proof
    fix b assume "b \<in> set (made (mem ?t))"
    then show "thread_ok (pcs ?t b) (pooled (mem ?t) b)"
      using T same [of b] d(3) [of b] by (cases "b = ?a") auto
  qed
  moreover have "free_list_ok ?t"
    unfolding free_list_ok_def
    by (rule exI [of _ "[]"]) (use none post same h in \<open>auto simp: idle_def upd_pooled_def\<close>)
  moreover have "lets s k \<noteq> Some (Some ?a)" for k using d(2) na by (auto simp: ties_ok_def)
  then have "ties_ok ?t"
    by (intro ties_ok_change [OF d(2), where a = ?a and lt = lt and v = "Some (Some ?a)"])
      (use lt in \<open>auto simp: upd_pooled_def\<close>)
  moreover have "pending_jobs ?t (made (mem s)) = pending_jobs s (made (mem s))"
    using same na by (intro pending_jobs_cong) auto
  then have "pending_jobs ?t (made (mem ?t)) = {#j#} + pending_jobs s (made (mem s))"
    using post by (simp add: pending_jobs_def pending_def upd_pooled_def)
  moreover have "mset (accepted s) = mset (called s) + pending_jobs s (made (mem s))"
    using inv by (simp add: let_inv_def)
  ultimately show ?thesis unfolding t let_inv_def by simp
qed

lemma let_step_inv:
  assumes "let_step p new s t" and "let_inv s"
    and "\<forall>l. new l \<notin> set l" and "case p of Posix k \<Rightarrow> 1 \<le> k | Win32 \<Rightarrow> True"
  shows "let_inv t"
  using assms(1)
proof cases
  case (new_threadlet lt)
  then show ?thesis using new_threadlet_inv assms(2) by simp
next
  case (run_threadlet lt th ok name j now timeout)
  show ?thesis
  proof (cases th)
    case None
    then show ?thesis using run_threadlet run_old_inv run_new_inv assms(2-4)
      by (cases "m_headPooled (mem s)") auto
  next
    case (Some a)
    then show ?thesis using run_threadlet assms(2) by (simp add: run_def)
  qed
next
  case (delete_threadlet lt th)
  then show ?thesis using delete_threadlet_inv assms(2) by simp
next
  case (pooled_moves a)
  then show ?thesis using pooled_step_inv assms(2) by simp
qed

lemma let_init_inv: "let_init s \<Longrightarrow> let_inv s"
  by (auto simp: let_init_def let_inv_def free_list_ok_def ties_ok_def pending_jobs_def)

definition let_fits :: "platform \<Rightarrow> (addr list \<Rightarrow> addr) \<Rightarrow> bool" where
  "let_fits p new \<longleftrightarrow> (\<forall>l. new l \<notin> set l) \<and> (case p of Posix k \<Rightarrow> 1 \<le> k | Win32 \<Rightarrow> True)"

interpretation let_system: invariant_system let_init
  "\<lambda>s t. let_fits p new \<and> let_step p new s t" let_inv
  for p new
  by unfold_locales (auto simp: let_fits_def intro: let_init_inv let_step_inv)

definition let_reachable :: "platform \<Rightarrow> (addr list \<Rightarrow> addr) \<Rightarrow> let_sys \<Rightarrow> bool" where
  "let_reachable p new s \<longleftrightarrow> reach let_init (\<lambda>s t. let_fits p new \<and> let_step p new s t) s"

lemma let_reachable_inv: "let_reachable p new s \<Longrightarrow> let_inv s"
  unfolding let_reachable_def by (rule let_system.reach_inv)

subsection \<open>A pending call\<close>

text \<open>
  A thread with a pending job gets to the end of its call in at most two steps of its own,
  the wait and the call, unless \<^verbatim>\<open>CreateThread\<close> failed when it was made.
\<close>

fun pooled_steps :: "nat \<Rightarrow> addr \<Rightarrow> let_sys \<Rightarrow> let_sys option" where
  "pooled_steps 0 a s = Some s"
| "pooled_steps (Suc n) a s = Option.bind (pooled_step a (pcs s a) s) (pooled_steps n a)"

definition can_call :: "let_sys \<Rightarrow> addr \<Rightarrow> bool" where
  "can_call s a \<longleftrightarrow> (\<exists>n v. n \<le> 2 \<and> pooled_steps n a s = Some v \<and>
     called v = called s @ [job_of (pooled (mem s) a)])"

lemma pending_can_call:
  assumes inv: "let_inv s" and a: "a \<in> set (made (mem s))" and p: "pending s a"
  shows "pcs s a = P_NotStarted \<or> can_call s a"
proof -
  have ok: "thread_ok (pcs s a) (pooled (mem s) a)" using let_invD(3) [OF inv a] .
  consider "pcs s a = P_Call" | "pcs s a = P_NotStarted" | "pcs s a = P_Wait"
      "0 < sem_value (m_semaphore (pooled (mem s) a))"
    using p ok by (auto simp: pending_def thread_ok_def)
  then show ?thesis
  proof cases
    case 1
    then show ?thesis unfolding can_call_def by (intro disjI2 exI [of _ 1]) simp
  next
    case 3
    have "sem_ok (m_semaphore (pooled (mem s) a))" using ok by (simp add: thread_ok_def)
    then obtain r c where "Wait (m_semaphore (pooled (mem s) a)) = Done (r, c)"
      using Wait_Done_iff 3(2) by blast
    then have "\<exists>v. pooled_steps (Suc 1) a s = Some v \<and> called v = called s @ [job_of (pooled (mem s) a)]"
      using 3(1) by (simp add: job_of_def)
    then show ?thesis unfolding can_call_def
      by (intro disjI2 exI [of _ "Suc 1"]) auto
  qed simp
qed

text \<open>
  The call of \<open>j\<close> is owed to the threadlet \<open>lt\<close> since the calls \<open>l\<close>: it was made after them, or
  the thread tied to \<open>lt\<close> still has to make it. Nobody takes that away but the destructor
  of \<open>lt\<close>.
\<close>

definition owed :: "addr \<Rightarrow> job \<Rightarrow> job list \<Rightarrow> let_sys \<Rightarrow> bool" where
  "owed lt j l s \<longleftrightarrow> (\<exists>m. called s = l @ m \<and> (j \<in> set m \<or>
     (\<exists>b. lets s lt = Some (Some b) \<and> pending s b \<and> job_of (pooled (mem s) b) = j)))"

lemma owed_called:
  "j \<in> set m \<Longrightarrow> called s = l @ m \<Longrightarrow> called t = called s @ k \<Longrightarrow> owed lt j l t"
  by (auto simp: owed_def)

lemma owed_same:
  assumes "owed lt j l s" and "called t = called s"
    and "\<And>b. lets s lt = Some (Some b) \<Longrightarrow> pending s b \<Longrightarrow> lets t lt = Some (Some b) \<and> pending t b \<and>
      job_of (pooled (mem t) b) = job_of (pooled (mem s) b)"
  shows "owed lt j l t"
  using assms unfolding owed_def by metis

lemma owed_pooled:
  assumes inv: "let_inv s" and a: "a \<in> set (made (mem s))"
    and st: "pooled_step a (pcs s a) s = Some t" and o: "owed lt j l s"
  shows "owed lt j l t"
proof -
  note d = let_invD [OF inv]
  have ok: "thread_ok (pcs s a) (pooled (mem s) a)" using d(3) [OF a] .
  have tie: "lets s k = Some (Some b) \<longleftrightarrow> b \<in> set (made (mem s)) \<and> m_caller (pooled (mem s) b) = Some k"
    for k b using d(2) by (simp add: ties_ok_def)
  show ?thesis
  proof (cases "pcs s a")
    case P_NotStarted
    then show ?thesis using st by simp
  next
    case P_Wait
    then show ?thesis using st
      by (auto split: outcome.splits simp: pending_def job_of_def intro!: owed_same [OF o])
  next
    case P_Call
    then have t: "called t = called s @ [job_of (pooled (mem s) a)]" "lets t = lets s" "mem t = mem s"
        "\<And>b. b \<noteq> a \<Longrightarrow> pcs t b = pcs s b"
      using st by auto
    show ?thesis using o t unfolding owed_def pending_def by (cases "lets s lt = Some (Some a)") force+
  next
    case P_Reset
    then show ?thesis using st ok
      by (auto simp: pending_def job_of_def thread_ok_def intro!: owed_same [OF o])
  next
    case P_Untie
    then have na: "\<not> pending s a" using ok by (auto simp: pending_def thread_ok_def)
    show ?thesis
    proof (cases "m_caller (pooled (mem s) a)")
      case None
      then show ?thesis using st P_Untie na
        by (auto simp: pending_def intro!: owed_same [OF o])
    next
      case (Some k)
      then have t: "t = s\<lparr>lets := (lets s)(k := Some None),
          mem := upd_pooled a (\<lambda>t. t\<lparr>m_caller := None\<rparr>) (mem s), pcs := (pcs s)(a := P_Release)\<rparr>"
        using st P_Untie by simp
      have k: "lets s k = Some (Some a)" using tie a Some by simp
      show ?thesis
      proof (rule owed_same [OF o])
        fix b assume "lets s lt = Some (Some b)" and "pending s b"
        moreover from this have "b \<noteq> a" "lt \<noteq> k" using na k by auto
        ultimately show "lets t lt = Some (Some b) \<and> pending t b \<and>
            job_of (pooled (mem t) b) = job_of (pooled (mem s) b)"
          by (simp add: t pending_def)
      qed (simp add: t)
    qed
  next
    case P_Release
    then show ?thesis using st ok
      by (auto simp: pending_def job_of_def thread_ok_def ReleasePooledThread_def intro!: owed_same [OF o])
  qed
qed

lemma free_head_idle:
  assumes "free_list_ok s" and "m_headPooled (mem s) = Some h"
  shows "h \<in> set (made (mem s)) \<and> idle s h"
proof -
  obtain fs where fs: "chain (free_next (mem s)) (Some h) fs"
      "set fs = {b \<in> set (made (mem s)). idle s b}"
    using assms by (auto simp: free_list_ok_def)
  have "h \<in> set fs" using fs(1) by (auto simp: chain_Some)
  then show ?thesis using fs(2) by simp
qed

lemma owed_run:
  assumes inv: "let_inv s" and fits: "let_fits p new" and k: "lets s k = Some None"
    and o: "owed lt j l s"
  shows "owed lt j l (snd (run p new ok name j' now timeout k None s))"
proof (rule owed_same [OF o])
  note d = let_invD [OF inv]
  fix b assume b: "lets s lt = Some (Some b)" "pending s b"
  obtain a m where g: "GetPooledThread p new (mem s) = (a, m)" by fastforce
  have bm: "b \<in> set (made (mem s))" "m_caller (pooled (mem s) b) = Some lt"
    using d(2) b(1) by (auto simp: ties_ok_def)
  have "b \<noteq> a \<and> pooled m b = pooled (mem s) b"
  proof (cases "m_headPooled (mem s)")
    case None
    then show ?thesis using g bm fits
      by (auto simp: GetPooledThread_def Let_def let_fits_def)
  next
    case (Some h)
    have "idle s h" by (rule free_head_idle [OF d(1) Some, THEN conjunct2])
    then have "b \<noteq> h" using b(2) by (auto simp: idle_def pending_def)
    then show ?thesis using g Some by (auto simp: GetPooledThread_def)
  qed
  moreover have "lt \<noteq> k" using b(1) k by auto
  ultimately show "lets (snd (run p new ok name j' now timeout k None s)) lt = Some (Some b) \<and>
      pending (snd (run p new ok name j' now timeout k None s)) b \<and>
      job_of (pooled (mem (snd (run p new ok name j' now timeout k None s))) b) =
      job_of (pooled (mem s) b)"
    using b by (simp add: run_def g Let_def pending_def)
qed (simp add: run_def split: prod.splits)

text \<open>A step of the system after which the threadlet \<open>lt\<close> still exists.\<close>

definition lives_step :: "platform \<Rightarrow> (addr list \<Rightarrow> addr) \<Rightarrow> addr \<Rightarrow> let_sys \<Rightarrow> let_sys \<Rightarrow> bool" where
  "lives_step p new lt s t \<longleftrightarrow> let_fits p new \<and> let_step p new s t \<and> lets t lt \<noteq> None"

lemma owed_step:
  assumes inv: "let_inv s" and st: "lives_step p new lt s t" and o: "owed lt j l s"
  shows "owed lt j l t"
proof -
  have "let_step p new s t" and fits: "let_fits p new" and lt: "lets t lt \<noteq> None"
    using st by (simp_all add: lives_step_def)
  then show ?thesis
  proof cases
    case (new_threadlet k)
    then show ?thesis by (auto simp: pending_def intro!: owed_same [OF o])
  next
    case (run_threadlet k th ok name j' now timeout)
    then show ?thesis using owed_run [OF inv fits _ o] o by (cases th) (auto simp: run_def)
  next
    case (delete_threadlet k th)
    then have "k \<noteq> lt" using lt by (auto simp: Threadlet_delete_def split: option.splits)
    then show ?thesis using delete_threadlet(1)
      by (auto simp: Threadlet_delete_def pending_def job_of_def split: option.splits
          intro!: owed_same [OF o])
  next
    case (pooled_moves a)
    then show ?thesis using owed_pooled [OF inv _ _ o] by blast
  qed
qed

lemma owed_lives:
  assumes "(lives_step p new lt)\<^sup>*\<^sup>* s t" and "let_inv s" and "owed lt j l s"
  shows "let_inv t \<and> owed lt j l t"
  using assms
proof (induction rule: rtranclp_induct)
  case (step t u)
  then show ?case using owed_step [of t p new lt u]
    by (auto simp: lives_step_def let_fits_def intro: let_step_inv)
qed simp

lemma run_owed:
  assumes inv: "let_inv s" and fits: "let_fits p new" and lt: "lets s lt = Some None"
  shows "owed lt j (called s) (snd (run p new ok name j now timeout lt None s))"
proof -
  note d = let_invD [OF inv]
  obtain a m where g: "GetPooledThread p new (mem s) = (a, m)" by fastforce
  have "0 < sem_value (snd (Post (m_semaphore (pooled m a))))"
  proof (cases "m_headPooled (mem s)")
    case None
    then have "m_semaphore (pooled m a) = CEZSemaphore_new p 0"
      using g by (auto simp: GetPooledThread_def Let_def upd_pooled_def)
    moreover have "sem_ok (CEZSemaphore_new p 0)" "1 \<le> sem_max (CEZSemaphore_new p 0)"
        "sem_value (CEZSemaphore_new p 0) = 0"
      using fits by (cases p; simp add: sem_ok_def let_fits_def)+
    ultimately show ?thesis by (auto simp: Post_value)
  next
    case (Some h)
    have h: "h \<in> set (made (mem s))" "idle s h" using free_head_idle [OF d(1) Some] by auto
    have "pooled m a = pooled (mem s) h" using g Some by (auto simp: GetPooledThread_def)
    then show ?thesis using h(2) d(3) [OF h(1)] by (simp add: idle_def thread_ok_def Post_value)
  qed
  then show ?thesis by (auto simp: owed_def run_def g Let_def pending_def)
qed

subsection \<open>Properties\<close>

text \<open>
  In every interleaving of threadlets being made, run and destroyed with the pooled
  threads, each accepted job is called at most once, with its own object, function and
  parameter: the accepted jobs are those called and those of the threads with a pending job,
  one job for each; and such a thread can make its call, unless it could not be created.
\<close>

lemma let_inv_jobs:
  assumes "let_inv s"
  shows "distinct (made (mem s)) \<and>
    mset (accepted s) = mset (called s) +
      mset (map (\<lambda>a. job_of (pooled (mem s) a)) (filter (pending s) (made (mem s)))) \<and>
    (\<forall>a \<in> set (made (mem s)). pending s a \<longrightarrow> pcs s a = P_NotStarted \<or> can_call s a)"
  using assms pending_can_call [OF assms] by (auto simp: let_inv_def pending_jobs_def)

lemmas jobs_called_once = let_inv_jobs [OF let_reachable_inv]

text \<open>
  C13. A threadlet that is running has a pooled thread to itself: no other threadlet has
  that thread, the thread is not in the free list, and it has not yet passed the point
  where it gives the threadlet up. And it keeps it until its function has returned: after
  \<^verbatim>\<open>run\<close> has accepted a function on an idle threadlet, whatever the threadlets and the
  pooled threads do, as long as the threadlet is not destroyed, either that function has been
  called since and has returned (a step \<^verbatim>\<open>P_Call\<close> is the whole call, up to the return), or the
  threadlet still has the thread that will call it, so that \<^verbatim>\<open>run\<close> refuses another
  function. The second accepted \<^verbatim>\<open>run\<close> is thus always after the return of the first.
\<close>

theorem threadlet_exclusive:
  assumes "let_reachable p new s"
  shows "(lets s lt = Some (Some a) \<longrightarrow>
      (\<forall>lt'. lets s lt' = Some (Some a) \<longrightarrow> lt' = lt) \<and> pcs s a \<noteq> P_Release \<and>
      (\<exists>fs. chain (free_next (mem s)) (m_headPooled (mem s)) fs \<and> a \<notin> set fs)) \<and>
    (let_fits p new \<and> lets s lt = Some None \<and>
      (lives_step p new lt)\<^sup>*\<^sup>* (snd (run p new ok name j now timeout lt None s)) t \<longrightarrow>
      j \<in> set (drop (length (called s)) (called t)) \<or>
      (\<exists>b. lets t lt = Some (Some b) \<and> pending t b \<and> job_of (pooled (mem t) b) = j \<and>
        \<not> fst (run p new ok' name' j' now' timeout' lt (Some b) t)))"
proof (intro conjI impI)
  have inv: "let_inv s" by (rule let_reachable_inv [OF assms])
  note d = let_invD [OF inv]
  {
    assume lt: "lets s lt = Some (Some a)"
    have a: "a \<in> set (made (mem s))" "m_caller (pooled (mem s) a) = Some lt"
      using d(2) lt by (auto simp: ties_ok_def)
    have ok: "thread_ok (pcs s a) (pooled (mem s) a)" using d(3) a(1) .
    obtain fs where fs: "chain (free_next (mem s)) (m_headPooled (mem s)) fs"
        "set fs = {b \<in> set (made (mem s)). idle s b}"
      using d(1) by (auto simp: free_list_ok_def)
    have "a \<notin> set fs" using ok a(2) fs(2) by (auto simp: thread_ok_def idle_def)
    then show "\<exists>fs. chain (free_next (mem s)) (m_headPooled (mem s)) fs \<and> a \<notin> set fs"
      using fs(1) by blast
    show "\<forall>lt'. lets s lt' = Some (Some a) \<longrightarrow> lt' = lt"
      using d(2) a(2) by (auto simp: ties_ok_def)
    show "pcs s a \<noteq> P_Release" using ok a(2) by (auto simp: thread_ok_def)
  }
  let ?u = "snd (run p new ok name j now timeout lt None s)"
  assume h: "let_fits p new \<and> lets s lt = Some None \<and> (lives_step p new lt)\<^sup>*\<^sup>* ?u t"
  then have fits: "let_fits p new" and lt: "lets s lt = Some None" by blast+
  have "let_step p new s ?u" by (rule run_threadlet [OF lt])
  then have "let_inv ?u" using inv fits by (auto simp: let_fits_def intro: let_step_inv)
  then have "owed lt j (called s) t"
    using owed_lives h run_owed [OF inv fits lt] by blast
  then show "j \<in> set (drop (length (called s)) (called t)) \<or>
      (\<exists>b. lets t lt = Some (Some b) \<and> pending t b \<and> job_of (pooled (mem t) b) = j \<and>
        \<not> fst (run p new ok' name' j' now' timeout' lt (Some b) t))"
    by (auto simp: owed_def run_def)
qed

definition raw_pooled :: CEZPooledThread where
  "raw_pooled = \<lparr>m_bLoop = False, m_bWaitThreadExit = False, m_nPriority = 0, m_dwStackSize = 0,
     m_hThread = None, m_ID = 0, m_pStrThreadName = [], m_pMsgQue = None, m_pPrev = None,
     m_pNext = None, m_cCEZSemaphore = CEZSemaphore_new Win32 0, m_expectedTime = 0,
     m_desCEZSemaphore = CEZSemaphore_new Win32 0, m_obj = None, m_asynFunc = 0, m_param = 0,
     m_semaphore = CEZSemaphore_new Win32 0, m_nextPooled = None, m_caller = None\<rparr>"

definition let_start :: let_sys where
  "let_start = \<lparr>mem = \<lparr>pooled = \<lambda>_. raw_pooled, m_headPooled = None, made = []\<rparr>, lets = (\<lambda>_. None),
     pcs = (\<lambda>_. P_NotStarted), accepted = [], called = []\<rparr>"

definition fresh_addr :: "addr list \<Rightarrow> addr" where
  "fresh_addr l = Suc (sum_list l)"

lemma fresh_addr_fits: "let_fits (Posix 8) fresh_addr"
  by (auto simp: let_fits_def fresh_addr_def dest: member_le_sum_list)

definition let_before :: let_sys where
  "let_before = let_start\<lparr>lets := (lets let_start)(5 := Some None)\<rparr>"

definition let_ran :: let_sys where
  "let_ran = snd (run (Posix 8) fresh_addr True ''job'' (Some 9, 3, 42) 0 0 5 None let_before)"

lemma let_before_eq: "lets let_before 5 = Some None" "called let_before = []"
  by (simp_all add: let_before_def let_start_def)

lemma let_before_reachable: "let_reachable (Posix 8) fresh_addr let_before"
proof -
  have "reach let_init (\<lambda>s t. let_fits (Posix 8) fresh_addr \<and> let_step (Posix 8) fresh_addr s t) let_start"
    by (rule reach_init) (simp add: let_init_def let_start_def)
  then show ?thesis unfolding let_reachable_def let_before_def
    by (rule reach_step) (intro conjI fresh_addr_fits new_threadlet, simp add: let_start_def)
qed

lemma let_ran_reachable: "let_reachable (Posix 8) fresh_addr let_ran"
  using let_before_reachable unfolding let_reachable_def let_ran_def
  by (rule reach_step) (intro conjI fresh_addr_fits run_threadlet let_before_eq)

lemma let_ran_eq:
  "lets let_ran 5 = Some (Some 1)" "accepted let_ran = [(Some 9, 3, 42)]"
  "called let_ran = []" "made (mem let_ran) = [1]"
  by (simp_all add: let_ran_def let_before_def run_def GetPooledThread_def let_start_def fresh_addr_def)

text \<open>
  The threadlet at 5 is run with the thread at 1, which takes the post and calls the function; a second
  \<^verbatim>\<open>run\<close> is refused after the first of these steps.
\<close>

definition let_woken :: let_sys where
  "let_woken = the (pooled_step 1 P_Wait let_ran)"

lemma let_woken_eq:
  "pooled_step 1 (pcs let_ran 1) let_ran = Some let_woken" "called let_woken = []"
  "lets let_woken 5 = Some (Some 1)"
proof -
  have "\<exists>v. pooled_step 1 P_Wait let_ran = Some v \<and> called v = [] \<and> lets v 5 = Some (Some 1)"
    by (simp add: let_ran_def let_before_def run_def GetPooledThread_def let_start_def fresh_addr_def give_job_def
        Let_def Wait_def Post_def)
  then show "pooled_step 1 (pcs let_ran 1) let_ran = Some let_woken" "called let_woken = []"
      "lets let_woken 5 = Some (Some 1)"
    by (auto simp: let_woken_def let_ran_def let_before_def run_def GetPooledThread_def let_start_def fresh_addr_def)
qed

theorem threadlet_exclusive_witness:
  "pcs let_ran 1 \<noteq> P_Release \<and> pending let_woken 1 \<and>
    job_of (pooled (mem let_woken) 1) = (Some 9, 3, 42)"
proof -
  have "lives_step (Posix 8) fresh_addr 5 let_ran let_woken"
    unfolding lives_step_def
    using pooled_moves [of 1 let_ran let_woken] let_woken_eq let_ran_eq fresh_addr_fits by simp
  then have "(lives_step (Posix 8) fresh_addr 5)\<^sup>*\<^sup>*
      (snd (run (Posix 8) fresh_addr True ''job'' (Some 9, 3, 42) 0 0 5 None let_before)) let_woken"
    by (simp add: let_ran_def [symmetric] r_into_rtranclp)
  then obtain b where "lets let_woken 5 = Some (Some b)" "pending let_woken b"
      "job_of (pooled (mem let_woken) b) = (Some 9, 3, 42)"
    using threadlet_exclusive [OF let_before_reachable, of 5 0 True "''job''" "(Some 9, 3, 42)" 0 0
        let_woken True "''job''" "(None, 0, 0)" 0 0]
      let_before_eq fresh_addr_fits let_woken_eq(2) by auto
  then have "pending let_woken 1 \<and> job_of (pooled (mem let_woken) 1) = (Some 9, 3, 42)"
    using let_woken_eq(3) by simp
  moreover have "pcs let_ran 1 \<noteq> P_Release"
    using threadlet_exclusive [OF let_ran_reachable, of 5 1] let_ran_eq(1) by simp
  ultimately show ?thesis by simp
qed

end
