(* ===== verification/Clock.thy ===== *)
theory Clock
  imports EZPrelude
begin

section \<open>The clocks of the library\<close>

text \<open>
  \<^verbatim>\<open>src/api_ezthread.c\<close>: the millisecond clock \<^verbatim>\<open>SystemGetMSCount\<close> of each platform and
  the process counter built on it. The system's clock is a parameter: a call reads it and
  changes the environment \<open>'e\<close>. The static variables of a function are a state passed
  along.
\<close>

type_synonym u64 = "64 word"

record timespec =
  tv_sec :: nat
  tv_nsec :: nat

subsection \<open>SystemGetMSCount\<close>

text \<open>
  Linux: the static \<^verbatim>\<open>ts\<close> keeps the last reading that succeeded, from the start
  \<^verbatim>\<open>{0, 0}\<close>. \<^verbatim>\<open>clock_gettime\<close> returns \<^verbatim>\<open>None\<close> when it fails. The sum is computed in 64
  bits and cut to \<^verbatim>\<open>unsigned int\<close> by the return.
\<close>

definition SystemGetMSCount_linux ::
    "('e \<Rightarrow> timespec option \<times> 'e) \<Rightarrow> timespec \<times> 'e \<Rightarrow> u32 \<times> timespec \<times> 'e" where
  "SystemGetMSCount_linux clock_gettime s =
     (let (r, e) = clock_gettime (snd s);
          ts = (case r of Some t \<Rightarrow> t | None \<Rightarrow> fst s)
      in (word_of_nat (tv_sec ts * 1000 + tv_nsec ts div 1000 div 1000), ts, e))"

text \<open>
  macOS: \<^verbatim>\<open>SystemGetUSCount\<close> cuts the microseconds to an \<^verbatim>\<open>int\<close>; the milliseconds are
  these multiplied by 1000. Without a platform macro the clock stands at 0.
\<close>

definition SystemGetUSCount :: "('e \<Rightarrow> (nat \<times> nat) \<times> 'e) \<Rightarrow> 'e \<Rightarrow> u32 \<times> 'e" where
  "SystemGetUSCount gettimeofday e =
     (let ((sec, usec), e') = gettimeofday e
      in (word_of_nat (sec * 1000 * 1000 + usec), e'))"

definition SystemGetMSCount_mac :: "('e \<Rightarrow> (nat \<times> nat) \<times> 'e) \<Rightarrow> 'e \<Rightarrow> u32 \<times> 'e" where
  "SystemGetMSCount_mac gettimeofday e =
     (let (us, e') = SystemGetUSCount gettimeofday e in (us * 1000, e'))"

definition SystemGetMSCount_none :: "'e \<Rightarrow> u32 \<times> 'e" where
  "SystemGetMSCount_none e = (0, e)"

text \<open>
  Windows: \<^verbatim>\<open>GetTickCount\<close>. Sleeping is the system's; \<^verbatim>\<open>SystemSleep\<close> hands \<^verbatim>\<open>usleep\<close> the
  microseconds, computed as \<^verbatim>\<open>unsigned int\<close>.
\<close>

definition SystemGetMSCount_win :: "('e \<Rightarrow> u32 \<times> 'e) \<Rightarrow> 'e \<Rightarrow> u32 \<times> 'e" where
  "SystemGetMSCount_win GetTickCount e = GetTickCount e"

definition SystemSleep :: "(u32 \<Rightarrow> 'e \<Rightarrow> 'e) \<Rightarrow> u32 \<Rightarrow> 'e \<Rightarrow> 'e" where
  "SystemSleep usleep ms e = usleep (ms * 1000) e"

text \<open>A sleep of more than 4294967 ms, some 71 minutes, is cut short.\<close>

lemma SystemSleep_short:
  fixes ms :: u32
  shows "SystemSleep (\<lambda>us t. t + unat us) ms t = t + unat ms * 1000 \<longleftrightarrow> unat ms \<le> 4294967"
proof -
  have e: "unat (ms * 1000) = unat ms * 1000 mod 2 ^ 32" by (simp add: unat_word_ariths)
  have "n * 1000 mod 2 ^ 32 = n * 1000 \<longleftrightarrow> n \<le> 4294967" for n :: nat
    by (simp add: mod_eq_self_iff_div_eq_0 div_eq_0_iff) linarith
  then show ?thesis by (simp add: SystemSleep_def e)
qed

subsection \<open>process_counter_ms and process_counter_sec\<close>

record counter =
  lastTime :: u32
  curTime :: u32
  adjTime :: u64
  MyMsCount :: u64

definition counter_start :: counter where
  "counter_start = \<lparr>lastTime = 0, curTime = 0, adjTime = 0, MyMsCount = 0\<rparr>"

text \<open>What the function does with the two readings; the difference is an \<^verbatim>\<open>unsigned int\<close>.\<close>

definition counter_adjust :: "u32 \<Rightarrow> u32 \<Rightarrow> u64" where
  "counter_adjust cur prev =
     (if prev \<le> cur then ucast (cur - prev) else ucast ((0xffffffff - prev) + cur))"

definition process_counter_ms ::
    "('c \<Rightarrow> u32 \<times> 'c) \<Rightarrow> counter \<times> 'c \<Rightarrow> u64 \<times> counter \<times> 'c" where
  "process_counter_ms ms_count s =
     (let (k, c) = s;
          (prev, c) = (if lastTime k = 0 then ms_count c else (lastTime k, c));
          (cur, c) = ms_count c;
          adj = counter_adjust cur prev;
          n = MyMsCount k + adj
      in (n, \<lparr>lastTime = cur, curTime = cur, adjTime = adj, MyMsCount = n\<rparr>, c))"

definition process_counter_sec ::
    "('c \<Rightarrow> u32 \<times> 'c) \<Rightarrow> counter \<times> 'c \<Rightarrow> u64 \<times> counter \<times> 'c" where
  "process_counter_sec ms_count s =
     (let (n, s') = process_counter_ms ms_count s in (n div 1000, s'))"

subsection \<open>The Linux clock shows the last successful reading\<close>

definition ms_of :: "timespec \<Rightarrow> nat" where
  "ms_of ts = tv_sec ts * 1000 + tv_nsec ts div 1000000"

lemma SystemGetMSCount_linux_eq:
  "SystemGetMSCount_linux g s =
     (word_of_nat (ms_of (case fst (g (snd s)) of Some t \<Rightarrow> t | None \<Rightarrow> fst s)),
      (case fst (g (snd s)) of Some t \<Rightarrow> t | None \<Rightarrow> fst s), snd (g (snd s)))"
  by (cases "g (snd s)"; cases "fst (g (snd s))")
    (simp_all add: SystemGetMSCount_linux_def ms_of_def Let_def div_mult2_eq [symmetric])

text \<open>Scripted environments: the results still to come.\<close>

fun scripted :: "'r list \<Rightarrow> 'r option \<times> 'r list" where
  "scripted [] = (None, [])"
| "scripted (r # rs) = (Some r, rs)"

fun ticks :: "nat list \<Rightarrow> u32 \<times> nat list" where
  "ticks [] = (0, [])"
| "ticks (t # ts) = (word_of_nat t, ts)"

subsection \<open>The process counter over a history of calls\<close>

text \<open>
  The results of one call of the counter for each true time of a list, the last first
  call having left the reading of the time \<open>t\<close>.
\<close>

fun counter_run :: "counter \<Rightarrow> nat list \<Rightarrow> counter" where
  "counter_run k [] = k"
| "counter_run k (t # ts) =
     counter_run (fst (snd (process_counter_ms ticks (k, [t])))) ts"

lemma ucast_u32_u64: "(ucast (w :: u32) :: u64) = word_of_nat (unat w)"
  by simp

lemma quotient_step:
  fixes M :: nat
  assumes "r < M" and "r' < M" and "q * M + r \<le> q' * M + r'" and "q' * M + r' < q * M + r + M"
  shows "q' = (if r \<le> r' then q else q + 1)"
proof -
  have "q * M < (q' + 1) * M" using assms(1-3) by (simp add: algebra_simps)
  then have lo: "q \<le> q'" by (simp only: mult_less_cancel2) simp
  have "q' * M < (q + 2) * M" using assms(1,2,4) by (simp add: algebra_simps)
  then have "q' < q + 2" by (simp only: mult_less_cancel2)
  with lo consider "q' = q" | "q' = q + 1" by linarith
  then show ?thesis using assms(3,4) by cases auto
qed

lemma counter_adjust_times:
  assumes "t \<le> t'" and "t' < t + 2 ^ 32"
  shows "counter_adjust (word_of_nat t') (word_of_nat t) =
    word_of_nat (t' - t - (t' div 2 ^ 32 - t div 2 ^ 32))"
proof -
  define q r where "q = t div 2 ^ 32" and "r = t mod 2 ^ 32"
  define q' r' where "q' = t' div 2 ^ 32" and "r' = t' mod 2 ^ 32"
  have t: "t = q * 2 ^ 32 + r" and t': "t' = q' * 2 ^ 32 + r'" and m: "r < 2 ^ 32" "r' < 2 ^ 32"
    unfolding q_def r_def q'_def r'_def by simp_all
  have q: "q' = (if r \<le> r' then q else q + 1)"
    using quotient_step [OF m] assms unfolding t t' by simp
  have u: "unat (word_of_nat t :: u32) = r" "unat (word_of_nat t' :: u32) = r'"
    by (simp_all add: unsigned_of_nat take_bit_eq_mod r_def r'_def)
  then have le: "(word_of_nat t :: u32) \<le> word_of_nat t' \<longleftrightarrow> r \<le> r'"
    by (simp add: word_le_nat_alt)
  have "counter_adjust (word_of_nat t') (word_of_nat t) = word_of_nat (t' - t - (q' - q))"
  proof (cases "r \<le> r'")
    case True
    have "unat (word_of_nat t' - word_of_nat t :: u32) = t' - t"
      using unat_sub [OF iffD2 [OF le True]] u q t t' True by simp
    then show ?thesis using True le q
      by (simp add: counter_adjust_def ucast_u32_u64)
  next
    case False
    have "unat (0xffffffff - word_of_nat t :: u32) = 2 ^ 32 - 1 - r"
    proof -
      have "(word_of_nat t :: u32) \<le> 0xffffffff" using u(1) m(1) by (simp only: word_le_nat_alt) simp
      from unat_sub [OF this] show ?thesis using u(1) by simp
    qed
    then have "unat (0xffffffff - word_of_nat t + word_of_nat t' :: u32) =
        (2 ^ 32 - 1 - r + r') mod 2 ^ 32"
      by (simp only: unat_u32_plus u)
    also have "\<dots> = t' - t - 1"
      using False m q t t' by simp
    finally show ?thesis using False le q
      by (simp add: counter_adjust_def ucast_u32_u64)
  qed
  then show ?thesis by (simp only: q_def q'_def)
qed

text \<open>
  \<open>lost\<close>: the wraps of the 32-bit clock between two times. \<open>spaced\<close>: the times of the
  calls do not decrease, two in a row are less than a clock period apart, and none is
  read as 0.
\<close>

definition lost :: "nat \<Rightarrow> nat \<Rightarrow> nat" where
  "lost t t' = t' div 2 ^ 32 - t div 2 ^ 32"

fun spaced :: "nat \<Rightarrow> nat list \<Rightarrow> bool" where
  "spaced t [] \<longleftrightarrow> True"
| "spaced t (t' # ts) \<longleftrightarrow> t \<le> t' \<and> t' < t + 2 ^ 32 \<and> t' mod 2 ^ 32 \<noteq> 0 \<and> spaced t' ts"

lemma u32_of_nat_zero: "(word_of_nat t :: u32) = 0 \<longleftrightarrow> t mod 2 ^ 32 = 0"
  by (simp add: word_of_nat_eq_0_iff mod_eq_0_iff_dvd)

lemma process_counter_ms_call:
  assumes "lastTime k = word_of_nat t" and "t mod 2 ^ 32 \<noteq> 0" and "t \<le> t'" and "t' < t + 2 ^ 32"
  shows "fst (snd (process_counter_ms ticks (k, [t']))) =
    \<lparr>lastTime = word_of_nat t', curTime = word_of_nat t', adjTime = word_of_nat (t' - t - lost t t'),
     MyMsCount = MyMsCount k + word_of_nat (t' - t - lost t t')\<rparr>"
  using counter_adjust_times [OF assms(3,4)] assms(1,2)
  by (simp add: process_counter_ms_def Let_def u32_of_nat_zero lost_def)

lemma lost_le: "t \<le> t' \<Longrightarrow> lost t t' \<le> t' - t"
proof -
  assume "t \<le> t'"
  then obtain d where d: "t' = t + d" using le_Suc_ex by blast
  have "(t + d) div 2 ^ 32 \<le> t div 2 ^ 32 + d"
  proof (induction d)
    case (Suc d)
    then show ?case using Suc_div_le_mono
      by (simp add: div_Suc)
  qed simp
  then show ?thesis by (simp add: lost_def d)
qed

lemma lost_trans: "t \<le> t' \<Longrightarrow> t' \<le> t'' \<Longrightarrow> lost t t' + lost t' t'' = lost t t''"
  using div_le_mono [of t t' "2 ^ 32"] div_le_mono [of t' t'' "2 ^ 32"] by (simp add: lost_def)

lemma spaced_le: "spaced t ts \<Longrightarrow> t \<le> List.last (t # ts)"
proof (induction ts arbitrary: t)
  case (Cons t' ts)
  then have "t \<le> t'" "t' \<le> List.last (t' # ts)" by auto
  then show ?case by simp
qed simp

text \<open>
  Over any history of calls at most one clock period apart, the counter has advanced
  by the true time that has passed, less one millisecond for every wrap of the 32-bit
  clock (the code adds \<^verbatim>\<open>0xffffffff - lastTime + curTime\<close>, one short).
\<close>

lemma process_counter_history:
  assumes "lastTime k = word_of_nat t" and "t mod 2 ^ 32 \<noteq> 0" and "spaced t ts"
  shows "MyMsCount (counter_run k ts) =
    MyMsCount k + word_of_nat (List.last (t # ts) - t - lost t (List.last (t # ts)))"
  using assms
proof (induction ts arbitrary: k t)
  case Nil
  then show ?case by simp
next
  case (Cons t' ts)
  let ?k = "fst (snd (process_counter_ms ticks (k, [t'])))"
  let ?l = "List.last (t' # ts)"
  have k: "lastTime ?k = word_of_nat t'"
      "MyMsCount ?k = MyMsCount k + word_of_nat (t' - t - lost t t')"
    using process_counter_ms_call [OF Cons.prems(1,2)] Cons.prems(3) by simp_all
  have le: "t \<le> t'" "t' \<le> ?l" using Cons.prems(3) spaced_le by auto
  have "MyMsCount (counter_run ?k ts) = MyMsCount ?k + word_of_nat (?l - t' - lost t' ?l)"
    using Cons.IH [OF k(1)] Cons.prems(3) by simp
  also have "\<dots> = MyMsCount k + word_of_nat ((t' - t - lost t t') + (?l - t' - lost t' ?l))"
    by (simp only: k(2) of_nat_add add.assoc)
  also have "(t' - t - lost t t') + (?l - t' - lost t' ?l) = ?l - t - lost t ?l"
    using lost_trans [OF le] lost_le [OF le(1)] lost_le [OF le(2)] le by linarith
  finally show ?case by simp
qed

text \<open>
  After a call that read the clock as 0 the function starts over: the time up to its next
  call is not counted at all.
\<close>

lemma process_counter_restart:
  assumes "lastTime k = 0"
  shows "MyMsCount (fst (snd (process_counter_ms ticks (k, [t, t])))) = MyMsCount k"
  using assms by (simp add: process_counter_ms_def Let_def counter_adjust_def)

end
