(* ===== verification/Timer.thy ===== *)
theory Timer
  imports Links Clock Format "HOL-Library.Multiset"
begin

section \<open>CEZTimer and CEZTimerManager\<close>

text \<open>
  \<^verbatim>\<open>src/EZTimer.h\<close> and \<^verbatim>\<open>src/EZTimer.cpp\<close>. The manager keeps the started timers in a doubly
  linked list sorted by their call time; its thread moves the current time on and runs
  every timer that is due. Every operation holds \<^verbatim>\<open>CEZTimer::m_CMutex\<close>, a recursive mutex,
  so it is one step here. Running the timer's function goes through its threadlet, which
  is a parameter acting on the rest of the world \<open>'w\<close>; its model is in \<open>Threadlet\<close>.
\<close>

subsection \<open>TimerValue\<close>

datatype TimerValue = TimerValue (lo: u32) (hi: u32)

text \<open>\<^verbatim>\<open>operator+=\<close>.\<close>

definition tv_add :: "TimerValue \<Rightarrow> u32 \<Rightarrow> TimerValue" where
  "tv_add v a =
     (let l = lo v + a in if l < a then TimerValue l (hi v + 1) else TimerValue l (hi v))"

definition compare :: "TimerValue \<Rightarrow> TimerValue \<Rightarrow> int" where
  "compare a b =
     (if hi a < hi b then -1
      else if hi b < hi a then 1
      else if lo a < lo b then -1
      else if lo b < lo a then 1
      else 0)"

text \<open>\<^verbatim>\<open>operator<\<close> is the comparison; with it the values are linearly ordered.\<close>

definition tv_less :: "TimerValue \<Rightarrow> TimerValue \<Rightarrow> bool" where
  "tv_less a b \<longleftrightarrow> compare a b < 0"

instantiation TimerValue :: linorder
begin

definition less_TimerValue :: "TimerValue \<Rightarrow> TimerValue \<Rightarrow> bool" where
  "less_TimerValue = tv_less"

definition less_eq_TimerValue :: "TimerValue \<Rightarrow> TimerValue \<Rightarrow> bool" where
  "less_eq_TimerValue a b \<longleftrightarrow> \<not> 0 < compare a b"

instance
proof
  fix x y z :: TimerValue
  show "x < y \<longleftrightarrow> x \<le> y \<and> \<not> y \<le> x"
    by (auto simp: less_TimerValue_def tv_less_def less_eq_TimerValue_def compare_def)
  show "x \<le> x" by (simp add: less_eq_TimerValue_def compare_def)
  show "x \<le> y \<Longrightarrow> y \<le> z \<Longrightarrow> x \<le> z"
    by (auto simp: less_eq_TimerValue_def compare_def split: if_splits)
  show "x \<le> y \<Longrightarrow> y \<le> x \<Longrightarrow> x = y"
    by (cases x; cases y) (auto simp: less_eq_TimerValue_def compare_def split: if_splits)
  show "x \<le> y \<or> y \<le> x" by (auto simp: less_eq_TimerValue_def compare_def split: if_splits)
qed

end

definition tv_gt :: "TimerValue \<Rightarrow> TimerValue \<Rightarrow> bool" where
  "tv_gt a b \<longleftrightarrow> 0 < compare a b"

definition tv_nat :: "TimerValue \<Rightarrow> nat" where
  "tv_nat v = unat (hi v) * 2 ^ 32 + unat (lo v)"

lemma tv_nat_less: "tv_nat v < 2 ^ 64"
  using unat_u32_less [of "hi v"] unat_u32_less [of "lo v"] by (simp add: tv_nat_def)

lemma tv_less_iff: "a < b \<longleftrightarrow> tv_nat a < tv_nat b"
proof -
  have "unat (lo a) < 2 ^ 32" "unat (lo b) < 2 ^ 32" by (rule unat_u32_less)+
  then show ?thesis
    by (simp add: less_TimerValue_def tv_less_def compare_def tv_nat_def word_less_nat_alt)
qed

lemma tv_le_iff: "a \<le> b \<longleftrightarrow> tv_nat a \<le> tv_nat b"
  by (simp add: tv_less_iff flip: not_less)

lemma tv_gt_iff [simp]: "tv_gt a b \<longleftrightarrow> b < a"
  by (auto simp: tv_gt_def less_TimerValue_def tv_less_def compare_def)

lemma tv_nat_add: "tv_nat (tv_add v a) = (tv_nat v + unat a) mod 2 ^ 64"
proof -
  have l: "unat (lo v) < 2 ^ 32" "unat a < 2 ^ 32" and h: "unat (hi v) < 2 ^ 32"
    by (rule unat_u32_less)+
  have small: "n < 2 ^ 32 \<Longrightarrow> m < 2 ^ 32 \<Longrightarrow> n * 2 ^ 32 + m < (2 ^ 64 :: nat)" for n m by simp
  show ?thesis
  proof (cases "2 ^ 32 \<le> unat (lo v) + unat a")
    case True
    then have lo: "unat (lo v + a) = unat (lo v) + unat a - 2 ^ 32"
      using l by (simp add: unat_u32_plus mod_if)
    have hi: "unat (hi v + 1) = (unat (hi v) + 1) mod 2 ^ 32" by (simp add: unat_u32_plus)
    have e: "tv_nat (tv_add v a) = (unat (hi v) + 1) mod 2 ^ 32 * 2 ^ 32 + (unat (lo v) + unat a - 2 ^ 32)"
      using True lo hi by (simp add: tv_add_def tv_nat_def u32_plus_carry)
    show ?thesis
    proof (cases "unat (hi v) + 1 = 2 ^ 32")
      case True
      then show ?thesis using e l \<open>2 ^ 32 \<le> _\<close> by (simp add: tv_nat_def mod_if)
    next
      case False
      then show ?thesis using e l h \<open>2 ^ 32 \<le> _\<close> by (simp add: tv_nat_def)
    qed
  next
    case False
    then have "unat (lo v + a) = unat (lo v) + unat a" by (simp add: unat_u32_plus)
    then show ?thesis using False small [OF h, of "unat (lo v) + unat a"]
      by (simp add: tv_add_def tv_nat_def u32_plus_carry)
  qed
qed

subsection \<open>Data\<close>

definition TIMER_NAME_LEN :: nat where
  "TIMER_NAME_LEN = 32"

record CEZTimer =
  m_CallTime :: TimerValue
  m_Priod :: u32
  m_timeout :: u32
  m_pObj :: "addr option"
  m_pTimerFun :: nat
  m_param :: EZTHREAD_PARAM
  m_Name :: string
  m_Started :: EZTHREAD_BOOL
  m_Called :: EZTHREAD_BOOL
  m_pPrev :: "addr option"
  m_pNext :: "addr option"

record 'w CEZTimerManager =
  timers :: "addr \<Rightarrow> CEZTimer"
  m_CurTime :: TimerValue
  m_pHead :: "addr option"
  world :: 'w

text \<open>The constructor of the manager, at the clock reading \<open>now\<close>.\<close>

definition CEZTimerManager_new :: "u32 \<Rightarrow> (addr \<Rightarrow> CEZTimer) \<Rightarrow> 'w \<Rightarrow> 'w CEZTimerManager" where
  "CEZTimerManager_new now tms w =
     \<lparr>timers = tms, m_CurTime = TimerValue now 0, m_pHead = None, world = w\<rparr>"

definition upd_timer :: "addr \<Rightarrow> (CEZTimer \<Rightarrow> CEZTimer) \<Rightarrow> 'w CEZTimerManager \<Rightarrow> 'w CEZTimerManager" where
  "upd_timer x f s = s\<lparr>timers := (timers s)(x := f (timers s x))\<rparr>"

subsection \<open>Names\<close>

text \<open>
  \<^verbatim>\<open>m_Name\<close> is an array of 33 bytes. \<^verbatim>\<open>strncpy\<close> of at most 32 fills up with NUL bytes and does
  not write the last; a name that is read runs to its first NUL, and reading on behind
  the array is undefined.
\<close>

definition NUL :: char where
  "NUL = CHR 0x00"

definition strncpy :: "string \<Rightarrow> string \<Rightarrow> nat \<Rightarrow> string" where
  "strncpy dst src n = take n (src @ replicate n NUL) @ drop n dst"

definition SetName :: "string \<Rightarrow> CEZTimer \<Rightarrow> CEZTimer" where
  "SetName pszName t = t\<lparr>m_Name := strncpy (m_Name t) pszName TIMER_NAME_LEN\<rparr>"

definition c_string :: "string \<Rightarrow> string outcome" where
  "c_string b = (if NUL \<in> set b then Done (takeWhile (\<lambda>c. c \<noteq> NUL) b) else Undefined)"

definition GetName :: "CEZTimer \<Rightarrow> string outcome" where
  "GetName t = c_string (m_Name t)"

definition CEZTimer_new :: "string \<Rightarrow> CEZTimer \<Rightarrow> CEZTimer" where
  "CEZTimer_new pName old = (SetName pName old)\<lparr>m_Started := False, m_Called := False\<rparr>"

definition IsStarted :: "CEZTimer \<Rightarrow> EZTHREAD_BOOL" where
  "IsStarted t = m_Started t"

definition IsCalled :: "CEZTimer \<Rightarrow> EZTHREAD_BOOL" where
  "IsCalled t = m_Called t"

subsection \<open>The list\<close>

text \<open>The search of \<^verbatim>\<open>AddTimer\<close>: the pointers \<open>pp\<close> and \<open>pn\<close> between which the timer goes.\<close>

partial_function (option) add_find ::
    "(addr \<Rightarrow> CEZTimer) \<Rightarrow> TimerValue \<Rightarrow> addr option \<Rightarrow> addr option \<Rightarrow> (addr option \<times> addr option) option"
  where
  "add_find tms v pp pn =
     (case pn of
        None \<Rightarrow> Some (pp, pn)
      | Some n \<Rightarrow>
          if tv_gt v (m_CallTime (tms n)) then add_find tms v pn (m_pNext (tms n))
          else Some (pp, pn))"

definition add_between ::
    "addr option \<Rightarrow> addr \<Rightarrow> addr option \<Rightarrow> 'w CEZTimerManager \<Rightarrow> 'w CEZTimerManager" where
  "add_between pp x pn s =
     (let s = (case pp of Some p \<Rightarrow> upd_timer p (\<lambda>t. t\<lparr>m_pNext := Some x\<rparr>) s
                        | None \<Rightarrow> s\<lparr>m_pHead := Some x\<rparr>);
          s = upd_timer x (\<lambda>t. t\<lparr>m_pPrev := pp\<rparr>) s;
          s = (case pn of Some n \<Rightarrow> upd_timer n (\<lambda>t. t\<lparr>m_pPrev := Some x\<rparr>) s | None \<Rightarrow> s)
      in upd_timer x (\<lambda>t. t\<lparr>m_pNext := pn\<rparr>) s)"

definition AddTimer :: "addr \<Rightarrow> 'w CEZTimerManager \<Rightarrow> 'w CEZTimerManager option" where
  "AddTimer x s =
     map_option (\<lambda>(pp, pn). add_between pp x pn s)
       (add_find (timers s) (m_CallTime (timers s x)) None (m_pHead s))"

definition RemoveTimer :: "addr \<Rightarrow> 'w CEZTimerManager \<Rightarrow> 'w CEZTimerManager" where
  "RemoveTimer x s =
     (case m_pPrev (timers s x) of
        None \<Rightarrow>
          let s = s\<lparr>m_pHead := m_pNext (timers s x)\<rparr>
          in (case m_pHead s of None \<Rightarrow> s | Some h \<Rightarrow> upd_timer h (\<lambda>t. t\<lparr>m_pPrev := None\<rparr>) s)
      | Some p \<Rightarrow>
          let s = upd_timer p (\<lambda>t. t\<lparr>m_pNext := m_pNext (timers s x)\<rparr>) s
          in (case m_pNext (timers s x) of
                None \<Rightarrow> s
              | Some n \<Rightarrow> upd_timer n (\<lambda>t. t\<lparr>m_pPrev := m_pPrev (timers s x)\<rparr>) s))"

subsection \<open>Starting, stopping and running a timer\<close>

type_synonym timer_call = "addr option \<times> nat \<times> EZTHREAD_PARAM"

definition Start ::
    "addr option \<Rightarrow> nat \<Rightarrow> u32 \<Rightarrow> u32 \<Rightarrow> EZTHREAD_PARAM \<Rightarrow> u32 \<Rightarrow> addr \<Rightarrow> 'w CEZTimerManager \<Rightarrow>
     'w CEZTimerManager option" where
  "Start pObj pTimerFun dwDueTime dwPriod param timeout x s =
     (let s = upd_timer x (\<lambda>t. t\<lparr>m_pObj := pObj, m_pTimerFun := pTimerFun,
            m_CallTime := tv_add (m_CurTime s) dwDueTime, m_Priod := dwPriod,
            m_timeout := timeout, m_param := param, m_Called := False\<rparr>) s;
          s = (if m_Started (timers s x) then RemoveTimer x s else s)
      in map_option (upd_timer x (\<lambda>t. t\<lparr>m_Started := True\<rparr>)) (AddTimer x s))"

text \<open>
  \<^verbatim>\<open>Stop\<close>; the function called at once, \<open>call\<close>, may itself use the timers. \<open>call\<close> is \<open>None\<close>
  when it does not return.
\<close>

definition Stop ::
    "(timer_call \<Rightarrow> 'w CEZTimerManager \<Rightarrow> 'w CEZTimerManager option) \<Rightarrow> EZTHREAD_BOOL \<Rightarrow> addr \<Rightarrow>
     'w CEZTimerManager \<Rightarrow> 'w CEZTimerManager option" where
  "Stop call bCallNow x s =
     (if \<not> m_Started (timers s x) then Some s
      else map_option (\<lambda>s. upd_timer x (\<lambda>t. t\<lparr>m_Started := False\<rparr>) (RemoveTimer x s))
        (if bCallNow \<and> m_Priod (timers s x) = 0
         then call (m_pObj (timers s x), m_pTimerFun (timers s x), m_param (timers s x)) s
         else Some s))"

text \<open>The destructor.\<close>

definition CEZTimer_delete :: "addr \<Rightarrow> 'w CEZTimerManager \<Rightarrow> 'w CEZTimerManager" where
  "CEZTimer_delete x s = (if m_Started (timers s x) then RemoveTimer x s else s)"

text \<open>\<^verbatim>\<open>run\<close>, with \<^verbatim>\<open>m_threadlet.run\<close> a parameter that is given the timer.\<close>

definition run ::
    "(addr \<Rightarrow> CEZTimer \<Rightarrow> 'w \<Rightarrow> EZTHREAD_BOOL \<times> 'w) \<Rightarrow> addr \<Rightarrow> 'w CEZTimerManager \<Rightarrow>
     'w CEZTimerManager option" where
  "run threadlet_run x s =
     map_option (\<lambda>s. s\<lparr>world := snd (threadlet_run x (timers s x) (world s))\<rparr>)
       (let s = RemoveTimer x s
        in if m_Priod (timers s x) \<noteq> 0
           then AddTimer x (upd_timer x (\<lambda>t. t\<lparr>m_CallTime := tv_add (m_CallTime t) (m_Priod t)\<rparr>) s)
           else Some (upd_timer x (\<lambda>t. t\<lparr>m_Started := False, m_Called := True\<rparr>) s))"

subsection \<open>The manager's thread\<close>

definition move_clock :: "u32 \<Rightarrow> 'w CEZTimerManager \<Rightarrow> 'w CEZTimerManager" where
  "move_clock now s =
     (let old = lo (m_CurTime s); h = hi (m_CurTime s)
      in s\<lparr>m_CurTime := TimerValue now (if now < old \<and> now < 10000 then h + 1 else h)\<rparr>)"

partial_function (option) due_loop ::
    "(addr \<Rightarrow> CEZTimer \<Rightarrow> 'w \<Rightarrow> EZTHREAD_BOOL \<times> 'w) \<Rightarrow> 'w CEZTimerManager \<Rightarrow> 'w CEZTimerManager option"
  where
  "due_loop threadlet_run s =
     (case m_pHead s of
        None \<Rightarrow> Some s
      | Some h \<Rightarrow>
          if m_CallTime (timers s h) < m_CurTime s
          then Option.bind (run threadlet_run h s) (due_loop threadlet_run)
          else Some s)"

text \<open>One round of \<^verbatim>\<open>ThreadProc\<close>, at the clock reading \<open>now\<close>.\<close>

definition timer_round ::
    "(addr \<Rightarrow> CEZTimer \<Rightarrow> 'w \<Rightarrow> EZTHREAD_BOOL \<times> 'w) \<Rightarrow> u32 \<Rightarrow> 'w CEZTimerManager \<Rightarrow>
     'w CEZTimerManager option" where
  "timer_round threadlet_run now s =
     (if now = lo (m_CurTime s) then Some s else due_loop threadlet_run (move_clock now s))"

subsection \<open>DumpTimers\<close>

text \<open>
  The two listings of the timers: one printed, the other collected in a string through
  \<^verbatim>\<open>char tmpBuf[1024]\<close>. \<open>running x\<close> is what the threadlet of the timer \<open>x\<close> answers to
  \<^verbatim>\<open>isRunning()\<close>. A name that is not terminated is read beyond its array. The result of the
  loops is the text and the number of timers; a cyclic list gives \<open>None\<close>.
\<close>

definition timer_row :: "string \<Rightarrow> string \<Rightarrow> string \<Rightarrow> string \<Rightarrow> string" where
  "timer_row name priod timeout st =
     pad 33 name @ pad 10 priod @ pad 10 timeout @ pad 10 st @ newline"

definition timer_line :: "(addr \<Rightarrow> EZTHREAD_BOOL) \<Rightarrow> addr \<Rightarrow> CEZTimer \<Rightarrow> string outcome" where
  "timer_line running x t =
     obind (GetName t) (\<lambda>name.
     Done (timer_row name (dec (int (unat (m_Priod t)))) (dec (int (unat (m_timeout t))))
       (if running x then ''Running'' else ''Idel'')))"

definition timers_header :: "u32 \<Rightarrow> string" where
  "timers_header now =
     ''Timers: ( '' @ dec (int (unat now)) @ '' Milli-Seconds Elapsed )'' @ newline @
     timer_row ''Name'' ''Priod'' ''TimeOut'' ''State'' @ dashes"

definition timers_footer :: "int \<Rightarrow> string" where
  "timers_footer i = dashes @ CHR 0x09 # ''Total:'' @ dec i @ newline"

partial_function (option) dump_timers_loop ::
    "(string \<Rightarrow> string outcome) \<Rightarrow> (addr \<Rightarrow> CEZTimer) \<Rightarrow> (addr \<Rightarrow> EZTHREAD_BOOL) \<Rightarrow> addr option \<Rightarrow>
     int \<Rightarrow> string \<Rightarrow> (string \<times> int) outcome option" where
  "dump_timers_loop put tms running p i out =
     (case p of
        None \<Rightarrow> Some (Done (out, i))
      | Some a \<Rightarrow>
          (case obind (timer_line running a (tms a)) put of
             Done line \<Rightarrow>
               dump_timers_loop put tms running (m_pNext (tms a)) (i + 1) (out @ line)
           | _ \<Rightarrow> Some Undefined))"

definition timers_listing ::
    "(string \<Rightarrow> string outcome) \<Rightarrow> (addr \<Rightarrow> EZTHREAD_BOOL) \<Rightarrow> 'w CEZTimerManager \<Rightarrow> string outcome option" where
  "timers_listing put running s =
     map_option (\<lambda>r. obind r (\<lambda>(out, i). Done (out @ timers_footer i)))
       (dump_timers_loop put (timers s) running (m_pHead s) 0 (timers_header (lo (m_CurTime s))))"

definition DumpTimers_console ::
    "(addr \<Rightarrow> EZTHREAD_BOOL) \<Rightarrow> 'w CEZTimerManager \<Rightarrow> string outcome option" where
  "DumpTimers_console = timers_listing Done"

definition DumpTimers :: "(addr \<Rightarrow> EZTHREAD_BOOL) \<Rightarrow> 'w CEZTimerManager \<Rightarrow> string outcome option" where
  "DumpTimers = timers_listing (sprintf 1024)"

subsection \<open>The list of timers\<close>

definition tnx :: "'w CEZTimerManager \<Rightarrow> addr \<Rightarrow> addr option" where
  "tnx s a = m_pNext (timers s a)"

definition tpv :: "'w CEZTimerManager \<Rightarrow> addr \<Rightarrow> addr option" where
  "tpv s a = m_pPrev (timers s a)"

text \<open>A timer without its list pointers.\<close>

definition core :: "CEZTimer \<Rightarrow> CEZTimer" where
  "core t = t\<lparr>m_pPrev := None, m_pNext := None\<rparr>"

lemma core_eqD:
  assumes "core t = core t'"
  shows "m_CallTime t = m_CallTime t'" "m_Priod t = m_Priod t'" "m_Started t = m_Started t'"
    "m_Called t = m_Called t'" "m_pObj t = m_pObj t'" "m_pTimerFun t = m_pTimerFun t'"
    "m_param t = m_param t'"
  using assms by (cases t; cases t'; simp add: core_def)+

lemma core_link [simp]:
  "core (t\<lparr>m_pPrev := p\<rparr>) = core t" "core (t\<lparr>m_pNext := n\<rparr>) = core t"
  by (simp_all add: core_def)

lemma upd_timer_fields [simp]:
  "timers (upd_timer x f s) y = (if y = x then f (timers s x) else timers s y)"
  "m_pHead (upd_timer x f s) = m_pHead s" "m_CurTime (upd_timer x f s) = m_CurTime s"
  "world (upd_timer x f s) = world s"
  by (auto simp: upd_timer_def)

lemma link_fields [simp]:
  "tnx (s\<lparr>m_pHead := h\<rparr>) = tnx s" "tpv (s\<lparr>m_pHead := h\<rparr>) = tpv s"
  "tnx (s\<lparr>world := w\<rparr>) = tnx s" "tpv (s\<lparr>world := w\<rparr>) = tpv s"
  "tnx (s\<lparr>m_CurTime := v\<rparr>) = tnx s" "tpv (s\<lparr>m_CurTime := v\<rparr>) = tpv s"
  "tnx (upd_timer x (\<lambda>t. t\<lparr>m_pNext := n\<rparr>) s) = (tnx s)(x := n)"
  "tpv (upd_timer x (\<lambda>t. t\<lparr>m_pNext := n\<rparr>) s) = tpv s"
  "tnx (upd_timer x (\<lambda>t. t\<lparr>m_pPrev := p\<rparr>) s) = tnx s"
  "tpv (upd_timer x (\<lambda>t. t\<lparr>m_pPrev := p\<rparr>) s) = (tpv s)(x := p)"
  by (auto simp: tnx_def tpv_def)

lemma same_links:
  assumes "\<And>t. m_pNext (f t) = m_pNext t" and "\<And>t. m_pPrev (f t) = m_pPrev t"
  shows "tnx (upd_timer x f s) = tnx s" "tpv (upd_timer x f s) = tpv s"
  using assms by (auto simp: tnx_def tpv_def)

definition timer_repr :: "'w CEZTimerManager \<Rightarrow> addr list \<Rightarrow> bool" where
  "timer_repr s xs \<longleftrightarrow> dlist (tnx s) (tpv s) (m_pHead s) xs"

definition call_time :: "'w CEZTimerManager \<Rightarrow> addr \<Rightarrow> TimerValue" where
  "call_time s a = m_CallTime (timers s a)"

lemma add_find_chain:
  "chain (\<lambda>a. m_pNext (tms a)) pn xs \<Longrightarrow>
    add_find tms v pp pn =
      Some (last_ptr pp (takeWhile (\<lambda>a. m_CallTime (tms a) < v) xs),
            head_ptr (dropWhile (\<lambda>a. m_CallTime (tms a) < v) xs))"
proof (induction xs arbitrary: pp pn)
  case Nil
  then show ?case by (simp add: add_find.simps)
next
  case (Cons a xs)
  then show ?case by (subst add_find.simps) auto
qed

lemma add_between_core:
  "core (timers (add_between pp x pn s) a) = core (timers s a)"
  "m_CurTime (add_between pp x pn s) = m_CurTime s" "world (add_between pp x pn s) = world s"
  by (auto simp: add_between_def Let_def split: option.splits)

lemma add_between_links:
  assumes "pp \<noteq> Some x" and "pn \<noteq> Some x"
  shows "tnx (add_between pp x pn s) = link_next (tnx s) pp x pn"
    and "tpv (add_between pp x pn s) = link_prev (tpv s) pp x pn"
    and "m_pHead (add_between pp x pn s) = link_head pp x (m_pHead s)"
  using assms
  by (cases pp; cases pn;
      auto simp: add_between_def Let_def link_next_def link_prev_def link_head_def fun_upd_twist)+

lemma AddTimer_spec:
  assumes "timer_repr s xs" and "x \<notin> set xs"
  defines "P \<equiv> \<lambda>a. call_time s a < call_time s x"
  shows "\<exists>s'. AddTimer x s = Some s' \<and> timer_repr s' (takeWhile P xs @ x # dropWhile P xs) \<and>
    (\<forall>a. core (timers s' a) = core (timers s a)) \<and> m_CurTime s' = m_CurTime s \<and> world s' = world s"
proof -
  let ?ys = "takeWhile P xs" and ?zs = "dropWhile P xs"
  let ?pp = "last_ptr None ?ys" and ?pn = "head_ptr ?zs"
  have c: "chain (\<lambda>a. m_pNext (timers s a)) (m_pHead s) xs"
    using assms(1) dlist_chain by (auto simp: timer_repr_def tnx_def [abs_def])
  have f: "add_find (timers s) (m_CallTime (timers s x)) None (m_pHead s) = Some (?pp, ?pn)"
    using add_find_chain [OF c] by (simp add: P_def call_time_def)
  have xs: "xs = ?ys @ ?zs" by simp
  have nin: "x \<notin> set ?ys" "x \<notin> set ?zs"
    using assms(2) by (auto dest: set_takeWhileD set_dropWhileD)
  have "?pp \<noteq> Some x" using nin(1) last_ptr_in by metis
  moreover have "?pn \<noteq> Some x" using nin(2) head_ptr_in by metis
  ultimately have l: "tnx (add_between ?pp x ?pn s) = link_next (tnx s) ?pp x ?pn"
    "tpv (add_between ?pp x ?pn s) = link_prev (tpv s) ?pp x ?pn"
    "m_pHead (add_between ?pp x ?pn s) = link_head ?pp x (m_pHead s)"
    by (simp_all add: add_between_links)
  have "dlist (tnx s) (tpv s) (m_pHead s) (?ys @ ?zs)"
    using assms(1) by (simp add: timer_repr_def)
  then have "timer_repr (add_between ?pp x ?pn s) (?ys @ x # ?zs)"
    unfolding timer_repr_def l by (rule dlist_link) (use nin assms(2) in auto)
  then show ?thesis using f by (auto simp: AddTimer_def add_between_core)
qed

lemma RemoveTimer_core:
  "core (timers (RemoveTimer x s) a) = core (timers s a)"
  "m_CurTime (RemoveTimer x s) = m_CurTime s" "world (RemoveTimer x s) = world s"
  by (auto simp: RemoveTimer_def Let_def split: option.splits)

lemma tpv_fold: "m_pPrev (timers s x) = tpv s x" and tnx_fold: "m_pNext (timers s x) = tnx s x"
  by (simp_all add: tpv_def tnx_def)

lemma RemoveTimer_links:
  assumes "tpv s x \<noteq> Some x"
  shows "tnx (RemoveTimer x s) = unlink_next (tnx s) (tpv s) x"
    and "tpv (RemoveTimer x s) = unlink_prev (tnx s) (tpv s) x"
    and "m_pHead (RemoveTimer x s) = unlink_head (tnx s) (tpv s) x (m_pHead s)"
  using assms unfolding RemoveTimer_def Let_def tpv_fold tnx_fold
  by (cases "tpv s x"; cases "tnx s x";
      auto simp: unlink_next_def unlink_prev_def unlink_head_def)+

lemma RemoveTimer_repr:
  assumes "timer_repr s (ys @ x # zs)"
  shows "timer_repr (RemoveTimer x s) (ys @ zs)"
proof -
  have "distinct (ys @ x # zs)" using assms by (simp add: timer_repr_def dlist_def)
  moreover have "tpv s x = last_ptr None ys"
    using assms dlist_prev by (auto simp: timer_repr_def)
  ultimately have "tpv s x \<noteq> Some x" by (auto simp: last_ptr_def)
  then show ?thesis
    using assms dlist_unlink by (simp add: timer_repr_def RemoveTimer_links)
qed

interpretation timer_list: linked_registry "\<lambda>x s. the (AddTimer x s)" RemoveTimer timer_repr
proof (unfold_locales, goal_cases)
  case (1 s xs)
  then show ?case by (simp add: timer_repr_def dlist_def)
next
  case (2 s xs x)
  let ?P = "\<lambda>a. call_time s a < call_time s x"
  obtain s' where "AddTimer x s = Some s'" "timer_repr s' (takeWhile ?P xs @ x # dropWhile ?P xs)"
    using AddTimer_spec [OF 2] by blast
  then show ?case by (intro exI [of _ "takeWhile ?P xs"] exI [of _ "dropWhile ?P xs"]) simp
next
  case (3 s ys x zs)
  then show ?case by (rule RemoveTimer_repr)
qed

subsection \<open>The invariant of the timers\<close>

text \<open>The list is sorted by call time and holds exactly the started timers.\<close>

definition timers_ok :: "'w CEZTimerManager \<Rightarrow> addr list \<Rightarrow> bool" where
  "timers_ok s xs \<longleftrightarrow> timer_repr s xs \<and> sorted (map (call_time s) xs) \<and>
     (\<forall>a. m_Started (timers s a) \<longleftrightarrow> a \<in> set xs)"

lemma sorted_insert_at:
  fixes f :: "'a \<Rightarrow> 'b :: linorder"
  assumes "sorted (map f xs)"
  shows "sorted (map f (takeWhile (\<lambda>y. f y < f x) xs @ x # dropWhile (\<lambda>y. f y < f x) xs))"
proof -
  have "\<forall>y \<in> set (dropWhile (\<lambda>y. f y < f x) xs). f x \<le> f y"
    using assms
  proof (induction xs)
    case (Cons a xs)
    then show ?case by (cases "f a < f x") fastforce+
  qed simp
  moreover have "\<forall>y \<in> set (takeWhile (\<lambda>y. f y < f x) xs). f y \<le> f x"
    by (auto dest: set_takeWhileD)
  moreover have "sorted (map f (takeWhile (\<lambda>y. f y < f x) xs) @ map f (dropWhile (\<lambda>y. f y < f x) xs))"
    unfolding map_append [symmetric] takeWhile_dropWhile_id by (rule assms)
  ultimately show ?thesis by (auto simp: sorted_append)
qed

lemma call_time_core: "core (timers s' a) = core (timers s a) \<Longrightarrow> call_time s' a = call_time s a"
  by (auto simp: call_time_def dest: core_eqD)

text \<open>Adding a timer that is not in the list, and removing one that is.\<close>

lemma AddTimer_sorted:
  assumes "timer_repr s xs" and "sorted (map (call_time s) xs)" and "x \<notin> set xs"
  shows "\<exists>s' ys. AddTimer x s = Some s' \<and> timer_repr s' ys \<and> sorted (map (call_time s') ys) \<and>
    set ys = insert x (set xs) \<and> (\<forall>a. core (timers s' a) = core (timers s a)) \<and>
    m_CurTime s' = m_CurTime s \<and> world s' = world s"
proof -
  let ?P = "\<lambda>a. call_time s a < call_time s x"
  obtain s' where s': "AddTimer x s = Some s'" "timer_repr s' (takeWhile ?P xs @ x # dropWhile ?P xs)"
      "\<forall>a. core (timers s' a) = core (timers s a)" "m_CurTime s' = m_CurTime s" "world s' = world s"
    using AddTimer_spec [OF assms(1,3)] by blast
  have "call_time s' = call_time s" using s'(3) by (auto intro: call_time_core)
  then have "sorted (map (call_time s') (takeWhile ?P xs @ x # dropWhile ?P xs))"
    using sorted_insert_at [OF assms(2), of x] by simp
  moreover have "set (takeWhile ?P xs @ x # dropWhile ?P xs) = insert x (set xs)"
    using set_append [of "takeWhile ?P xs" "dropWhile ?P xs"] by auto
  ultimately show ?thesis using s' by blast
qed

lemma RemoveTimer_sorted:
  assumes "timers_ok s xs" and "x \<in> set xs"
  shows "\<exists>ys. timer_repr (RemoveTimer x s) ys \<and> sorted (map (call_time (RemoveTimer x s)) ys) \<and>
    set ys = set xs - {x} \<and> (\<exists>as bs. xs = as @ x # bs \<and> ys = as @ bs)"
proof -
  obtain as bs where xs: "xs = as @ x # bs" using assms(2) by (auto dest: split_list)
  have "call_time (RemoveTimer x s) = call_time s"
    by (auto intro!: call_time_core RemoveTimer_core)
  then have "sorted (map (call_time (RemoveTimer x s)) (as @ bs))"
    using assms(1) xs by (auto simp: timers_ok_def sorted_append)
  moreover have "set (as @ bs) = set xs - {x}"
    using assms(1) xs by (auto simp: timers_ok_def timer_repr_def dlist_def)
  ultimately show ?thesis
    using RemoveTimer_repr assms(1) xs by (intro exI [of _ "as @ bs"]) (auto simp: timers_ok_def)
qed

lemma upd_keeps_links:
  assumes "\<And>t. m_pNext (f t) = m_pNext t" and "\<And>t. m_pPrev (f t) = m_pPrev t"
  shows "timer_repr (upd_timer x f s) xs = timer_repr s xs"
  by (simp add: timer_repr_def same_links [OF assms])

lemma timers_ok_distinct: "timers_ok s xs \<Longrightarrow> distinct xs"
  by (simp add: timers_ok_def timer_repr_def dlist_def)

lemma call_time_upd_other:
  "x \<notin> set xs \<Longrightarrow> map (call_time (upd_timer x f s)) xs = map (call_time s) xs"
  by (auto simp: call_time_def)

lemma Start_ok:
  assumes "timers_ok s xs"
  shows "\<exists>s' ys. Start ob fn due pr pa to x s = Some s' \<and> timers_ok s' ys \<and>
    set ys = insert x (set xs) \<and> call_time s' x = tv_add (m_CurTime s) due \<and>
    m_Priod (timers s' x) = pr \<and> \<not> m_Called (timers s' x) \<and> m_CurTime s' = m_CurTime s \<and>
    world s' = world s \<and> (\<forall>a. a \<noteq> x \<longrightarrow> core (timers s' a) = core (timers s a))"
proof -
  let ?f = "\<lambda>t. t\<lparr>m_pObj := ob, m_pTimerFun := fn, m_CallTime := tv_add (m_CurTime s) due,
      m_Priod := pr, m_timeout := to, m_param := pa, m_Called := False\<rparr>"
  let ?s1 = "upd_timer x ?f s"
  let ?s2 = "if m_Started (timers ?s1 x) then RemoveTimer x ?s1 else ?s1"
  have r1: "timer_repr ?s1 xs" using assms by (simp add: timers_ok_def upd_keeps_links)
  have x: "m_Started (timers ?s1 x) \<longleftrightarrow> x \<in> set xs" using assms by (simp add: timers_ok_def)
  have "\<exists>ys. timer_repr ?s2 ys \<and> sorted (map (call_time ?s2) ys) \<and> set ys = set xs - {x}"
  proof (cases "x \<in> set xs")
    case True
    then obtain as bs where xs: "xs = as @ x # bs" by (auto dest: split_list)
    then have nin: "x \<notin> set (as @ bs)" using timers_ok_distinct [OF assms] by auto
    have s2: "?s2 = RemoveTimer x ?s1" using x True by simp
    have "call_time (RemoveTimer x ?s1) a = call_time s a" if "a \<in> set (as @ bs)" for a
      using that nin call_time_core [OF RemoveTimer_core(1) [of x ?s1 a]]
      by (auto simp: call_time_def)
    then have "map (call_time (RemoveTimer x ?s1)) (as @ bs) = map (call_time s) (as @ bs)"
      by (intro map_cong refl)
    moreover have "sorted (map (call_time s) (as @ bs))"
      using assms xs by (auto simp: timers_ok_def sorted_append)
    moreover have "timer_repr (RemoveTimer x ?s1) (as @ bs)"
      using RemoveTimer_repr [of ?s1 as x bs] r1 xs by simp
    moreover have "set (as @ bs) = set xs - {x}" using nin xs by auto
    ultimately show ?thesis unfolding s2 by metis
  next
    case False
    then show ?thesis using r1 x assms
      by (intro exI [of _ xs]) (simp add: call_time_upd_other timers_ok_def)
  qed
  then obtain zs where zs: "timer_repr ?s2 zs" "sorted (map (call_time ?s2) zs)" "set zs = set xs - {x}"
    by blast
  then obtain s3 ys where s3: "AddTimer x ?s2 = Some s3" "timer_repr s3 ys"
      "sorted (map (call_time s3) ys)" "set ys = insert x (set zs)"
      "\<forall>a. core (timers s3 a) = core (timers ?s2 a)" "m_CurTime s3 = m_CurTime ?s2"
      "world s3 = world ?s2"
    using AddTimer_sorted [of ?s2 zs x] by auto
  have c2: "core (timers ?s2 a) = core (timers ?s1 a)" for a by (simp add: RemoveTimer_core)
  have c3: "core (timers s3 a) = core (timers ?s1 a)" for a using s3(5) c2 by simp
  let ?s4 = "upd_timer x (\<lambda>t. t\<lparr>m_Started := True\<rparr>) s3"
  have "Start ob fn due pr pa to x s = Some ?s4"
    using s3(1) by (simp add: Start_def Let_def)
  moreover have "timers_ok ?s4 ys"
    unfolding timers_ok_def
  proof (intro conjI allI)
    show "timer_repr ?s4 ys" using s3(2) by (simp add: upd_keeps_links)
    have "call_time ?s4 = call_time s3" by (auto simp: call_time_def)
    then show "sorted (map (call_time ?s4) ys)" using s3(3) by simp
    fix a
    have "m_Started (timers s3 a) = m_Started (timers ?s1 a)" using c3 core_eqD(3) by blast
    then show "m_Started (timers ?s4 a) \<longleftrightarrow> a \<in> set ys"
      using assms s3(4) zs(3) by (auto simp: timers_ok_def)
  qed
  moreover have "set ys = insert x (set xs)" using s3(4) zs(3) by auto
  moreover have "call_time ?s4 x = tv_add (m_CurTime s) due \<and> m_Priod (timers ?s4 x) = pr \<and>
      \<not> m_Called (timers ?s4 x)"
    using core_eqD [OF c3 [of x]] by (simp add: call_time_def)
  moreover have "m_CurTime ?s4 = m_CurTime s" "world ?s4 = world s"
    using s3(6,7) by (simp_all add: RemoveTimer_core)
  moreover have "\<forall>a. a \<noteq> x \<longrightarrow> core (timers ?s4 a) = core (timers s a)" using c3 by simp
  ultimately show ?thesis by blast
qed

text \<open>Taking a started timer out of the list, with an update that stops it.\<close>

lemma remove_stop_ok:
  assumes ok: "timers_ok s xs" and x: "x \<in> set xs"
    and f: "\<And>t. m_pNext (f t) = m_pNext t" "\<And>t. m_pPrev (f t) = m_pPrev t" "\<And>t. \<not> m_Started (f t)"
  shows "\<exists>ys. timers_ok (upd_timer x f (RemoveTimer x s)) ys \<and> set ys = set xs - {x}"
proof -
  obtain ys where ys: "timer_repr (RemoveTimer x s) ys"
      "sorted (map (call_time (RemoveTimer x s)) ys)" "set ys = set xs - {x}"
    using RemoveTimer_sorted [OF ok x] by blast
  have st: "m_Started (timers (RemoveTimer x s) a) \<longleftrightarrow> a \<in> set xs" for a
    using ok core_eqD(3) [OF RemoveTimer_core(1) [of x s a]] by (simp add: timers_ok_def)
  have "timers_ok (upd_timer x f (RemoveTimer x s)) ys"
    using ys st f(3)
    by (auto simp: timers_ok_def call_time_upd_other upd_keeps_links [OF f(1,2)])
  then show ?thesis using ys(3) by blast
qed

lemma Stop_ok:
  assumes "timers_ok s xs" and "\<not> bCallNow \<or> m_Priod (timers s x) \<noteq> 0"
  shows "\<exists>s' ys. Stop call bCallNow x s = Some s' \<and> timers_ok s' ys \<and> set ys = set xs - {x}"
proof (cases "x \<in> set xs")
  case True
  obtain ys where "timers_ok (upd_timer x (\<lambda>t. t\<lparr>m_Started := False\<rparr>) (RemoveTimer x s)) ys"
      "set ys = set xs - {x}"
    using remove_stop_ok [OF assms(1) True, of "\<lambda>t. t\<lparr>m_Started := False\<rparr>"] by auto
  moreover have "m_Started (timers s x)" using True assms(1) by (simp add: timers_ok_def)
  ultimately show ?thesis using assms(2) by (auto simp: Stop_def)
next
  case False
  then have "\<not> m_Started (timers s x)" using assms(1) by (simp add: timers_ok_def)
  then show ?thesis using assms(1) False by (auto simp: Stop_def)
qed

subsection \<open>The loop that runs the timers that are due\<close>

definition fired :: "TimerValue \<Rightarrow> nat \<Rightarrow> CEZTimer \<Rightarrow> CEZTimer \<Rightarrow> bool" where
  "fired cur c t t' \<longleftrightarrow>
     (if m_Priod t \<noteq> 0
      then m_Priod t' = m_Priod t \<and> m_Started t' = m_Started t \<and>
        tv_nat (m_CallTime t') = tv_nat (m_CallTime t) + c * unat (m_Priod t) \<and>
        (0 < c \<longrightarrow> tv_nat (m_CallTime t) + (c - 1) * unat (m_Priod t) < tv_nat cur)
      else if m_CallTime t < cur \<and> c = 1 then \<not> m_Started t' \<and> m_Called t'
      else c = 0 \<and> core t' = core t)"

lemma fired_none: "core t' = core t \<Longrightarrow> fired cur 0 t t'"
  by (auto simp: fired_def dest: core_eqD)

lemma fired_core: "core t1 = core t \<Longrightarrow> fired cur c t1 t' \<Longrightarrow> fired cur c t t'"
  using core_eqD [of t1 t] unfolding fired_def by auto

text \<open>One timer runs: the head of the list, which is due.\<close>

lemma run_head:
  assumes ok: "timers_ok s xs" and h: "h \<in> set xs" and due: "call_time s h < m_CurTime s"
    and room: "tv_nat (m_CurTime s) \<le> 2 ^ 64 - 2 ^ 32"
  shows "\<exists>s1 ys t. run r h s = Some s1 \<and> timers_ok s1 ys \<and> m_CurTime s1 = m_CurTime s \<and>
    fired (m_CurTime s) 1 (timers s h) (timers s1 h) \<and>
    (\<forall>a. a \<noteq> h \<longrightarrow> core (timers s1 a) = core (timers s a)) \<and>
    set ys = (if m_Priod (timers s h) \<noteq> 0 then set xs else set xs - {h}) \<and>
    world s1 = snd (r h t (world s))"
proof -
  let ?R = "RemoveTimer h s"
  have c: "core (timers ?R a) = core (timers s a)" for a by (simp add: RemoveTimer_core)
  note ch = core_eqD [OF c [of h]]
  show ?thesis
  proof (cases "m_Priod (timers s h) = 0")
    case True
    let ?f = "\<lambda>t. t\<lparr>m_Started := False, m_Called := True\<rparr>"
    let ?s1 = "upd_timer h ?f ?R"
    obtain ys where ys: "timers_ok ?s1 ys" "set ys = set xs - {h}"
      using remove_stop_ok [OF ok h, of ?f] by auto
    let ?w = "snd (r h (timers ?s1 h) (world s))"
    have "run r h s = Some (?s1\<lparr>world := ?w\<rparr>)"
      using True ch by (simp add: run_def Let_def RemoveTimer_core)
    moreover have "timers_ok (?s1\<lparr>world := ?w\<rparr>) ys"
      using ys(1) by (simp add: timers_ok_def timer_repr_def call_time_def [abs_def])
    moreover have "fired (m_CurTime s) 1 (timers s h) (timers ?s1 h)"
      using True due by (simp add: fired_def call_time_def)
    ultimately show ?thesis using ys(2) True c
      by (intro exI [of _ "?s1\<lparr>world := ?w\<rparr>"] exI [of _ ys] exI [of _ "timers ?s1 h"])
        (simp add: RemoveTimer_core)
  next
    case False
    let ?f = "\<lambda>t. t\<lparr>m_CallTime := tv_add (m_CallTime t) (m_Priod t)\<rparr>"
    let ?s0 = "upd_timer h ?f ?R"
    obtain zs where zs: "timer_repr ?R zs" "sorted (map (call_time ?R) zs)" "set zs = set xs - {h}"
      using RemoveTimer_sorted [OF ok h] by blast
    have "timer_repr ?s0 zs" using zs(1) by (simp add: upd_keeps_links)
    moreover have "sorted (map (call_time ?s0) zs)" using zs(2,3) by (simp add: call_time_upd_other)
    ultimately obtain s1 ys where s1: "AddTimer h ?s0 = Some s1" "timer_repr s1 ys"
        "sorted (map (call_time s1) ys)" "set ys = insert h (set zs)"
        "\<forall>a. core (timers s1 a) = core (timers ?s0 a)" "m_CurTime s1 = m_CurTime ?s0"
        "world s1 = world ?s0"
      using AddTimer_sorted [of ?s0 zs h] zs(3) by auto
    note c1 = core_eqD [OF spec [OF s1(5)], of h]
    have st: "m_Started (timers s1 a) = m_Started (timers s a)" for a
      using core_eqD(3) [OF spec [OF s1(5)], of a] core_eqD(3) [OF c, of a] by (cases "a = h") auto
    have set: "set ys = set xs" using s1(4) zs(3) h by auto
    let ?w = "snd (r h (timers s1 h) (world s))"
    have "run r h s = Some (s1\<lparr>world := ?w\<rparr>)"
      using False ch s1 by (simp add: run_def Let_def RemoveTimer_core)
    moreover have "timers_ok (s1\<lparr>world := ?w\<rparr>) ys"
      using s1(2,3) st set ok by (simp add: timers_ok_def timer_repr_def call_time_def [abs_def])
    moreover have "fired (m_CurTime s) 1 (timers s h) (timers s1 h)"
    proof -
      have "tv_nat (m_CallTime (timers s h)) + unat (m_Priod (timers s h)) < 2 ^ 64"
        using due room unat_u32_less [of "m_Priod (timers s h)"]
        by (simp add: tv_less_iff call_time_def)
      then have "tv_nat (m_CallTime (timers s1 h)) =
          tv_nat (m_CallTime (timers s h)) + unat (m_Priod (timers s h))"
        using c1 ch by (simp add: tv_nat_add)
      then show ?thesis using False c1 ch st due
        by (simp add: fired_def call_time_def tv_less_iff)
    qed
    moreover have "\<forall>a. a \<noteq> h \<longrightarrow> core (timers s1 a) = core (timers s a)" using s1(5) c by simp
    ultimately show ?thesis using set False s1(6)
      by (intro exI [of _ "s1\<lparr>world := ?w\<rparr>"] exI [of _ ys] exI [of _ "timers s1 h"])
        (simp add: RemoveTimer_core)
  qed
qed

text \<open>The work left: how far the call times are behind the current time.\<close>

definition due_work :: "'w CEZTimerManager \<Rightarrow> addr set \<Rightarrow> nat" where
  "due_work s X = (\<Sum>x \<in> X. tv_nat (m_CurTime s) - tv_nat (call_time s x))"

lemma due_work_less:
  assumes "finite X" and "h \<in> X" and "m_CurTime s1 = m_CurTime s"
    and "\<forall>a. a \<noteq> h \<longrightarrow> call_time s1 a = call_time s a"
    and "call_time s h < m_CurTime s" and "call_time s h < call_time s1 h \<or> h \<notin> Y"
    and "Y \<subseteq> X"
  shows "due_work s1 Y < due_work s X"
proof -
  let ?g = "\<lambda>s x. tv_nat (m_CurTime s) - tv_nat (call_time s x)"
  have same: "(\<Sum>x \<in> Y - {h}. ?g s1 x) = (\<Sum>x \<in> Y - {h}. ?g s x)"
    using assms(3,4) by (intro sum.cong) auto
  have le: "(\<Sum>x \<in> Y - {h}. ?g s x) \<le> (\<Sum>x \<in> X - {h}. ?g s x)"
    using assms(1,7) by (intro sum_mono2) auto
  have X: "due_work s X = ?g s h + (\<Sum>x \<in> X - {h}. ?g s x)"
    unfolding due_work_def using assms(1,2) by (rule sum.remove)
  have pos: "0 < ?g s h" using assms(5) by (simp add: tv_less_iff)
  show ?thesis
  proof (cases "h \<in> Y")
    case True
    then have "due_work s1 Y = ?g s1 h + (\<Sum>x \<in> Y - {h}. ?g s1 x)"
      unfolding due_work_def using assms(1,7) by (intro sum.remove) (auto intro: finite_subset)
    moreover have "?g s1 h < ?g s h"
      using True assms(3,5,6) by (auto simp: tv_less_iff)
    ultimately show ?thesis using X same le by linarith
  next
    case False
    then have "Y - {h} = Y" by simp
    then have "due_work s1 Y = (\<Sum>x \<in> Y - {h}. ?g s1 x)" by (simp add: due_work_def)
    then show ?thesis using X same le pos by linarith
  qed
qed

lemma fired_once_more:
  assumes "fired cur 1 t t1" and "m_Priod t \<noteq> 0" and "fired cur c t1 t'"
  shows "fired cur (Suc c) t t'"
  using assms by (cases c) (auto simp: fired_def algebra_simps)

lemma fired_one_shot:
  assumes "fired cur 1 t t1" and "m_Priod t = 0" and "core t' = core t1"
  shows "fired cur 1 t t'"
  using assms core_eqD [OF assms(3)] by (auto simp: fired_def split: if_splits)

definition world_after ::
    "(addr \<Rightarrow> CEZTimer \<Rightarrow> 'w \<Rightarrow> EZTHREAD_BOOL \<times> 'w) \<Rightarrow> (addr \<times> CEZTimer) list \<Rightarrow> 'w \<Rightarrow> 'w" where
  "world_after r log w = fold (\<lambda>(x, t) w. snd (r x t w)) log w"

text \<open>
  What the loop does, in terms of the log of the timers run: it ends, leaves no timer that
  is due, and every timer has been run as often as it was due.
\<close>

definition loop_effect ::
    "(addr \<Rightarrow> CEZTimer \<Rightarrow> 'w \<Rightarrow> EZTHREAD_BOOL \<times> 'w) \<Rightarrow> 'w CEZTimerManager \<Rightarrow> addr list \<Rightarrow>
     'w CEZTimerManager \<Rightarrow> addr list \<Rightarrow> (addr \<times> CEZTimer) list \<Rightarrow> bool" where
  "loop_effect r s xs s' ys log \<longleftrightarrow>
     timers_ok s' ys \<and> m_CurTime s' = m_CurTime s \<and> world s' = world_after r log (world s) \<and>
     (\<forall>x \<in> set ys. m_CurTime s \<le> call_time s' x) \<and>
     (\<forall>x \<in> set xs. fired (m_CurTime s) (count_list (map fst log) x) (timers s x) (timers s' x)) \<and>
     (\<forall>x. x \<notin> set xs \<longrightarrow> x \<notin> set (map fst log) \<and> core (timers s' x) = core (timers s x))"

lemma due_loop_effect:
  assumes "timers_ok s xs" and "tv_nat (m_CurTime s) \<le> 2 ^ 64 - 2 ^ 32"
  shows "\<exists>s' ys log. due_loop r s = Some s' \<and> loop_effect r s xs s' ys log"
  using assms
proof (induction "due_work s (set xs)" arbitrary: s xs rule: less_induct)
  case less
  note ok = less.prems(1)
  show ?case
  proof (cases xs)
    case Nil
    then have "m_pHead s = None"
      using ok dlist_head by (fastforce simp: timers_ok_def timer_repr_def)
    then have "due_loop r s = Some s" by (simp add: due_loop.simps)
    moreover have "loop_effect r s xs s [] []"
      using ok Nil by (simp add: loop_effect_def world_after_def)
    ultimately show ?thesis by blast
  next
    case (Cons h hs)
    then have head: "m_pHead s = Some h"
      using ok dlist_head by (fastforce simp: timers_ok_def timer_repr_def)
    show ?thesis
    proof (cases "call_time s h < m_CurTime s")
      case False
      then have "due_loop r s = Some s"
        using head by (simp add: due_loop.simps [of r s] call_time_def)
      moreover have "loop_effect r s xs s xs []"
        using ok Cons False
        by (auto simp: loop_effect_def world_after_def timers_ok_def fired_none intro: order_trans)
      ultimately show ?thesis by blast
    next
      case True
      have h: "h \<in> set xs" using Cons by simp
      obtain s1 zs t where s1: "run r h s = Some s1" "timers_ok s1 zs" "m_CurTime s1 = m_CurTime s"
          "fired (m_CurTime s) 1 (timers s h) (timers s1 h)"
          "\<forall>a. a \<noteq> h \<longrightarrow> core (timers s1 a) = core (timers s a)"
          "set zs = (if m_Priod (timers s h) \<noteq> 0 then set xs else set xs - {h})"
          "world s1 = snd (r h t (world s))"
        using run_head [OF ok h True less.prems(2), of r] by blast
      have "due_work s1 (set zs) < due_work s (set xs)"
      proof (rule due_work_less [OF _ h s1(3) _ True])
        show "\<forall>a. a \<noteq> h \<longrightarrow> call_time s1 a = call_time s a"
          using s1(5) by (auto intro: call_time_core)
        show "call_time s h < call_time s1 h \<or> h \<notin> set zs"
          using s1(4,6) by (auto simp: fired_def call_time_def tv_less_iff unat_gt_0)
      qed (use s1(6) in \<open>auto split: if_splits\<close>)
      then obtain s' ys log where s': "due_loop r s1 = Some s'" "loop_effect r s1 zs s' ys log"
        using less.hyps s1(2,3) less.prems(2) by metis
      have "due_loop r s = Some s'"
        using head True s1(1) s'(1) by (subst due_loop.simps) (simp add: call_time_def)
      moreover have "loop_effect r s xs s' ys ((h, t) # log)"
      proof -
        note e = s'(2) [unfolded loop_effect_def]
        have "fired (m_CurTime s) (count_list (map fst ((h, t) # log)) x) (timers s x) (timers s' x)"
          if x: "x \<in> set xs" for x
        proof (cases "x = h")
          case False
          then have "x \<in> set zs" "core (timers s1 x) = core (timers s x)"
            using x s1(5,6) by (auto split: if_splits)
          then have "fired (m_CurTime s) (count_list (map fst log) x) (timers s1 x) (timers s' x)"
            using e s1(3) by simp
          then have "fired (m_CurTime s) (count_list (map fst log) x) (timers s x) (timers s' x)"
            by (rule fired_core [OF \<open>core (timers s1 x) = core (timers s x)\<close>])
          then show ?thesis using False by simp
        next
          case [simp]: True
          show ?thesis
          proof (cases "m_Priod (timers s h) = 0")
            case True
            then have "h \<notin> set zs" using s1(6) by simp
            then have "count_list (map fst log) h = 0" "core (timers s' h) = core (timers s1 h)"
              using e by (auto simp: count_list_0_iff)
            then show ?thesis using fired_one_shot [OF s1(4) True] by simp
          next
            case False
            then have "h \<in> set zs" using s1(6) h by simp
            then show ?thesis using e s1(3) fired_once_more [OF s1(4) False] by simp
          qed
        qed
        moreover have "x \<notin> set (map fst ((h, t) # log)) \<and> core (timers s' x) = core (timers s x)"
          if "x \<notin> set xs" for x
          using that h s1(5,6) e by (auto split: if_splits)
        ultimately show ?thesis
          using e s1(3,7) by (simp add: loop_effect_def world_after_def)
      qed
      ultimately show ?thesis by blast
    qed
  qed
qed

subsection \<open>The listing\<close>

definition timer_text :: "(addr \<Rightarrow> EZTHREAD_BOOL) \<Rightarrow> addr \<Rightarrow> CEZTimer \<Rightarrow> string" where
  "timer_text running x t = (case timer_line running x t of Done l \<Rightarrow> l | _ \<Rightarrow> [])"

lemma timer_line_Done:
  assumes "GetName t = Done nm" and "length nm \<le> 33"
  shows "timer_line running x t = Done (timer_text running x t)"
    and "length (timer_text running x t) < 1024"
proof -
  have "length (dec (int (unat (m_Priod t)))) \<le> 10" "length (dec (int (unat (m_timeout t)))) \<le> 10"
    by (rule length_dec_u32)+
  then show "timer_line running x t = Done (timer_text running x t)"
      "length (timer_text running x t) < 1024"
    using assms by (auto simp: timer_text_def timer_line_def timer_row_def)
qed

lemma c_string_length: "c_string b = Done nm \<Longrightarrow> length nm < length b"
proof -
  assume "c_string b = Done nm"
  then have "NUL \<in> set b" "nm = takeWhile (\<lambda>c. c \<noteq> NUL) b"
    by (auto simp: c_string_def split: if_splits)
  moreover from this(1) obtain ys zs where "b = ys @ NUL # zs" "NUL \<notin> set ys"
    by (meson split_list_first)
  ultimately show ?thesis using length_takeWhile_le [of "\<lambda>c. c \<noteq> NUL" ys]
    by (auto simp: takeWhile_tail less_Suc_eq_le)
qed

lemma dump_timers_loop_chain:
  assumes "chain (\<lambda>a. m_pNext (tms a)) p xs"
    and "\<And>a. a \<in> set xs \<Longrightarrow> obind (timer_line running a (tms a)) put = Done (timer_text running a (tms a))"
  shows "dump_timers_loop put tms running p i out =
    Some (Done (out @ concat (map (\<lambda>a. timer_text running a (tms a)) xs), i + int (length xs)))"
  using assms
proof (induction xs arbitrary: p i out)
  case Nil
  then show ?case by (simp add: dump_timers_loop.simps)
next
  case (Cons a xs)
  have p: "p = Some a" "chain (\<lambda>a. m_pNext (tms a)) (m_pNext (tms a)) xs" using Cons.prems(1) by auto
  have "dump_timers_loop put tms running (Some a) i out =
      dump_timers_loop put tms running (m_pNext (tms a)) (i + 1) (out @ timer_text running a (tms a))"
    using Cons.prems(2) [of a] by (subst dump_timers_loop.simps) (auto simp del: obind_Done_iff)
  then show ?case using Cons.IH [OF p(2)] Cons.prems(2) p(1) by simp
qed

text \<open>
  Both listings end and show every timer of the list once, in the order of the call times,
  and their number, if the names are terminated; then no line overflows the buffer.
\<close>

lemma DumpTimers_lists_all:
  assumes "timers_ok s xs"
    and names: "\<And>a. a \<in> set xs \<Longrightarrow> length (m_Name (timers s a)) = 33 \<and> NUL \<in> set (m_Name (timers s a))"
  defines "out running \<equiv> timers_header (lo (m_CurTime s)) @
      concat (map (\<lambda>a. timer_text running a (timers s a)) xs) @ timers_footer (int (length xs))"
  shows "DumpTimers running s = Some (Done (out running)) \<and> DumpTimers_console running s = Some (Done (out running))"
proof -
  have c: "chain (\<lambda>a. m_pNext (timers s a)) (m_pHead s) xs"
    using assms(1) dlist_chain by (auto simp: timers_ok_def timer_repr_def tnx_def [abs_def])
  have l: "timer_line running a (timers s a) = Done (timer_text running a (timers s a)) \<and>
      length (timer_text running a (timers s a)) < 1024" if a: "a \<in> set xs" for a
  proof -
    obtain nm where nm: "GetName (timers s a) = Done nm"
      using names [OF a] by (simp add: GetName_def c_string_def)
    then have "length nm \<le> 33"
      using names [OF a] c_string_length by (fastforce simp: GetName_def)
    then show ?thesis using timer_line_Done [OF nm] by simp
  qed
  show ?thesis
    using dump_timers_loop_chain [OF c, of running "sprintf 1024"]
      dump_timers_loop_chain [OF c, of running Done] l
    by (simp add: DumpTimers_def DumpTimers_console_def timers_listing_def sprintf_def out_def)
qed

subsection \<open>Properties\<close>

text \<open>
  C29. \<^verbatim>\<open>TimerValue\<close> is a 64-bit millisecond counter in two words: \<^verbatim>\<open>operator+=\<close> adds modulo
  2^64, carry included, and \<^verbatim>\<open>operator<\<close> compares the counts.
\<close>

theorem timer_value_64_bit:
  "tv_nat (tv_add v a) = (tv_nat v + unat a) mod 2 ^ 64 \<and>
   (compare v w < 0 \<longleftrightarrow> tv_nat v < tv_nat w) \<and> (compare v w = 0 \<longleftrightarrow> v = w) \<and>
   (0 < compare v w \<longleftrightarrow> tv_nat w < tv_nat v)"
proof -
  have "compare v w < 0 \<longleftrightarrow> v < w" by (simp add: less_TimerValue_def tv_less_def)
  moreover have "0 < compare v w \<longleftrightarrow> w < v" using tv_gt_iff [of v w] by (simp only: tv_gt_def)
  moreover have "compare v w = 0 \<longleftrightarrow> v = w"
    by (cases v; cases w) (auto simp: compare_def)
  ultimately show ?thesis using tv_nat_add tv_less_iff by simp
qed

text \<open>
  Histories of the timers: a timer is started, stopped, or destroyed and its memory used for
  a new one; and the manager's thread makes a round. \<open>T_StopNow x os\<close> is \<^verbatim>\<open>Stop(TRUE)\<close> of
  \<open>x\<close>, whose function, if it is called, does the operations \<open>os\<close>, which may be such stops
  themselves.
\<close>

datatype timer_op =
    T_Start addr "addr option" nat u32 u32 EZTHREAD_PARAM u32
  | T_Stop addr
  | T_StopNow addr "timer_op list"
  | T_Renew addr string
  | T_Round u32

fun timer_exec ::
    "(addr \<Rightarrow> CEZTimer \<Rightarrow> 'w \<Rightarrow> EZTHREAD_BOOL \<times> 'w) \<Rightarrow> timer_op \<Rightarrow> 'w CEZTimerManager \<Rightarrow>
     'w CEZTimerManager option"
  and timer_history ::
    "(addr \<Rightarrow> CEZTimer \<Rightarrow> 'w \<Rightarrow> EZTHREAD_BOOL \<times> 'w) \<Rightarrow> timer_op list \<Rightarrow> 'w CEZTimerManager \<Rightarrow>
     'w CEZTimerManager option" where
  "timer_exec r (T_Start x ob fn due pr pa to) s = Start ob fn due pr pa to x s"
| "timer_exec r (T_Stop x) s = Stop (\<lambda>_ _. None) False x s"
| "timer_exec r (T_StopNow x os) s = Stop (\<lambda>_ s. timer_history r os s) True x s"
| "timer_exec r (T_Renew x nm) s = Some (upd_timer x (CEZTimer_new nm) (CEZTimer_delete x s))"
| "timer_exec r (T_Round now) s = timer_round r now s"
| "timer_history r [] s = Some s"
| "timer_history r (x # os) s = Option.bind (timer_exec r x s) (\<lambda>s. timer_history r os s)"

fun is_round :: "timer_op \<Rightarrow> bool" where
  "is_round (T_Round _) = True"
| "is_round _ = False"

text \<open>
  A function called by \<^verbatim>\<open>Stop(TRUE)\<close> must not stop or destroy a timer whose \<^verbatim>\<open>Stop(TRUE)\<close> is
  still under way, its own among them (the stops in progress are \<open>busy\<close>); it may start
  them. The caller has the timers' mutex, which is recursive, so no round runs meanwhile.
\<close>

fun calls_ok :: "addr list \<Rightarrow> timer_op \<Rightarrow> bool" where
  "calls_ok busy (T_Start x ob fn due pr pa to) = True"
| "calls_ok busy (T_Stop x) = (x \<notin> set busy)"
| "calls_ok busy (T_StopNow x os) = (x \<notin> set busy \<and> list_all (calls_ok (x # busy)) os)"
| "calls_ok busy (T_Renew x nm) = (x \<notin> set busy)"
| "calls_ok busy (T_Round now) = (busy = [])"

text \<open>Rounds move the upper word on by at most one.\<close>

lemma move_clock_hi: "unat (hi (m_CurTime (move_clock now s))) \<le> unat (hi (m_CurTime s)) + 1"
  by (simp add: move_clock_def Let_def unat_u32_plus)

lemma move_clock_fields [simp]:
  "timers (move_clock now s) = timers s" "m_pHead (move_clock now s) = m_pHead s"
  "world (move_clock now s) = world s"
  by (simp_all add: move_clock_def Let_def)

lemma move_clock_ok: "timers_ok (move_clock now s) xs = timers_ok s xs"
  by (simp add: timers_ok_def timer_repr_def tnx_def [abs_def] tpv_def [abs_def] call_time_def [abs_def])

lemma clock_room: "unat (hi v) \<le> 2 ^ 32 - 2 \<Longrightarrow> tv_nat v \<le> 2 ^ 64 - 2 ^ 32"
  using unat_u32_less [of "lo v"] by (simp add: tv_nat_def)

lemma CEZTimer_new_fields:
  "m_pNext (CEZTimer_new nm t) = m_pNext t" "m_pPrev (CEZTimer_new nm t) = m_pPrev t"
  "\<not> m_Started (CEZTimer_new nm t)"
  by (simp_all add: CEZTimer_new_def SetName_def)

lemma Stop_clock:
  "Stop (\<lambda>_ _. None) False x s = Some s' \<Longrightarrow> m_CurTime s' = m_CurTime s"
  by (auto simp: Stop_def RemoveTimer_core split: if_splits)

lemma CEZTimer_renew_ok:
  assumes "timers_ok s xs"
  shows "\<exists>ys. timers_ok (upd_timer x (CEZTimer_new nm) (CEZTimer_delete x s)) ys \<and>
    set ys = set xs - {x}"
proof (cases "x \<in> set xs")
  case True
  then have "CEZTimer_delete x s = RemoveTimer x s"
    using assms by (simp add: CEZTimer_delete_def timers_ok_def)
  then show ?thesis
    using remove_stop_ok [OF assms True, of "CEZTimer_new nm"] CEZTimer_new_fields by metis
next
  case False
  then have "timers_ok (upd_timer x (CEZTimer_new nm) s) xs"
    using assms CEZTimer_new_fields(3)
    by (auto simp: timers_ok_def call_time_upd_other upd_keeps_links [OF CEZTimer_new_fields(1,2)])
  then show ?thesis using False assms
    by (intro exI [of _ xs]) (simp add: CEZTimer_delete_def timers_ok_def)
qed

lemma timer_round_ok:
  assumes "timers_ok s xs" and "unat (hi (m_CurTime s)) \<le> 2 ^ 32 - 3"
  shows "\<exists>s' ys. timer_round r now s = Some s' \<and> timers_ok s' ys \<and>
    unat (hi (m_CurTime s')) \<le> unat (hi (m_CurTime s)) + 1"
proof (cases "now = lo (m_CurTime s)")
  case True
  then show ?thesis using assms(1) by (auto simp: timer_round_def)
next
  case False
  have "tv_nat (m_CurTime (move_clock now s)) \<le> 2 ^ 64 - 2 ^ 32"
    using move_clock_hi [of now s] assms(2) by (intro clock_room) simp
  then obtain s' ys log where "due_loop r (move_clock now s) = Some s'"
      "loop_effect r (move_clock now s) xs s' ys log"
    using due_loop_effect [of "move_clock now s" xs r] assms(1) by (auto simp: move_clock_ok)
  then show ?thesis using False move_clock_hi [of now s]
    by (auto simp: timer_round_def loop_effect_def)
qed

text \<open>\<^verbatim>\<open>Stop(TRUE)\<close>, if the function it calls leaves the timer in the list.\<close>

lemma Stop_call_ok:
  assumes "timers_ok s xs" and "x \<in> set xs" and "m_Priod (timers s x) = 0"
    and "\<And>j. call j s = Some s1" and "timers_ok s1 zs" and "x \<in> set zs"
  shows "\<exists>s' ys. Stop call True x s = Some s' \<and> timers_ok s' ys \<and> set ys = set zs - {x} \<and>
    m_CurTime s' = m_CurTime s1"
proof -
  obtain ys where "timers_ok (upd_timer x (\<lambda>t. t\<lparr>m_Started := False\<rparr>) (RemoveTimer x s1)) ys"
      "set ys = set zs - {x}"
    using remove_stop_ok [OF assms(5,6), of "\<lambda>t. t\<lparr>m_Started := False\<rparr>"] by auto
  moreover have "m_Started (timers s x)" using assms(1,2) by (simp add: timers_ok_def)
  ultimately show ?thesis using assms(3,4) by (auto simp: Stop_def RemoveTimer_core)
qed

text \<open>What an operation keeps, and a history, while the stops \<open>busy\<close> are under way.\<close>

definition op_ok :: "addr list \<Rightarrow> nat \<Rightarrow> 'w CEZTimerManager \<Rightarrow> 'w CEZTimerManager option \<Rightarrow> bool" where
  "op_ok busy n s r \<longleftrightarrow> (\<exists>s' ys. r = Some s' \<and> timers_ok s' ys \<and> set busy \<subseteq> set ys \<and>
     unat (hi (m_CurTime s')) \<le> unat (hi (m_CurTime s)) + n)"

lemma calls_ok_no_round: "list_all (calls_ok (x # busy)) os \<Longrightarrow> filter is_round os = []"
proof (induction os)
  case (Cons y os)
  then show ?case by (cases y) auto
qed simp

lemma timer_exec_ok:
  "timers_ok s xs \<Longrightarrow> set busy \<subseteq> set xs \<Longrightarrow> calls_ok busy x \<Longrightarrow>
    unat (hi (m_CurTime s)) \<le> 2 ^ 32 - 3 \<Longrightarrow>
    op_ok busy (if is_round x then 1 else 0) s (timer_exec r x s)"
  and timer_history_ok:
  "timers_ok s xs \<Longrightarrow> set busy \<subseteq> set xs \<Longrightarrow> list_all (calls_ok busy) os \<Longrightarrow>
    unat (hi (m_CurTime s)) + length (filter is_round os) \<le> 2 ^ 32 - 3 \<Longrightarrow>
    op_ok busy (length (filter is_round os)) s (timer_history r os s)"
proof (induction r x s and r os s arbitrary: xs busy and xs busy rule: timer_exec_timer_history.induct)
  case (1 r x ob fn due pr pa to s)
  then show ?case using Start_ok [OF 1(1), of ob fn due pr pa to x] by (fastforce simp: op_ok_def)
next
  case (2 r x s)
  then show ?case using Stop_ok [OF 2(1), of False x "\<lambda>_ _. None"] Stop_clock [of x s]
    by (fastforce simp: op_ok_def)
next
  case (3 r x os s)
  show ?case
  proof (cases "x \<in> set xs \<and> m_Priod (timers s x) = 0")
    case True
    have ok: "list_all (calls_ok (x # busy)) os" "x \<notin> set busy" using 3(4) by auto
    note nr = calls_ok_no_round [OF ok(1)]
    have "op_ok (x # busy) (length (filter is_round os)) s (timer_history r os s)"
      by (rule 3(1) [OF 3(2) _ ok(1)]) (use True 3(3,5) nr in auto)
    then obtain s1 zs where "timer_history r os s = Some s1" "timers_ok s1 zs"
        "set (x # busy) \<subseteq> set zs" "unat (hi (m_CurTime s1)) \<le> unat (hi (m_CurTime s))"
      unfolding op_ok_def nr by auto
    then show ?thesis
      using Stop_call_ok [OF 3(2), of x "\<lambda>_ s. timer_history r os s" s1 zs] True ok(2)
      by (fastforce simp: op_ok_def)
  next
    case False
    then have "timer_exec r (T_StopNow x os) s = Stop (\<lambda>_ _. None) False x s"
      using 3(2) by (auto simp: Stop_def timers_ok_def)
    then show ?thesis
      using Stop_ok [OF 3(2), of False x "\<lambda>_ _. None"] Stop_clock [of x s] 3(3,4)
      by (fastforce simp: op_ok_def)
  qed
next
  case (4 r x nm s)
  then show ?case using CEZTimer_renew_ok [OF 4(1), of x nm]
    by (fastforce simp: op_ok_def CEZTimer_delete_def RemoveTimer_core)
next
  case (5 r now s)
  then show ?case using timer_round_ok [OF 5(1,4), of r now] by (auto simp: op_ok_def)
next
  case (6 r s)
  then show ?case by (auto simp: op_ok_def)
next
  case (7 r x os s)
  have "op_ok busy (if is_round x then 1 else 0) s (timer_exec r x s)"
    by (rule 7(1)) (use 7(3-6) in auto)
  then obtain s1 ys where s1: "timer_exec r x s = Some s1" "timers_ok s1 ys" "set busy \<subseteq> set ys"
      "unat (hi (m_CurTime s1)) \<le> unat (hi (m_CurTime s)) + (if is_round x then 1 else 0)"
    unfolding op_ok_def by blast
  have "op_ok busy (length (filter is_round os)) s1 (timer_history r os s1)"
    by (rule 7(2) [OF s1(1) s1(2,3)]) (use 7(5,6) s1(4) in \<open>auto split: if_splits\<close>)
  then show ?case using s1(1,4) by (auto simp: op_ok_def split: if_splits)
qed

text \<open>
  C11. Over any history of starts, stops, destructions and at most 2^32 - 3 rounds, every
  operation returns, and the manager's list is a proper doubly linked list, sorted by call
  time, of exactly the timers that say they are started. \<^verbatim>\<open>Stop(TRUE)\<close> is among the operations,
  with whatever the function does that it calls (\<^verbatim>\<open>Stop(TRUE)\<close> of other timers included), as
  long as that function does not itself stop or destroy a timer whose \<^verbatim>\<open>Stop(TRUE)\<close> is still
  under way, its own above all (\<open>calls_ok\<close>); \<^verbatim>\<open>TimerJobs.stop_call_loses_timer\<close> shows
  that the list is damaged otherwise.
\<close>

theorem timer_history_invariant:
  assumes "\<forall>a. \<not> m_Started (tms a)" and "list_all (calls_ok []) os"
    and "length (filter is_round os) \<le> 2 ^ 32 - 3"
  shows "\<exists>s xs. timer_history r os (CEZTimerManager_new now tms w) = Some s \<and>
    timer_repr s xs \<and> sorted (map (call_time s) xs) \<and> (\<forall>a. m_Started (timers s a) \<longleftrightarrow> a \<in> set xs)"
proof -
  have "timers_ok (CEZTimerManager_new now tms w) []"
    using assms(1) by (simp add: timers_ok_def timer_repr_def dlist_def CEZTimerManager_new_def)
  from timer_history_ok [OF this, of "[]" os r] assms(2,3) show ?thesis
    by (auto simp: op_ok_def timers_ok_def CEZTimerManager_new_def)
qed

definition raw_timer :: CEZTimer where
  "raw_timer = \<lparr>m_CallTime = TimerValue 0 0, m_Priod = 0, m_timeout = 0, m_pObj = None,
     m_pTimerFun = 0, m_param = 0, m_Name = replicate 33 NUL, m_Started = False, m_Called = False,
     m_pPrev = None, m_pNext = None\<rparr>"

text \<open>
  The function of timer 2, called by \<^verbatim>\<open>Stop(TRUE)\<close>, starts its own timer again, and stops timer
  3 with \<^verbatim>\<open>Stop(TRUE)\<close>, whose function stops timer 1.
\<close>

definition nested_stops :: "timer_op list" where
  "nested_stops =
     [T_Start 1 None 0 50 100 0 0, T_Start 2 None 0 10 0 0 0, T_Start 3 None 0 70 0 0 0,
      T_StopNow 2 [T_Start 2 None 0 5 0 0 0, T_StopNow 3 [T_Stop 1]], T_Start 1 None 0 20 0 0 0,
      T_Round 1030]"

theorem timer_history_invariant_witness:
  "\<exists>s xs. timer_history (\<lambda>x t w. (True, w @ [x])) nested_stops
      (CEZTimerManager_new 1000 (\<lambda>_. raw_timer) []) = Some s \<and> sorted (map (call_time s) xs) \<and>
    (\<forall>a. m_Started (timers s a) \<longleftrightarrow> a \<in> set xs)"
  using timer_history_invariant [of "\<lambda>_. raw_timer" nested_stops "\<lambda>x t w. (True, w @ [x])" 1000 "[]"]
  by (auto simp: raw_timer_def nested_stops_def)

text \<open>
  C12. A round of the manager's thread always ends. Afterwards no timer is due; a timer that
  is not periodic has been run once if it was due, and is then stopped and marked as
  called; a periodic one has been run once for every period that has come due and stays in
  the list; and no other timer has been touched.
\<close>

theorem timer_round_runs_due:
  assumes "timers_ok s xs" and "unat (hi (m_CurTime s)) \<le> 2 ^ 32 - 3" and "now \<noteq> lo (m_CurTime s)"
  defines "cur \<equiv> m_CurTime (move_clock now s)"
  shows "\<exists>s' ys log. timer_round r now s = Some s' \<and> timers_ok s' ys \<and>
    (\<forall>x \<in> set ys. cur \<le> call_time s' x) \<and> world s' = world_after r log (world s) \<and>
    (\<forall>x \<in> set xs. fired cur (count_list (map fst log) x) (timers s x) (timers s' x)) \<and>
    (\<forall>x. x \<notin> set xs \<longrightarrow> x \<notin> set (map fst log) \<and> core (timers s' x) = core (timers s x))"
proof -
  have "tv_nat cur \<le> 2 ^ 64 - 2 ^ 32"
    unfolding cur_def using move_clock_hi [of now s] assms(2) by (intro clock_room) simp
  then obtain s' ys log where "due_loop r (move_clock now s) = Some s'"
      "loop_effect r (move_clock now s) xs s' ys log"
    using due_loop_effect [of "move_clock now s" xs r] assms(1) by (auto simp: move_clock_ok cur_def)
  then show ?thesis using assms(3) unfolding loop_effect_def timer_round_def cur_def
    by (intro exI [of _ s'] exI [of _ ys] exI [of _ log]) simp
qed

theorem timer_round_runs_due_witness:
  "\<exists>s' ys. timer_round (\<lambda>x t w. (True, w @ [x])) 5 (CEZTimerManager_new 1 (\<lambda>_. raw_timer) []) =
    Some s' \<and> timers_ok s' ys"
proof -
  have "timers_ok (CEZTimerManager_new 1 (\<lambda>_. raw_timer) []) []"
    by (simp add: timers_ok_def timer_repr_def dlist_def CEZTimerManager_new_def raw_timer_def)
  from timer_round_runs_due [OF this, of 5 "\<lambda>x t w. (True, w @ [x])"] show ?thesis
    by (auto simp: CEZTimerManager_new_def)
qed

text \<open>
  C31. The manager's clock follows the system's. Let the true time go from \<open>T\<close> to \<open>T'\<close>, less
  than one period of the 32-bit clock later. If the clock has wrapped and reads 10000 or
  more at the next round, the manager does not see the wrap and its time jumps back by
  2^32; in every other case it advances by exactly the time that has passed.
\<close>

theorem timer_clock_follows:
  assumes "lo (m_CurTime s) = word_of_nat T" and "T \<le> T'" and "T' < T + 2 ^ 32"
    and "unat (hi (m_CurTime s)) \<le> 2 ^ 32 - 2"
  shows "tv_nat (m_CurTime (move_clock (word_of_nat T') s)) +
      (if T div 2 ^ 32 \<noteq> T' div 2 ^ 32 \<and> 10000 \<le> T' mod 2 ^ 32 then 2 ^ 32 else 0) =
    tv_nat (m_CurTime s) + (T' - T)"
proof -
  define q r where "q = T div 2 ^ 32" and "r = T mod 2 ^ 32"
  define q' r' where "q' = T' div 2 ^ 32" and "r' = T' mod 2 ^ 32"
  have t: "T = q * 2 ^ 32 + r" and t': "T' = q' * 2 ^ 32 + r'" and m: "r < 2 ^ 32" "r' < 2 ^ 32"
    unfolding q_def r_def q'_def r'_def by simp_all
  have q: "q' = (if r \<le> r' then q else q + 1)"
    using quotient_step [OF m] assms(2,3) unfolding t t' by simp
  have u: "unat (word_of_nat T :: u32) = r" "unat (word_of_nat T' :: u32) = r'"
    by (simp_all add: unsigned_of_nat take_bit_eq_mod r_def r'_def)
  have less: "(word_of_nat T' :: u32) < word_of_nat T \<longleftrightarrow> r' < r"
    by (simp only: word_less_nat_alt u)
  have small: "(word_of_nat T' :: u32) < 10000 \<longleftrightarrow> r' < 10000"
    using u(2) by (simp only: word_less_nat_alt) simp
  have h: "unat (hi (m_CurTime s) + 1) = unat (hi (m_CurTime s)) + 1"
    using assms(4) by (simp add: unat_u32_plus)
  have d: "T' - T = (if r \<le> r' then r' - r else 2 ^ 32 + r' - r)"
    using q t t' m by simp
  have c: "m_CurTime (move_clock (word_of_nat T') s) =
      TimerValue (word_of_nat T') (if r' < r \<and> r' < 10000 then hi (m_CurTime s) + 1 else hi (m_CurTime s))"
    using assms(1) less small by (simp only: move_clock_def Let_def) simp
  have e: "tv_nat (m_CurTime s) = unat (hi (m_CurTime s)) * 2 ^ 32 + r"
    using assms(1) u(1) by (simp add: tv_nat_def)
  have n: "tv_nat (m_CurTime (move_clock (word_of_nat T') s)) =
      (unat (hi (m_CurTime s)) + (if r' < r \<and> r' < 10000 then 1 else 0)) * 2 ^ 32 + r'"
    unfolding c using h u(2) by (simp add: tv_nat_def)
  have "T div 2 ^ 32 \<noteq> T' div 2 ^ 32 \<longleftrightarrow> r' < r"
    unfolding q_def [symmetric] q'_def [symmetric] using q by auto
  then show ?thesis using n e d m unfolding r'_def [symmetric]
    by (cases "r' < r"; cases "r' < 10000") auto
qed

theorem timer_clock_follows_witness:
  "tv_nat (m_CurTime (move_clock (word_of_nat 4294987296)
    (CEZTimerManager_new 0xfffffff0 (\<lambda>_. raw_timer) ()))) + 2 ^ 32 = 4294987296"
proof -
  let ?s = "CEZTimerManager_new 0xfffffff0 (\<lambda>_. raw_timer) ()"
  have "tv_nat (m_CurTime (move_clock (word_of_nat 4294987296) ?s)) + 2 ^ 32 =
      tv_nat (m_CurTime ?s) + (4294987296 - 4294967280)"
    using timer_clock_follows [of ?s 4294967280 4294987296]
    by (simp add: CEZTimerManager_new_def)
  then show ?thesis by (simp add: CEZTimerManager_new_def tv_nat_def)
qed

text \<open>
  C30. A name of fewer than 32 characters comes back from \<^verbatim>\<open>GetName\<close>; a longer one leaves
  the array without a terminating NUL unless its last byte happens to be one.
\<close>

theorem timer_name_round_trip:
  assumes "length (m_Name t) = 33" and "NUL \<notin> set nm"
  shows "GetName (SetName nm t) =
    (if length nm < 32 then Done nm
     else if m_Name t ! 32 = NUL then Done (take 32 nm) else Undefined)"
proof -
  let ?b = "strncpy (m_Name t) nm 32"
  have d: "drop 32 (m_Name t) = [m_Name t ! 32]"
    using assms(1) by (simp add: Cons_nth_drop_Suc [symmetric])
  have b: "?b = take 32 nm @ replicate (32 - length nm) NUL @ [m_Name t ! 32]"
    by (simp add: strncpy_def d min.absorb1 min.absorb2)
  have "takeWhile (\<lambda>c. c \<noteq> NUL) (take 32 nm @ NUL # cs) = take 32 nm" for cs
    using assms(2) by (subst takeWhile_append2) (auto dest: in_set_takeD)
  moreover have "NUL \<notin> set (take 32 nm)" using assms(2) by (auto dest: in_set_takeD)
  moreover have "length nm < 32 \<Longrightarrow> \<exists>k. 32 - length nm = Suc k" by presburger
  ultimately show ?thesis
    using b by (auto simp: GetName_def SetName_def c_string_def TIMER_NAME_LEN_def)
qed

theorem timer_name_round_trip_witness:
  "GetName (SetName ''beep'' raw_timer) = Done ''beep''"
  by (subst timer_name_round_trip) (simp_all add: raw_timer_def NUL_def)

end
