(* ===== verification/TimerJobs.thy ===== *)
theory TimerJobs
  imports Threadlet Timer
begin

section \<open>The timers and the threads that run their functions\<close>

text \<open>
  Every \<^verbatim>\<open>CEZTimer\<close> has a \<^verbatim>\<open>CEZThreadlet\<close> as a member, and \<^verbatim>\<open>CEZTimer::run\<close> hands the timer's
  function to it. Here the model of the timers gets the model of the threadlets as its
  world. \<^verbatim>\<open>CEZTimer::m_CMutex\<close> makes each call on the timers a step, and the manager's
  thread holds it for a whole round; the pooled threads do not take it, so they move
  between the timers that a round runs.
\<close>

subsection \<open>The manager's thread\<close>

text \<open>\<^verbatim>\<open>CEZTimerManager\<close> is a thread; its \<^verbatim>\<open>Start\<close> creates it.\<close>

definition timer_manager_thread :: "platform \<Rightarrow> CEZThread \<Rightarrow> CEZThread" where
  "timer_manager_thread p old = CEZThread_new p old ''TimerManager'' 2 0 0"

definition TimerManager_Start :: "thread_os \<Rightarrow> CEZThread \<Rightarrow> (EZTHREAD_BOOL \<times> CEZThread) outcome" where
  "TimerManager_Start os t = CreateThread os t"

subsection \<open>The threadlet of a timer\<close>

definition timer_name :: "CEZTimer \<Rightarrow> string" where
  "timer_name t = (case GetName t of Done nm \<Rightarrow> nm | _ \<Rightarrow> m_Name t)"

definition timer_job :: "CEZTimer \<Rightarrow> job" where
  "timer_job t = (CEZTimer.m_pObj t, m_pTimerFun t, CEZTimer.m_param t)"

text \<open>
  \<^verbatim>\<open>m_threadlet.run(m_Name, m_pObj, m_pTimerFun, m_param, m_timeout)\<close>, the threadlet being at
  the address of its timer. A name without a NUL is cut at the end of its array.
\<close>

definition timer_threadlet_run ::
    "platform \<Rightarrow> (addr list \<Rightarrow> addr) \<Rightarrow> bool \<Rightarrow> u32 \<Rightarrow> addr \<Rightarrow> CEZTimer \<Rightarrow> let_sys \<Rightarrow> EZTHREAD_BOOL \<times> let_sys"
  where
  "timer_threadlet_run p new ok now x t w =
     (case lets w x of
        None \<Rightarrow> (False, w)
      | Some th \<Rightarrow> Threadlet.run p new ok (timer_name t) (timer_job t) now (m_timeout t) x th w)"

text \<open>A timer is destroyed, if there was one at the address, and a new one made there.\<close>

definition renew_threadlet :: "addr \<Rightarrow> let_sys \<Rightarrow> let_sys" where
  "renew_threadlet x w =
     (let w = (case lets w x of None \<Rightarrow> w | Some th \<Rightarrow> Threadlet_delete x th w)
      in w\<lparr>lets := (lets w)(x := Some None)\<rparr>)"

subsection \<open>The system\<close>

text \<open>
  \<open>in_round\<close> says whether the manager's thread is in a round and holds the mutex; \<open>runs\<close> is
  the history of the timers run, each with its function and the answer of the threadlet.
  \<^verbatim>\<open>Stop(TRUE)\<close> of a timer without a period calls its function in the caller's thread, inside the
  mutex: \<open>stopping\<close> are the timers whose function is being called like that, the innermost
  first, and \<open>direct\<close> is the history of these calls. The mutex is recursive, so the function
  may start and stop timers, but no round begins before it returns.
\<close>

record timer_sys =
  tm :: "let_sys CEZTimerManager"
  in_round :: bool
  runs :: "(addr \<times> job \<times> EZTHREAD_BOOL) list"
  stopping :: "addr list"
  direct :: "job list"

definition due_head :: "'w CEZTimerManager \<Rightarrow> addr option" where
  "due_head s =
     (case m_pHead s of
        None \<Rightarrow> None
      | Some h \<Rightarrow> if m_CallTime (timers s h) < m_CurTime s then Some h else None)"

definition stop_return :: "addr \<Rightarrow> 'w CEZTimerManager \<Rightarrow> 'w CEZTimerManager" where
  "stop_return x s = upd_timer x (\<lambda>t. t\<lparr>m_Started := False\<rparr>) (RemoveTimer x s)"

text \<open>The two halves of \<^verbatim>\<open>Stop(TRUE)\<close>, around the call of the function.\<close>

lemma Stop_halves:
  "m_Started (timers s x) \<Longrightarrow> m_Priod (timers s x) = 0 \<Longrightarrow>
    Stop call True x s = map_option (stop_return x) (call (timer_job (timers s x)) s)"
  by (simp add: Stop_def stop_return_def [abs_def] timer_job_def)

text \<open>
  A function called by \<^verbatim>\<open>Stop(TRUE)\<close> may do what it likes with other timers, and start its
  own; it must not stop or destroy its own, see \<open>stop_call_loses_timer\<close> below.
\<close>

inductive tj_step :: "platform \<Rightarrow> (addr list \<Rightarrow> addr) \<Rightarrow> timer_sys \<Rightarrow> timer_sys \<Rightarrow> bool"
  for p :: platform and new :: "addr list \<Rightarrow> addr" where
  round_begins: "\<not> in_round s \<Longrightarrow> stopping s = [] \<Longrightarrow> now \<noteq> lo (m_CurTime (tm s)) \<Longrightarrow>
     unat (hi (m_CurTime (tm s))) \<le> 2 ^ 32 - 3 \<Longrightarrow>
     tj_step p new s (s\<lparr>tm := move_clock now (tm s), in_round := True\<rparr>)"
| round_runs: "in_round s \<Longrightarrow> due_head (tm s) = Some h \<Longrightarrow>
     Timer.run (timer_threadlet_run p new ok now) h (tm s) = Some m \<Longrightarrow>
     tj_step p new s (s\<lparr>tm := m, runs := runs s @ [(h, timer_job (timers (tm s) h),
       fst (timer_threadlet_run p new ok now h (timers (tm s) h) (world (tm s))))]\<rparr>)"
| round_ends: "in_round s \<Longrightarrow> due_head (tm s) = None \<Longrightarrow> tj_step p new s (s\<lparr>in_round := False\<rparr>)"
| stop_calls: "\<not> in_round s \<Longrightarrow> x \<notin> set (stopping s) \<Longrightarrow> m_Started (timers (tm s) x) \<Longrightarrow>
     m_Priod (timers (tm s) x) = 0 \<Longrightarrow>
     tj_step p new s (s\<lparr>stopping := x # stopping s, direct := direct s @ [timer_job (timers (tm s) x)]\<rparr>)"
| stop_returns: "stopping s = x # xs \<Longrightarrow>
     tj_step p new s (s\<lparr>tm := stop_return x (tm s), stopping := xs\<rparr>)"
| starts: "\<not> in_round s \<Longrightarrow> lets (world (tm s)) x \<noteq> None \<Longrightarrow>
     Start ob fn due pr pa to x (tm s) = Some m \<Longrightarrow> tj_step p new s (s\<lparr>tm := m\<rparr>)"
| stops: "\<not> in_round s \<Longrightarrow> lets (world (tm s)) x \<noteq> None \<Longrightarrow> x \<notin> set (stopping s) \<Longrightarrow>
     \<not> b \<or> m_Priod (timers (tm s) x) \<noteq> 0 \<Longrightarrow>
     Stop (\<lambda>_ _. None) b x (tm s) = Some m \<Longrightarrow> tj_step p new s (s\<lparr>tm := m\<rparr>)"
| renews: "\<not> in_round s \<Longrightarrow> x \<notin> set (stopping s) \<Longrightarrow> tj_step p new s
     (s\<lparr>tm := (upd_timer x (CEZTimer_new nm) (CEZTimer_delete x (tm s)))
        \<lparr>world := renew_threadlet x (world (tm s))\<rparr>\<rparr>)"
| pooled_moves: "a \<in> set (made (mem (world (tm s)))) \<Longrightarrow>
     pooled_step a (pcs (world (tm s)) a) (world (tm s)) = Some w \<Longrightarrow>
     tj_step p new s (s\<lparr>tm := (tm s)\<lparr>world := w\<rparr>\<rparr>)"

definition tj_init :: "timer_sys \<Rightarrow> bool" where
  "tj_init s \<longleftrightarrow> (\<exists>now tms w. let_init w \<and> (\<forall>a. \<not> m_Started (tms a)) \<and>
     tm s = CEZTimerManager_new now tms w) \<and> \<not> in_round s \<and> runs s = [] \<and>
     stopping s = [] \<and> direct s = []"

subsection \<open>The invariant\<close>

definition accepted_runs :: "timer_sys \<Rightarrow> job list" where
  "accepted_runs s = map (\<lambda>(x, j, b). j) (filter (\<lambda>(x, j, b). b) (runs s))"

definition tj_inv :: "timer_sys \<Rightarrow> bool" where
  "tj_inv s \<longleftrightarrow> (\<exists>xs. timers_ok (tm s) xs \<and> (\<forall>x \<in> set xs. lets (world (tm s)) x \<noteq> None) \<and>
       set (stopping s) \<subseteq> set xs) \<and>
     distinct (stopping s) \<and> (stopping s = [] \<or> \<not> in_round s) \<and>
     let_inv (world (tm s)) \<and> (in_round s \<longrightarrow> tv_nat (m_CurTime (tm s)) \<le> 2 ^ 64 - 2 ^ 32) \<and>
     accepted (world (tm s)) = accepted_runs s"

lemma timers_ok_world [simp]: "timers_ok (s\<lparr>world := w\<rparr>) xs = timers_ok s xs"
  by (simp add: timers_ok_def timer_repr_def call_time_def [abs_def])

lemma AddTimer_core:
  "AddTimer x s = Some s' \<Longrightarrow> core (timers s' a) = core (timers s a) \<and> world s' = world s"
  by (auto simp: AddTimer_def add_between_core)

text \<open>What \<^verbatim>\<open>CEZTimer::run\<close> hands to the threadlet.\<close>

lemma run_job:
  assumes "Timer.run r h s = Some s'"
  shows "\<exists>t. world s' = snd (r h t (world s)) \<and> timer_job t = timer_job (timers s h)"
proof -
  let ?R = "RemoveTimer h s"
  have c: "core (timers ?R h) = core (timers s h)" by (simp add: RemoveTimer_core)
  note R = core_eqD [OF c]
  show ?thesis
  proof (cases "m_Priod (timers s h) = 0")
    case True
    then show ?thesis using assms R
      by (intro exI [of _ "(timers ?R h)\<lparr>m_Started := False, m_Called := True\<rparr>"])
        (auto simp: Timer.run_def Let_def RemoveTimer_core timer_job_def)
  next
    case False
    let ?s0 = "upd_timer h (\<lambda>t. t\<lparr>m_CallTime := tv_add (m_CallTime t) (m_Priod t)\<rparr>) ?R"
    obtain s1 where s1: "AddTimer h ?s0 = Some s1" "s' = s1\<lparr>world := snd (r h (timers s1 h) (world s1))\<rparr>"
      using assms False R by (auto simp: Timer.run_def Let_def)
    note a = AddTimer_core [OF s1(1), of h]
    have "core (timers s1 h) = core (timers ?s0 h)" using a by blast
    note A = core_eqD [OF this]
    show ?thesis using s1(2) a A R
      by (intro exI [of _ "timers s1 h"]) (simp add: RemoveTimer_core timer_job_def)
  qed
qed

text \<open>The threadlet's answer does not depend on the rest of the timer, and what it accepts is the job.\<close>

lemma threadlet_answer:
  "fst (timer_threadlet_run p new ok now x t w) \<longleftrightarrow> lets w x = Some None"
  by (auto simp: timer_threadlet_run_def Threadlet.run_def split_beta Let_def split: option.split)

lemma threadlet_accepts:
  "accepted (snd (timer_threadlet_run p new ok now x t w)) =
    accepted w @ (if lets w x = Some None then [timer_job t] else [])"
  by (auto simp: timer_threadlet_run_def Threadlet.run_def split_beta Let_def split: option.split)

lemma threadlet_lets:
  "lets (snd (timer_threadlet_run p new ok now x t w)) y = None \<longleftrightarrow> lets w y = None"
  by (auto simp: timer_threadlet_run_def Threadlet.run_def split_beta Let_def split: option.split)

lemma threadlet_let_inv:
  assumes "let_inv w" and "let_fits p new"
  shows "let_inv (snd (timer_threadlet_run p new ok now x t w))"
proof (cases "lets w x")
  case None
  then show ?thesis using assms by (simp add: timer_threadlet_run_def)
next
  case (Some th)
  then have "let_step p new w (snd (timer_threadlet_run p new ok now x t w))"
    by (simp add: timer_threadlet_run_def run_threadlet)
  then show ?thesis using let_step_inv assms by (simp add: let_fits_def)
qed

lemma renew_threadlet_inv:
  assumes "let_inv w"
  shows "let_inv (renew_threadlet x w)" and "accepted (renew_threadlet x w) = accepted w"
    and "lets (renew_threadlet x w) y = None \<longleftrightarrow> y \<noteq> x \<and> lets w y = None"
proof -
  let ?w = "case lets w x of None \<Rightarrow> w | Some th \<Rightarrow> Threadlet_delete x th w"
  have "let_inv ?w" using assms by (auto intro: delete_threadlet_inv split: option.split)
  moreover have "lets ?w x = None"
    by (auto simp: Threadlet_delete_def split: option.split)
  ultimately show "let_inv (renew_threadlet x w)"
    using new_threadlet_inv by (simp add: renew_threadlet_def Let_def)
  show "accepted (renew_threadlet x w) = accepted w"
    by (auto simp: renew_threadlet_def Let_def Threadlet_delete_def split: option.split)
  show "lets (renew_threadlet x w) y = None \<longleftrightarrow> y \<noteq> x \<and> lets w y = None"
    by (auto simp: renew_threadlet_def Let_def Threadlet_delete_def split: option.split)
qed

lemma pooled_step_frame:
  assumes "pooled_step a pc w = Some w'"
  shows "accepted w' = accepted w" and "lets w y \<noteq> None \<Longrightarrow> lets w' y \<noteq> None"
  using assms by (cases pc; auto split: outcome.splits option.splits)+

lemma due_head_in:
  assumes "timers_ok m xs" and "due_head m = Some h"
  shows "h \<in> set xs" and "call_time m h < m_CurTime m"
proof -
  have h: "m_pHead m = Some h" "m_CallTime (timers m h) < m_CurTime m"
    using assms(2) by (auto simp: due_head_def split: option.splits if_splits)
  then show "call_time m h < m_CurTime m" by (simp add: call_time_def)
  show "h \<in> set xs"
    using h(1) assms(1) dlist_head by (cases xs) (fastforce simp: timers_ok_def timer_repr_def)+
qed

lemma tj_invI:
  assumes "timers_ok (tm s) xs" and "\<forall>x \<in> set xs. lets (world (tm s)) x \<noteq> None"
    and "let_inv (world (tm s))" and "in_round s \<Longrightarrow> tv_nat (m_CurTime (tm s)) \<le> 2 ^ 64 - 2 ^ 32"
    and "accepted (world (tm s)) = accepted_runs s"
    and "set (stopping s) \<subseteq> set xs" and "distinct (stopping s)" and "stopping s = [] \<or> \<not> in_round s"
  shows "tj_inv s"
  using assms by (auto simp: tj_inv_def)

lemma accepted_runs_fields [simp]:
  "accepted_runs (s\<lparr>tm := m\<rparr>) = accepted_runs s" "accepted_runs (s\<lparr>in_round := b\<rparr>) = accepted_runs s"
  "accepted_runs (s\<lparr>stopping := xs\<rparr>) = accepted_runs s" "accepted_runs (s\<lparr>direct := js\<rparr>) = accepted_runs s"
  by (simp_all add: accepted_runs_def)

lemma round_runs_inv:
  assumes inv: "tj_inv s" and fits: "let_fits p new" and r: "in_round s" and h: "due_head (tm s) = Some h"
    and run: "Timer.run (timer_threadlet_run p new ok now) h (tm s) = Some m"
  shows "tj_inv (s\<lparr>tm := m, runs := runs s @ [(h, timer_job (timers (tm s) h),
    fst (timer_threadlet_run p new ok now h (timers (tm s) h) (world (tm s))))]\<rparr>)"
proof -
  obtain xs where xs: "timers_ok (tm s) xs" "\<forall>x \<in> set xs. lets (world (tm s)) x \<noteq> None"
    using inv by (auto simp: tj_inv_def)
  have room: "tv_nat (m_CurTime (tm s)) \<le> 2 ^ 64 - 2 ^ 32" and st: "stopping s = []"
    using inv r by (simp_all add: tj_inv_def)
  note hd = due_head_in [OF xs(1) h]
  obtain ys where ys: "timers_ok m ys" "m_CurTime m = m_CurTime (tm s)" "set ys \<subseteq> set xs"
    using run_head [OF xs(1) hd room, of "timer_threadlet_run p new ok now"] run
    by (auto split: if_splits)
  obtain t where t: "world m = snd (timer_threadlet_run p new ok now h t (world (tm s)))"
      "timer_job t = timer_job (timers (tm s) h)"
    using run_job [OF run] by blast
  show ?thesis
  proof (rule tj_invI)
    show "timers_ok (tm (s\<lparr>tm := m, runs := runs s @ [(h, timer_job (timers (tm s) h),
        fst (timer_threadlet_run p new ok now h (timers (tm s) h) (world (tm s))))]\<rparr>)) ys"
      using ys(1) by simp
  qed (use ys t xs(2) room st inv threadlet_let_inv [OF _ fits] in
    \<open>auto simp: tj_inv_def threadlet_lets threadlet_accepts threadlet_answer accepted_runs_def\<close>)
qed

lemma renews_inv:
  assumes inv: "tj_inv s" and r: "\<not> in_round s" and x: "x \<notin> set (stopping s)"
  shows "tj_inv (s\<lparr>tm := (upd_timer x (CEZTimer_new nm) (CEZTimer_delete x (tm s)))
    \<lparr>world := renew_threadlet x (world (tm s))\<rparr>\<rparr>)"
proof -
  let ?m = "upd_timer x (CEZTimer_new nm) (CEZTimer_delete x (tm s))"
  obtain xs where xs: "timers_ok (tm s) xs" "\<forall>x \<in> set xs. lets (world (tm s)) x \<noteq> None"
      "set (stopping s) \<subseteq> set xs"
    using inv by (auto simp: tj_inv_def)
  have w: "let_inv (world (tm s))" "accepted (world (tm s)) = accepted_runs s" "distinct (stopping s)"
    using inv by (simp_all add: tj_inv_def)
  obtain ys where ys: "timers_ok ?m ys" using CEZTimer_renew_ok [OF xs(1)] by blast
  have same: "a \<in> set ys \<longleftrightarrow> a \<in> set xs" if "a \<noteq> x" for a
  proof -
    have "core (timers (CEZTimer_delete x (tm s)) a) = core (timers (tm s) a)"
      by (simp add: CEZTimer_delete_def RemoveTimer_core)
    moreover have "m_Started (timers (CEZTimer_delete x (tm s)) a) \<longleftrightarrow> a \<in> set ys"
      using ys that by (auto simp: timers_ok_def split: if_splits)
    ultimately have "m_Started (timers (tm s) a) \<longleftrightarrow> a \<in> set ys" using core_eqD(3) by metis
    then show ?thesis using xs(1) by (simp add: timers_ok_def)
  qed
  have "set (stopping s) \<subseteq> set ys" using xs(3) x same by (metis subset_iff)
  then show ?thesis using same ys xs(2) r w renew_threadlet_inv [OF w(1), of x]
    by (intro tj_invI [where xs = ys]) auto
qed

lemma tj_step_inv:
  assumes "tj_step p new s t" and "tj_inv s" and "let_fits p new"
  shows "tj_inv t"
proof -
  obtain xs where xs: "timers_ok (tm s) xs" "\<forall>x \<in> set xs. lets (world (tm s)) x \<noteq> None"
      "set (stopping s) \<subseteq> set xs"
    using assms(2) by (auto simp: tj_inv_def)
  have w: "let_inv (world (tm s))" "accepted (world (tm s)) = accepted_runs s" "distinct (stopping s)"
      "stopping s = [] \<or> \<not> in_round s"
    and room: "in_round s \<Longrightarrow> tv_nat (m_CurTime (tm s)) \<le> 2 ^ 64 - 2 ^ 32"
    using assms(2) by (simp_all add: tj_inv_def)
  from assms(1) show ?thesis
  proof cases
    case (round_begins now)
    have "tv_nat (m_CurTime (move_clock now (tm s))) \<le> 2 ^ 64 - 2 ^ 32"
      using move_clock_hi [of now "tm s"] round_begins(5) by (intro clock_room) simp
    then show ?thesis unfolding round_begins(1)
      by (intro tj_invI [where xs = xs]) (use xs w round_begins in \<open>simp_all add: move_clock_ok\<close>)
  next
    case (round_runs h ok now m)
    then show ?thesis using round_runs_inv [OF assms(2,3)] by simp
  next
    case round_ends
    then show ?thesis using xs w by (intro tj_invI [where xs = xs]) simp_all
  next
    case (stop_calls x)
    then have "x \<in> set xs" using xs(1) by (simp add: timers_ok_def)
    then show ?thesis using stop_calls xs w by (intro tj_invI [where xs = xs]) auto
  next
    case (stop_returns x st)
    then have "x \<in> set xs" using xs(3) by simp
    then obtain ys where "timers_ok (stop_return x (tm s)) ys" "set ys = set xs - {x}"
      using remove_stop_ok [OF xs(1), of x "\<lambda>t. t\<lparr>m_Started := False\<rparr>"]
      by (auto simp: stop_return_def)
    then show ?thesis using stop_returns xs w
      by (intro tj_invI [where xs = ys]) (auto simp: stop_return_def RemoveTimer_core)
  next
    case (starts x ob fn due pr pa to m)
    then obtain ys where "timers_ok m ys" "set ys = insert x (set xs)" "world m = world (tm s)"
      using Start_ok [OF xs(1), of ob fn due pr pa to x] by auto
    then show ?thesis using starts xs w by (intro tj_invI [where xs = ys]) auto
  next
    case (stops x b m)
    then obtain ys where "timers_ok m ys" "set ys = set xs - {x}"
      using Stop_ok [OF xs(1), of b x "\<lambda>_ _. None"] by auto
    moreover have "world m = world (tm s)"
      using stops(5,6) by (auto simp: Stop_def RemoveTimer_core split: if_splits)
    ultimately show ?thesis using stops xs w by (intro tj_invI [where xs = ys]) auto
  next
    case (renews x nm)
    then show ?thesis using renews_inv [OF assms(2)] by simp
  next
    case (pooled_moves a w')
    have "let_inv w'" by (rule pooled_step_inv [OF w(1) pooled_moves(2,3)])
    then show ?thesis unfolding pooled_moves(1)
      using pooled_step_frame [OF pooled_moves(3)] xs w room
      by (intro tj_invI [where xs = xs]) auto
  qed
qed

lemma tj_init_inv: "tj_init s \<Longrightarrow> tj_inv s"
proof -
  assume "tj_init s"
  then obtain now tms w where s: "let_init w" "\<forall>a. \<not> m_Started (tms a)"
      "tm s = CEZTimerManager_new now tms w" "\<not> in_round s" "runs s = []"
      "stopping s = []"
    by (auto simp: tj_init_def)
  have "timers_ok (CEZTimerManager_new now tms w) []"
    using s(2) by (simp add: timers_ok_def timer_repr_def dlist_def CEZTimerManager_new_def)
  moreover have "let_inv w" by (rule let_init_inv [OF s(1)])
  ultimately show ?thesis using s
    by (intro tj_invI [where xs = "[]"])
      (simp_all add: accepted_runs_def let_init_def CEZTimerManager_new_def)
qed

interpretation tj_system: invariant_system tj_init
  "\<lambda>s t. let_fits p new \<and> tj_step p new s t" tj_inv
  for p new
  by unfold_locales (auto intro: tj_init_inv tj_step_inv)

definition tj_reachable :: "platform \<Rightarrow> (addr list \<Rightarrow> addr) \<Rightarrow> timer_sys \<Rightarrow> bool" where
  "tj_reachable p new s \<longleftrightarrow> reach tj_init (\<lambda>s t. let_fits p new \<and> tj_step p new s t) s"

lemma tj_reachable_step:
  "tj_reachable p new s \<Longrightarrow> let_fits p new \<Longrightarrow> tj_step p new s t \<Longrightarrow> tj_reachable p new t"
  unfolding tj_reachable_def by (rule reach_step) auto

subsection \<open>A timer lost by \<^verbatim>\<open>Stop(TRUE)\<close>\<close>

text \<open>
  \<^verbatim>\<open>Stop(TRUE)\<close> calls the function while the timer is still started and in the list, and removes
  it after that. If the function itself stops the timer, it is removed twice, and the
  second removal writes back pointers that are out of date: a timer the function has
  started in between is no longer in the list, although it counts as started, and never runs.
\<close>

definition stop_and_start :: "addr \<Rightarrow> addr \<Rightarrow> timer_call \<Rightarrow> 'w CEZTimerManager \<Rightarrow> 'w CEZTimerManager option"
  where
  "stop_and_start x y j s =
     Option.bind (Stop (\<lambda>_ _. None) False x s) (Start None 4 0 0 0 0 y)"

lemma stop_call_loses_timer:
  fixes w :: 'w
  shows "\<exists>s1 s2. Start None 3 0 0 0 0 1 (CEZTimerManager_new 100 (\<lambda>_. raw_timer) w) = Some s1 \<and>
    Stop (stop_and_start 1 2) True 1 s1 = Some s2 \<and>
    m_Started (timers s2 2) \<and> m_pHead s2 = None \<and> (\<nexists>xs. timers_ok s2 xs)"
proof -
  let ?s0 = "CEZTimerManager_new 100 (\<lambda>_. raw_timer) w"
  obtain s1 where s1: "Start None 3 0 0 0 0 1 ?s0 = Some s1" "m_Started (timers s1 1)"
      "m_pHead s1 = Some 1" "m_pNext (timers s1 1) = None" "m_pPrev (timers s1 1) = None"
      "m_Priod (timers s1 1) = 0" "\<not> m_Started (timers s1 2)"
    by (simp add: Start_def AddTimer_def add_find.simps add_between_def CEZTimerManager_new_def
        raw_timer_def upd_timer_def)
  obtain s2 where s2: "Stop (stop_and_start 1 2) True 1 s1 = Some s2" "m_Started (timers s2 2)"
      "m_pHead s2 = None"
    using s1 by (simp add: Stop_def stop_and_start_def Start_def AddTimer_def RemoveTimer_def
        add_find.simps add_between_def upd_timer_def)
  have "\<not> timers_ok s2 xs" for xs
  proof
    assume ok: "timers_ok s2 xs"
    then have "2 \<in> set xs" using s2(2) by (simp add: timers_ok_def)
    then show False using ok s2(3) dlist_head
      by (cases xs) (fastforce simp: timers_ok_def timer_repr_def)+
  qed
  then show ?thesis using s1(1) s2 by blast
qed

subsection \<open>Properties\<close>

text \<open>
  C14. Timers, the manager's thread and the pooled threads together: the list of timers stays
  sorted and holds the started ones, among them those whose \<^verbatim>\<open>Stop(TRUE)\<close> is calling their
  function, and no round runs meanwhile; the jobs the threadlets have accepted are those of
  the timers run whose threadlet was free, in order; each of them has been called once or
  is the job of a pooled thread that still has to call it (its semaphore is posted, or it is
  at the call), one job for each such thread; such a thread gets to the end of its call in at
  most two steps of its own, whatever the others do, unless \<^verbatim>\<open>CreateThread\<close> failed for it (the
  manager does not look, and its job is then never called); and no timer ever occupies two
  pooled threads, so the calls its rounds make do not overtake each other.
\<close>

theorem timer_jobs_once:
  assumes "tj_reachable p new s"
  shows "(\<exists>xs. timers_ok (tm s) xs \<and> set (stopping s) \<subseteq> set xs) \<and>
    (stopping s = [] \<or> \<not> in_round s) \<and> accepted (world (tm s)) = accepted_runs s \<and>
    distinct (made (mem (world (tm s)))) \<and>
    mset (accepted_runs s) = mset (called (world (tm s))) +
      mset (map (\<lambda>a. job_of (pooled (mem (world (tm s))) a))
        (filter (pending (world (tm s))) (made (mem (world (tm s)))))) \<and>
    (\<forall>a \<in> set (made (mem (world (tm s)))). pending (world (tm s)) a \<longrightarrow>
      pcs (world (tm s)) a = P_NotStarted \<or> can_call (world (tm s)) a) \<and>
    card {a \<in> set (made (mem (world (tm s)))).
      m_caller (pooled (mem (world (tm s))) a) = Some x} \<le> 1"
proof -
  have inv: "tj_inv s" using assms unfolding tj_reachable_def by (rule tj_system.reach_inv)
  let ?w = "world (tm s)"
  have w: "let_inv ?w" "accepted ?w = accepted_runs s" using inv by (simp_all add: tj_inv_def)
  have "a = b" if "a \<in> set (made (mem ?w))" "m_caller (pooled (mem ?w) a) = Some x"
      "b \<in> set (made (mem ?w))" "m_caller (pooled (mem ?w) b) = Some x" for a b
  proof -
    have "lets ?w x = Some (Some a)" "lets ?w x = Some (Some b)"
      using let_invD(2) [OF w(1)] that by (simp_all add: ties_ok_def)
    then show ?thesis by simp
  qed
  then have "card {a \<in> set (made (mem ?w)). m_caller (pooled (mem ?w) a) = Some x} \<le> 1"
    by (intro card_le_Suc0_iff_eq [THEN iffD2, folded One_nat_def]) auto
  then show ?thesis using inv let_inv_jobs [OF w(1)] w(2) by (auto simp: tj_inv_def)
qed

text \<open>A timer at the address 5 that is due at once, and a round that runs it.\<close>

definition tj0 :: timer_sys where
  "tj0 = \<lparr>tm = CEZTimerManager_new 100 (\<lambda>_. raw_timer) let_start, in_round = False, runs = [],
     stopping = [], direct = []\<rparr>"

definition tj1 :: timer_sys where
  "tj1 = tj0\<lparr>tm := (upd_timer 5 (CEZTimer_new ''beep'') (CEZTimer_delete 5 (tm tj0)))
     \<lparr>world := renew_threadlet 5 (world (tm tj0))\<rparr>\<rparr>"

definition tj2 :: timer_sys where
  "tj2 = tj1\<lparr>tm := the (Start None 3 0 0 7 0 5 (tm tj1))\<rparr>"

definition tj3 :: timer_sys where
  "tj3 = tj2\<lparr>tm := move_clock 101 (tm tj2), in_round := True\<rparr>"

abbreviation threadlet_101 :: "addr \<Rightarrow> CEZTimer \<Rightarrow> let_sys \<Rightarrow> EZTHREAD_BOOL \<times> let_sys" where
  "threadlet_101 \<equiv> timer_threadlet_run (Posix 8) fresh_addr True 101"

definition tj4 :: timer_sys where
  "tj4 = tj3\<lparr>tm := the (Timer.run threadlet_101 5 (tm tj3)),
     runs := runs tj3 @ [(5, timer_job (timers (tm tj3) 5),
       fst (threadlet_101 5 (timers (tm tj3) 5) (world (tm tj3))))]\<rparr>"

lemmas tj_eval =
  tj0_def tj1_def tj2_def tj3_def CEZTimerManager_new_def CEZTimer_delete_def CEZTimer_new_def
  SetName_def raw_timer_def renew_threadlet_def let_start_def Start_def AddTimer_def
  add_find.simps add_between_def upd_timer_def tv_add_def move_clock_def

lemma tj2_start: "\<exists>m. Start None 3 0 0 7 0 5 (tm tj1) = Some m"
  by (simp add: tj_eval Let_def)

lemma tj3_due: "due_head (tm tj3) = Some 5" "in_round tj3" "runs tj3 = []"
  "timer_job (timers (tm tj3) 5) = (None, 3, 7)" "lets (world (tm tj3)) 5 = Some None"
  "m_Priod (timers (tm tj3) 5) = 0"
  by (simp_all add: tj_eval Let_def due_head_def timer_job_def less_TimerValue_def tv_less_def compare_def)

lemma tj4_run: "\<exists>m. Timer.run threadlet_101 5 (tm tj3) = Some m"
proof -
  have "m_Priod (timers (RemoveTimer 5 (tm tj3)) 5) = 0"
    using tj3_due(6) core_eqD(2) [OF RemoveTimer_core(1) [of 5 "tm tj3" 5]] by simp
  then show ?thesis by (simp add: Timer.run_def Let_def)
qed

lemma tj4_reachable: "tj_reachable (Posix 8) fresh_addr tj4"
proof -
  note fits = fresh_addr_fits
  have "tj_reachable (Posix 8) fresh_addr tj0"
    unfolding tj_reachable_def
    by (rule reach_init, unfold tj_init_def, intro conjI exI [of _ 100] exI [of _ "\<lambda>_. raw_timer"]
        exI [of _ let_start])
      (simp_all add: tj0_def let_init_def let_start_def raw_timer_def)
  then have "tj_reachable (Posix 8) fresh_addr tj1"
    unfolding tj1_def by (rule tj_reachable_step [OF _ fits renews]) (simp_all add: tj0_def)
  then have "tj_reachable (Posix 8) fresh_addr tj2"
  proof (rule tj_reachable_step [OF _ fits])
    obtain m where m: "Start None 3 0 0 7 0 5 (tm tj1) = Some m" using tj2_start by blast
    have "tj_step (Posix 8) fresh_addr tj1 (tj1\<lparr>tm := m\<rparr>)"
      by (rule starts [OF _ _ m]) (simp_all add: tj1_def tj0_def renew_threadlet_def Let_def)
    then show "tj_step (Posix 8) fresh_addr tj1 tj2" by (simp add: tj2_def m)
  qed
  then have "tj_reachable (Posix 8) fresh_addr tj3"
  proof (rule tj_reachable_step [OF _ fits])
    show "tj_step (Posix 8) fresh_addr tj2 tj3"
      unfolding tj3_def by (rule round_begins) (simp_all add: tj_eval Let_def)
  qed
  then show ?thesis
  proof (rule tj_reachable_step [OF _ fits])
    obtain m where m: "Timer.run threadlet_101 5 (tm tj3) = Some m" using tj4_run by blast
    show "tj_step (Posix 8) fresh_addr tj3 tj4"
      using round_runs [OF tj3_due(2,1) m] by (simp add: tj4_def m)
  qed
qed

text \<open>The pooled thread at 1 has the timer's job and can call it.\<close>

lemma tj4_pending: "made (mem (world (tm tj4))) = [1]" "pending (world (tm tj4)) 1"
    "pcs (world (tm tj4)) 1 = P_Wait"
  by (simp_all add: tj4_def tj_eval Let_def Timer.run_def RemoveTimer_def timer_threadlet_run_def
      Threadlet.run_def GetPooledThread_def fresh_addr_def pending_def Post_def
      CEZPooledThread_new_def started_def upd_pooled_def give_job_def)

theorem timer_jobs_once_witness:
  "accepted (world (tm tj4)) = [(None, 3, 7)] \<and> can_call (world (tm tj4)) 1 \<and>
    card {a \<in> set (made (mem (world (tm tj4)))).
      m_caller (pooled (mem (world (tm tj4))) a) = Some 5} \<le> 1"
proof -
  have "accepted_runs tj4 = [(None, 3, 7)]"
    by (simp add: tj4_def accepted_runs_def tj3_due threadlet_answer)
  then show ?thesis using timer_jobs_once [OF tj4_reachable, of 5] tj4_pending by simp
qed

end
