(* ===== verification/Consumer.thy ===== *)
theory Consumer
  imports Thread "HOL-Library.Sublist"
begin

section \<open>Producers and a consumer\<close>

text \<open>
  \<^verbatim>\<open>tutorial_libezthread/ThreadMsg.cpp\<close>: the consumer's thread has a queue of 100 messages
  and handles them one by one; a producer's thread and a timer's function send to it as
  long as it runs. Each of the three goes from one access of shared state to the next in a
  step; a call on the queue is one step, as \<^verbatim>\<open>MsgQueConc\<close> justifies. The consumer of
  \<^verbatim>\<open>MyObserver.cpp\<close> is the same class with another way of handling a message.
\<close>

definition MSG_TYPE_PRODUCER :: u32 where
  "MSG_TYPE_PRODUCER = 100"

definition MSG_TYPE_TIMER :: u32 where
  "MSG_TYPE_TIMER = 101"

subsection \<open>Starting and stopping\<close>

definition CConsumers_new :: "platform \<Rightarrow> CEZThread \<Rightarrow> CEZThread" where
  "CConsumers_new p old = CEZThread_new p old ''CConsumers'' THREAD_PRIORITY_DEFAULT 100 0"

definition CProducers_new :: "platform \<Rightarrow> CEZThread \<Rightarrow> CEZThread" where
  "CProducers_new p old = CEZThread_new p old ''CProducers'' THREAD_PRIORITY_DEFAULT 0 0"

definition CConsumers_Start :: "thread_os \<Rightarrow> CEZThread \<Rightarrow> (EZTHREAD_BOOL \<times> CEZThread) outcome" where
  "CConsumers_Start os t = (if m_bLoop t then Done (True, t) else CreateThread os t)"

text \<open>\<^verbatim>\<open>Stop\<close> clears \<^verbatim>\<open>m_bLoop\<close> itself before it calls \<^verbatim>\<open>DestroyThread(FALSE)\<close>.\<close>

definition CConsumers_Stop ::
    "u32 \<Rightarrow> int \<Rightarrow> CEZThread \<Rightarrow> (EZTHREAD_BOOL \<times> CEZThread) outcome" where
  "CConsumers_Stop now self t =
     (if m_bLoop t then
        obind (DestroyThread now self False (t\<lparr>m_bLoop := False\<rparr>)) (\<lambda>(_, t). Done (True, t))
      else Done (True, t))"

text \<open>\<^verbatim>\<open>CProducers\<close> has the same two functions.\<close>

definition CProducers_Start :: "thread_os \<Rightarrow> CEZThread \<Rightarrow> (EZTHREAD_BOOL \<times> CEZThread) outcome" where
  "CProducers_Start os t = (if m_bLoop t then Done (True, t) else CreateThread os t)"

definition CProducers_Stop ::
    "u32 \<Rightarrow> int \<Rightarrow> CEZThread \<Rightarrow> (EZTHREAD_BOOL \<times> CEZThread) outcome" where
  "CProducers_Stop now self t =
     (if m_bLoop t then
        obind (DestroyThread now self False (t\<lparr>m_bLoop := False\<rparr>)) (\<lambda>(_, t). Done (True, t))
      else Done (True, t))"

lemma CConsumers_Stop_eq: "CConsumers_Stop now self t = Done (True, t\<lparr>m_bLoop := False\<rparr>)"
  by (simp add: CConsumers_Stop_def DestroyThread_def IsStoped_def)

subsection \<open>The three loops\<close>

text \<open>\<open>PP_End\<close>: the producer has no thread.\<close>

datatype producer_pc = PP_Test | PP_Check | PP_Send | PP_End

datatype timer_pc = TP_Out | TP_Check | TP_Send

datatype consumer_pc =
    CP_None   \<comment> \<open>no thread\<close>
  | CP_Test   \<comment> \<open>before the test of \<^verbatim>\<open>m_bLoop\<close>\<close>
  | CP_Recv   \<comment> \<open>in \<^verbatim>\<open>RecvMessage(&msg, TRUE)\<close>\<close>

text \<open>
  \<open>sent\<close> is the history of the accepted messages, \<open>gone\<close> of those that have left the queue,
  each with whether the consumer handled it or \<^verbatim>\<open>ClearMessage\<close> threw it away.
\<close>

record pipe =
  producers :: CEZThread
  consumers :: CEZThread
  ppc :: producer_pc
  tpc :: timer_pc
  cpc :: consumer_pc
  sent :: "MSG_NODE list"
  gone :: "(MSG_NODE \<times> bool) list"
  printed :: string

text \<open>The messages in a thread's queue, oldest first.\<close>

definition pending :: "CEZThread \<Rightarrow> MSG_NODE list" where
  "pending t = (case m_pMsgQue t of None \<Rightarrow> [] | Some q \<Rightarrow> rev (m_Queue q))"

text \<open>A call on the consumer that may have sent to it.\<close>

definition consumer_now :: "CEZThread \<Rightarrow> pipe \<Rightarrow> pipe" where
  "consumer_now c s =
     s\<lparr>consumers := c, sent := sent s @ drop (length (pending (consumers s))) (pending c)\<rparr>"

text \<open>The end of \<^verbatim>\<open>ThreadBody\<close>: the queue is cleared and the semaphores are posted.\<close>

definition end_body :: "CEZThread \<Rightarrow> CEZThread outcome" where
  "end_body t =
     obind (Thread_ClearMessage t) (\<lambda>t.
     let t = (if m_bWaitThreadExit t
              then t\<lparr>m_desCEZSemaphore := snd (Post (m_desCEZSemaphore t))\<rparr> else t)
     in Done (t\<lparr>m_cCEZSemaphore := snd (Post (m_cCEZSemaphore t))\<rparr>))"

fun producer_step :: "u32 \<Rightarrow> producer_pc \<Rightarrow> pipe \<Rightarrow> pipe option" where
  "producer_step now PP_Test s =
     (if m_bLoop (producers s) then Some (s\<lparr>ppc := PP_Check\<rparr>)
      else (case end_body (producers s) of
              Done p \<Rightarrow> Some (s\<lparr>producers := p, ppc := PP_End\<rparr>)
            | _ \<Rightarrow> None))"
| "producer_step now PP_Check s =
     Some (if IsRunning (consumers s) then s\<lparr>ppc := PP_Send\<rparr>
           else s\<lparr>ppc := PP_Test,
             printed := printed s @ ''g_Consumers Is not Running, skip now.'' @ newline\<rparr>)"
| "producer_step now PP_Send s =
     Some (consumer_now (snd (Thread_SendMessage now MSG_TYPE_PRODUCER 0 0 0 (consumers s)))
       (s\<lparr>ppc := PP_Test\<rparr>))"
| "producer_step now PP_End s = None"

text \<open>\<^verbatim>\<open>CTimerProducers::TimerProc\<close>; the timer may call it at any time.\<close>

fun TimerProc_step :: "u32 \<Rightarrow> timer_pc \<Rightarrow> pipe \<Rightarrow> pipe option" where
  "TimerProc_step now TP_Out s = Some (s\<lparr>tpc := TP_Check\<rparr>)"
| "TimerProc_step now TP_Check s =
     Some (if IsRunning (consumers s) then s\<lparr>tpc := TP_Send\<rparr>
           else s\<lparr>tpc := TP_Out,
             printed := printed s @ ''g_Consumers Is not Running, skip now.'' @ newline\<rparr>)"
| "TimerProc_step now TP_Send s =
     Some (consumer_now (snd (Thread_SendMessage now MSG_TYPE_TIMER 0 0 0 (consumers s)))
       (s\<lparr>tpc := TP_Out\<rparr>))"

text \<open>What the consumer prints for a message; the two listings are given.\<close>

definition handle_msg :: "string \<Rightarrow> string \<Rightarrow> MSG_NODE \<Rightarrow> string" where
  "handle_msg threads_listing timers_listing x =
     (if msg x = MSG_TYPE_PRODUCER
      then newline @ ''Receive msg from PRODUCER'' @ newline @ threads_listing
      else if msg x = MSG_TYPE_TIMER
      then newline @ ''Receive msg from TIMER'' @ newline @ timers_listing
      else [])"

text \<open>The consumer's loop; \<open>h\<close> is what it does with a message.\<close>

fun consumer_step :: "(MSG_NODE \<Rightarrow> string) \<Rightarrow> consumer_pc \<Rightarrow> pipe \<Rightarrow> pipe option" where
  "consumer_step h CP_None s = None"
| "consumer_step h CP_Test s =
     (if m_bLoop (consumers s) then Some (s\<lparr>cpc := CP_Recv\<rparr>)
      else (case end_body (consumers s) of
              Done c \<Rightarrow> Some (s\<lparr>consumers := c, cpc := CP_None,
                  gone := gone s @ map (\<lambda>x. (x, False)) (pending (consumers s))\<rparr>)
            | _ \<Rightarrow> None))"
| "consumer_step h CP_Recv s =
     (case Thread_RecvMessage True (consumers s) of
        Done (True, Some x, c) \<Rightarrow>
          Some (s\<lparr>consumers := c, cpc := CP_Test, gone := gone s @ [(x, True)],
            printed := printed s @ h x\<rparr>)
      | Done (_, _, c) \<Rightarrow> Some (s\<lparr>consumers := c, cpc := CP_Test\<rparr>)
      | _ \<Rightarrow> None)"

text \<open>The system: the three loops, and other threads that start and stop the producer and
  start, stop and destroy the consumer.\<close>

datatype pipe_op =
    Producer_Step u32
  | Timer_Step u32
  | Consumer_Step string string
  | Start_Producer thread_os
  | Stop_Producer u32 int
  | Start_Consumer thread_os
  | Stop_Consumer u32 int
  | Destroy_Consumer u32 int

fun pipe_exec :: "pipe_op \<Rightarrow> pipe \<Rightarrow> pipe option" where
  "pipe_exec (Producer_Step now) s = producer_step now (ppc s) s"
| "pipe_exec (Timer_Step now) s = TimerProc_step now (tpc s) s"
| "pipe_exec (Consumer_Step thr tms) s = consumer_step (handle_msg thr tms) (cpc s) s"
| "pipe_exec (Start_Producer os) s =
     (case CProducers_Start os (producers s) of
        Done (_, p) \<Rightarrow> Some (s\<lparr>producers := p,
          ppc := if \<not> m_bLoop (producers s) \<and> snd (ThreadCreate os (m_nPriority p) (m_dwStackSize p)) \<noteq> None
                 then PP_Test else ppc s\<rparr>)
      | _ \<Rightarrow> None)"
| "pipe_exec (Stop_Producer now self) s =
     (case CProducers_Stop now self (producers s) of Done (_, p) \<Rightarrow> Some (s\<lparr>producers := p\<rparr>) | _ \<Rightarrow> None)"
| "pipe_exec (Start_Consumer os) s =
     (case CConsumers_Start os (consumers s) of
        Done (_, c) \<Rightarrow> Some (s\<lparr>consumers := c,
          cpc := if \<not> m_bLoop (consumers s) \<and> snd (ThreadCreate os (m_nPriority c) (m_dwStackSize c)) \<noteq> None
                 then CP_Test else cpc s\<rparr>)
      | _ \<Rightarrow> None)"
| "pipe_exec (Stop_Consumer now self) s =
     (case CConsumers_Stop now self (consumers s) of Done (_, c) \<Rightarrow> Some (consumer_now c s) | _ \<Rightarrow> None)"
| "pipe_exec (Destroy_Consumer now self) s =
     (case DestroyThread now self False (consumers s) of Done (_, c) \<Rightarrow> Some (consumer_now c s) | _ \<Rightarrow> None)"

definition pipe_step :: "pipe \<Rightarrow> pipe \<Rightarrow> bool" where
  "pipe_step s t \<longleftrightarrow> (\<exists>a. pipe_exec a s = Some t)"

fun pipe_run :: "pipe_op list \<Rightarrow> pipe \<Rightarrow> pipe option" where
  "pipe_run [] s = Some s"
| "pipe_run (a # as) s = Option.bind (pipe_exec a s) (pipe_run as)"

definition pipe_init :: "pipe \<Rightarrow> bool" where
  "pipe_init s \<longleftrightarrow> (\<exists>p old. (case p of Posix k \<Rightarrow> 100 \<le> k | Win32 \<Rightarrow> False) \<and>
       consumers s = CConsumers_new p old) \<and>
     (\<exists>p old. producers s = CProducers_new p old) \<and>
     ppc s = PP_End \<and> tpc s = TP_Out \<and> cpc s = CP_None \<and> sent s = [] \<and> gone s = [] \<and> printed s = []"

subsection \<open>Nothing is lost, nothing overtakes\<close>

definition queue_ok :: "CEZThread \<Rightarrow> bool" where
  "queue_ok t \<longleftrightarrow> (\<exists>q. m_pMsgQue t = Some q \<and> mq_inv q \<and> m_nMaxMsg q = 100 \<and>
     length (m_Queue q) \<le> 100)"

definition known :: "MSG_NODE \<Rightarrow> bool" where
  "known x \<longleftrightarrow> msg x \<in> {MSG_TYPE_PRODUCER, MSG_TYPE_TIMER, XM_QUIT}"

definition pipe_inv :: "pipe \<Rightarrow> bool" where
  "pipe_inv s \<longleftrightarrow> queue_ok (consumers s) \<and>
     map fst (gone s) @ pending (consumers s) = sent s \<and> (\<forall>x \<in> set (sent s). known x)"

lemma queue_ok_fields [simp]:
  "queue_ok (t\<lparr>m_bLoop := b\<rparr>) = queue_ok t" "pending (t\<lparr>m_bLoop := b\<rparr>) = pending t"
  "queue_ok (t\<lparr>m_cCEZSemaphore := c\<rparr>) = queue_ok t" "pending (t\<lparr>m_cCEZSemaphore := c\<rparr>) = pending t"
  "queue_ok (t\<lparr>m_desCEZSemaphore := c\<rparr>) = queue_ok t" "pending (t\<lparr>m_desCEZSemaphore := c\<rparr>) = pending t"
  "queue_ok (t\<lparr>m_hThread := h\<rparr>) = queue_ok t" "pending (t\<lparr>m_hThread := h\<rparr>) = pending t"
  "queue_ok (t\<lparr>m_bWaitThreadExit := b\<rparr>) = queue_ok t" "pending (t\<lparr>m_bWaitThreadExit := b\<rparr>) = pending t"
  by (simp_all add: queue_ok_def pending_def)

text \<open>A call on the consumer's queue that keeps its contents, adds one message, or takes the first.\<close>

lemma Send_exact:
  assumes "queue_ok t" and "Thread_SendMessage now m w l 0 t = (r, t')"
  shows "queue_ok t' \<and> pending t' =
    pending t @ (if r then [\<lparr>msg = m, wpa = w, lpa = l, pData = None, time = now\<rparr>] else [])"
proof -
  obtain q where q: "m_pMsgQue t = Some q" "mq_inv q" "m_nMaxMsg q = 100" "length (m_Queue q) \<le> 100"
    using assms(1) by (auto simp: queue_ok_def)
  then obtain q' where s: "SendMessage now m w l 0 q = (r, q')" and t': "t' = t\<lparr>m_pMsgQue := Some q'\<rparr>"
    using assms(2) by (auto simp: Thread_SendMessage_def split: prod.splits)
  have "mq_inv q'" using mq_inv_SendMessage [OF q(2), of now m w l 0] s by simp
  moreover have "m_nMaxMsg q' = m_nMaxMsg q" "rev (m_Queue q') = rev (m_Queue q) @
      (if r then [\<lparr>msg = m, wpa = w, lpa = l, pData = None, time = now\<rparr>] else [])"
    using s by (auto simp: SendMessage_def push_msg_def post_msg_def split: if_splits)
  moreover have "length (m_Queue q') \<le> 100"
    using s q(2-4)
    by (auto simp: SendMessage_def send_refused_def push_msg_def post_msg_def mq_inv_def split: if_splits)
  ultimately show ?thesis using q by (auto simp: t' queue_ok_def pending_def)
qed

lemma Send_pending:
  assumes "queue_ok t" and "msg \<lparr>msg = m, wpa = w, lpa = l, pData = None, time = now\<rparr> \<in> M"
  shows "queue_ok (snd (Thread_SendMessage now m w l 0 t)) \<and>
    (\<exists>xs. pending (snd (Thread_SendMessage now m w l 0 t)) = pending t @ xs \<and> (\<forall>x \<in> set xs. msg x \<in> M))"
  using Send_exact [OF assms(1), of now m w l] assms(2)
  by (cases "Thread_SendMessage now m w l 0 t") auto

lemma Recv_pending:
  assumes "queue_ok t" and "Thread_RecvMessage True t = Done (r, x, t')"
  shows "\<exists>y. r \<and> x = Some y \<and> pending t = y # pending t' \<and> queue_ok t'"
proof -
  obtain q where q: "m_pMsgQue t = Some q" "mq_inv q" "m_nMaxMsg q = 100" "length (m_Queue q) \<le> 100"
    using assms(1) by (auto simp: queue_ok_def)
  then obtain q' where r: "RecvMessage True q = Done (r, x, q')" "t' = t\<lparr>m_pMsgQue := Some q'\<rparr>"
    using assms(2) by (auto simp: Thread_RecvMessage_def)
  have ne: "rev (m_Queue q) \<noteq> []"
  proof
    assume "rev (m_Queue q) = []"
    then show False using ez_queue.get_none [OF q(2), of True] r(1) by simp
  qed
  then obtain q'' where "RecvMessage True q = Done (True, Some (hd (rev (m_Queue q))), q'')"
      "mq_inv q''" "rev (m_Queue q'') = tl (rev (m_Queue q))" "m_nMaxMsg q'' = m_nMaxMsg q"
    using ez_queue.get_some [OF q(2) ne, of True] by blast
  moreover have "rev (m_Queue q) = hd (rev (m_Queue q)) # tl (rev (m_Queue q))" using ne by simp
  moreover have "length (m_Queue q'') \<le> 100"
    using arg_cong [OF \<open>rev (m_Queue q'') = _\<close>, of length] q(4) by simp
  ultimately show ?thesis using q r by (auto simp: pending_def queue_ok_def)
qed

lemma Clear_pending:
  assumes "queue_ok t" and "Thread_ClearMessage t = Done t'"
  shows "pending t' = [] \<and> queue_ok t'"
proof -
  obtain q where q: "m_pMsgQue t = Some q" "mq_inv q" "m_nMaxMsg q = 100" "length (m_Queue q) \<le> 100"
    using assms(1) by (auto simp: queue_ok_def)
  have n: "nat (m_nMsg q) = length (m_Queue q)" using q(2) by (simp add: mq_inv_def)
  obtain q' where "ClearMessage q = Done q'" "mq_inv q'" "m_Queue q' = []" "m_nMaxMsg q' = m_nMaxMsg q"
    using clear_loop_all [OF q(2) refl] by (auto simp: ClearMessage_def n)
  then show ?thesis using q assms(2) by (auto simp: Thread_ClearMessage_def pending_def queue_ok_def)
qed

lemma Destroy_pending:
  assumes "queue_ok t" and "DestroyThread now self w t = Done (r, t')"
  shows "queue_ok t' \<and> (\<exists>xs. pending t' = pending t @ xs \<and> (\<forall>x \<in> set xs. msg x = XM_QUIT))"
proof (cases "IsStoped t")
  case True
  then show ?thesis using assms by (auto simp: DestroyThread_def intro!: exI [of _ "[]"])
next
  case False
  let ?u = "snd (Thread_SendMessage now XM_QUIT 0 0 0 (t\<lparr>m_bLoop := False\<rparr>))"
  have "queue_ok t' = queue_ok ?u" "pending t' = pending ?u"
    using assms(2) False by (auto simp: DestroyThread_def Let_def split: if_splits)
  moreover have "queue_ok (t\<lparr>m_bLoop := False\<rparr>)" using assms(1) by simp
  note Send_pending [OF this, of XM_QUIT 0 0 now "{XM_QUIT}"]
  ultimately show ?thesis by auto
qed

lemma consumer_now_inv:
  assumes "pipe_inv s" and "queue_ok c" and "pending c = pending (consumers s) @ xs" and "\<forall>x \<in> set xs. known x"
  shows "pipe_inv (consumer_now c s)"
  using assms by (auto simp: pipe_inv_def consumer_now_def)

lemma pipe_inv_fields [simp]:
  "pipe_inv (s\<lparr>ppc := a\<rparr>) = pipe_inv s" "pipe_inv (s\<lparr>tpc := b\<rparr>) = pipe_inv s"
  "pipe_inv (s\<lparr>producers := e\<rparr>) = pipe_inv s"
  "pipe_inv (s\<lparr>cpc := c\<rparr>) = pipe_inv s" "pipe_inv (s\<lparr>printed := d\<rparr>) = pipe_inv s"
  by (simp_all add: pipe_inv_def)

lemma send_inv:
  assumes "pipe_inv s" and "m \<in> {MSG_TYPE_PRODUCER, MSG_TYPE_TIMER}" and "consumers s' = consumers s"
    and "pipe_inv s'"
  shows "pipe_inv (consumer_now (snd (Thread_SendMessage now m 0 0 0 (consumers s))) s')"
proof -
  have "queue_ok (consumers s)" using assms(1) by (simp add: pipe_inv_def)
  from Send_pending [OF this, of m 0 0 now "{m}"] obtain xs where
      "queue_ok (snd (Thread_SendMessage now m 0 0 0 (consumers s)))"
      "pending (snd (Thread_SendMessage now m 0 0 0 (consumers s))) = pending (consumers s') @ xs"
      "\<forall>x \<in> set xs. msg x = m"
    using assms(3) by auto
  then show ?thesis using assms(2,4) by (intro consumer_now_inv) (auto simp: known_def)
qed

lemma Start_pending:
  assumes "queue_ok t" and "CConsumers_Start os t = Done (r, t')"
  shows "queue_ok t' \<and> pending t' = pending t"
  using assms
  by (cases "ThreadCreate os (m_nPriority t) (m_dwStackSize t)")
    (auto simp: CConsumers_Start_def CreateThread_def Let_def split: if_splits)

lemma consumer_step_inv:
  assumes inv: "pipe_inv s" and st: "consumer_step h c s = Some t"
  shows "pipe_inv t"
proof (cases c)
  case CP_None
  then show ?thesis using st by simp
next
  case CP_Test
  have ok: "queue_ok (consumers s)" using inv by (simp add: pipe_inv_def)
  show ?thesis
  proof (cases "m_bLoop (consumers s)")
    case True
    then show ?thesis using st CP_Test inv by auto
  next
    case False
    then obtain c' where c': "end_body (consumers s) = Done c'"
        "t = s\<lparr>consumers := c', cpc := CP_None, gone := gone s @ map (\<lambda>x. (x, False)) (pending (consumers s))\<rparr>"
      using st CP_Test by (auto split: outcome.splits)
    obtain u where u: "Thread_ClearMessage (consumers s) = Done u"
        "queue_ok c' = queue_ok u" "pending c' = pending u"
      using c'(1) by (auto simp: end_body_def Let_def split: if_splits)
    then show ?thesis using Clear_pending [OF ok u(1)] c'(2) inv
      by (simp add: pipe_inv_def comp_def)
  qed
next
  case CP_Recv
  have ok: "queue_ok (consumers s)" using inv by (simp add: pipe_inv_def)
  obtain r x c' where r: "Thread_RecvMessage True (consumers s) = Done (r, x, c')"
    using st CP_Recv by (auto split: outcome.splits)
  obtain y where "r" "x = Some y" "pending (consumers s) = y # pending c'" "queue_ok c'"
    using Recv_pending [OF ok r] by blast
  then show ?thesis using st CP_Recv r inv by (auto simp: pipe_inv_def)
qed

lemma pipe_step_inv: "pipe_step s t \<Longrightarrow> pipe_inv s \<Longrightarrow> pipe_inv t"
proof -
  assume "pipe_step s t" and inv: "pipe_inv s"
  then obtain a where a: "pipe_exec a s = Some t" by (auto simp: pipe_step_def)
  have ok: "queue_ok (consumers s)" using inv by (simp add: pipe_inv_def)
  show ?thesis
  proof (cases a)
    case (Producer_Step now)
    then show ?thesis using a inv send_inv [OF inv, of MSG_TYPE_PRODUCER "s\<lparr>ppc := PP_Test\<rparr>" now]
      by (cases "ppc s") (auto split: if_splits outcome.splits)
  next
    case (Start_Producer os)
    then show ?thesis using a inv by (auto split: outcome.splits)
  next
    case (Stop_Producer now self)
    then show ?thesis using a inv by (auto split: outcome.splits)
  next
    case (Timer_Step now)
    then show ?thesis using a inv send_inv [OF inv, of MSG_TYPE_TIMER "s\<lparr>tpc := TP_Out\<rparr>" now]
      by (cases "tpc s") (auto split: if_splits)
  next
    case (Consumer_Step thr tms)
    then show ?thesis using a consumer_step_inv [OF inv] by simp
  next
    case (Start_Consumer os)
    then obtain r c where c: "CConsumers_Start os (consumers s) = Done (r, c)"
      using a by (auto split: outcome.splits)
    then show ?thesis using a Start_Consumer Start_pending [OF ok c] inv
      by (auto simp: pipe_inv_def)
  next
    case (Stop_Consumer now self)
    then obtain r c where c: "CConsumers_Stop now self (consumers s) = Done (r, c)" "t = consumer_now c s"
      using a by (auto split: outcome.splits)
    then have "queue_ok c" "pending c = pending (consumers s) @ []"
      using ok by (auto simp: CConsumers_Stop_eq)
    then show ?thesis using consumer_now_inv [OF inv] c(2) by simp
  next
    case (Destroy_Consumer now self)
    then obtain r c where c: "DestroyThread now self False (consumers s) = Done (r, c)" "t = consumer_now c s"
      using a by (auto split: outcome.splits)
    then show ?thesis using consumer_now_inv [OF inv] Destroy_pending [OF ok c(1)]
      by (auto simp: known_def)
  qed
qed

lemma pipe_init_inv: "pipe_init s \<Longrightarrow> pipe_inv s"
proof -
  assume "pipe_init s"
  then obtain p old where p: "case p of Posix k \<Rightarrow> 100 \<le> k | Win32 \<Rightarrow> False"
      "consumers s = CConsumers_new p old" and h: "sent s = []" "gone s = []"
    by (auto simp: pipe_init_def)
  have "mq_inv (CEZMsgQue_new p 100)"
    using p(1) by (intro mq_inv_new) (auto simp: mq_fits_def split: platform.splits)
  then show ?thesis using p(2) h
    by (simp add: pipe_inv_def queue_ok_def pending_def CConsumers_new_def CEZThread_new_def
      CEZMsgQue_new_def)
qed

interpretation pipe_system: invariant_system pipe_init pipe_step pipe_inv
  by unfold_locales (auto intro: pipe_init_inv pipe_step_inv)

subsection \<open>Properties\<close>

text \<open>
  C16. However the producers, the consumer and the threads that start, stop and destroy it
  interleave: the messages that left the consumer's queue (handled, or thrown away by
  \<^verbatim>\<open>ClearMessage\<close> when its thread ends), in order, and those still in it are exactly the
  accepted ones in the order in which they were accepted. So the messages handled are
  accepted ones, each at most once and in that order; and as long as nothing was thrown away
  they are the first ones, with the rest in the queue. At most 100 wait; and the
  consumer only ever meets the messages of the producer, of the timer and XM_QUIT.
\<close>

theorem consumer_in_order:
  assumes "reach pipe_init pipe_step s"
  shows "map fst (gone s) @ pending (consumers s) = sent s \<and>
    subseq (map fst (filter snd (gone s))) (sent s) \<and>
    (filter (Not \<circ> snd) (gone s) = [] \<longrightarrow>
      map fst (filter snd (gone s)) @ pending (consumers s) = sent s) \<and>
    length (pending (consumers s)) \<le> 100 \<and>
    msg ` set (sent s) \<subseteq> {MSG_TYPE_PRODUCER, MSG_TYPE_TIMER, XM_QUIT}"
proof -
  have inv: "pipe_inv s" by (rule pipe_system.reach_inv [OF assms])
  then have sent: "map fst (gone s) @ pending (consumers s) = sent s" by (simp add: pipe_inv_def)
  have "subseq (map fst (filter snd (gone s))) (map fst (gone s))"
    by (intro subseq_map subseq_filter_left)
  then have "subseq (map fst (filter snd (gone s))) (sent s)"
    unfolding sent [symmetric] by (rule subseq_rev_drop_many)
  moreover have "filter snd (gone s) = gone s" if "filter (Not \<circ> snd) (gone s) = []"
    using that by (simp add: filter_empty_conv)
  ultimately show ?thesis using inv sent by (auto simp: pipe_inv_def queue_ok_def pending_def known_def)
qed

definition pipe0 :: pipe where
  "pipe0 = \<lparr>producers = CProducers_new (Posix 200) raw_thread, consumers = CConsumers_new (Posix 200) raw_thread,
     ppc = PP_End, tpc = TP_Out, cpc = CP_None, sent = [], gone = [], printed = []\<rparr>"

lemma pipe0_init: "pipe_init pipe0"
  unfolding pipe_init_def
  by (intro conjI exI [of _ "Posix 200"] exI [of _ raw_thread]) (simp_all add: pipe0_def)

lemma pipe_run_reach:
  "reach pipe_init pipe_step s \<Longrightarrow> pipe_run as s = Some t \<Longrightarrow> reach pipe_init pipe_step t"
proof (induction as arbitrary: s)
  case (Cons a as)
  then obtain u where u: "pipe_exec a s = Some u" "pipe_run as u = Some t"
    by (auto simp: bind_eq_Some_conv)
  then have "pipe_step s u" by (auto simp: pipe_step_def)
  then show ?case using Cons.IH [OF reach_step [OF Cons.prems(1)]] u(2) by blast
qed simp

definition two_messages :: "pipe_op list" where
  "two_messages = [Start_Consumer good_os, Start_Producer good_os, Timer_Step 5, Timer_Step 6, Timer_Step 7,
     Producer_Step 8, Producer_Step 9, Producer_Step 10, Consumer_Step [] [], Consumer_Step [] []]"

lemma two_messages_eq:
  "map_option (\<lambda>s. (gone s, map msg (pending (consumers s)))) (pipe_run two_messages pipe0) =
    Some ([(\<lparr>msg = 101, wpa = 0, lpa = 0, pData = None, time = 7\<rparr>, True)], [100])"
  by code_simp

theorem consumer_in_order_witness:
  "\<exists>s. pipe_run two_messages pipe0 = Some s \<and> map msg (sent s) = [101, 100]"
proof -
  obtain s where s: "pipe_run two_messages pipe0 = Some s" "map msg (pending (consumers s)) = [100]"
      "gone s = [(\<lparr>msg = 101, wpa = 0, lpa = 0, pData = None, time = 7\<rparr>, True)]"
    using two_messages_eq by (auto simp: map_option_eq_Some)
  have r: "reach pipe_init pipe_step s" by (rule pipe_run_reach [OF reach_init, OF pipe0_init s(1)])
  have "map fst (filter snd (gone s)) @ pending (consumers s) = sent s"
    using consumer_in_order [OF r] s(3) by simp
  then have "sent s = map fst (filter snd (gone s)) @ pending (consumers s)" ..
  then show ?thesis using s by simp
qed

text \<open>The consumer waits for a message, and \<^verbatim>\<open>Stop\<close> is called.\<close>

definition stop_run :: "pipe_op list" where
  "stop_run = [Start_Consumer good_os, Consumer_Step [] [], Stop_Consumer 0 7]"

definition stuck :: "pipe \<Rightarrow> bool" where
  "stuck s \<longleftrightarrow> cpc s = CP_Recv \<and> gone s = [] \<and> \<not> m_bLoop (consumers s) \<and>
     Thread_RecvMessage True (consumers s) = Blocked \<and> Wait (m_cCEZSemaphore (consumers s)) = Blocked \<and>
     tpc s \<noteq> TP_Send \<and> ppc s \<noteq> PP_Send"

lemma stop_run_eq:
  "map_option (\<lambda>s. (cpc s, gone s, m_bLoop (consumers s),
      Thread_RecvMessage True (consumers s), Wait (m_cCEZSemaphore (consumers s)), tpc s, ppc s))
    (pipe_run stop_run pipe0) = Some (CP_Recv, [], False, Blocked, Blocked, TP_Out, PP_End)"
  by code_simp

lemma stuck_step:
  assumes "pipe_step s t" and "stuck s"
  shows "stuck t"
proof -
  obtain a where a: "pipe_exec a s = Some t" using assms(1) by (auto simp: pipe_step_def)
  have s: "cpc s = CP_Recv" "gone s = []" "\<not> m_bLoop (consumers s)"
      "Thread_RecvMessage True (consumers s) = Blocked" "Wait (m_cCEZSemaphore (consumers s)) = Blocked"
      "tpc s \<noteq> TP_Send" "ppc s \<noteq> PP_Send"
    using assms(2) by (simp_all add: stuck_def)
  show ?thesis
  proof (cases a)
    case (Producer_Step now)
    then show ?thesis using a s by (cases "ppc s") (auto simp: stuck_def IsRunning_def split: if_splits outcome.splits)
  next
    case (Start_Producer os)
    then show ?thesis using a s by (auto simp: stuck_def split: if_splits outcome.splits)
  next
    case (Stop_Producer now self)
    then show ?thesis using a s by (auto simp: stuck_def split: outcome.splits)
  next
    case (Timer_Step now)
    then show ?thesis using a s by (cases "tpc s") (auto simp: stuck_def IsRunning_def)
  next
    case (Stop_Consumer now self)
    then show ?thesis using a s by (auto simp: CConsumers_Stop_def consumer_now_def stuck_def)
  next
    case (Destroy_Consumer now self)
    then show ?thesis using a s
      by (auto simp: DestroyThread_def IsStoped_def consumer_now_def stuck_def)
  qed (use a s in \<open>auto simp: CConsumers_Start_def CreateThread_def\<close>)
qed

text \<open>
  C38. \<^verbatim>\<open>CConsumers::Stop\<close> clears \<^verbatim>\<open>m_bLoop\<close> before it calls \<^verbatim>\<open>DestroyThread\<close>, which then takes the
  thread for stopped and sends no XM_QUIT. If the consumer is waiting for a message, it
  waits for ever, whatever the other threads do, \<^verbatim>\<open>DestroyThread\<close> and \<^verbatim>\<open>Start\<close> included; called
  in place of \<^verbatim>\<open>Stop\<close>, \<^verbatim>\<open>DestroyThread\<close> would have ended it.
\<close>

theorem consumer_stop_stuck:
  "\<exists>s. pipe_run stop_run pipe0 = Some s \<and> reach pipe_init pipe_step s \<and>
    {t. pipe_step\<^sup>*\<^sup>* s t} \<subseteq> {t. cpc t = CP_Recv \<and> gone t = []} \<and>
    (\<exists>t. pipe_run [Start_Consumer good_os, Consumer_Step [] [], Destroy_Consumer 0 7,
       Consumer_Step [] [], Consumer_Step [] []] pipe0 = Some t \<and> cpc t = CP_None)"
proof -
  obtain s where s: "pipe_run stop_run pipe0 = Some s" and st: "stuck s"
    using stop_run_eq by (auto simp: map_option_eq_Some stuck_def)
  have "stuck t" if r: "pipe_step\<^sup>*\<^sup>* s t" for t
    using r by (induction rule: rtranclp_induct) (auto intro: stuck_step st)
  then have "{t. pipe_step\<^sup>*\<^sup>* s t} \<subseteq> {t. cpc t = CP_Recv \<and> gone t = []}" by (auto simp: stuck_def)
  moreover have "reach pipe_init pipe_step s" by (rule pipe_run_reach [OF reach_init, OF pipe0_init s])
  moreover have "map_option cpc (pipe_run [Start_Consumer good_os, Consumer_Step [] [],
      Destroy_Consumer 0 7, Consumer_Step [] [], Consumer_Step [] []] pipe0) = Some CP_None"
    by code_simp
  ultimately show ?thesis using s by (auto simp: map_option_eq_Some)
qed

end
