(* ===== verification/TimerMsg.thy ===== *)
theory TimerMsg
  imports TimerJobs Consumer
begin

section \<open>The timer that sends messages\<close>

text \<open>
  \<^verbatim>\<open>tutorial_libezthread/ThreadMsg.cpp\<close> as a whole: \<^verbatim>\<open>main\<close> starts the timers' thread, the consumer
  and the producer, and lets a \<^verbatim>\<open>CTimerProducers\<close> start a timer whose function sends to the
  consumer every three seconds. The timers with their pooled threads are those of theory
  \<^verbatim>\<open>TimerJobs\<close>, the producer and the consumer those of theory \<^verbatim>\<open>Consumer\<close>; here a pooled thread
  that calls the timer's function goes through \<^verbatim>\<open>TimerProc\<close> step by step.
\<close>

subsection \<open>The program\<close>

text \<open>The member function \<^verbatim>\<open>CTimerProducers::TimerProc\<close> gets a number, as in theory \<^verbatim>\<open>Threadlet\<close>.\<close>

definition TIMER_PROC :: nat where
  "TIMER_PROC = 1"

text \<open>\<^verbatim>\<open>CTimerProducers::Start\<close> of the object at \<open>this\<close>; \<open>x\<close> is the address \<^verbatim>\<open>new CEZTimer\<close> gives.\<close>

definition CTimerProducers_Start ::
    "addr \<Rightarrow> addr \<Rightarrow> let_sys CEZTimerManager \<Rightarrow> let_sys CEZTimerManager option" where
  "CTimerProducers_Start this x m =
     Start (Some this) TIMER_PROC 0 (3 * 1000) 0 (10 * 1000) x
       ((upd_timer x (CEZTimer_new ''_pTimerProducers'') m)
          \<lparr>world := (world m)\<lparr>lets := (lets (world m))(x := Some None)\<rparr>\<rparr>)"

definition tick_job :: "addr \<Rightarrow> job" where
  "tick_job this = (Some this, TIMER_PROC, 0)"

datatype msg_main = M_Timers | M_Register | M_Consumer | M_Producer | M_Timer | M_Wait

text \<open>
  \<open>timer_runs\<close> says whether the manager's thread exists; \<open>in_proc\<close> is where in \<^verbatim>\<open>TimerProc\<close> a
  pooled thread is; \<open>this_at\<close> is the address of \<^verbatim>\<open>main\<close>'s \<^verbatim>\<open>TimerProducers\<close>. As history, \<open>tick_at\<close> is
  the timer and the manager's clock when it was started.
\<close>

record ticker =
  jobs :: timer_sys
  timer_thread :: CEZThread
  timer_runs :: bool
  main_id :: int
  flow :: pipe
  in_proc :: "addr \<Rightarrow> timer_pc"
  at_main :: msg_main
  this_at :: addr
  tick_at :: "(addr \<times> TimerValue) option"

definition tm_of :: "ticker \<Rightarrow> let_sys CEZTimerManager" where
  "tm_of s = tm (jobs s)"

definition pools :: "ticker \<Rightarrow> let_sys" where
  "pools s = world (tm (jobs s))"

text \<open>
  \<^verbatim>\<open>main\<close> without the line it prints. \<^verbatim>\<open>new CEZTimer\<close> and \<^verbatim>\<open>Start\<close> are one step, since the new timer
  is not known to other threads before \<^verbatim>\<open>Start\<close> has the timers' mutex; the round of the manager's
  thread holds it. At the end \<^verbatim>\<open>main\<close> waits for a semaphore at 0.
\<close>

fun msg_main_step :: "platform \<Rightarrow> thread_os \<Rightarrow> int \<Rightarrow> addr \<Rightarrow> msg_main \<Rightarrow> ticker \<Rightarrow> ticker option" where
  "msg_main_step pl os me x M_Timers s =
     (case TimerManager_Start os (timer_thread s) of
        Done (_, t) \<Rightarrow> Some (s\<lparr>timer_thread := t, at_main := M_Register,
          timer_runs := snd (ThreadCreate os (m_nPriority t) (m_dwStackSize t)) \<noteq> None\<rparr>)
      | _ \<Rightarrow> None)"
| "msg_main_step pl os me x M_Register s = Some (s\<lparr>main_id := me, at_main := M_Consumer\<rparr>)"
| "msg_main_step pl os me x M_Consumer s =
     map_option (\<lambda>f. s\<lparr>flow := f, at_main := M_Producer\<rparr>) (pipe_exec (Start_Consumer os) (flow s))"
| "msg_main_step pl os me x M_Producer s =
     map_option (\<lambda>f. s\<lparr>flow := f, at_main := M_Timer\<rparr>) (pipe_exec (Start_Producer os) (flow s))"
| "msg_main_step pl os me x M_Timer s =
     (if in_round (jobs s) \<or> lets (pools s) x \<noteq> None then None
      else map_option (\<lambda>m. s\<lparr>jobs := (jobs s)\<lparr>tm := m\<rparr>, at_main := M_Wait,
               tick_at := Some (x, m_CurTime (tm_of s))\<rparr>)
             (CTimerProducers_Start (this_at s) x (tm_of s)))"
| "msg_main_step pl os me x M_Wait s =
     (case Wait (CEZSemaphore_new pl 0) of Done _ \<Rightarrow> Some s | _ \<Rightarrow> None)"

text \<open>A round of the manager's thread, as in theory \<^verbatim>\<open>TimerJobs\<close>.\<close>

definition round_begin :: "u32 \<Rightarrow> ticker \<Rightarrow> ticker option" where
  "round_begin now s =
     (if timer_runs s \<and> \<not> in_round (jobs s) \<and> now \<noteq> lo (m_CurTime (tm_of s)) \<and>
         unat (hi (m_CurTime (tm_of s))) \<le> 2 ^ 32 - 3
      then Some (s\<lparr>jobs := (jobs s)\<lparr>tm := move_clock now (tm_of s), in_round := True\<rparr>\<rparr>)
      else None)"

definition round_run ::
    "platform \<Rightarrow> (addr list \<Rightarrow> addr) \<Rightarrow> bool \<Rightarrow> u32 \<Rightarrow> ticker \<Rightarrow> ticker option" where
  "round_run pl new ok now s =
     (if \<not> in_round (jobs s) then None
      else case due_head (tm_of s) of
        None \<Rightarrow> None
      | Some h \<Rightarrow>
          map_option (\<lambda>m. s\<lparr>jobs := (jobs s)\<lparr>tm := m, runs := runs (jobs s) @
              [(h, timer_job (timers (tm_of s) h),
                fst (timer_threadlet_run pl new ok now h (timers (tm_of s) h) (pools s)))]\<rparr>\<rparr>)
            (Timer.run (timer_threadlet_run pl new ok now) h (tm_of s)))"

definition round_end :: "ticker \<Rightarrow> ticker option" where
  "round_end s =
     (if in_round (jobs s) \<and> due_head (tm_of s) = None
      then Some (s\<lparr>jobs := (jobs s)\<lparr>in_round := False\<rparr>\<rparr>) else None)"

definition set_pools :: "let_sys \<Rightarrow> ticker \<Rightarrow> ticker" where
  "set_pools w s = s\<lparr>jobs := (jobs s)\<lparr>tm := (tm_of s)\<lparr>world := w\<rparr>\<rparr>\<rparr>"

text \<open>
  A pooled thread: where it calls its function, it takes the steps of \<^verbatim>\<open>TimerProc\<close>, with the last of
  which the call returns. No other function is known to the program.
\<close>

definition pooled_exec :: "addr \<Rightarrow> u32 \<Rightarrow> ticker \<Rightarrow> ticker option" where
  "pooled_exec a now s =
     (if a \<notin> set (made (mem (pools s))) then None
      else if pcs (pools s) a \<noteq> P_Call
      then map_option (\<lambda>w. set_pools w s) (pooled_step a (pcs (pools s) a) (pools s))
      else if job_of (pooled (mem (pools s)) a) \<noteq> tick_job (this_at s) then None
      else Option.bind (TimerProc_step now (in_proc s a) (flow s)) (\<lambda>f.
        let s' = s\<lparr>flow := f, in_proc := (in_proc s)(a := tpc f)\<rparr>
        in if tpc f \<noteq> TP_Out then Some s'
           else map_option (\<lambda>w. set_pools w s') (pooled_step a P_Call (pools s))))"

datatype ticker_op =
    Main_Step thread_os int addr
  | Round_Begin u32
  | Round_Run bool u32
  | Round_End
  | Pooled_Step addr u32
  | Flow_Producer u32
  | Flow_Consumer string string

fun ticker_exec :: "platform \<Rightarrow> (addr list \<Rightarrow> addr) \<Rightarrow> ticker_op \<Rightarrow> ticker \<Rightarrow> ticker option" where
  "ticker_exec pl new (Main_Step os me x) s = msg_main_step pl os me x (at_main s) s"
| "ticker_exec pl new (Round_Begin now) s = round_begin now s"
| "ticker_exec pl new (Round_Run ok now) s = round_run pl new ok now s"
| "ticker_exec pl new Round_End s = round_end s"
| "ticker_exec pl new (Pooled_Step a now) s = pooled_exec a now s"
| "ticker_exec pl new (Flow_Producer now) s =
     map_option (\<lambda>f. s\<lparr>flow := f\<rparr>) (pipe_exec (Producer_Step now) (flow s))"
| "ticker_exec pl new (Flow_Consumer thr tms) s =
     map_option (\<lambda>f. s\<lparr>flow := f\<rparr>) (pipe_exec (Consumer_Step thr tms) (flow s))"

definition ticker_step :: "platform \<Rightarrow> (addr list \<Rightarrow> addr) \<Rightarrow> ticker \<Rightarrow> ticker \<Rightarrow> bool" where
  "ticker_step pl new s t \<longleftrightarrow> let_fits pl new \<and> (\<exists>a. ticker_exec pl new a s = Some t)"

definition ticker_init :: "platform \<Rightarrow> ticker \<Rightarrow> bool" where
  "ticker_init pl s \<longleftrightarrow> tj_init (jobs s) \<and> pipe_init (flow s) \<and>
     (\<exists>old. timer_thread s = timer_manager_thread pl old) \<and> \<not> timer_runs s \<and>
     in_proc s = (\<lambda>_. TP_Out) \<and> at_main s = M_Timers \<and> tick_at s = None"

subsection \<open>The view on the timers and the pooled threads\<close>

lemma timer_started_view:
  assumes "let_fits pl new" and "\<not> in_round j" and "stopping j = []"
    and x: "lets (world (tm j)) x = None" "\<not> m_Started (timers (tm j) x)"
    and m: "CTimerProducers_Start this x (tm j) = Some m"
  shows "(\<lambda>s t. let_fits pl new \<and> tj_step pl new s t)\<^sup>*\<^sup>* j (j\<lparr>tm := m\<rparr>)"
proof -
  let ?R = "\<lambda>s t. let_fits pl new \<and> tj_step pl new s t"
  let ?m = "(upd_timer x (CEZTimer_new ''_pTimerProducers'') (tm j))
    \<lparr>world := (world (tm j))\<lparr>lets := (lets (world (tm j)))(x := Some None)\<rparr>\<rparr>"
  have del: "CEZTimer_delete x (tm j) = tm j" using x(2) by (simp add: CEZTimer_delete_def)
  have "tj_step pl new j (j\<lparr>tm := (upd_timer x (CEZTimer_new ''_pTimerProducers'') (CEZTimer_delete x (tm j)))
      \<lparr>world := renew_threadlet x (world (tm j))\<rparr>\<rparr>)"
    by (rule renews) (use assms in simp_all)
  then have 1: "?R j (j\<lparr>tm := ?m\<rparr>)"
    using x assms(1) unfolding del by (simp add: renew_threadlet_def Let_def)
  have "tj_step pl new (j\<lparr>tm := ?m\<rparr>) (j\<lparr>tm := ?m\<rparr>\<lparr>tm := m\<rparr>)"
    by (rule starts [where x = x]) (use assms in \<open>simp_all add: CTimerProducers_Start_def\<close>)
  then have 2: "?R (j\<lparr>tm := ?m\<rparr>) (j\<lparr>tm := m\<rparr>)" using assms(1) by simp
  show ?thesis by (rule converse_rtranclp_into_rtranclp [of ?R, OF 1 r_into_rtranclp [of ?R, OF 2]])
qed

subsection \<open>The pooled threads work for one timer\<close>

definition callers_ok :: "addr \<Rightarrow> let_sys \<Rightarrow> bool" where
  "callers_ok x w \<longleftrightarrow> (\<forall>a \<in> set (made (mem w)).
     Threadlet.pending w a \<or> pcs w a = P_Reset \<or> pcs w a = P_Untie \<longrightarrow> m_caller (pooled (mem w) a) = Some x)"

lemma pooled_frame:
  assumes "pooled_step a pc w = Some w'"
  shows "made (mem w') = made (mem w)" and "b \<noteq> a \<Longrightarrow> pcs w' b = pcs w b"
    and "b \<noteq> a \<Longrightarrow> pooled (mem w') b = pooled (mem w) b"
    and "called w' = called w @ (if pc = P_Call then [job_of (pooled (mem w) a)] else [])"
  using assms
  by (cases pc; auto simp: ReleasePooledThread_def split: outcome.splits option.splits)+

lemma callers_pooled_step:
  assumes inv: "let_inv w" and ok: "callers_ok x w" and a: "a \<in> set (made (mem w))"
    and st: "pooled_step a (pcs w a) w = Some w'"
  shows "callers_ok x w'"
proof -
  note fr = pooled_frame [OF st]
  have sem: "sem_value (m_semaphore (pooled (mem w) a)) = 0" if "pcs w a \<noteq> P_Wait" "pcs w a \<noteq> P_NotStarted"
    using let_invD(3) [OF inv a] that by (auto simp: thread_ok_def)
  have valid: "sem_valid (m_semaphore (pooled (mem w) a))"
    using let_invD(3) [OF inv a] by (simp add: thread_ok_def sem_ok_def)
  have c: "m_caller (pooled (mem w) a) = Some x"
    if "Threadlet.pending w a \<or> pcs w a = P_Reset \<or> pcs w a = P_Untie"
    using ok a that unfolding callers_ok_def by blast
  have "m_caller (pooled (mem w') a) = Some x"
    if t: "Threadlet.pending w' a \<or> pcs w' a = P_Reset \<or> pcs w' a = P_Untie"
  proof (cases "pcs w a")
    case P_Wait
    then show ?thesis using st c valid
      by (auto simp: Threadlet.pending_def Wait_def split: if_splits)
  next
    case P_Untie
    then show ?thesis using st t sem by (auto simp: Threadlet.pending_def split: option.splits)
  next
    case P_Release
    then show ?thesis using st t sem by (auto simp: Threadlet.pending_def ReleasePooledThread_def)
  qed (use st c sem in \<open>auto simp: Threadlet.pending_def\<close>)
  then show ?thesis
    using ok fr(1-3) unfolding callers_ok_def Threadlet.pending_def by metis
qed

lemma callers_run:
  assumes inv: "let_inv w" and ok: "callers_ok x w" and fits: "let_fits p new"
  shows "callers_ok x (snd (timer_threadlet_run p new k now x t w))"
proof (cases "lets w x = Some None")
  case False
  then show ?thesis using ok
    by (auto simp: timer_threadlet_run_def Threadlet.run_def split: option.splits)
next
  case True
  have new: "\<And>l. new l \<notin> set l" using fits by (simp add: let_fits_def)
  show ?thesis
  proof (cases "m_headPooled (mem w)")
    case None
    then show ?thesis using ok True new
      by (auto simp: timer_threadlet_run_def Threadlet.run_def GetPooledThread_def callers_ok_def
        Threadlet.pending_def Let_def)
  next
    case (Some a)
    have "a \<in> set (made (mem w))"
      using let_invD(1) [OF inv] Some by (fastforce simp: free_list_ok_def chain_Some)
    then show ?thesis using ok True Some
      by (auto simp: timer_threadlet_run_def Threadlet.run_def GetPooledThread_def callers_ok_def
        Threadlet.pending_def Let_def)
  qed
qed

text \<open>Two pooled threads never call the timer's function at once.\<close>

lemma one_caller:
  assumes "let_inv w" and "callers_ok x w" and "a \<in> set (made (mem w))" and "b \<in> set (made (mem w))"
    and "pcs w a = P_Call" and "pcs w b = P_Call"
  shows "a = b"
proof -
  have "m_caller (pooled (mem w) a) = Some x" "m_caller (pooled (mem w) b) = Some x"
    using assms by (auto simp: callers_ok_def Threadlet.pending_def)
  then have "lets w x = Some (Some a)" "lets w x = Some (Some b)"
    using let_invD(2) [OF assms(1)] assms(3,4) by (simp_all add: ties_ok_def)
  then show ?thesis by simp
qed

text \<open>A run of a timer keeps its function.\<close>

lemma run_keeps_job:
  assumes "Timer.run r h s = Some s'"
  shows "timer_job (timers s' h) = timer_job (timers s h)"
proof -
  let ?R = "RemoveTimer h s"
  note R = core_eqD [OF RemoveTimer_core(1) [of h s h]]
  show ?thesis
  proof (cases "m_Priod (timers s h) = 0")
    case True
    then show ?thesis using assms R by (auto simp: Timer.run_def Let_def timer_job_def)
  next
    case False
    let ?s0 = "upd_timer h (\<lambda>t. t\<lparr>m_CallTime := tv_add (m_CallTime t) (m_Priod t)\<rparr>) ?R"
    obtain s1 where s1: "AddTimer h ?s0 = Some s1" "timers s' h = timers s1 h"
      using assms False R by (auto simp: Timer.run_def Let_def)
    have "core (timers s1 h) = core (timers ?s0 h)" using AddTimer_core [OF s1(1), of h] by blast
    note A = core_eqD [OF this]
    show ?thesis using s1(2) A R by (simp add: timer_job_def)
  qed
qed

subsection \<open>The invariant\<close>

definition tick_ok :: "addr \<Rightarrow> TimerValue \<Rightarrow> ticker \<Rightarrow> bool" where
  "tick_ok x t0 s \<longleftrightarrow> at_main s = M_Wait \<and> callers_ok x (pools s) \<and> timers_ok (tm_of s) [x] \<and>
     timer_job (timers (tm_of s) x) = tick_job (this_at s) \<and> m_Priod (timers (tm_of s) x) = 3000 \<and>
     tv_nat (m_CallTime (timers (tm_of s) x)) = tv_nat t0 + 3000 * length (runs (jobs s)) \<and>
     (\<forall>(y, j, b) \<in> set (runs (jobs s)). j = tick_job (this_at s))"

definition quiet_ok :: "ticker \<Rightarrow> bool" where
  "quiet_ok s \<longleftrightarrow> at_main s \<noteq> M_Wait \<and> made (mem (pools s)) = [] \<and> timers_ok (tm_of s) [] \<and>
     runs (jobs s) = [] \<and> (\<forall>y. lets (pools s) y = None)"

definition procs_ok :: "ticker \<Rightarrow> bool" where
  "procs_ok s \<longleftrightarrow> (\<forall>a. in_proc s a \<noteq> TP_Out \<longrightarrow>
       a \<in> set (made (mem (pools s))) \<and> pcs (pools s) a = P_Call \<and> in_proc s a = tpc (flow s)) \<and>
     ((\<forall>a. in_proc s a = TP_Out) \<longrightarrow> tpc (flow s) = TP_Out)"

definition ticks :: "MSG_NODE list \<Rightarrow> nat" where
  "ticks xs = length (filter (\<lambda>m. msg m = MSG_TYPE_TIMER) xs)"

definition ticker_own :: "ticker \<Rightarrow> bool" where
  "ticker_own s \<longleftrightarrow> stopping (jobs s) = [] \<and> procs_ok s \<and>
     (case tick_at s of None \<Rightarrow> quiet_ok s | Some (x, t0) \<Rightarrow> tick_ok x t0 s) \<and>
     ticks (sent (flow s)) \<le> length (called (pools s))"

definition ticker_inv :: "ticker \<Rightarrow> bool" where
  "ticker_inv s \<longleftrightarrow> tj_inv (jobs s) \<and> pipe_inv (flow s) \<and> ticker_own s"

lemma ticks_append [simp]: "ticks (xs @ ys) = ticks xs + ticks ys"
  by (simp add: ticks_def)

lemma sent_ticks:
  assumes "queue_ok (consumers s)"
  shows "ticks (sent (consumer_now (snd (Thread_SendMessage now m 0 0 0 (consumers s))) (s\<lparr>ppc := pc, tpc := tc\<rparr>)))
    \<le> ticks (sent s) + (if m = MSG_TYPE_TIMER then 1 else 0)"
proof -
  obtain r c where c: "Thread_SendMessage now m 0 0 0 (consumers s) = (r, c)" by fastforce
  have "Consumer.pending c = Consumer.pending (consumers s) @
      (if r then [\<lparr>msg = m, wpa = 0, lpa = 0, pData = None, time = now\<rparr>] else [])"
    using Send_exact [OF assms c] by simp
  then show ?thesis using c by (auto simp: consumer_now_def ticks_def)
qed

lemma threadlet_frame:
  assumes "let_fits p new"
  shows "called (snd (timer_threadlet_run p new ok now x t w)) = called w"
    and "a \<in> set (made (mem w)) \<Longrightarrow> a \<in> set (made (mem (snd (timer_threadlet_run p new ok now x t w)))) \<and>
      pcs (snd (timer_threadlet_run p new ok now x t w)) a = pcs w a"
proof -
  have new: "\<And>l. new l \<notin> set l" using assms by (simp add: let_fits_def)
  show "called (snd (timer_threadlet_run p new ok now x t w)) = called w"
    by (auto simp: timer_threadlet_run_def Threadlet.run_def split_beta Let_def split: option.split)
  assume "a \<in> set (made (mem w))"
  moreover from this have "a \<noteq> new (made (mem w))" using new by metis
  ultimately show "a \<in> set (made (mem (snd (timer_threadlet_run p new ok now x t w)))) \<and>
      pcs (snd (timer_threadlet_run p new ok now x t w)) a = pcs w a"
    by (auto simp: timer_threadlet_run_def Threadlet.run_def split_beta Let_def GetPooledThread_def
      split: option.split)
qed

lemma Start_job:
  assumes "Start ob fn due pr pa to x s = Some s'"
  shows "timer_job (timers s' x) = (ob, fn, pa)"
proof -
  let ?s1 = "upd_timer x (\<lambda>t. t\<lparr>m_pObj := ob, m_pTimerFun := fn, m_CallTime := tv_add (m_CurTime s) due,
      m_Priod := pr, m_timeout := to, m_param := pa, m_Called := False\<rparr>) s"
  let ?s2 = "if m_Started (timers ?s1 x) then RemoveTimer x ?s1 else ?s1"
  obtain s3 where s3: "AddTimer x ?s2 = Some s3" "s' = upd_timer x (\<lambda>t. t\<lparr>m_Started := True\<rparr>) s3"
    using assms by (auto simp: Start_def Let_def)
  have "core (timers s3 x) = core (timers ?s2 x)" using AddTimer_core [OF s3(1), of x] by blast
  also have "\<dots> = core (timers ?s1 x)" by (simp add: RemoveTimer_core)
  finally have c: "core (timers s3 x) = core (timers ?s1 x)" .
  show ?thesis using s3(2) core_eqD(5-7) [OF c] by (simp add: timer_job_def)
qed

lemma ticker_own_parts:
  assumes "ticker_inv s"
  shows "tj_inv (jobs s)" "pipe_inv (flow s)" "stopping (jobs s) = []" "procs_ok s"
    "ticks (sent (flow s)) \<le> length (called (pools s))" "let_inv (pools s)" "queue_ok (consumers (flow s))"
  using assms by (auto simp: ticker_inv_def ticker_own_def tj_inv_def pools_def pipe_inv_def)

lemma quiet_before:
  "ticker_inv s \<Longrightarrow> at_main s \<noteq> M_Wait \<Longrightarrow> tick_at s = None \<and> quiet_ok s"
  by (auto simp: ticker_inv_def ticker_own_def tick_ok_def split: option.splits)

text \<open>What a step does to its two parts, and that it keeps the rest of the invariant.\<close>

definition sim :: "platform \<Rightarrow> (addr list \<Rightarrow> addr) \<Rightarrow> ticker \<Rightarrow> ticker \<Rightarrow> bool" where
  "sim pl new s t \<longleftrightarrow> (\<lambda>s t. let_fits pl new \<and> tj_step pl new s t)\<^sup>*\<^sup>* (jobs s) (jobs t) \<and>
     pipe_step\<^sup>*\<^sup>* (flow s) (flow t) \<and> ticker_own t"

lemma sim_flow:
  assumes "ticker_inv s" and "pipe_exec a (flow s) = Some f" and "jobs t = jobs s" and "flow t = f"
    and "in_proc t = in_proc s" and "tpc f = tpc (flow s)" and "ticks (sent f) \<le> ticks (sent (flow s))"
    and "case tick_at t of None \<Rightarrow> quiet_ok t | Some (x, t0) \<Rightarrow> tick_ok x t0 t"
  shows "sim pl new s t"
proof -
  have "pipe_step (flow s) (flow t)" using assms(2,4) by (auto simp: pipe_step_def)
  then show ?thesis using assms
    by (auto simp: sim_def ticker_inv_def ticker_own_def procs_ok_def pools_def)
qed

lemma main_sim:
  assumes inv: "ticker_inv s" and fits: "let_fits pl new"
    and st: "msg_main_step pl os me x (at_main s) s = Some t"
  shows "sim pl new s t"
proof (cases "at_main s")
  case M_Wait
  then show ?thesis using st by (cases pl) (simp_all add: Wait_def)
next
  case M_Timers
  then show ?thesis using st quiet_before [OF inv] inv
    by (auto simp: sim_def ticker_inv_def ticker_own_def procs_ok_def pools_def tm_of_def quiet_ok_def
      split: outcome.splits)
next
  case M_Register
  then show ?thesis using st quiet_before [OF inv] inv
    by (auto simp: sim_def ticker_inv_def ticker_own_def procs_ok_def pools_def tm_of_def quiet_ok_def)
next
  case M_Consumer
  then obtain f where f: "pipe_exec (Start_Consumer os) (flow s) = Some f"
      "t = s\<lparr>flow := f, at_main := M_Producer\<rparr>"
    using st by (auto split: outcome.splits)
  then have "tpc f = tpc (flow s)" "sent f = sent (flow s)" by (auto split: outcome.splits)
  then show ?thesis using f quiet_before [OF inv] M_Consumer
    by (intro sim_flow [OF inv f(1)]) (auto simp: quiet_ok_def pools_def tm_of_def)
next
  case M_Producer
  then obtain f where f: "pipe_exec (Start_Producer os) (flow s) = Some f"
      "t = s\<lparr>flow := f, at_main := M_Timer\<rparr>"
    using st by (auto split: outcome.splits)
  then have "tpc f = tpc (flow s)" "sent f = sent (flow s)" by (auto split: outcome.splits)
  then show ?thesis using f quiet_before [OF inv] M_Producer
    by (intro sim_flow [OF inv f(1)]) (auto simp: quiet_ok_def pools_def tm_of_def)
next
  case M_Timer
  have q: "tick_at s = None" "made (mem (pools s)) = []" "timers_ok (tm_of s) []" "runs (jobs s) = []"
    using quiet_before [OF inv] M_Timer by (auto simp: quiet_ok_def)
  obtain m where m: "CTimerProducers_Start (this_at s) x (tm_of s) = Some m"
      "t = s\<lparr>jobs := (jobs s)\<lparr>tm := m\<rparr>, at_main := M_Wait, tick_at := Some (x, m_CurTime (tm_of s))\<rparr>"
      "\<not> in_round (jobs s)" "lets (pools s) x = None"
    using st M_Timer by (auto split: if_splits)
  have "\<not> m_Started (timers (tm_of s) x)" using q(3) by (simp add: timers_ok_def)
  then have tj: "(\<lambda>s t. let_fits pl new \<and> tj_step pl new s t)\<^sup>*\<^sup>* (jobs s) (jobs t)"
    using timer_started_view [OF fits m(3) ticker_own_parts(3) [OF inv], of x "this_at s" m] m
    by (simp add: tm_of_def pools_def)
  let ?m = "(upd_timer x (CEZTimer_new ''_pTimerProducers'') (tm_of s))
    \<lparr>world := (pools s)\<lparr>lets := (lets (pools s))(x := Some None)\<rparr>\<rparr>"
  have "timers_ok ?m []"
    using q(3) by (simp add: timers_ok_def timer_repr_def dlist_def CEZTimer_new_fields)
  from Start_ok [OF this, of "Some (this_at s)" TIMER_PROC 0 "3 * 1000" 0 "10 * 1000" x]
  obtain m' ys where m': "Start (Some (this_at s)) TIMER_PROC 0 (3 * 1000) 0 (10 * 1000) x ?m = Some m'"
      "timers_ok m' ys" "set ys = {x}" "call_time m' x = tv_add (m_CurTime ?m) 0"
      "m_Priod (timers m' x) = 3 * 1000" "world m' = world ?m"
    by auto
  have mm: "m' = m" using m(1) m'(1) by (simp add: CTimerProducers_Start_def tm_of_def pools_def)
  have ys: "ys = [x]" by (rule distinct_singleton [OF timers_ok_distinct [OF m'(2)] m'(3)])
  have "tv_add (m_CurTime ?m) 0 = m_CurTime (tm_of s)" by (cases "m_CurTime (tm_of s)") (simp add: tv_add_def)
  then have c: "m_CallTime (timers m x) = m_CurTime (tm_of s)" using m'(4) mm by (simp add: call_time_def)
  have j: "timer_job (timers m x) = tick_job (this_at s)"
    using Start_job [OF m'(1)] mm by (simp add: tick_job_def)
  have "ticker_own t"
    using ticker_own_parts [OF inv] m m' mm ys c j q
    by (simp add: ticker_own_def tick_ok_def procs_ok_def pools_def tm_of_def callers_ok_def)
  then show ?thesis using tj m(2) by (simp add: sim_def)
qed

lemma simI:
  assumes "jobs t = j" and "j = jobs s \<or> (let_fits pl new \<and> tj_step pl new (jobs s) j)"
    and "flow t = f" and "f = flow s \<or> pipe_step (flow s) f" and "ticker_own t"
  shows "sim pl new s t"
  using assms by (auto simp: sim_def)

lemma round_sim:
  assumes inv: "ticker_inv s" and fits: "let_fits pl new"
  shows "round_begin now s = Some t \<Longrightarrow> sim pl new s t"
    and "round_run pl new ok now s = Some t \<Longrightarrow> sim pl new s t"
    and "round_end s = Some t \<Longrightarrow> sim pl new s t"
proof -
  note p = ticker_own_parts [OF inv]
  have own: "case tick_at s of None \<Rightarrow> quiet_ok s | Some (x, t0) \<Rightarrow> tick_ok x t0 s"
    using inv by (simp add: ticker_inv_def ticker_own_def)
  show "sim pl new s t" if "round_begin now s = Some t"
  proof -
    have t: "t = s\<lparr>jobs := (jobs s)\<lparr>tm := move_clock now (tm (jobs s)), in_round := True\<rparr>\<rparr>"
      and g: "\<not> in_round (jobs s)" "now \<noteq> lo (m_CurTime (tm (jobs s)))"
        "unat (hi (m_CurTime (tm (jobs s)))) \<le> 2 ^ 32 - 3"
      using that by (auto simp: round_begin_def tm_of_def split: if_splits)
    have "tj_step pl new (jobs s) (jobs t)" unfolding t using round_begins [OF g(1) p(3) g(2,3)] by simp
    moreover have "ticker_own t"
      using own p(3-5) unfolding t
      by (auto simp: ticker_own_def procs_ok_def pools_def tm_of_def quiet_ok_def tick_ok_def
        move_clock_ok split: option.splits)
    ultimately show ?thesis using fits t by (intro simI [where j = "jobs t" and f = "flow s"]) auto
  qed
  show "sim pl new s t" if "round_end s = Some t"
  proof -
    have t: "t = s\<lparr>jobs := (jobs s)\<lparr>in_round := False\<rparr>\<rparr>" and g: "in_round (jobs s)" "due_head (tm (jobs s)) = None"
      using that by (auto simp: round_end_def tm_of_def split: if_splits)
    have "tj_step pl new (jobs s) (jobs t)" unfolding t using round_ends [OF g] by simp
    moreover have "ticker_own t"
      using own p(3-5) unfolding t
      by (auto simp: ticker_own_def procs_ok_def pools_def tm_of_def quiet_ok_def tick_ok_def split: option.splits)
    ultimately show ?thesis using fits t by (intro simI [where j = "jobs t" and f = "flow s"]) auto
  qed
  show "sim pl new s t" if r: "round_run pl new ok now s = Some t"
  proof -
    let ?R = "timer_threadlet_run pl new ok now"
    obtain h m where h: "in_round (jobs s)" "due_head (tm (jobs s)) = Some h" "Timer.run ?R h (tm (jobs s)) = Some m"
      and t: "t = s\<lparr>jobs := (jobs s)\<lparr>tm := m, runs := runs (jobs s) @ [(h, timer_job (timers (tm (jobs s)) h),
          fst (?R h (timers (tm (jobs s)) h) (world (tm (jobs s)))))]\<rparr>\<rparr>"
      using r by (auto simp: round_run_def tm_of_def pools_def split: option.splits if_splits)
    have "tj_step pl new (jobs s) (jobs t)" unfolding t using round_runs [OF h] by simp
    moreover have "ticker_own t"
    proof (cases "tick_at s")
      case None
      then have "timers_ok (tm (jobs s)) []" using own by (simp add: quiet_ok_def tm_of_def)
      then show ?thesis using due_head_in(1) [OF _ h(2)] by fastforce
    next
      case (Some xt)
      obtain x t0 where xt: "xt = (x, t0)" by fastforce
      have ok: "at_main s = M_Wait" "callers_ok x (world (tm (jobs s)))" "timers_ok (tm (jobs s)) [x]"
          "timer_job (timers (tm (jobs s)) x) = tick_job (this_at s)" "m_Priod (timers (tm (jobs s)) x) = 3000"
          "tv_nat (m_CallTime (timers (tm (jobs s)) x)) = tv_nat t0 + 3000 * length (runs (jobs s))"
          "\<forall>(y, j, b) \<in> set (runs (jobs s)). j = tick_job (this_at s)"
        using own Some xt by (simp_all add: tick_ok_def pools_def tm_of_def)
      have hx: "h = x" using due_head_in(1) [OF ok(3) h(2)] by simp
      have room: "tv_nat (m_CurTime (tm (jobs s))) \<le> 2 ^ 64 - 2 ^ 32"
        using p(1) h(1) by (simp add: tj_inv_def)
      obtain m' ys th where m': "Timer.run ?R x (tm (jobs s)) = Some m'" "timers_ok m' ys"
          "fired (m_CurTime (tm (jobs s))) 1 (timers (tm (jobs s)) x) (timers m' x)" "set ys = {x}"
          "world m' = snd (?R x th (world (tm (jobs s))))"
        using run_head [OF ok(3) _ due_head_in(2) [OF ok(3) h(2), unfolded hx] room, of ?R] ok(5) by auto
      have mm: "m' = m" using m'(1) h(3) hx by simp
      have ys: "ys = [x]" by (rule distinct_singleton [OF timers_ok_distinct [OF m'(2)] m'(4)])
      have "callers_ok x (world m)"
        using callers_run [OF p(6) [unfolded pools_def tm_of_def] ok(2) fits, of ok now th] m'(5) mm by simp
      moreover have "m_Priod (timers m x) = 3000"
          "tv_nat (m_CallTime (timers m x)) = tv_nat t0 + 3000 * Suc (length (runs (jobs s)))"
        using m'(3) mm ok(5,6) by (simp_all add: fired_def)
      moreover have "timer_job (timers m x) = tick_job (this_at s)"
        using run_keeps_job [OF h(3)] hx ok(4) by simp
      moreover have "called (world m) = called (world (tm (jobs s)))"
        and fr: "a \<in> set (made (mem (world (tm (jobs s))))) \<Longrightarrow> a \<in> set (made (mem (world m))) \<and>
          pcs (world m) a = pcs (world (tm (jobs s))) a" for a
        using threadlet_frame [OF fits] m'(5) mm by metis+
      moreover have "procs_ok t"
        unfolding t using p(4) fr by (auto simp: procs_ok_def pools_def)
      ultimately show ?thesis
        using ok p(3,5) m'(2) mm ys hx Some xt unfolding t
        by (auto simp: ticker_own_def tick_ok_def pools_def tm_of_def)
    qed
    ultimately show ?thesis using fits t by (intro simI [where j = "jobs t" and f = "flow s"]) auto
  qed
qed

lemma tick_ok_pools:
  assumes "tick_ok x t0 s" and "callers_ok x w"
  shows "tick_ok x t0 (set_pools w s)"
  using assms by (simp add: tick_ok_def set_pools_def pools_def tm_of_def)

lemma set_pools_fields [simp]:
  "pools (set_pools w s) = w" "flow (set_pools w s) = flow s" "in_proc (set_pools w s) = in_proc s"
  "tick_at (set_pools w s) = tick_at s" "stopping (jobs (set_pools w s)) = stopping (jobs s)"
  by (simp_all add: set_pools_def pools_def)

lemma pools_tj:
  assumes "a \<in> set (made (mem (pools s)))" and "pooled_step a (pcs (pools s) a) (pools s) = Some w"
  shows "tj_step pl new (jobs s) (jobs (set_pools w s))"
  using pooled_moves [of a "jobs s" w pl new] assms by (simp add: set_pools_def pools_def tm_of_def)

text \<open>One step of \<^verbatim>\<open>TimerProc\<close>; the last one may send.\<close>

lemma TimerProc_ticks:
  assumes "queue_ok (consumers s)" and "TimerProc_step now pc s = Some f"
  shows "ticks (sent f) \<le> ticks (sent s) + (if tpc f = TP_Out then 1 else 0)"
proof (cases pc)
  case TP_Send
  then have "f = consumer_now (snd (Thread_SendMessage now MSG_TYPE_TIMER 0 0 0 (consumers s))) (s\<lparr>ppc := ppc s, tpc := TP_Out\<rparr>)"
    using assms(2) by simp
  then show ?thesis using sent_ticks [OF assms(1), of now MSG_TYPE_TIMER TP_Out "ppc s"]
    by (simp add: consumer_now_def)
qed (use assms(2) in \<open>auto split: if_splits\<close>)

lemma pooled_sim:
  assumes inv: "ticker_inv s" and fits: "let_fits pl new" and st: "pooled_exec a now s = Some t"
  shows "sim pl new s t"
proof -
  note p = ticker_own_parts [OF inv]
  have a: "a \<in> set (made (mem (pools s)))" using st by (simp add: pooled_exec_def split: if_splits)
  then obtain x t0 where x: "tick_at s = Some (x, t0)" "tick_ok x t0 s"
    using inv by (auto simp: ticker_inv_def ticker_own_def quiet_ok_def split: option.splits)
  then have callers: "callers_ok x (pools s)" by (simp add: tick_ok_def)
  show ?thesis
  proof (cases "pcs (pools s) a = P_Call")
    case False
    then obtain w where w: "pooled_step a (pcs (pools s) a) (pools s) = Some w" "t = set_pools w s"
      using st a by (auto simp: pooled_exec_def)
    note fr = pooled_frame [OF w(1)]
    have "callers_ok x w" by (rule callers_pooled_step [OF p(6) callers a w(1)])
    then have "tick_ok x t0 t" using tick_ok_pools [OF x(2)] w(2) by simp
    moreover have "procs_ok t"
      using p(4) False fr(1,2) unfolding procs_ok_def w(2) set_pools_fields by metis
    ultimately have "ticker_own t"
      using p(3,5) fr(4) False x(1) by (simp add: ticker_own_def w(2))
    then show ?thesis using pools_tj [OF a w(1)] fits w(2)
      by (intro simI [where j = "jobs t" and f = "flow s"]) auto
  next
    case True
    obtain f where f: "TimerProc_step now (in_proc s a) (flow s) = Some f"
      and job: "job_of (pooled (mem (pools s)) a) = tick_job (this_at s)"
      and t: "Some t = (let s' = s\<lparr>flow := f, in_proc := (in_proc s)(a := tpc f)\<rparr>
        in if tpc f \<noteq> TP_Out then Some s'
           else map_option (\<lambda>w. set_pools w s') (pooled_step a P_Call (pools s)))"
      using st a True by (auto simp: pooled_exec_def bind_eq_Some_conv split: if_splits)
    have others: "in_proc s b = TP_Out" if "b \<noteq> a" for b
      using that p(4) one_caller [OF p(6) callers _ a _ True] unfolding procs_ok_def by metis
    have "in_proc s a = tpc (flow s)"
      using p(4) others unfolding procs_ok_def by metis
    then have fl: "pipe_step (flow s) f"
      using f unfolding pipe_step_def by (intro exI [of _ "Timer_Step now"]) simp
    note tk = TimerProc_ticks [OF p(7) f]
    let ?s = "s\<lparr>flow := f, in_proc := (in_proc s)(a := tpc f)\<rparr>"
    have ok: "tick_ok x t0 ?s" using x(2) by (simp add: tick_ok_def pools_def tm_of_def)
    show ?thesis
    proof (cases "tpc f = TP_Out")
      case False
      then have t': "t = ?s" using t by simp
      have "procs_ok t" using others a True False by (auto simp: procs_ok_def t' pools_def)
      then have "ticker_own t"
        using p(3,5) tk False ok x(1) by (simp add: ticker_own_def t' pools_def)
      then show ?thesis using fl t' by (intro simI [where j = "jobs s" and f = f]) auto
    next
      case out: True
      obtain w where w: "pooled_step a P_Call (pools s) = Some w" "t = set_pools w ?s"
        using t out by auto
      note fr = pooled_frame [OF w(1)]
      have "callers_ok x w"
        by (rule callers_pooled_step [OF p(6) callers a]) (use w(1) True in simp)
      then have "tick_ok x t0 t" using tick_ok_pools [OF ok] w(2) by simp
      moreover have "procs_ok t" using others out by (auto simp: procs_ok_def w(2))
      ultimately have "ticker_own t"
        using p(3,5) fr(4) tk out x(1) by (simp add: ticker_own_def w(2))
      moreover have "jobs t = jobs (set_pools w s)" by (simp add: w(2) set_pools_def tm_of_def)
      moreover have "tj_step pl new (jobs s) (jobs (set_pools w s))"
        by (rule pools_tj [OF a]) (use w(1) True in simp)
      ultimately show ?thesis using fl fits w(2)
        by (intro simI [where j = "jobs t" and f = f]) auto
    qed
  qed
qed

lemma ticker_sim:
  assumes inv: "ticker_inv s" and fits: "let_fits pl new"
    and st: "ticker_exec pl new op s = Some t"
  shows "sim pl new s t"
proof (cases op)
  case (Main_Step os me x)
  then show ?thesis using main_sim [OF inv fits] st by simp
next
  case (Flow_Producer now)
  then obtain f where f: "pipe_exec (Producer_Step now) (flow s) = Some f" "t = s\<lparr>flow := f\<rparr>"
    using st by auto
  have "tpc f = tpc (flow s) \<and> ticks (sent f) \<le> ticks (sent (flow s))"
    using f(1) sent_ticks [OF ticker_own_parts(7) [OF inv], of now MSG_TYPE_PRODUCER "tpc (flow s)" PP_Test]
    by (cases "ppc (flow s)")
      (auto simp: consumer_now_def MSG_TYPE_PRODUCER_def MSG_TYPE_TIMER_def split: if_splits outcome.splits)
  then show ?thesis using f inv
    by (intro sim_flow [OF inv f(1)])
      (auto simp: ticker_inv_def ticker_own_def quiet_ok_def tick_ok_def pools_def tm_of_def split: option.splits)
next
  case (Flow_Consumer thr tms)
  then obtain f where f: "pipe_exec (Consumer_Step thr tms) (flow s) = Some f" "t = s\<lparr>flow := f\<rparr>"
    using st by auto
  have "tpc f = tpc (flow s) \<and> sent f = sent (flow s)"
    using f(1) by (cases "cpc (flow s)") (auto split: if_splits outcome.splits option.splits bool.splits)
  then show ?thesis using f inv
    by (intro sim_flow [OF inv f(1)])
      (auto simp: ticker_inv_def ticker_own_def quiet_ok_def tick_ok_def pools_def tm_of_def split: option.splits)
qed (use st round_sim [OF inv fits] pooled_sim [OF inv fits] in auto)

lemma ticker_init_inv:
  assumes "ticker_init pl s"
  shows "ticker_inv s"
proof -
  have i: "tj_init (jobs s)" "pipe_init (flow s)" "in_proc s = (\<lambda>_. TP_Out)" "at_main s = M_Timers" "tick_at s = None"
    using assms by (simp_all add: ticker_init_def)
  obtain now tms w where w: "let_init w" "\<forall>a. \<not> m_Started (tms a)" "tm (jobs s) = CEZTimerManager_new now tms w"
      "stopping (jobs s) = []" "runs (jobs s) = []"
    using i(1) by (auto simp: tj_init_def)
  have "timers_ok (tm (jobs s)) []"
    using w(2,3) by (simp add: timers_ok_def timer_repr_def dlist_def CEZTimerManager_new_def)
  moreover have "world (tm (jobs s)) = w" using w(3) by (simp add: CEZTimerManager_new_def)
  moreover have pools: "pools s = w" using calculation(2) by (simp add: pools_def)
  moreover have "made (mem w) = []" "\<forall>y. lets w y = None" using w(1) by (simp_all add: let_init_def)
  ultimately have "quiet_ok s" using i(4) w(5) by (simp add: quiet_ok_def tm_of_def)
  moreover have "sent (flow s) = []" "tpc (flow s) = TP_Out" using i(2) by (auto simp: pipe_init_def)
  moreover have "procs_ok s" using i(3) calculation(3) by (simp add: procs_ok_def)
  ultimately have "ticker_own s" using i(5) w(4) by (simp add: ticker_own_def ticks_def)
  then show ?thesis using tj_init_inv [OF i(1)] pipe_init_inv [OF i(2)] by (simp add: ticker_inv_def)
qed

lemma ticker_step_sim:
  assumes "ticker_inv s" and "let_fits pl new \<and> ticker_step pl new s t"
  shows "sim pl new s t"
  using assms ticker_sim by (auto simp: ticker_step_def)

lemma sim_inv:
  assumes "sim pl new s t" and "ticker_inv s"
  shows "ticker_inv t"
proof -
  note i = assms(2) [unfolded ticker_inv_def] and st = assms(1) [unfolded sim_def]
  have "tj_inv (jobs t)" by (rule tj_system.inv_star [OF conjunct1 [OF st] conjunct1 [OF i]])
  moreover have "pipe_inv (flow t)"
    by (rule pipe_system.inv_star [OF conjunct1 [OF conjunct2 [OF st]] conjunct1 [OF conjunct2 [OF i]]])
  moreover have "ticker_own t" using st by blast
  ultimately show ?thesis by (simp only: ticker_inv_def)
qed

interpretation ticker_system: invariant_system "ticker_init pl"
  "\<lambda>s t. let_fits pl new \<and> ticker_step pl new s t" ticker_inv
  for pl new
  by unfold_locales (auto intro: ticker_init_inv sim_inv [OF ticker_step_sim])

interpretation ticker_jobs: component_view "ticker_init pl"
  "\<lambda>s t. let_fits pl new \<and> ticker_step pl new s t" tj_init "\<lambda>s t. let_fits pl new \<and> tj_step pl new s t" jobs
  for pl new
proof (unfold_locales, goal_cases)
  case (1 s)
  then show ?case by (simp add: ticker_init_def)
next
  case (2 s t)
  show ?case using ticker_step_sim [OF ticker_system.reach_inv [OF 2(1)] 2(2)] by (simp add: sim_def)
qed

interpretation ticker_flow: component_view "ticker_init pl"
  "\<lambda>s t. let_fits pl new \<and> ticker_step pl new s t" pipe_init pipe_step flow
  for pl new
proof (unfold_locales, goal_cases)
  case (1 s)
  then show ?case by (simp add: ticker_init_def)
next
  case (2 s t)
  show ?case using ticker_step_sim [OF ticker_system.reach_inv [OF 2(1)] 2(2)] by (simp add: sim_def)
qed

definition ticker_reachable :: "platform \<Rightarrow> (addr list \<Rightarrow> addr) \<Rightarrow> ticker \<Rightarrow> bool" where
  "ticker_reachable pl new s \<longleftrightarrow>
     reach (ticker_init pl) (\<lambda>s t. let_fits pl new \<and> ticker_step pl new s t) s"

lemma ticker_reachable_views:
  assumes "ticker_reachable pl new s"
  shows "ticker_inv s" "tj_reachable pl new (jobs s)" "reach pipe_init pipe_step (flow s)"
  using assms ticker_system.reach_inv ticker_jobs.reach_view ticker_flow.reach_view
  by (simp_all add: ticker_reachable_def tj_reachable_def)

fun ticker_run :: "platform \<Rightarrow> (addr list \<Rightarrow> addr) \<Rightarrow> ticker_op list \<Rightarrow> ticker \<Rightarrow> ticker option" where
  "ticker_run pl new [] s = Some s"
| "ticker_run pl new (a # as) s = Option.bind (ticker_exec pl new a s) (ticker_run pl new as)"

lemma ticker_run_reach:
  "ticker_reachable pl new s \<Longrightarrow> let_fits pl new \<Longrightarrow> ticker_run pl new as s = Some t \<Longrightarrow> ticker_reachable pl new t"
proof (induction as arbitrary: s)
  case (Cons a as)
  then obtain u where u: "ticker_exec pl new a s = Some u" "ticker_run pl new as u = Some t"
    by (auto simp: bind_eq_Some_conv)
  have "ticker_reachable pl new u"
    unfolding ticker_reachable_def
    by (rule reach_step [OF Cons.prems(1) [unfolded ticker_reachable_def]])
      (use u(1) Cons.prems(2) in \<open>auto simp: ticker_step_def\<close>)
  then show ?case using Cons.IH u(2) Cons.prems(2) by blast
qed simp

subsection \<open>Properties\<close>

lemma called_accepted:
  assumes "tj_inv j"
  shows "set (called (world (tm j))) \<subseteq> set (accepted_runs j)"
    and "length (called (world (tm j))) \<le> length (accepted_runs j)"
proof -
  let ?w = "world (tm j)"
  have m: "mset (accepted_runs j) = mset (called ?w) + pending_jobs ?w (made (mem ?w))"
    using assms unfolding tj_inv_def let_inv_def by (elim conjE) simp
  then have sub: "mset (called ?w) \<subseteq># mset (accepted_runs j)" by simp
  show "set (called ?w) \<subseteq> set (accepted_runs j)" using set_mset_mono [OF sub] by simp
  show "length (called ?w) \<le> length (accepted_runs j)" using size_mset_mono [OF sub] by simp
qed

lemma accepted_runs_le: "length (accepted_runs j) \<le> length (runs j)"
  by (simp add: accepted_runs_def)

text \<open>
  C17. The program \<^verbatim>\<open>ThreadMsg\<close> as a whole, in every interleaving of \<^verbatim>\<open>main\<close>, the timers' thread, the
  pooled threads, the producer and the consumer. What the consumer and its queue do is a
  run of the system of theory \<^verbatim>\<open>Consumer\<close>, in which one timer calls \<^verbatim>\<open>TimerProc\<close>: at most one
  pooled thread is in it. Every call made is a call of \<^verbatim>\<open>TimerProc\<close>, each sends at most one
  message, and there are at most as many calls as the timer has run. The timer runs by its
  clock: after \<open>n\<close> runs it is due \<open>3000 * n\<close> milliseconds after its start, without a drift.
\<close>

theorem ticks_in_order:
  assumes "ticker_reachable pl new s"
  shows "reach pipe_init pipe_step (flow s) \<and> (\<exists>a. {b. in_proc s b \<noteq> TP_Out} \<subseteq> {a}) \<and>
    set (called (pools s)) \<subseteq> {tick_job (this_at s)} \<and>
    length (filter (\<lambda>m. msg m = MSG_TYPE_TIMER) (sent (flow s))) \<le> length (called (pools s)) \<and>
    length (called (pools s)) \<le> length (runs (jobs s)) \<and>
    (\<forall>x t0. tick_at s = Some (x, t0) \<longrightarrow>
      tv_nat (m_CallTime (timers (tm_of s) x)) = tv_nat t0 + 3000 * length (runs (jobs s)))"
proof -
  note r = ticker_reachable_views [OF assms]
  note p = ticker_own_parts [OF r(1)]
  have c: "set (called (pools s)) \<subseteq> set (accepted_runs (jobs s))"
      "length (called (pools s)) \<le> length (runs (jobs s))"
    using called_accepted [OF p(1)] accepted_runs_le [of "jobs s"] by (auto simp: pools_def)
  have own: "case tick_at s of None \<Rightarrow> quiet_ok s | Some (x, t0) \<Rightarrow> tick_ok x t0 s"
    using r(1) by (simp add: ticker_inv_def ticker_own_def)
  have "set (accepted_runs (jobs s)) \<subseteq> {tick_job (this_at s)}"
    using own by (auto simp: accepted_runs_def quiet_ok_def tick_ok_def split: option.splits)
  moreover have "\<exists>a. {b. in_proc s b \<noteq> TP_Out} \<subseteq> {a}"
  proof (cases "tick_at s")
    case None
    then have "{b. in_proc s b \<noteq> TP_Out} = {}"
      using own p(4) by (auto simp: quiet_ok_def procs_ok_def)
    then show ?thesis by simp
  next
    case (Some xt)
    then have "callers_ok (fst xt) (pools s)" using own by (auto simp: tick_ok_def split: prod.splits)
    then have "a = b" if "in_proc s a \<noteq> TP_Out" "in_proc s b \<noteq> TP_Out" for a b
      using that p(4) one_caller [OF p(6)] unfolding procs_ok_def by metis
    then show ?thesis by blast
  qed
  moreover have "tv_nat (m_CallTime (timers (tm_of s) x)) = tv_nat t0 + 3000 * length (runs (jobs s))"
    if "tick_at s = Some (x, t0)" for x t0
    using that own by (simp add: tick_ok_def)
  ultimately show ?thesis using r(3) c p(5) by (auto simp: ticks_def)
qed

text \<open>A run in which the timer runs once and its message arrives.\<close>

definition ticker0 :: ticker where
  "ticker0 = \<lparr>jobs = tj0, timer_thread = timer_manager_thread (Posix 8) raw_thread, timer_runs = False,
     main_id = 0, flow = pipe0, in_proc = (\<lambda>_. TP_Out), at_main = M_Timers, this_at = 9, tick_at = None\<rparr>"

lemma tj0_init: "tj_init tj0"
  unfolding tj_init_def
  by (intro conjI exI [of _ 100] exI [of _ "\<lambda>_. raw_timer"] exI [of _ let_start])
    (simp_all add: tj0_def let_init_def let_start_def raw_timer_def)

lemma ticker0_reachable: "ticker_reachable (Posix 8) fresh_addr ticker0"
  unfolding ticker_reachable_def
  by (rule reach_init) (use tj0_init pipe0_init in \<open>auto simp: ticker_init_def ticker0_def\<close>)

lemma flow_started:
  "\<exists>f1 f2 g1 g2 g3. pipe_exec (Start_Consumer good_os) pipe0 = Some f1 \<and>
    pipe_exec (Start_Producer good_os) f1 = Some f2 \<and> tpc f2 = TP_Out \<and>
    TimerProc_step 102 TP_Out f2 = Some g1 \<and> tpc g1 = TP_Check \<and>
    TimerProc_step 102 TP_Check g1 = Some g2 \<and> tpc g2 = TP_Send \<and>
    TimerProc_step 102 TP_Send g2 = Some g3 \<and> tpc g3 = TP_Out \<and> map msg (sent g3) = [MSG_TYPE_TIMER]"
proof -
  let ?as = "[Start_Consumer good_os, Start_Producer good_os]"
  have "map_option tpc (pipe_run ?as pipe0) = Some TP_Out"
    "map_option tpc (pipe_run (?as @ [Timer_Step 102]) pipe0) = Some TP_Check"
    "map_option tpc (pipe_run (?as @ [Timer_Step 102, Timer_Step 102]) pipe0) = Some TP_Send"
    "map_option (\<lambda>f. (tpc f, map msg (sent f))) (pipe_run (?as @ [Timer_Step 102, Timer_Step 102, Timer_Step 102]) pipe0) =
      Some (TP_Out, [MSG_TYPE_TIMER])"
    by code_simp+
  then show ?thesis by (auto simp: map_option_eq_Some bind_eq_Some_conv simp del: TimerProc_step.simps pipe_exec.simps(4,6))
qed

lemma tick_started:
  "\<exists>m. CTimerProducers_Start 9 5 (tm tj0) = Some m \<and> timers_ok m [5] \<and> m_CurTime m = TimerValue 100 0 \<and>
    m_CallTime (timers m 5) = TimerValue 100 0 \<and> timer_job (timers m 5) = tick_job 9 \<and>
    world m = let_start\<lparr>lets := [5 \<mapsto> None]\<rparr>"
proof -
  let ?m = "(upd_timer 5 (CEZTimer_new ''_pTimerProducers'') (tm tj0))
    \<lparr>world := let_start\<lparr>lets := [5 \<mapsto> None]\<rparr>\<rparr>"
  have "timers_ok ?m []"
    by (simp add: timers_ok_def timer_repr_def dlist_def CEZTimer_new_fields tj0_def CEZTimerManager_new_def raw_timer_def)
  from Start_ok [OF this, of "Some 9" TIMER_PROC 0 "3 * 1000" 0 "10 * 1000" 5]
  obtain m ys where m: "Start (Some 9) TIMER_PROC 0 (3 * 1000) 0 (10 * 1000) 5 ?m = Some m"
      "timers_ok m ys" "set ys = {5}" "call_time m 5 = tv_add (m_CurTime ?m) 0" "m_CurTime m = m_CurTime ?m"
      "world m = world ?m"
    by auto
  have "ys = [5]" by (rule distinct_singleton [OF timers_ok_distinct [OF m(2)] m(3)])
  moreover have "m_CurTime ?m = TimerValue 100 0" by (simp add: tj0_def CEZTimerManager_new_def)
  moreover have "CTimerProducers_Start 9 5 (tm tj0) = Some m"
    using m(1) by (simp add: CTimerProducers_Start_def tj0_def CEZTimerManager_new_def let_start_def)
  ultimately show ?thesis using m Start_job [OF m(1)]
    by (simp add: call_time_def tv_add_def tick_job_def)
qed

lemma first_pooled:
  assumes "w = snd (timer_threadlet_run (Posix 8) fresh_addr True 101 5 th (let_start\<lparr>lets := [5 \<mapsto> None]\<rparr>))"
  shows "made (mem w) = [1]" "pcs w 1 = P_Wait" "job_of (pooled (mem w) 1) = timer_job th" "called w = []"
    "\<exists>r c. Wait (m_semaphore (pooled (mem w) 1)) = Done (r, c)"
  by (simp_all add: assms timer_threadlet_run_def Threadlet.run_def GetPooledThread_def let_start_def
      fresh_addr_def Let_def Post_def Wait_def)

text \<open>A pooled thread that has been posted goes through \<^verbatim>\<open>TimerProc\<close> once.\<close>

lemma pooled_call_runs:
  assumes a: "a \<in> set (made (mem (pools s)))" "pcs (pools s) a = P_Wait" "in_proc s a = TP_Out"
    and c: "Wait (m_semaphore (pooled (mem (pools s)) a)) = Done (r, c)"
    and j: "job_of (pooled (mem (pools s)) a) = tick_job (this_at s)"
    and g: "TimerProc_step now TP_Out (flow s) = Some g1" "tpc g1 = TP_Check"
      "TimerProc_step now TP_Check g1 = Some g2" "tpc g2 = TP_Send"
      "TimerProc_step now TP_Send g2 = Some g3" "tpc g3 = TP_Out"
  shows "\<exists>t. ticker_run pl new (replicate 4 (Pooled_Step a now)) s = Some t \<and>
    called (pools t) = called (pools s) @ [tick_job (this_at s)] \<and> flow t = g3"
proof -
  define w1 where "w1 = (pools s)\<lparr>mem := upd_pooled a (\<lambda>t. t\<lparr>m_semaphore := c\<rparr>) (mem (pools s)),
    pcs := (pcs (pools s))(a := P_Call)\<rparr>"
  define s1 where "s1 = set_pools w1 s"
  define s2 where "s2 = s1\<lparr>flow := g1, in_proc := (in_proc s1)(a := TP_Check)\<rparr>"
  define s3 where "s3 = s2\<lparr>flow := g2, in_proc := (in_proc s2)(a := TP_Send)\<rparr>"
  define s4 where "s4 = set_pools (w1\<lparr>called := called w1 @ [tick_job (this_at s)], pcs := (pcs w1)(a := P_Reset)\<rparr>)
    (s3\<lparr>flow := g3, in_proc := (in_proc s3)(a := TP_Out)\<rparr>)"
  have w1: "a \<in> set (made (mem w1))" "pcs w1 a = P_Call" "job_of (pooled (mem w1) a) = tick_job (this_at s)"
      "called w1 = called (pools s)"
    using a j by (simp_all add: w1_def job_of_def)
  have 1: "pooled_exec a now s = Some s1"
    using a c by (simp add: pooled_exec_def s1_def w1_def)
  have f1: "pools s1 = w1" "this_at s1 = this_at s" "flow s1 = flow s" "in_proc s1 = in_proc s"
    by (simp_all add: s1_def set_pools_def pools_def)
  have f2: "pools s2 = w1" "this_at s2 = this_at s" "flow s2 = g1" "in_proc s2 = (in_proc s)(a := TP_Check)"
    using f1 by (simp_all add: s2_def pools_def)
  have f3: "pools s3 = w1" "this_at s3 = this_at s" "flow s3 = g2" "in_proc s3 a = TP_Send"
    using f2 by (simp_all add: s3_def pools_def)
  have 2: "pooled_exec a now s1 = Some s2"
    unfolding pooled_exec_def f1 using w1 a(3) g(1,2) by (simp add: s2_def f1 del: TimerProc_step.simps)
  have 3: "pooled_exec a now s2 = Some s3"
    unfolding pooled_exec_def f2 using w1 g(3,4) by (simp add: s3_def f2 del: TimerProc_step.simps)
  have 4: "pooled_exec a now s3 = Some s4"
    unfolding pooled_exec_def f3 using w1 g(5,6) by (simp add: s4_def f3 del: TimerProc_step.simps)
  have "ticker_run pl new (replicate 4 (Pooled_Step a now)) s = Some s4"
    by (simp add: numeral_eq_Suc 1 2 3 4)
  moreover have "called (pools s4) = called (pools s) @ [tick_job (this_at s)]" "flow s4 = g3"
    using w1(4) by (simp_all add: s4_def)
  ultimately show ?thesis by blast
qed

definition one_tick :: "ticker_op list" where
  "one_tick = replicate 5 (Main_Step good_os 7 5) @ [Round_Begin 101, Round_Run True 101] @
     replicate 4 (Pooled_Step 1 102)"

lemma one_tick_runs:
  "\<exists>s. ticker_run (Posix 8) fresh_addr one_tick ticker0 = Some s \<and> called (pools s) = [tick_job 9] \<and>
    map msg (sent (flow s)) = [MSG_TYPE_TIMER]"
proof -
  obtain f1 f2 g1 g2 g3 where f: "pipe_exec (Start_Consumer good_os) pipe0 = Some f1"
      "pipe_exec (Start_Producer good_os) f1 = Some f2" "tpc f2 = TP_Out"
    and g: "TimerProc_step 102 TP_Out f2 = Some g1" "tpc g1 = TP_Check"
      "TimerProc_step 102 TP_Check g1 = Some g2" "tpc g2 = TP_Send"
      "TimerProc_step 102 TP_Send g2 = Some g3" "tpc g3 = TP_Out" "map msg (sent g3) = [MSG_TYPE_TIMER]"
    using flow_started by (elim exE conjE) (rule that)
  have "(case TimerManager_Start good_os (timer_manager_thread (Posix 8) raw_thread) of
      Done (b, t) \<Rightarrow> snd (ThreadCreate good_os (m_nPriority t) (m_dwStackSize t)) \<noteq> None | _ \<Rightarrow> False)"
    by code_simp
  then obtain b tt where tt: "TimerManager_Start good_os (timer_manager_thread (Posix 8) raw_thread) = Done (b, tt)"
      "snd (ThreadCreate good_os (m_nPriority tt) (m_dwStackSize tt)) \<noteq> None"
    by (auto split: outcome.splits)
  obtain m where m: "CTimerProducers_Start 9 5 (tm tj0) = Some m" "timers_ok m [5]" "m_CurTime m = TimerValue 100 0"
      "m_CallTime (timers m 5) = TimerValue 100 0" "timer_job (timers m 5) = tick_job 9"
      "world m = let_start\<lparr>lets := [5 \<mapsto> None]\<rparr>"
    using tick_started by blast
  have j0: "in_round tj0 = False" "runs tj0 = []" "world (tm tj0) = let_start" "m_CurTime (tm tj0) = TimerValue 100 0"
    by (simp_all add: tj0_def CEZTimerManager_new_def)
  let ?s5 = "ticker0\<lparr>timer_thread := tt, timer_runs := True, main_id := 7, flow := f2,
      jobs := tj0\<lparr>tm := m\<rparr>, at_main := M_Wait, tick_at := Some (5, TimerValue 100 0)\<rparr>"
  have s5: "ticker_run (Posix 8) fresh_addr (replicate 5 (Main_Step good_os 7 5) @ as) ticker0 =
      ticker_run (Posix 8) fresh_addr as ?s5" for as
    using f(1,2) tt m(1) j0
    by (simp add: numeral_eq_Suc ticker0_def tm_of_def pools_def let_start_def
      del: pipe_exec.simps CTimerProducers_Start_def)
  let ?m1 = "move_clock 101 m"
  have ok1: "timers_ok ?m1 [5]" using m(2) by (simp add: move_clock_ok)
  have cur1: "m_CurTime ?m1 = TimerValue 101 0" using m(3) by (simp add: move_clock_def)
  have job1: "timer_job (timers ?m1 5) = tick_job 9" "m_CallTime (timers ?m1 5) = TimerValue 100 0"
      "world ?m1 = let_start\<lparr>lets := [5 \<mapsto> None]\<rparr>"
    using m(4-6) by (simp_all add: move_clock_def Let_def)
  have "m_pHead ?m1 = Some 5" using ok1 dlist_head by (fastforce simp: timers_ok_def timer_repr_def)
  then have due: "due_head ?m1 = Some 5"
    using cur1 job1(2) by (simp add: due_head_def less_TimerValue_def tv_less_def compare_def)
  let ?R = "timer_threadlet_run (Posix 8) fresh_addr True 101"
  have "call_time ?m1 5 < m_CurTime ?m1" "tv_nat (m_CurTime ?m1) \<le> 2 ^ 64 - 2 ^ 32"
    using due_head_in(2) [OF ok1 due] cur1 by (simp_all add: tv_nat_def)
  then obtain m2 where m2: "Timer.run ?R 5 ?m1 = Some m2" using run_head [OF ok1, of 5 ?R] by auto
  obtain th where th: "world m2 = snd (?R 5 th (world ?m1))" "timer_job th = tick_job 9"
    using run_job [OF m2] job1(1) by auto
  define w where "w = world m2"
  have weq: "w = snd (?R 5 th (let_start\<lparr>lets := [5 \<mapsto> None]\<rparr>))"
    using th(1) by (simp only: w_def job1(3))
  have w: "made (mem w) = [1]" "pcs w 1 = P_Wait" "job_of (pooled (mem w) 1) = tick_job 9" "called w = []"
      "\<exists>r c. Wait (m_semaphore (pooled (mem w) 1)) = Done (r, c)"
    by (simp_all only: first_pooled [OF weq] th(2))
  then obtain r c where c: "Wait (m_semaphore (pooled (mem w) 1)) = Done (r, c)" by blast
  let ?j2 = "tj0\<lparr>in_round := True, tm := m2, runs := [(5, tick_job 9, fst (?R 5 (timers ?m1 5) (world ?m1)))]\<rparr>"
  let ?s7 = "?s5\<lparr>jobs := ?j2\<rparr>"
  have s7: "ticker_run (Posix 8) fresh_addr ([Round_Begin 101, Round_Run True 101] @ as) ?s5 =
      ticker_run (Posix 8) fresh_addr as ?s7" for as
    using m(3) due m2 job1 j0
    by (simp add: round_begin_def round_run_def tm_of_def pools_def)
  obtain t where t: "ticker_run (Posix 8) fresh_addr (replicate 4 (Pooled_Step 1 102)) ?s7 = Some t"
      "called (pools t) = [tick_job 9]" "flow t = g3"
  proof -
    have p: "pools ?s7 = w" "this_at ?s7 = 9" "flow ?s7 = f2" "in_proc ?s7 1 = TP_Out"
      by (simp_all add: pools_def w_def ticker0_def)
    have "1 \<in> set (made (mem w))" using w(1) by simp
    note runs = pooled_call_runs [where s = ?s7 and a = 1 and pl = "Posix 8" and new = fresh_addr, unfolded p,
      OF this w(2) refl c w(3) g(1-6), unfolded w(4) append_Nil]
    then show thesis using that by blast
  qed
  have "ticker_run (Posix 8) fresh_addr one_tick ticker0 = Some t"
    unfolding one_tick_def s5 s7 by (rule t(1))
  then show ?thesis using t(2) g(7) [folded t(3)]
    by (intro exI [of _ t] conjI)
qed

theorem ticks_in_order_witness:
  "\<exists>s. ticker_run (Posix 8) fresh_addr one_tick ticker0 = Some s \<and>
    length (filter (\<lambda>m. msg m = MSG_TYPE_TIMER) (sent (flow s))) = 1 \<and> 1 \<le> length (runs (jobs s)) \<and>
    reach pipe_init pipe_step (flow s)"
proof -
  obtain s where s: "ticker_run (Posix 8) fresh_addr one_tick ticker0 = Some s"
      "called (pools s) = [tick_job 9]" "map msg (sent (flow s)) = [MSG_TYPE_TIMER]"
    using one_tick_runs by (elim exE conjE) (rule that)
  have r: "ticker_reachable (Posix 8) fresh_addr s"
    by (rule ticker_run_reach [OF ticker0_reachable fresh_addr_fits s(1)])
  have "length (called (pools s)) \<le> length (runs (jobs s))" "reach pipe_init pipe_step (flow s)"
    using ticks_in_order [OF r] by blast+
  then show ?thesis using s by (intro exI [of _ s]) (auto simp: map_eq_Cons_conv)
qed

end
