(* ===== verification/LocalConsole.thy ===== *)
theory LocalConsole
  imports Thread
begin

section \<open>CLocalConsole: the local console\<close>

text \<open>
  \<^verbatim>\<open>tutorial_libezthread/Solar/LocalConsole.h\<close> and \<^verbatim>\<open>LocalConsole.cpp\<close>: a thread that reads
  characters, asks for a user and a password and then splits lines into words and runs the
  command the first word names. The arrays are kept with their bounds: reading or writing an
  element that is not there is undefined, and so is calling a NULL member pointer. What the
  console prints is part of the state. The arrays start with whatever the memory held. The
  branches compiled out (\<^verbatim>\<open>NO_UGM_MODEL\<close> is defined) are not modelled.
\<close>

subsection \<open>Data\<close>

datatype con_stat = DBG_OFF | DBG_USRNAME | DBG_PASSWD | DBG_LINE

datatype lvl_t = LVL_NONE | LVL_SPRTR | LVL_USR | LVL_SYS

datatype DBG_FXN = Proc_Helpme | Proc_iDev_Logout | Proc_iDev_SysReboot

record DBG_ATT =
  level :: lvl_t
  cmdStr :: string
  proc :: "DBG_FXN option"
  hlpStr :: string

definition SYS_MAX_USERNAME_LEN :: nat where
  "SYS_MAX_USERNAME_LEN = 6"

definition CMD_PUB_HELP :: string where
  "CMD_PUB_HELP = ''help''"

definition PROMPT_CONSOLE :: string where
  "PROMPT_CONSOLE = ''Sunflower''"

text \<open>The table has 64 entries; those behind the last one given are zero, which is \<^verbatim>\<open>LVL_NONE\<close>.\<close>

definition m_sDbgTbl :: "DBG_ATT list" where
  "m_sDbgTbl =
     [\<lparr>level = LVL_SPRTR, cmdStr = ''------'', proc = None, hlpStr = ''Basic Function --------------------''\<rparr>,
      \<lparr>level = LVL_USR, cmdStr = CMD_PUB_HELP, proc = Some Proc_Helpme, hlpStr = ''Dump the help message!''\<rparr>,
      \<lparr>level = LVL_USR, cmdStr = ''quit'', proc = Some Proc_iDev_Logout, hlpStr = ''logout''\<rparr>,
      \<lparr>level = LVL_USR, cmdStr = ''reboot'', proc = Some Proc_iDev_SysReboot, hlpStr = ''reboot''\<rparr>,
      \<lparr>level = LVL_NONE, cmdStr = ''none'', proc = None, hlpStr = ''The end!''\<rparr>]"

text \<open>
  \<^verbatim>\<open>m_dbParamTab\<close> is read and written by row and column; a pointer into it is such a pair.
\<close>

type_synonym param_tab = "nat \<Rightarrow> nat \<Rightarrow> char"

record CLocalConsole =
  m_bShowContinue :: EZTHREAD_BOOL
  m_pCurProc :: "DBG_FXN option"
  m_iState :: con_stat
  m_iWordPosition :: nat
  m_szData :: "nat \<Rightarrow> char"
  m_szUserName :: "nat \<Rightarrow> char"
  m_iParams :: nat
  m_dbParamTab :: param_tab
  m_iArgc :: nat
  m_pArgv :: "nat \<Rightarrow> (nat \<times> nat) option"
  printed :: string

definition NUL :: char where
  "NUL = CHR 0x00"

definition trace :: "string \<Rightarrow> CLocalConsole \<Rightarrow> CLocalConsole" where
  "trace x s = s\<lparr>printed := printed s @ x\<rparr>"

text \<open>The C string in an array of \<open>n\<close> characters, if it is terminated.\<close>

definition cstring :: "nat \<Rightarrow> (nat \<Rightarrow> char) \<Rightarrow> string option" where
  "cstring n f =
     (if NUL \<in> f ` {..<n} then Some (takeWhile (\<lambda>c. c \<noteq> NUL) (map f [0..<n])) else None)"

text \<open>A character given to \<^verbatim>\<open>printf\<close> as the format: a lone percent sign is undefined.\<close>

definition printf_char :: "char \<Rightarrow> CLocalConsole \<Rightarrow> CLocalConsole outcome" where
  "printf_char c s =
     (if c = CHR ''%'' then Undefined else Done (if c = NUL then s else trace [c] s))"

definition set_char :: "nat \<Rightarrow> nat \<Rightarrow> char \<Rightarrow> (nat \<Rightarrow> char) \<Rightarrow> (nat \<Rightarrow> char) outcome" where
  "set_char n k c f = (if k < n then Done (f(k := c)) else Undefined)"

subsection \<open>Construction and the commands\<close>

definition CLocalConsole_new :: "CLocalConsole \<Rightarrow> CLocalConsole" where
  "CLocalConsole_new raw =
     raw\<lparr>m_bShowContinue := False, m_iState := DBG_OFF, m_iWordPosition := 0, printed := []\<rparr>"

definition iDev_Logout :: "CLocalConsole \<Rightarrow> CLocalConsole" where
  "iDev_Logout s = trace (''iDev_Logout.'' @ newline) (s\<lparr>m_iState := DBG_OFF\<rparr>)"

definition iDev_SysReboot :: "CLocalConsole \<Rightarrow> CLocalConsole" where
  "iDev_SysReboot s = trace (''iDev_SysReboot ...'' @ newline) s"

definition rpad :: "nat \<Rightarrow> string \<Rightarrow> string" where
  "rpad n x = x @ replicate (n - length x) CHR '' ''"

fun help_lines :: "DBG_ATT list \<Rightarrow> string" where
  "help_lines [] = []"
| "help_lines (d # ds) =
     (if level d = LVL_SPRTR then ''------------------'' @ hlpStr d @ newline @ help_lines ds
      else if level d = LVL_NONE then []
      else rpad 9 (cmdStr d) @ ''         '' @ hlpStr d @ newline @ help_lines ds)"

definition Helpme :: "CLocalConsole \<Rightarrow> CLocalConsole" where
  "Helpme s =
     trace (help_lines m_sDbgTbl @
        ''-----------------------------------------------------'' @ newline @
        CHR 0x60 # ''cmd -h'' @ CHR 0x60 # '' for details.'' @ newline) s"

definition call_proc :: "DBG_FXN option \<Rightarrow> CLocalConsole \<Rightarrow> CLocalConsole outcome" where
  "call_proc p s =
     (case p of
        None \<Rightarrow> Undefined
      | Some Proc_Helpme \<Rightarrow> Done (Helpme s)
      | Some Proc_iDev_Logout \<Rightarrow> Done (iDev_Logout s)
      | Some Proc_iDev_SysReboot \<Rightarrow> Done (iDev_SysReboot s))"

subsection \<open>StrParse\<close>

definition set_param :: "int \<Rightarrow> nat \<Rightarrow> char \<Rightarrow> param_tab \<Rightarrow> param_tab outcome" where
  "set_param i j c tab =
     (if 0 \<le> i \<and> i < 16 \<and> j < 32 then Done (tab(nat i := (tab (nat i))(j := c))) else Undefined)"

text \<open>A word of 32 characters or more is skipped up to its end.\<close>

function skip_word :: "(nat \<Rightarrow> char) \<Rightarrow> nat \<Rightarrow> nat outcome" where
  "skip_word d k =
     (if 512 \<le> k then Undefined
      else if d k = NUL \<or> d k = CHR '' '' then Done k
      else skip_word d (Suc k))"
  by pat_completeness auto
termination by (relation "measure (\<lambda>(d, k). 512 - k)") auto

lemma skip_word_mono: "skip_word d k = Done m \<Longrightarrow> k \<le> m"
proof (induction d k rule: skip_word.induct)
  case (1 d k)
  then show ?case by (subst (asm) (2) skip_word.simps) (auto split: if_splits)
qed

declare skip_word.simps [simp del]

lemma obind_cong [fundef_cong]:
  "m = m' \<Longrightarrow> (\<And>x. m' = Done x \<Longrightarrow> f x = g x) \<Longrightarrow> obind m f = obind m' g"
  by (cases m') auto

text \<open>
  The loop over the line: the current word \<open>i\<close>, the next column \<open>j\<close>, the position \<open>k\<close> in the
  line and \<^verbatim>\<open>m_iParams\<close>.
\<close>

function parse_loop ::
    "(nat \<Rightarrow> char) \<Rightarrow> int \<Rightarrow> nat \<Rightarrow> nat \<Rightarrow> nat \<Rightarrow> param_tab \<Rightarrow> (int \<times> nat \<times> nat \<times> param_tab) outcome" where
  "parse_loop d i j k ps tab =
     (if 512 \<le> k then Undefined
      else if d k = NUL then Done (i, j, ps, tab)
      else if d k = CHR '' '' then
        obind (if 0 \<le> i then set_param i j NUL tab else Done tab) (\<lambda>tab.
        parse_loop d i 0 (Suc k) ps tab)
      else if j = 0 \<and> 16 \<le> i + 1 then Done (i + 1, j, ps, tab)
      else
        let i1 = (if j = 0 then i + 1 else i); ps1 = (if j = 0 then nat i1 else ps)
        in obind (set_param i1 j (d k) tab) (\<lambda>tab.
           obind (if 32 \<le> Suc j then skip_word d k else Done k) (\<lambda>k1.
           parse_loop d i1 (Suc j) (Suc k1) ps1 tab)))"
  by pat_completeness auto
termination
  by (relation "measure (\<lambda>(d, i, j, k, ps, tab). 512 - k)")
     (auto dest: skip_word_mono split: if_splits)

declare parse_loop.simps [simp del]

text \<open>\<open>Some (r, c)\<close> is the address of column \<open>c\<close> of row \<open>r\<close>.\<close>

definition GetCmd :: "CLocalConsole \<Rightarrow> (nat \<times> nat) option" where
  "GetCmd s =
     (if m_iParams s < 1 then None
      else if m_dbParamTab s 1 0 \<noteq> CHR ''-'' \<and> m_dbParamTab s 1 0 \<noteq> CHR ''/'' then Some (1, 0)
      else Some (1, 1))"

definition GetArg :: "nat \<Rightarrow> CLocalConsole \<Rightarrow> (nat \<times> nat) option" where
  "GetArg pos s = (if m_iParams s < pos + 2 then None else Some (pos + 2, 0))"

definition set_argv :: "nat \<Rightarrow> (nat \<times> nat) option \<Rightarrow> CLocalConsole \<Rightarrow> CLocalConsole outcome" where
  "set_argv n p s = (if n < 22 then Done (s\<lparr>m_pArgv := (m_pArgv s)(n := p)\<rparr>) else Undefined)"

function args_loop :: "nat \<Rightarrow> CLocalConsole \<Rightarrow> CLocalConsole outcome" where
  "args_loop ii s =
     (if ii \<le> 20 then
        obind (set_argv (ii + 2) (GetArg ii s) s) (\<lambda>s.
        if m_pArgv s (ii + 2) = None then Done s
        else args_loop (Suc ii) (s\<lparr>m_iArgc := m_iArgc s + 1\<rparr>))
      else Done s)"
  by pat_completeness auto
termination by (relation "measure (\<lambda>(ii, s). 21 - ii)") auto

declare args_loop.simps [simp del]

definition fill_argv :: "CLocalConsole \<Rightarrow> CLocalConsole outcome" where
  "fill_argv s =
     obind (set_argv 0 (Some (0, 0)) (s\<lparr>m_iArgc := 1\<rparr>)) (\<lambda>s.
     obind (set_argv 1 (GetCmd s) s) (\<lambda>s.
     if m_pArgv s 1 = None then Done (trace (''no cmd.'' @ newline) s)
     else args_loop 0 (s\<lparr>m_iArgc := m_iArgc s + 1\<rparr>)))"

text \<open>\<^verbatim>\<open>strncmp(word, cmdStr, strlen(word)) == 0\<close>: the word is a prefix of the command.\<close>

definition strncmp_equal :: "string \<Rightarrow> string \<Rightarrow> nat \<Rightarrow> bool" where
  "strncmp_equal x y n \<longleftrightarrow> take n x = take n y"

fun find_command :: "string \<Rightarrow> DBG_ATT list \<Rightarrow> DBG_ATT option" where
  "find_command w [] = None"
| "find_command w (d # ds) =
     (if level d = LVL_NONE then None
      else if strncmp_equal w (cmdStr d) (length w) then Some d
      else find_command w ds)"

definition unknown_command :: "string \<Rightarrow> string" where
  "unknown_command w =
     newline @ ''Unknow command:'' @ CHR 0x60 # w @ CHR 0x60 # '', '' @ CHR 0x27 # CMD_PUB_HELP @
     CHR 0x27 # '' show command.'' @ newline"

definition StrParse :: "CLocalConsole \<Rightarrow> CLocalConsole outcome" where
  "StrParse s =
     obind (parse_loop (m_szData s) (-1) 0 0 0 (m_dbParamTab s)) (\<lambda>(i, j, ps, tab).
     obind (set_param i j NUL tab) (\<lambda>tab.
     let s = s\<lparr>m_iParams := ps, m_dbParamTab := tab\<rparr>
     in case cstring 32 (tab 0) of
          None \<Rightarrow> Undefined
        | Some w \<Rightarrow>
            if length w < 3 then Done (trace (unknown_command w) s)
            else case find_command w m_sDbgTbl of
                   None \<Rightarrow> Done (trace (unknown_command w) s)
                 | Some d \<Rightarrow> obind (fill_argv (s\<lparr>m_pCurProc := proc d\<rparr>)) (call_proc (proc d))))"

subsection \<open>OnData\<close>

definition memcpy_name :: "(nat \<Rightarrow> char) \<Rightarrow> (nat \<Rightarrow> char) \<Rightarrow> nat \<Rightarrow> char" where
  "memcpy_name data old =
     (\<lambda>k. if k < SYS_MAX_USERNAME_LEN then data k
          else if k = SYS_MAX_USERNAME_LEN then NUL else old k)"

definition strcpy_name :: "string \<Rightarrow> (nat \<Rightarrow> char) \<Rightarrow> nat \<Rightarrow> char" where
  "strcpy_name x old = (\<lambda>k. if k < length x then x ! k else if k = length x then NUL else old k)"

definition trace_prompt :: "CLocalConsole \<Rightarrow> CLocalConsole outcome" where
  "trace_prompt s =
     (case cstring (SYS_MAX_USERNAME_LEN + 1) (m_szUserName s) of
        None \<Rightarrow> Undefined
      | Some u \<Rightarrow> Done (trace (newline @ ''['' @ u @ ''@'' @ PROMPT_CONSOLE @ '']# '') s))"

text \<open>The end of a line, in each of the states.\<close>

definition enter_login :: "CLocalConsole \<Rightarrow> CLocalConsole outcome" where
  "enter_login s =
     Done ((trace ([CHR 0x0C] @ newline @ ''(none) login:'') s)\<lparr>m_iState := DBG_USRNAME, m_iWordPosition := 0\<rparr>)"

definition enter_name :: "CLocalConsole \<Rightarrow> CLocalConsole outcome" where
  "enter_name s =
     obind (set_char 512 (m_iWordPosition s) NUL (m_szData s)) (\<lambda>d.
     Done ((trace (newline @ ''Password:'')
         (s\<lparr>m_szData := d, m_szUserName := memcpy_name d (m_szUserName s)\<rparr>))\<lparr>
       m_iWordPosition := 0, m_iState := DBG_PASSWD\<rparr>))"

definition enter_password :: "CLocalConsole \<Rightarrow> CLocalConsole outcome" where
  "enter_password s =
     obind (set_char 512 (m_iWordPosition s) NUL (m_szData s)) (\<lambda>d.
     trace_prompt (s\<lparr>m_szData := d,
       m_szUserName := (if m_szUserName s 0 = NUL then strcpy_name ''ezlibs'' (m_szUserName s)
                        else m_szUserName s),
       m_iWordPosition := 0, m_iState := DBG_LINE\<rparr>))"

definition enter_line :: "CLocalConsole \<Rightarrow> CLocalConsole outcome" where
  "enter_line s =
     obind
       (if 0 < m_iWordPosition s then
          obind (set_char 512 (m_iWordPosition s) NUL (m_szData s)) (\<lambda>d.
          obind (StrParse (trace [CHR 0x0D, CHR 0x0A] (s\<lparr>m_szData := d\<rparr>))) (\<lambda>s.
          Done (s\<lparr>m_iWordPosition := 0\<rparr>)))
        else Done s) (\<lambda>s.
     if m_bShowContinue s then
       Done (trace (CHR 0x09 # ''press '' @ CHR 0x27 # ''Q'' @ CHR 0x27 #
         '' to quit, any other key to continue ...'' @ newline @ newline) s)
     else trace_prompt s)"

definition enter :: "CLocalConsole \<Rightarrow> CLocalConsole outcome" where
  "enter s =
     (case m_iState s of
        DBG_OFF \<Rightarrow> enter_login s
      | DBG_USRNAME \<Rightarrow> enter_name s
      | DBG_PASSWD \<Rightarrow> enter_password s
      | DBG_LINE \<Rightarrow> enter_line s)"

definition back_space :: "CLocalConsole \<Rightarrow> CLocalConsole" where
  "back_space s =
     (if m_iWordPosition s \<noteq> 0 then
        (trace [CHR 0x08, CHR '' '', CHR 0x08] s)\<lparr>m_iWordPosition := m_iWordPosition s - 1\<rparr>
      else s)"

definition typed :: "char \<Rightarrow> CLocalConsole \<Rightarrow> CLocalConsole outcome" where
  "typed c s =
     obind (set_char 512 (m_iWordPosition s) c (m_szData s)) (\<lambda>d.
     obind (printf_char (if m_iState s = DBG_PASSWD then CHR ''*'' else c)
       (s\<lparr>m_szData := d, m_iWordPosition := m_iWordPosition s + 1\<rparr>)) (\<lambda>s.
     Done (if 500 \<le> m_iWordPosition s then s\<lparr>m_iWordPosition := 0\<rparr> else s)))"

definition continue_proc :: "char \<Rightarrow> CLocalConsole \<Rightarrow> CLocalConsole outcome" where
  "continue_proc c s =
     (if c = CHR ''q'' \<or> c = CHR ''Q'' then
        Done (trace (newline @ ''DEBUG>'') (s\<lparr>m_bShowContinue := False\<rparr>))
      else obind (call_proc (m_pCurProc s) s) (\<lambda>s.
        Done (trace (if m_bShowContinue s
                     then ''press '' @ CHR 0x27 # ''Q'' @ CHR 0x27 #
                       '' to quit, any other key to continue ...'' @ newline @ newline
                     else newline @ ''DEBUG>'') s)))"

text \<open>The case of a line end has no \<^verbatim>\<open>break\<close> of its own and runs into that of a backspace.\<close>

definition is_enter :: "char \<Rightarrow> bool" where
  "is_enter c \<longleftrightarrow> c = CHR 0x0A \<or> c = CHR 0x0D"

definition on_char :: "char \<Rightarrow> CLocalConsole \<Rightarrow> CLocalConsole outcome" where
  "on_char c s =
     (if m_bShowContinue s then continue_proc c s
      else if is_enter c then obind (enter s) (\<lambda>s. Done (back_space s))
      else if c = CHR 0x08 then Done (back_space s)
      else typed c s)"

fun OnData :: "string \<Rightarrow> CLocalConsole \<Rightarrow> CLocalConsole outcome" where
  "OnData [] s = Done s"
| "OnData (c # cs) s = obind (on_char c s) (OnData cs)"

subsection \<open>The thread\<close>

text \<open>
  One turn of the loop of \<^verbatim>\<open>ThreadProc\<close> with the result of \<^verbatim>\<open>getchar\<close>, of which \<^verbatim>\<open>ch\<close> keeps the
  low byte.
\<close>

definition console_turn :: "int \<Rightarrow> CLocalConsole \<Rightarrow> CLocalConsole outcome" where
  "console_turn r s =
     (let ch = char_of (nat (r mod 256)) in if ch \<noteq> NUL then OnData [ch] s else Done s)"

definition THREAD_PRIORITY_COM :: int where
  "THREAD_PRIORITY_COM = 1"

definition console_thread :: "platform \<Rightarrow> CEZThread \<Rightarrow> CEZThread" where
  "console_thread p old = CEZThread_new p old ''LocalConsole'' THREAD_PRIORITY_COM 1024 0"

definition console_Start :: "thread_os \<Rightarrow> CEZThread \<Rightarrow> (EZTHREAD_BOOL \<times> CEZThread) outcome" where
  "console_Start os t = obind (CreateThread os t) (\<lambda>(_, t). Done (True, t))"

definition console_Stop :: "u32 \<Rightarrow> int \<Rightarrow> CEZThread \<Rightarrow> (EZTHREAD_BOOL \<times> CEZThread) outcome" where
  "console_Stop now self t = obind (DestroyThread now self False t) (\<lambda>(_, t). Done (True, t))"

subsection \<open>Logging in\<close>

lemma trace_fields [simp]:
  "m_bShowContinue (trace x s) = m_bShowContinue s" "m_iState (trace x s) = m_iState s"
  "m_iWordPosition (trace x s) = m_iWordPosition s" "m_szData (trace x s) = m_szData s"
  "m_szUserName (trace x s) = m_szUserName s" "m_iParams (trace x s) = m_iParams s"
  "m_dbParamTab (trace x s) = m_dbParamTab s" "m_iArgc (trace x s) = m_iArgc s"
  "m_pArgv (trace x s) = m_pArgv s" "m_pCurProc (trace x s) = m_pCurProc s"
  "printed (trace x s) = printed s @ x"
  by (simp_all add: trace_def)

text \<open>The login after \<open>n\<close> line ends.\<close>

definition login_stage :: "nat \<Rightarrow> CLocalConsole \<Rightarrow> bool" where
  "login_stage n s \<longleftrightarrow> \<not> m_bShowContinue s \<and> m_iWordPosition s < 500 \<and>
     m_iState s = [DBG_OFF, DBG_USRNAME, DBG_PASSWD, DBG_LINE] ! n \<and>
     (2 \<le> n \<longrightarrow> m_szUserName s SYS_MAX_USERNAME_LEN = NUL)"

lemma trace_prompt_ok:
  assumes "m_szUserName s SYS_MAX_USERNAME_LEN = NUL"
  shows "\<exists>x. trace_prompt s = Done (trace x s)"
proof -
  have "NUL \<in> m_szUserName s ` {..<SYS_MAX_USERNAME_LEN + 1}"
    using assms by (intro image_eqI [of _ _ SYS_MAX_USERNAME_LEN]) auto
  then show ?thesis by (auto simp: trace_prompt_def cstring_def)
qed

lemma login_enter:
  assumes "login_stage n s" and "n < 3"
  shows "\<exists>s'. enter s = Done s' \<and> login_stage (Suc n) s' \<and> m_iWordPosition s' = 0"
proof -
  consider "n = 0" | "n = 1" | "n = 2" using assms(2) by linarith
  then show ?thesis
  proof cases
    case 1
    then show ?thesis using assms(1) by (simp add: login_stage_def enter_def enter_login_def)
  next
    case 2
    then show ?thesis using assms(1)
      by (simp add: login_stage_def enter_def enter_name_def set_char_def memcpy_name_def)
  next
    case 3
    let ?s = "s\<lparr>m_szData := (m_szData s)(m_iWordPosition s := NUL),
        m_szUserName := (if m_szUserName s 0 = NUL then strcpy_name ''ezlibs'' (m_szUserName s)
          else m_szUserName s), m_iWordPosition := 0, m_iState := DBG_LINE\<rparr>"
    have u: "m_szUserName ?s SYS_MAX_USERNAME_LEN = NUL"
      using assms(1) 3 by (simp add: login_stage_def strcpy_name_def SYS_MAX_USERNAME_LEN_def)
    then obtain x where "trace_prompt ?s = Done (trace x ?s)" using trace_prompt_ok by blast
    then have "enter s = Done (trace x ?s)"
      using assms(1) 3 by (simp add: login_stage_def enter_def enter_password_def set_char_def)
    moreover have "login_stage 3 (trace x ?s)"
      using assms(1) u by (simp add: login_stage_def)
    ultimately show ?thesis using 3 by (simp add: numeral_3_eq_3)
  qed
qed

lemma login_typed:
  assumes "login_stage n s" and "c \<noteq> CHR ''%''"
  shows "\<exists>s'. typed c s = Done s' \<and> login_stage n s'"
  using assms by (auto simp: typed_def set_char_def printf_char_def login_stage_def)

lemma login_back: "login_stage n s \<Longrightarrow> login_stage n (back_space s)"
  by (auto simp: back_space_def login_stage_def)

lemma login_char:
  assumes "login_stage n s" and "c \<noteq> CHR ''%''" and "is_enter c \<Longrightarrow> n < 3"
  shows "\<exists>s'. on_char c s = Done s' \<and> login_stage (if is_enter c then Suc n else n) s'"
proof -
  have "\<not> m_bShowContinue s" using assms(1) by (simp add: login_stage_def)
  then show ?thesis
    using login_enter [OF assms(1)] login_typed [OF assms(1,2)] login_back assms
    by (fastforce simp: on_char_def)
qed

text \<open>
  C26. Until three line ends have come the console is in a login state that depends on their
  number only: whatever name and whatever password are typed, the third line end opens the
  command line. No text without a percent sign, however long, leaves the input buffer.
\<close>

theorem login_accepts_all:
  assumes "\<not> m_bShowContinue s" and "m_iState s = DBG_OFF" and "m_iWordPosition s = 0"
    and "CHR ''%'' \<notin> set cs" and "length (filter is_enter cs) \<le> 3"
  shows "\<exists>s'. OnData cs s = Done s' \<and> m_iWordPosition s' < 500 \<and>
    m_iState s' = [DBG_OFF, DBG_USRNAME, DBG_PASSWD, DBG_LINE] ! length (filter is_enter cs)"
proof -
  have "\<exists>s'. OnData cs s = Done s' \<and> login_stage (n + length (filter is_enter cs)) s'"
    if "login_stage n s" "CHR ''%'' \<notin> set cs" "n + length (filter is_enter cs) \<le> 3" for n
    using that
  proof (induction cs arbitrary: n s)
    case (Cons c cs)
    then obtain s1 where s1: "on_char c s = Done s1" "login_stage (if is_enter c then Suc n else n) s1"
      using login_char [of n s c] by (auto split: if_splits)
    then show ?case using Cons.IH [OF s1(2)] Cons.prems by auto
  qed simp
  from this [of 0] show ?thesis using assms by (auto simp: login_stage_def)
qed

text \<open>
  The missing \<^verbatim>\<open>break\<close> does no harm: after a line end there is no character to take back. A
  percent sign typed outside the password is undefined, and the end of the input, which
  \<^verbatim>\<open>getchar\<close> reports as -1, counts as a typed character every turn.
\<close>

lemma enter_then_back:
  assumes "enter s = Done s'"
  shows "back_space s' = s'"
proof -
  have "trace_prompt s1 = Done s2 \<Longrightarrow> m_iWordPosition s2 = m_iWordPosition s1" for s1 s2
    by (auto simp: trace_prompt_def split: option.splits)
  then have "m_iWordPosition s' = 0"
    using assms
    by (auto simp: enter_def enter_login_def enter_name_def enter_password_def enter_line_def
        split: con_stat.splits if_splits)
  then show ?thesis by (simp add: back_space_def)
qed

lemma typed_percent:
  "m_iState s \<noteq> DBG_PASSWD \<Longrightarrow> typed CHR ''%'' s = Undefined"
  by (simp add: typed_def set_char_def printf_char_def)

lemma eof_is_typed: "\<not> m_bShowContinue s \<Longrightarrow> console_turn (-1) s = typed CHR 0xFF s"
proof -
  have "char_of (255 :: nat) = CHR 0xFF" by code_simp
  then show "\<not> m_bShowContinue s \<Longrightarrow> console_turn (-1) s = typed CHR 0xFF s"
    by (cases "typed CHR 0xFF s") (simp_all add: console_turn_def Let_def on_char_def is_enter_def NUL_def)
qed

text \<open>A console fresh from its constructor.\<close>

definition fresh_console :: CLocalConsole where
  "fresh_console = CLocalConsole_new
     \<lparr>m_bShowContinue = True, m_pCurProc = None, m_iState = DBG_LINE, m_iWordPosition = 9,
      m_szData = (\<lambda>_. CHR ''x''), m_szUserName = (\<lambda>_. CHR ''x''), m_iParams = 7,
      m_dbParamTab = (\<lambda>_ _. CHR ''x''), m_iArgc = 5, m_pArgv = (\<lambda>_. None), printed = []\<rparr>"

definition CR :: char where
  "CR = CHR 0x0D"

definition example_login :: string where
  "example_login = ''joe'' @ [CR] @ ''root'' @ [CR] @ ''wrong'' @ [CR]"

theorem login_accepts_all_witness:
  "\<exists>s'. OnData example_login fresh_console = Done s' \<and> m_iState s' = DBG_LINE"
proof -
  have c: "\<not> m_bShowContinue fresh_console" "m_iState fresh_console = DBG_OFF" "m_iWordPosition fresh_console = 0"
    by (simp_all add: fresh_console_def CLocalConsole_new_def)
  have e: "CHR ''%'' \<notin> set example_login" "length (filter is_enter example_login) = 3"
    by (simp_all add: example_login_def is_enter_def CR_def)
  then have "length (filter is_enter example_login) \<le> 3" by simp
  from login_accepts_all [OF c e(1) this] show ?thesis by (auto simp: e(2))
qed

subsection \<open>Lines that parse\<close>

text \<open>\<open>holds_at d k xs\<close>: the buffer holds \<open>xs\<close> from position \<open>k\<close> on.\<close>

fun holds_at :: "(nat \<Rightarrow> char) \<Rightarrow> nat \<Rightarrow> string \<Rightarrow> bool" where
  "holds_at d k [] \<longleftrightarrow> True"
| "holds_at d k (x # xs) \<longleftrightarrow> d k = x \<and> holds_at d (Suc k) xs"

lemma holds_at_append: "holds_at d k (xs @ ys) \<longleftrightarrow> holds_at d k xs \<and> holds_at d (k + length xs) ys"
  by (induction xs arbitrary: k) auto

definition word_ok :: "string \<Rightarrow> bool" where
  "word_ok w \<longleftrightarrow> w \<noteq> [] \<and> length w < 32 \<and> NUL \<notin> set w \<and> CHR '' '' \<notin> set w"

fun join_words :: "string list \<Rightarrow> string" where
  "join_words [] = []"
| "join_words [w] = w"
| "join_words (w # v # ws) = w @ CHR '' '' # join_words (v # ws)"

text \<open>The characters of a word in its row.\<close>

definition row_chars :: "param_tab \<Rightarrow> nat \<Rightarrow> string \<Rightarrow> bool" where
  "row_chars tab r w \<longleftrightarrow> (\<forall>c < length w. tab r c = w ! c)"

definition row_string :: "param_tab \<Rightarrow> nat \<Rightarrow> string \<Rightarrow> bool" where
  "row_string tab r w \<longleftrightarrow> row_chars tab r w \<and> tab r (length w) = NUL"

lemma row_string_cstring:
  assumes "row_string tab r w" and "word_ok w"
  shows "cstring 32 (tab r) = Some w"
proof -
  have n: "length w < 32" "tab r (length w) = NUL" "NUL \<notin> set w" "\<forall>c < length w. tab r c = w ! c"
    using assms by (auto simp: row_string_def row_chars_def word_ok_def)
  have "[0..<32] = [0..<length w] @ length w # [Suc (length w)..<32]"
    using n(1) by (metis le_add_diff_inverse less_imp_le_nat upt_add_eq_append upt_conv_Cons zero_le)
  moreover have "map (tab r) [0..<length w] = w" using n(4) by (auto intro: nth_equalityI)
  ultimately have "map (tab r) [0..<32] = w @ NUL # map (tab r) [Suc (length w)..<32]"
    using n(2) by simp
  then have "takeWhile (\<lambda>c. c \<noteq> NUL) (map (tab r) [0..<32]) = w"
    using n(3) by (simp add: takeWhile_append)
  moreover have "NUL \<in> tab r ` {..<32}" using n(1,2) by (intro image_eqI [of _ _ "length w"]) auto
  ultimately show ?thesis by (simp add: cstring_def)
qed

text \<open>The rest of a word goes to its row.\<close>

lemma parse_word_rest:
  "holds_at d k w \<Longrightarrow> NUL \<notin> set w \<Longrightarrow> CHR '' '' \<notin> set w \<Longrightarrow> 0 < j \<Longrightarrow> j + length w < 32 \<Longrightarrow>
   k + length w < 512 \<Longrightarrow> 0 \<le> i \<Longrightarrow> i < 16 \<Longrightarrow>
   \<exists>tab'. parse_loop d i j k ps tab = parse_loop d i (j + length w) (k + length w) ps tab' \<and>
     (\<forall>r. r \<noteq> nat i \<longrightarrow> tab' r = tab r) \<and> (\<forall>c < j. tab' (nat i) c = tab (nat i) c) \<and>
     (\<forall>c < length w. tab' (nat i) (j + c) = w ! c)"
proof (induction w arbitrary: j k tab)
  case (Cons x w)
  let ?tab = "tab(nat i := (tab (nat i))(j := x))"
  have "parse_loop d i j k ps tab = parse_loop d i (Suc j) (Suc k) ps ?tab"
  proof -
    have "d k = x" "x \<noteq> NUL" "x \<noteq> CHR '' ''" using Cons.prems(1-3) by auto
    then show ?thesis using Cons.prems(4-8) by (subst parse_loop.simps) (simp add: set_param_def Let_def)
  qed
  moreover have p: "holds_at d (Suc k) w" "NUL \<notin> set w" "CHR '' '' \<notin> set w" "0 < Suc j"
      "Suc j + length w < 32" "Suc k + length w < 512"
    using Cons.prems by auto
  obtain tab' where t: "parse_loop d i (Suc j) (Suc k) ps ?tab =
        parse_loop d i (Suc j + length w) (Suc k + length w) ps tab'"
      "\<forall>r. r \<noteq> nat i \<longrightarrow> tab' r = ?tab r" "\<forall>c < Suc j. tab' (nat i) c = ?tab (nat i) c"
      "\<forall>c < length w. tab' (nat i) (Suc j + c) = w ! c"
    using Cons.IH [OF p Cons.prems(7,8), of ?tab] by blast
  moreover have "tab' (nat i) (j + c) = (x # w) ! c" if "c < length (x # w)" for c
    using t(3,4) that by (cases c) auto
  ultimately show ?case by (intro exI [of _ tab']) auto
qed auto

lemma parse_word:
  assumes "holds_at d k w" and "word_ok w" and "k + length w < 512" and "-1 \<le> i" and "i < 15"
  shows "\<exists>tab'. parse_loop d i 0 k ps tab =
      parse_loop d (i + 1) (length w) (k + length w) (nat (i + 1)) tab' \<and>
    (\<forall>r. r \<noteq> nat (i + 1) \<longrightarrow> tab' r = tab r) \<and> row_chars tab' (nat (i + 1)) w"
proof -
  obtain x v where w: "w = x # v" using assms(2) by (cases w) (auto simp: word_ok_def)
  let ?i = "i + 1"
  let ?tab = "tab(nat ?i := (tab (nat ?i))(0 := x))"
  have x: "d k = x" "x \<noteq> NUL" "x \<noteq> CHR '' ''" using assms(1,2) by (auto simp: w word_ok_def)
  have v: "holds_at d (Suc k) v" "NUL \<notin> set v" "CHR '' '' \<notin> set v" "1 + length v < 32" "Suc k + length v < 512"
    using assms(1-3) by (auto simp: w word_ok_def)
  have "parse_loop d i 0 k ps tab = parse_loop d ?i 1 (Suc k) (nat ?i) ?tab"
    using x assms(3-5) by (subst parse_loop.simps) (simp add: set_param_def Let_def)
  moreover have "0 \<le> ?i" "?i < 16" using assms(4,5) by simp_all
  then obtain tab' where t: "parse_loop d ?i 1 (Suc k) (nat ?i) ?tab =
        parse_loop d ?i (1 + length v) (Suc k + length v) (nat ?i) tab'"
      "\<forall>r. r \<noteq> nat ?i \<longrightarrow> tab' r = ?tab r" "\<forall>c < 1. tab' (nat ?i) c = ?tab (nat ?i) c"
      "\<forall>c < length v. tab' (nat ?i) (1 + c) = v ! c"
    using parse_word_rest [OF v(1-3) zero_less_one v(4,5), of ?i "nat ?i" ?tab] by blast
  moreover have "row_chars tab' (nat ?i) w"
    unfolding row_chars_def w
  proof (intro allI impI)
    fix c
    assume "c < length (x # v)"
    then show "tab' (nat ?i) c = (x # v) ! c" using t(3,4) by (cases c) auto
  qed
  ultimately show ?thesis by (intro exI [of _ tab']) (simp add: w)
qed

lemma parse_space:
  assumes "d k = CHR '' ''" and "k < 512" and "0 \<le> i" and "i < 16" and "j < 32"
  shows "parse_loop d i j k ps tab = parse_loop d i 0 (Suc k) ps (tab(nat i := (tab (nat i))(j := NUL)))"
  using assms by (subst parse_loop.simps) (simp add: set_param_def NUL_def)

lemma parse_leading:
  "holds_at d k (replicate n CHR '' '') \<Longrightarrow> k + n < 512 \<Longrightarrow>
   parse_loop d (-1) 0 k ps tab = parse_loop d (-1) 0 (k + n) ps tab"
proof (induction n arbitrary: k)
  case (Suc n)
  then have "parse_loop d (-1) 0 k ps tab = parse_loop d (-1) 0 (Suc k) ps tab"
    by (subst parse_loop.simps) (simp add: NUL_def)
  then show ?case using Suc.IH [of "Suc k"] Suc.prems by simp
qed simp

text \<open>Words with one blank between them fill the rows from the next one on.\<close>

lemma parse_words:
  "holds_at d k (join_words ws) \<Longrightarrow> d (k + length (join_words ws)) = NUL \<Longrightarrow>
   k + length (join_words ws) < 512 \<Longrightarrow> \<forall>w \<in> set ws. word_ok w \<Longrightarrow> ws \<noteq> [] \<Longrightarrow>
   -1 \<le> i \<Longrightarrow> i + int (length ws) < 16 \<Longrightarrow>
   \<exists>tab'. parse_loop d i 0 k ps tab =
       Done (i + int (length ws), length (last ws), nat (i + int (length ws)), tab') \<and>
     (\<forall>r. int r \<le> i \<longrightarrow> tab' r = tab r) \<and>
     (\<forall>m < length ws - 1. row_string tab' (nat (i + 1) + m) (ws ! m)) \<and>
     row_chars tab' (nat (i + int (length ws))) (last ws)"
proof (induction ws arbitrary: k i ps tab rule: join_words.induct)
  case (2 w)
  then obtain tab' where "parse_loop d i 0 k ps tab =
        parse_loop d (i + 1) (length w) (k + length w) (nat (i + 1)) tab'"
      "\<forall>r. r \<noteq> nat (i + 1) \<longrightarrow> tab' r = tab r" "row_chars tab' (nat (i + 1)) w"
    using parse_word [of d k w i ps tab] by auto
  moreover have "parse_loop d (i + 1) (length w) (k + length w) (nat (i + 1)) tab' =
      Done (i + 1, length w, nat (i + 1), tab')" for tab'
    using 2 by (subst parse_loop.simps) simp
  ultimately show ?case by (intro exI [of _ tab']) auto
next
  case (3 w v ws)
  let ?j = "join_words (v # ws)"
  have h: "holds_at d k w" "d (k + length w) = CHR '' ''" "holds_at d (Suc (k + length w)) ?j"
    using "3.prems"(1) by (auto simp: holds_at_append)
  have ok: "word_ok w" "length w < 32" using "3.prems"(4) by (auto simp: word_ok_def)
  have len: "Suc (k + length w) + length ?j < 512" "d (Suc (k + length w) + length ?j) = NUL"
    using "3.prems"(2,3) by (auto simp: add.assoc)
  have i: "-1 \<le> i" "i < 15" "0 \<le> i + 1" "i + 1 < 16" using "3.prems"(6,7) by auto
  obtain t1 where t1: "parse_loop d i 0 k ps tab =
        parse_loop d (i + 1) (length w) (k + length w) (nat (i + 1)) t1"
      "\<forall>r. r \<noteq> nat (i + 1) \<longrightarrow> t1 r = tab r" "row_chars t1 (nat (i + 1)) w"
    using parse_word [OF h(1) ok(1) _ i(1,2), of ps tab] len(1) by auto
  let ?t2 = "t1(nat (i + 1) := (t1 (nat (i + 1)))(length w := NUL))"
  have s: "parse_loop d (i + 1) (length w) (k + length w) (nat (i + 1)) t1 =
      parse_loop d (i + 1) 0 (Suc (k + length w)) (nat (i + 1)) ?t2"
    using parse_space [of d "k + length w" "i + 1" "length w"] h(2) i(3,4) ok(2) len(1) by simp
  have all: "\<forall>w \<in> set (v # ws). word_ok w" using "3.prems"(4) by simp
  have i2: "-1 \<le> i + 1" "i + 1 + int (length (v # ws)) < 16" using i(1) "3.prems"(7) by simp_all
  obtain t3 where t3: "parse_loop d (i + 1) 0 (Suc (k + length w)) (nat (i + 1)) ?t2 =
        Done (i + 1 + int (length (v # ws)), length (last (v # ws)), nat (i + 1 + int (length (v # ws))), t3)"
      "\<forall>r. int r \<le> i + 1 \<longrightarrow> t3 r = ?t2 r"
      "\<forall>m < length (v # ws) - 1. row_string t3 (nat (i + 1 + 1) + m) ((v # ws) ! m)"
      "row_chars t3 (nat (i + 1 + int (length (v # ws)))) (last (v # ws))"
    using "3.IH" [OF h(3) len(2,1) all _ i2, of "nat (i + 1)" ?t2] by blast
  have "t3 (nat (i + 1)) = ?t2 (nat (i + 1))" using t3(2) i(3) by simp
  then have "t3 (nat (i + 1)) = (t1 (nat (i + 1)))(length w := NUL)" by simp
  then have r: "row_string t3 (nat (i + 1)) w" using t1(3) by (simp add: row_string_def row_chars_def)
  have "row_string t3 (nat (i + 1) + m) ((w # v # ws) ! m)" if "m < length (w # v # ws) - 1" for m
  proof (cases m)
    case (Suc n)
    have e: "nat (i + 1) + Suc n = nat (i + 1 + 1) + n" using i(3) by simp
    have "n < length (v # ws) - 1" using that Suc by simp
    then have "row_string t3 (nat (i + 1 + 1) + n) ((v # ws) ! n)" using t3(3) by blast
    then have "row_string t3 (nat (i + 1) + Suc n) ((v # ws) ! n)" by (simp only: e)
    then show ?thesis by (simp add: Suc)
  qed (use r in simp)
  moreover have "t3 q = tab q" if "int q \<le> i" for q
  proof -
    have "q \<noteq> nat (i + 1)" using that i(3) by auto
    then show ?thesis using t3(2) t1(2) that by simp
  qed
  ultimately show ?case using t1(1) s t3(1,4) by (intro exI [of _ t3]) (auto simp: algebra_simps)
qed simp

text \<open>A line as it should be: blanks, then words with one blank between two of them.\<close>

definition line_of :: "nat \<Rightarrow> string list \<Rightarrow> string" where
  "line_of n ws = replicate n CHR '' '' @ join_words ws"

definition in_buffer :: "(nat \<Rightarrow> char) \<Rightarrow> string \<Rightarrow> bool" where
  "in_buffer d x \<longleftrightarrow> length x < 512 \<and> holds_at d 0 x \<and> d (length x) = NUL"

lemma StrParse_rows:
  assumes "in_buffer d (line_of n ws)" and "ws \<noteq> []" and "length ws \<le> 16" and "\<forall>w \<in> set ws. word_ok w"
  shows "\<exists>tab1 tab2 j. parse_loop d (-1) 0 0 0 tab = Done (int (length ws) - 1, j, length ws - 1, tab1) \<and>
    set_param (int (length ws) - 1) j NUL tab1 = Done tab2 \<and>
    (\<forall>m < length ws. row_string tab2 m (ws ! m))"
proof -
  have h: "holds_at d 0 (replicate n CHR '' '')" "holds_at d n (join_words ws)"
      "n + length (join_words ws) < 512" "d (n + length (join_words ws)) = NUL"
    using assms(1) by (auto simp: in_buffer_def line_of_def holds_at_append)
  have b: "(-1::int) \<le> -1" "-1 + int (length ws) < 16" using assms(3) by auto
  have e: "parse_loop d (-1) 0 0 0 tab = parse_loop d (-1) 0 n 0 tab"
    using parse_leading [of d 0 n 0 tab] h(1,3) by simp
  obtain t where t: "parse_loop d (-1) 0 n 0 tab =
        Done (-1 + int (length ws), length (last ws), nat (-1 + int (length ws)), t)"
      "\<forall>m < length ws - 1. row_string t (nat (-1 + 1) + m) (ws ! m)"
      "row_chars t (nat (-1 + int (length ws))) (last ws)"
    using parse_words [OF h(2,4,3) assms(4,2) b, of 0 tab] by blast
  let ?l = "length ws - 1" and ?t = "t(length ws - 1 := (t (length ws - 1))(length (last ws) := NUL))"
  have l: "nat (-1 + int (length ws)) = ?l" "-1 + int (length ws) = int (length ws) - 1" "ws ! ?l = last ws"
    using assms(2) by (auto simp: last_conv_nth nat_diff_distrib)
  have "length (last ws) < 32" using assms(2,4) by (simp add: word_ok_def)
  then have "set_param (int (length ws) - 1) (length (last ws)) NUL t = Done ?t"
    using assms(2,3) l(1,2) by (simp add: set_param_def)
  moreover have "row_string ?t m (ws ! m)" if "m < length ws" for m
  proof (cases "m = ?l")
    case True
    then show ?thesis using t(3) l by (simp add: row_string_def row_chars_def)
  next
    case False
    then have "m < ?l" using that by simp
    then show ?thesis using t(2) False by (simp add: row_string_def row_chars_def)
  qed
  ultimately show ?thesis using e t(1) l by metis
qed

text \<open>The arguments handed to a command.\<close>

lemma args_loop_ok:
  "m_iParams s < 16 \<Longrightarrow> ii \<le> m_iParams s \<Longrightarrow>
   \<exists>s'. args_loop ii s = Done s' \<and> s' = s\<lparr>m_iArgc := m_iArgc s', m_pArgv := m_pArgv s'\<rparr> \<and>
     m_iArgc s' = m_iArgc s + (m_iParams s - 1 - ii) \<and>
     (\<forall>k. 2 + ii \<le> k \<and> k \<le> m_iParams s \<longrightarrow> m_pArgv s' k = Some (k, 0)) \<and>
     (\<forall>k < 2 + ii. m_pArgv s' k = m_pArgv s k)"
proof (induction "m_iParams s - ii" arbitrary: ii s)
  case 0
  then have "GetArg ii s = None" by (simp add: GetArg_def)
  with 0 show ?case
    by (intro exI [of _ "s\<lparr>m_pArgv := (m_pArgv s)(ii + 2 := None)\<rparr>"])
       (subst args_loop.simps, auto simp: set_argv_def)
next
  case (Suc x)
  show ?case
  proof (cases "m_iParams s < ii + 2")
    case True
    then have "GetArg ii s = None" by (simp add: GetArg_def)
    with True Suc.prems show ?thesis
      by (intro exI [of _ "s\<lparr>m_pArgv := (m_pArgv s)(ii + 2 := None)\<rparr>"])
         (subst args_loop.simps, auto simp: set_argv_def)
  next
    case False
    let ?s = "s\<lparr>m_pArgv := (m_pArgv s)(ii + 2 := Some (ii + 2, 0)), m_iArgc := m_iArgc s + 1\<rparr>"
    have e: "args_loop ii s = args_loop (Suc ii) ?s"
      using False Suc.prems by (subst args_loop.simps) (simp add: set_argv_def GetArg_def)
    have x: "x = m_iParams ?s - Suc ii" using Suc.hyps(2) by simp
    have p: "m_iParams ?s < 16" "Suc ii \<le> m_iParams ?s" using Suc.prems False by simp_all
    obtain s' where s': "args_loop (Suc ii) ?s = Done s'" "s' = ?s\<lparr>m_iArgc := m_iArgc s', m_pArgv := m_pArgv s'\<rparr>"
        "m_iArgc s' = m_iArgc ?s + (m_iParams ?s - 1 - Suc ii)"
        "\<forall>k. 2 + Suc ii \<le> k \<and> k \<le> m_iParams ?s \<longrightarrow> m_pArgv s' k = Some (k, 0)"
        "\<forall>k < 2 + Suc ii. m_pArgv s' k = m_pArgv ?s k"
      using Suc.hyps(1) [OF x] p by blast
    have "m_pArgv s' k = Some (k, 0)" if "2 + ii \<le> k \<and> k \<le> m_iParams s" for k
      using s'(4,5) that by (cases "k = 2 + ii") auto
    moreover have "s' = s\<lparr>m_iArgc := m_iArgc s', m_pArgv := m_pArgv s'\<rparr>" by (subst s'(2)) simp
    moreover have "m_iArgc s' = m_iArgc s + (m_iParams s - 1 - ii)" using s'(3) False by simp
    moreover have "\<forall>k < 2 + ii. m_pArgv s' k = m_pArgv s k" using s'(5) by simp
    ultimately show ?thesis using e s'(1) by (intro exI [of _ s']) simp
  qed
qed

lemma fill_argv_ok:
  assumes "m_iParams s < 16"
  shows "\<exists>s' x. fill_argv s = Done s' \<and> s' = s\<lparr>m_iArgc := m_iArgc s', m_pArgv := m_pArgv s', printed := x\<rparr> \<and>
    m_iArgc s' = m_iParams s + 1 \<and> m_pArgv s' 0 = Some (0, 0) \<and> m_pArgv s' 1 = GetCmd s \<and>
    (\<forall>k. 2 \<le> k \<and> k \<le> m_iParams s \<longrightarrow> m_pArgv s' k = Some (k, 0))"
proof -
  let ?s = "s\<lparr>m_iArgc := 1, m_pArgv := (m_pArgv s)(0 := Some (0, 0), 1 := GetCmd s)\<rparr>"
  have g: "GetCmd (s\<lparr>m_iArgc := a, m_pArgv := f\<rparr>) = GetCmd s" for a f by (simp add: GetCmd_def)
  show ?thesis
  proof (cases "m_iParams s = 0")
    case True
    then have "GetCmd s = None" by (simp add: GetCmd_def)
    then have "fill_argv s = Done (trace (''no cmd.'' @ newline) ?s)"
      by (simp add: fill_argv_def set_argv_def g)
    then show ?thesis using True \<open>GetCmd s = None\<close> by (auto simp: trace_def)
  next
    case False
    then have c: "GetCmd s \<noteq> None" by (simp add: GetCmd_def)
    then have e: "fill_argv s = args_loop 0 (?s\<lparr>m_iArgc := 2\<rparr>)"
      by (auto simp: fill_argv_def set_argv_def g numeral_2_eq_2)
    obtain s' where s': "args_loop 0 (?s\<lparr>m_iArgc := 2\<rparr>) = Done s'"
        "s' = (?s\<lparr>m_iArgc := 2\<rparr>)\<lparr>m_iArgc := m_iArgc s', m_pArgv := m_pArgv s'\<rparr>"
        "m_iArgc s' = 2 + (m_iParams s - 1)"
        "\<forall>k. 2 \<le> k \<and> k \<le> m_iParams s \<longrightarrow> m_pArgv s' k = Some (k, 0)"
        "\<forall>k < 2. m_pArgv s' k = m_pArgv ?s k"
      using args_loop_ok [of "?s\<lparr>m_iArgc := 2\<rparr>" 0] assms by auto
    have "s' = s\<lparr>m_iArgc := m_iArgc s', m_pArgv := m_pArgv s', printed := printed s\<rparr>"
      by (subst s'(2)) simp
    moreover have "fill_argv s = Done s'" using e s'(1) by simp
    moreover have "m_iArgc s' = m_iParams s + 1" using s'(3) False by simp
    moreover have "m_pArgv s' 0 = Some (0, 0)" "m_pArgv s' 1 = GetCmd s" using s'(5) by simp_all
    ultimately show ?thesis using s'(4) by blast
  qed
qed

text \<open>What a line of words does.\<close>

definition dispatch :: "string \<Rightarrow> CLocalConsole \<Rightarrow> CLocalConsole outcome" where
  "dispatch w s =
     (case (if length w < 3 then None else find_command w m_sDbgTbl) of
        None \<Rightarrow> Done (trace (unknown_command w) s)
      | Some d \<Rightarrow> call_proc (proc d) s)"

text \<open>
  C25. A line of one to sixteen words of fewer than 32 characters, with one blank between two
  words and any number before the first, fills the rows of the table with exactly its words.
  A first word of three or more characters that is a prefix of a command of the table runs
  the first such command, with one argument for every word; any other is reported as unknown.
\<close>

theorem StrParse_line:
  assumes "in_buffer (m_szData s) (line_of n ws)" and "ws \<noteq> []" and "length ws \<le> 16"
    and "\<forall>w \<in> set ws. word_ok w"
  shows "\<exists>s1. StrParse s = dispatch (hd ws) s1 \<and>
    (\<forall>m < length ws. cstring 32 (m_dbParamTab s1 m) = Some (ws ! m)) \<and>
    m_iParams s1 = length ws - 1 \<and> m_iState s1 = m_iState s \<and> m_bShowContinue s1 = m_bShowContinue s \<and>
    (3 \<le> length (hd ws) \<and> find_command (hd ws) m_sDbgTbl \<noteq> None \<longrightarrow>
       m_iArgc s1 = length ws \<and> m_pArgv s1 0 = Some (0, 0) \<and>
       (1 < length ws \<longrightarrow> m_pArgv s1 1 \<in> {Some (1, 0), Some (1, 1)}) \<and>
       (\<forall>k. 2 \<le> k \<and> k < length ws \<longrightarrow> m_pArgv s1 k = Some (k, 0)))"
proof -
  obtain t1 t2 j where t: "parse_loop (m_szData s) (-1) 0 0 0 (m_dbParamTab s) =
        Done (int (length ws) - 1, j, length ws - 1, t1)"
      "set_param (int (length ws) - 1) j NUL t1 = Done t2" "\<forall>m < length ws. row_string t2 m (ws ! m)"
    using StrParse_rows [OF assms] by blast
  let ?s = "s\<lparr>m_iParams := length ws - 1, m_dbParamTab := t2\<rparr>"
  have rows: "cstring 32 (t2 m) = Some (ws ! m)" if "m < length ws" for m
    using row_string_cstring t(3) assms(4) that by simp
  have w0: "cstring 32 (t2 0) = Some (hd ws)" using rows [of 0] assms(2) by (simp add: hd_conv_nth)
  show ?thesis
  proof (cases "length (hd ws) < 3 \<or> find_command (hd ws) m_sDbgTbl = None")
    case True
    then have "StrParse s = dispatch (hd ws) ?s"
      using t(1,2) w0 by (auto simp: StrParse_def dispatch_def Let_def)
    then show ?thesis using rows True by (intro exI [of _ ?s]) auto
  next
    case False
    then obtain d where d: "find_command (hd ws) m_sDbgTbl = Some d" "\<not> length (hd ws) < 3" by auto
    let ?s1 = "?s\<lparr>m_pCurProc := proc d\<rparr>"
    have lt: "m_iParams ?s1 < 16" using assms(2,3) by (cases ws) auto
    obtain s2 x where s2: "fill_argv ?s1 = Done s2"
        "s2 = ?s1\<lparr>m_iArgc := m_iArgc s2, m_pArgv := m_pArgv s2, printed := x\<rparr>"
        "m_iArgc s2 = m_iParams ?s1 + 1" "m_pArgv s2 0 = Some (0, 0)" "m_pArgv s2 1 = GetCmd ?s1"
        "\<forall>k. 2 \<le> k \<and> k \<le> m_iParams ?s1 \<longrightarrow> m_pArgv s2 k = Some (k, 0)"
      using fill_argv_ok [OF lt] by blast
    have f: "m_dbParamTab s2 = t2" "m_iParams s2 = length ws - 1" "m_iState s2 = m_iState s"
        "m_bShowContinue s2 = m_bShowContinue s"
      by (subst s2(2), simp)+
    have "StrParse s = dispatch (hd ws) s2"
      using t(1,2) w0 d s2(1) by (simp add: StrParse_def dispatch_def Let_def)
    moreover have "GetCmd ?s1 \<in> {Some (1, 0), Some (1, 1)}" if "1 < length ws"
      using that by (simp add: GetCmd_def)
    ultimately show ?thesis
      using rows f s2(3-6) assms(2) by (intro exI [of _ s2]) (auto simp: Suc_leI)
  qed
qed

text \<open>The buffer after a line has been typed.\<close>

definition buffer_of :: "string \<Rightarrow> nat \<Rightarrow> char" where
  "buffer_of x = (\<lambda>k. if k < length x then x ! k else NUL)"

lemma in_buffer_of: "length x < 512 \<Longrightarrow> in_buffer (buffer_of x) x"
proof -
  have "holds_at (buffer_of (ys @ xs)) (length ys) xs" for xs ys
  proof (induction xs arbitrary: ys)
    case (Cons a xs)
    then show ?case using Cons [of "ys @ [a]"] by (simp add: buffer_of_def)
  qed simp
  from this [of "[]" x] show "length x < 512 \<Longrightarrow> in_buffer (buffer_of x) x"
    by (simp add: in_buffer_def buffer_of_def)
qed

definition example_line :: "string list" where
  "example_line = [''hel'', ''-v'', ''x'']"

theorem StrParse_line_witness:
  "\<exists>s1. StrParse (fresh_console\<lparr>m_szData := buffer_of (line_of 2 example_line)\<rparr>) = dispatch ''hel'' s1 \<and>
     m_iArgc s1 = 3"
proof -
  let ?s = "fresh_console\<lparr>m_szData := buffer_of (line_of 2 example_line)\<rparr>"
  have "in_buffer (m_szData ?s) (line_of 2 example_line)"
    using in_buffer_of [of "line_of 2 example_line"] by (simp add: line_of_def example_line_def)
  moreover have "example_line \<noteq> []" "length example_line \<le> 16" "\<forall>w \<in> set example_line. word_ok w"
    by (simp_all add: example_line_def word_ok_def NUL_def)
  ultimately obtain s1 where "StrParse ?s = dispatch (hd example_line) s1"
      "3 \<le> length (hd example_line) \<and> find_command (hd example_line) m_sDbgTbl \<noteq> None \<longrightarrow>
        m_iArgc s1 = length example_line"
    using StrParse_line [of ?s 2 example_line] by blast
  moreover have "find_command (hd example_line) m_sDbgTbl \<noteq> None"
    by (simp add: example_line_def m_sDbgTbl_def strncmp_equal_def CMD_PUB_HELP_def)
  ultimately show ?thesis by (auto simp: example_line_def)
qed

text \<open>
  C36. Lines that differ little from these: a blank at the end of a line of one word erases the
  word, so that even a command is unknown; a line of blanks writes before the table, and the
  separator of the help text calls a NULL pointer.
\<close>

theorem StrParse_hazards:
  "(in_buffer (m_szData s) (replicate n CHR '' '') \<longrightarrow> StrParse s = Undefined) \<and>
   (word_ok w \<and> in_buffer (m_szData s) (w @ '' '') \<longrightarrow>
      (\<exists>s1. StrParse s = Done (trace (unknown_command []) s1))) \<and>
   (in_buffer (m_szData s) ''---'' \<longrightarrow> StrParse s = Undefined)"
proof (intro conjI impI)
  assume b: "in_buffer (m_szData s) (replicate n CHR '' '')"
  then have "parse_loop (m_szData s) (-1) 0 0 0 (m_dbParamTab s) =
      parse_loop (m_szData s) (-1) 0 n 0 (m_dbParamTab s)"
    using parse_leading [of "m_szData s" 0 n] by (simp add: in_buffer_def)
  also have "\<dots> = Done (-1, 0, 0, m_dbParamTab s)"
    using b by (subst parse_loop.simps) (simp add: in_buffer_def)
  finally show "StrParse s = Undefined" by (simp add: StrParse_def set_param_def)
next
  assume a: "word_ok w \<and> in_buffer (m_szData s) (w @ '' '')"
  let ?d = "m_szData s"
  have h: "holds_at ?d 0 w" "?d (length w) = CHR '' ''" "?d (Suc (length w)) = NUL" "Suc (length w) < 512"
    using a by (auto simp: in_buffer_def holds_at_append)
  obtain t where t: "parse_loop ?d (-1) 0 0 0 (m_dbParamTab s) = parse_loop ?d 0 (length w) (length w) 0 t"
    using parse_word [OF h(1), of "-1" 0 "m_dbParamTab s"] a h(4) by auto
  let ?t = "t(0 := (t 0)(length w := NUL))"
  have "parse_loop ?d 0 (length w) (length w) 0 t = parse_loop ?d 0 0 (Suc (length w)) 0 ?t"
    using parse_space [of ?d "length w" 0 "length w" 0 t] h a by (simp add: word_ok_def)
  also have "\<dots> = Done (0, 0, 0, ?t)" using h by (subst parse_loop.simps) simp
  finally have p: "parse_loop ?d (-1) 0 0 0 (m_dbParamTab s) = Done (0, 0, 0, ?t)" using t by simp
  let ?t2 = "?t(0 := (?t 0)(0 := NUL))"
  have "cstring 32 (?t2 0) = Some []"
    by (simp add: cstring_def upt_conv_Cons image_iff)
  then have "StrParse s = Done (trace (unknown_command []) (s\<lparr>m_iParams := 0, m_dbParamTab := ?t2\<rparr>))"
    using p by (simp add: StrParse_def set_param_def Let_def)
  then show "\<exists>s1. StrParse s = Done (trace (unknown_command []) s1)" by blast
next
  assume b: "in_buffer (m_szData s) ''---''"
  have l: "in_buffer (m_szData s) (line_of 0 [''---''])" "\<forall>w \<in> set [''---'']. word_ok w"
    using b by (simp_all add: line_of_def word_ok_def NUL_def)
  obtain t1 t2 j where t: "parse_loop (m_szData s) (-1) 0 0 0 (m_dbParamTab s) = Done (0, j, 0, t1)"
      "set_param 0 j NUL t1 = Done t2" "row_string t2 0 ''---''"
    using StrParse_rows [OF l(1) _ _ l(2), of "m_dbParamTab s"] by auto
  have w: "cstring 32 (t2 0) = Some ''---''" by (rule row_string_cstring [OF t(3)]) (simp add: word_ok_def NUL_def)
  let ?s1 = "s\<lparr>m_iParams := 0, m_dbParamTab := t2, m_pCurProc := None\<rparr>"
  obtain s2 where "fill_argv ?s1 = Done s2" using fill_argv_ok [of ?s1] by auto
  then show "StrParse s = Undefined"
    using t(1,2) w by (simp add: StrParse_def Let_def m_sDbgTbl_def strncmp_equal_def call_proc_def)
qed

theorem StrParse_hazards_witness:
  "StrParse (fresh_console\<lparr>m_szData := buffer_of '' ''\<rparr>) = Undefined \<and>
   (\<exists>s1. StrParse (fresh_console\<lparr>m_szData := buffer_of ''help ''\<rparr>) = Done (trace (unknown_command []) s1)) \<and>
   StrParse (fresh_console\<lparr>m_szData := buffer_of ''---''\<rparr>) = Undefined"
proof -
  have b: "in_buffer (m_szData (fresh_console\<lparr>m_szData := buffer_of x\<rparr>)) x" if "length x < 512" for x
    using in_buffer_of [OF that] by simp
  show ?thesis
    using StrParse_hazards [of "fresh_console\<lparr>m_szData := buffer_of '' ''\<rparr>" 1 "''help''"]
      StrParse_hazards [of "fresh_console\<lparr>m_szData := buffer_of ''help ''\<rparr>" 1 "''help''"]
      StrParse_hazards [of "fresh_console\<lparr>m_szData := buffer_of ''---''\<rparr>" 1 "''help''"]
      b [of "'' ''"] b [of "''help ''"] b [of "''---''"]
    by (simp add: word_ok_def NUL_def)
qed

end
