(* ===== verification/Solar.thy ===== *)
theory Solar
  imports LocalConsole TimerJobs
begin

section \<open>The Solar program\<close>

text \<open>
  \<^verbatim>\<open>tutorial_libezthread/Solar/Solar.cpp\<close> and \<^verbatim>\<open>Main.cpp\<close>: the file lock by which a program
  lets only one instance of itself run, and the program around the console: how it starts its
  threads, waits, and ends by a signal. \<^verbatim>\<open>Initialize\<close> has the call of \<^verbatim>\<open>already_running\<close> under
  \<^verbatim>\<open>#if 0\<close>, and \<^verbatim>\<open>main\<close> that of \<^verbatim>\<open>daemon_init\<close>; both functions are compiled, and modelled here for
  themselves.
\<close>

subsection \<open>The system calls on the file\<close>

text \<open>
  The file with its text and the process that has locked it. A write lock of \<^verbatim>\<open>fcntl\<close> belongs
  to a process: it is refused, with \<^verbatim>\<open>EACCES\<close> or \<^verbatim>\<open>EAGAIN\<close>, while another process has it; it is
  given again to the process that has it; and it goes when that process closes any
  descriptor of the file, or ends. Any call may fail for reasons of the system.
  \<open>won\<close> are the processes alive in which \<^verbatim>\<open>already_running\<close> has returned 0, \<open>undef\<close> is set when
  \<^verbatim>\<open>sprintf\<close> overflows its buffer.
\<close>

datatype inst_pc =
    I_Out            \<comment> \<open>not in a call yet\<close>
  | I_Open           \<comment> \<open>before \<^verbatim>\<open>open\<close>\<close>
  | I_Lock           \<comment> \<open>before \<^verbatim>\<open>lockfile\<close>\<close>
  | I_Close          \<comment> \<open>before \<^verbatim>\<open>close\<close>; the lock was refused\<close>
  | I_Trunc          \<comment> \<open>before \<^verbatim>\<open>ftruncate\<close>; the lock was given\<close>
  | I_Write string   \<comment> \<open>before \<^verbatim>\<open>write\<close> of these bytes\<close>
  | I_Back int       \<comment> \<open>the call has returned\<close>
  | I_End int        \<comment> \<open>the process has ended\<close>

record instances =
  pid_file :: "string option"
  lock_owner :: "nat option"
  insts :: "nat \<Rightarrow> inst_pc"
  won :: "nat set"
  undef :: bool

datatype errno = EACCES | EAGAIN | Other_Errno

text \<open>How the system answers the calls of one step.\<close>

record inst_os =
  open_ok :: bool
  refusal :: errno
  lock_fails :: bool
  trunc_ok :: bool
  written :: nat

definition open_file :: "instances \<Rightarrow> instances" where
  "open_file s = s\<lparr>pid_file := Some (case pid_file s of None \<Rightarrow> [] | Some x \<Rightarrow> x)\<rparr>"

definition close_file :: "nat \<Rightarrow> instances \<Rightarrow> instances" where
  "close_file p s = (if lock_owner s = Some p then s\<lparr>lock_owner := None\<rparr> else s)"

definition ftruncate :: "inst_os \<Rightarrow> instances \<Rightarrow> instances" where
  "ftruncate os s = (if trunc_ok os then s\<lparr>pid_file := Some []\<rparr> else s)"

text \<open>A \<^verbatim>\<open>write\<close> at the start of the file.\<close>

definition write_file :: "inst_os \<Rightarrow> string \<Rightarrow> instances \<Rightarrow> instances" where
  "write_file os b s =
     s\<lparr>pid_file := map_option (\<lambda>x. take (written os) b @ drop (min (written os) (length b)) x) (pid_file s)\<rparr>"

definition end_process :: "int \<Rightarrow> nat \<Rightarrow> instances \<Rightarrow> instances" where
  "end_process c p s = (close_file p s)\<lparr>insts := (insts s)(p := I_End c), won := won s - {p}\<rparr>"

subsection \<open>\<^verbatim>\<open>already_running\<close>\<close>

text \<open>\<^verbatim>\<open>lockfile\<close>: \<^verbatim>\<open>None\<close> is the result 0, an error the result -1 with \<^verbatim>\<open>errno\<close>.\<close>

definition lockfile :: "inst_os \<Rightarrow> nat \<Rightarrow> instances \<Rightarrow> errno option \<times> instances" where
  "lockfile os p s =
     (if lock_fails os then (Some Other_Errno, s)
      else case lock_owner s of
        None \<Rightarrow> (None, s\<lparr>lock_owner := Some p\<rparr>)
      | Some q \<Rightarrow> if q = p then (None, s) else (Some (refusal os), s))"

definition inst_at :: "nat \<Rightarrow> inst_pc \<Rightarrow> instances \<Rightarrow> instances" where
  "inst_at p c s = s\<lparr>insts := (insts s)(p := c)\<rparr>"

text \<open>
  The steps of \<^verbatim>\<open>already_running\<close> in the process \<open>p\<close>. The results of \<^verbatim>\<open>ftruncate\<close> and \<^verbatim>\<open>write\<close> are
  not looked at.
\<close>

fun running_step :: "inst_os \<Rightarrow> nat \<Rightarrow> inst_pc \<Rightarrow> instances \<Rightarrow> instances option" where
  "running_step os p I_Open s =
     Some (if open_ok os then inst_at p I_Lock (open_file s) else end_process (-1) p s)"
| "running_step os p I_Lock s =
     (case lockfile os p s of
        (None, s) \<Rightarrow> Some (inst_at p I_Trunc s)
      | (Some e, s) \<Rightarrow> Some (if e = EACCES \<or> e = EAGAIN then inst_at p I_Close s
                             else end_process (-1) p s))"
| "running_step os p I_Close s = Some (inst_at p (I_Back (-1)) (close_file p s))"
| "running_step os p I_Trunc s =
     (case sprintf 16 (dec (int p)) of
        Done buf \<Rightarrow> Some (inst_at p (I_Write (buf @ [LocalConsole.NUL])) (ftruncate os s))
      | _ \<Rightarrow> Some (s\<lparr>undef := True\<rparr>))"
| "running_step os p (I_Write b) s =
     Some (inst_at p (I_Back 0) (write_file os b s)\<lparr>won := insert p (won s)\<rparr>)"
| "running_step os p _ s = None"

text \<open>
  Processes call \<^verbatim>\<open>already_running\<close>, again if they like, go on in it, and end, whether by
  themselves or killed. A \<^verbatim>\<open>pid_t\<close> is a positive \<^verbatim>\<open>int\<close>; that of a process that has ended may be
  used again.
\<close>

datatype inst_action = Ask nat | Go inst_os nat | Quit nat int

fun outside :: "inst_pc \<Rightarrow> bool" where
  "outside I_Out = True"
| "outside (I_Back r) = True"
| "outside (I_End c) = True"
| "outside _ = False"

fun inst_exec :: "inst_action \<Rightarrow> instances \<Rightarrow> instances option" where
  "inst_exec (Ask p) s =
     (if 0 < p \<and> int p < 2 ^ 31 \<and> outside (insts s p) then Some (inst_at p I_Open s) else None)"
| "inst_exec (Go os p) s = running_step os p (insts s p) s"
| "inst_exec (Quit p c) s = (case insts s p of I_End _ \<Rightarrow> None | _ \<Rightarrow> Some (end_process c p s))"

text \<open>With \<open>full\<close>, \<^verbatim>\<open>ftruncate\<close> and \<^verbatim>\<open>write\<close> do their work.\<close>

fun full_action :: "inst_action \<Rightarrow> bool" where
  "full_action (Go os p) = (trunc_ok os \<and> 16 \<le> written os)"
| "full_action _ = True"

definition inst_step :: "bool \<Rightarrow> instances \<Rightarrow> instances \<Rightarrow> bool" where
  "inst_step full s t \<longleftrightarrow> (\<exists>a. (full \<longrightarrow> full_action a) \<and> inst_exec a s = Some t)"

definition inst_init :: "instances \<Rightarrow> bool" where
  "inst_init s \<longleftrightarrow> lock_owner s = None \<and> (\<forall>p. insts s p = I_Out) \<and> won s = {} \<and> \<not> undef s"

subsection \<open>One instance\<close>

text \<open>A process past the lock, or with the result 0, has it.\<close>

fun past_lock :: "inst_pc \<Rightarrow> bool" where
  "past_lock I_Trunc = True"
| "past_lock (I_Write b) = True"
| "past_lock (I_Back r) = (r = 0)"
| "past_lock _ = False"

definition own_text :: "nat \<Rightarrow> string" where
  "own_text p = dec (int p) @ [LocalConsole.NUL]"

text \<open>What holds of the process \<open>p\<close> at every moment.\<close>

definition inst_ok :: "bool \<Rightarrow> instances \<Rightarrow> nat \<Rightarrow> bool" where
  "inst_ok full s p \<longleftrightarrow>
     (past_lock (insts s p) \<or> p \<in> won s \<longrightarrow> lock_owner s = Some p) \<and>
     (insts s p = I_Close \<longrightarrow> lock_owner s \<noteq> Some p) \<and>
     (insts s p = I_Back 0 \<longrightarrow> p \<in> won s \<and> (full \<longrightarrow> pid_file s = Some (own_text p))) \<and>
     (\<forall>b. insts s p = I_Write b \<longrightarrow> b = own_text p \<and> (full \<longrightarrow> pid_file s = Some [])) \<and>
     (\<not> outside (insts s p) \<longrightarrow> int p < 2 ^ 31) \<and>
     (\<not> outside (insts s p) \<and> insts s p \<noteq> I_Open \<or> insts s p = I_Back 0 \<longrightarrow> pid_file s \<noteq> None)"

definition inst_inv :: "bool \<Rightarrow> instances \<Rightarrow> bool" where
  "inst_inv full s \<longleftrightarrow> \<not> undef s \<and> (\<forall>p. inst_ok full s p)"

lemma pid_text: "int p < 2 ^ 31 \<Longrightarrow> length (dec (int p)) \<le> 11"
  by (rule length_dec_int) simp_all

lemma write_own:
  assumes "int p < 2 ^ 31" and "16 \<le> n"
  shows "take n (own_text p) = own_text p"
  using pid_text [OF assms(1)] assms(2) by (simp add: own_text_def)

text \<open>
  A step of \<open>p\<close> keeps what holds of the others if it leaves the file alone, or if \<open>p\<close> has the
  lock, and if it gives the lock only to \<open>p\<close> and takes it only from \<open>p\<close>.
\<close>

lemma inst_ok_other:
  assumes "inst_ok full s q" and "q \<noteq> p" and "insts t q = insts s q" and "q \<in> won t \<longleftrightarrow> q \<in> won s"
    and "lock_owner t = Some q \<longleftrightarrow> lock_owner s = Some q"
    and "pid_file t = pid_file s \<or> pid_file s = None \<or> lock_owner s = Some p"
    and "pid_file s \<noteq> None \<longrightarrow> pid_file t \<noteq> None"
  shows "inst_ok full t q"
proof -
  have "pid_file t = pid_file s" if "past_lock (insts s q)"
  proof -
    have "lock_owner s = Some q" "pid_file s \<noteq> None"
      using that assms(1) by (cases "insts s q"; auto simp: inst_ok_def)+
    then show ?thesis using assms(2,6) by auto
  qed
  then have "pid_file t = pid_file s" if "insts s q = I_Back 0 \<or> (\<exists>b. insts s q = I_Write b)"
    using that by auto
  then show ?thesis using assms(1,3-5,7) unfolding inst_ok_def by (cases "insts s q") auto
qed

lemma inst_step_frame:
  assumes "inst_inv full s" and "undef t = undef s" and "inst_ok full t p"
    and "\<And>q. q \<noteq> p \<Longrightarrow> insts t q = insts s q \<and> (q \<in> won t \<longleftrightarrow> q \<in> won s) \<and>
      (lock_owner t = Some q \<longleftrightarrow> lock_owner s = Some q)"
    and "pid_file t = pid_file s \<or> pid_file s = None \<or> lock_owner s = Some p"
    and "pid_file s \<noteq> None \<longrightarrow> pid_file t \<noteq> None"
  shows "inst_inv full t"
proof -
  have "inst_ok full t q" for q
  proof (cases "q = p")
    case False
    have "inst_ok full s q" using assms(1) by (simp add: inst_inv_def)
    then show ?thesis using inst_ok_other [OF _ False] assms(4) [OF False] assms(5,6) by blast
  qed (simp add: assms(3))
  then show ?thesis using assms(1,2) by (simp add: inst_inv_def)
qed

lemma end_process_inv:
  assumes "inst_inv full s"
  shows "inst_inv full (end_process c p s)"
  using assms
  by (rule inst_step_frame [where p = p])
    (auto simp: end_process_def close_file_def inst_ok_def)

lemmas running_defs = inst_at_def open_file_def close_file_def ftruncate_def write_file_def lockfile_def

lemma running_step_inv:
  assumes "inst_inv full s" and "running_step os p (insts s p) s = Some t"
    and "full \<longrightarrow> trunc_ok os \<and> 16 \<le> written os"
  shows "inst_inv full t"
proof -
  have ok: "inst_ok full s p" using assms(1) by (simp add: inst_inv_def)
  show ?thesis
  proof (cases "insts s p")
    case I_Open
    show ?thesis
    proof (cases "open_ok os")
      case True
      then show ?thesis using assms(2) ok I_Open
        by (intro inst_step_frame [OF assms(1), where p = p]) (auto simp: running_defs inst_ok_def split: option.splits)
    qed (use assms(2) I_Open end_process_inv [OF assms(1)] in auto)
  next
    case I_Lock
    show ?thesis
    proof (cases "lock_fails os \<or> (\<exists>q. lock_owner s = Some q \<and> q \<noteq> p)")
      case True
      then have "lockfile os p s = (Some (if lock_fails os then Other_Errno else refusal os), s)"
        by (auto simp: lockfile_def)
      then obtain e where e: "lockfile os p s = (Some e, s)" by blast
      show ?thesis
      proof (cases "e = EACCES \<or> e = EAGAIN")
        case True
        moreover have "lock_owner s \<noteq> Some p" using e \<open>lock_fails os \<or> _\<close> True
          by (auto simp: lockfile_def split: if_splits)
        ultimately show ?thesis using assms(2) ok I_Lock e
          by (intro inst_step_frame [OF assms(1), where p = p]) (auto simp: inst_at_def inst_ok_def)
      qed (use assms(2) I_Lock e end_process_inv [OF assms(1)] in auto)
    next
      case False
      then have l: "lock_owner s = None \<or> lock_owner s = Some p" by (cases "lock_owner s") auto
      have "fst (lockfile os p s) = None" "snd (lockfile os p s) = s\<lparr>lock_owner := Some p\<rparr>"
        using l False by (auto simp: lockfile_def)
      then have "lockfile os p s = (None, s\<lparr>lock_owner := Some p\<rparr>)" by (simp add: prod_eq_iff)
      then have t: "t = inst_at p I_Trunc (s\<lparr>lock_owner := Some p\<rparr>)" using assms(2) I_Lock by simp
      show ?thesis using ok I_Lock l unfolding t
        by (intro inst_step_frame [OF assms(1), where p = p]) (auto simp: inst_at_def inst_ok_def)
    qed
  next
    case I_Close
    then show ?thesis using assms(2) ok
      by (intro inst_step_frame [OF assms(1), where p = p]) (auto simp: running_defs inst_ok_def)
  next
    case I_Trunc
    then have "int p < 2 ^ 31" using ok by (simp add: inst_ok_def)
    then have "sprintf 16 (dec (int p)) = Done (dec (int p))"
      using pid_text [of p] by (simp add: sprintf_def)
    then show ?thesis using assms(2,3) ok I_Trunc
      by (intro inst_step_frame [OF assms(1), where p = p]) (auto simp: running_defs inst_ok_def own_text_def split: if_splits)
  next
    case (I_Write b)
    then have b: "b = own_text p" "int p < 2 ^ 31" "lock_owner s = Some p" "pid_file s \<noteq> None"
        "full \<longrightarrow> pid_file s = Some []"
      using ok by (auto simp: inst_ok_def)
    then show ?thesis using assms(2,3) I_Write write_own [of p "written os"]
      by (intro inst_step_frame [OF assms(1), where p = p]) (auto simp: running_defs inst_ok_def)
  qed (use assms(2) in simp_all)
qed

lemma inst_step_inv:
  assumes "inst_step full s t" and "inst_inv full s"
  shows "inst_inv full t"
proof -
  obtain a where a: "full \<longrightarrow> full_action a" "inst_exec a s = Some t"
    using assms(1) by (auto simp: inst_step_def)
  show ?thesis
  proof (cases a)
    case (Ask p)
    then show ?thesis using a assms(2)
      by (intro inst_step_frame [OF assms(2), where p = p])
        (auto simp: inst_at_def inst_ok_def inst_inv_def split: if_splits)
  next
    case (Go os p)
    then show ?thesis using a running_step_inv [OF assms(2)] by auto
  next
    case (Quit p c)
    then show ?thesis using a end_process_inv [OF assms(2)] by (auto split: inst_pc.splits)
  qed
qed

lemma inst_init_inv: "inst_init s \<Longrightarrow> inst_inv full s"
  by (auto simp: inst_init_def inst_inv_def inst_ok_def)

interpretation inst_system: invariant_system inst_init "inst_step full" "inst_inv full" for full
  by unfold_locales (auto intro: inst_init_inv inst_step_inv)

text \<open>
  C9. However any number of processes call \<^verbatim>\<open>already_running\<close>, end and are killed, and
  whatever the system answers: the call returns 0 to at most one of the processes alive, and
  its buffer is never too small. Only if every \<^verbatim>\<open>ftruncate\<close> and \<^verbatim>\<open>write\<close> does its work (\<open>full\<close>)
  does the file also hold the number of the process whose call has returned 0; the code
  does not look at their results, and otherwise the file can hold anything (lemma
  \<open>stale_pid_file\<close>).
\<close>

theorem single_instance:
  assumes "reach inst_init (inst_step full) s"
  shows "(p \<in> won s \<and> q \<in> won s \<longrightarrow> p = q) \<and> \<not> undef s \<and>
    (insts s p = I_Back 0 \<longrightarrow> p \<in> won s \<and> (full \<longrightarrow> pid_file s = Some (own_text p)))"
proof -
  have inv: "inst_inv full s" by (rule inst_system.reach_inv [OF assms])
  then have "inst_ok full s p" "inst_ok full s q" by (simp_all add: inst_inv_def)
  then have "p \<in> won s \<longrightarrow> lock_owner s = Some p" "q \<in> won s \<longrightarrow> lock_owner s = Some q"
      "insts s p = I_Back 0 \<longrightarrow> p \<in> won s \<and> (full \<longrightarrow> pid_file s = Some (own_text p))"
    by (simp_all add: inst_ok_def)
  then show ?thesis using inv by (auto simp: inst_inv_def)
qed

fun inst_run :: "inst_action list \<Rightarrow> instances \<Rightarrow> instances option" where
  "inst_run [] s = Some s"
| "inst_run (a # as) s = Option.bind (inst_exec a s) (inst_run as)"

lemma inst_run_reach:
  assumes "reach inst_init (inst_step full) s" and "inst_run as s = Some t"
    and "full \<longrightarrow> list_all full_action as"
  shows "reach inst_init (inst_step full) t"
  using assms
proof (induction as arbitrary: s)
  case (Cons a as)
  then obtain u where "inst_exec a s = Some u" "inst_run as u = Some t"
    by (auto simp: bind_eq_Some_conv)
  moreover from this(1) have "inst_step full s u"
    using Cons.prems(3) by (auto simp: inst_step_def)
  ultimately show ?case
    using Cons.IH [OF reach_step [OF Cons.prems(1)]] Cons.prems(3) by simp
qed simp

definition ready_os :: inst_os where
  "ready_os = \<lparr>open_ok = True, refusal = EAGAIN, lock_fails = False, trunc_ok = True, written = 20\<rparr>"

definition no_instances :: instances where
  "no_instances = \<lparr>pid_file = Some ''9999999'', lock_owner = None, insts = (\<lambda>_. I_Out), won = {}, undef = False\<rparr>"

text \<open>Two processes race; the second finds the lock taken while the first has still to write.\<close>

definition two_instances :: "inst_action list" where
  "two_instances = [Ask 100, Ask 200, Go ready_os 200, Go ready_os 100, Go ready_os 100,
     Go ready_os 200, Go ready_os 100, Go ready_os 200, Go ready_os 100]"

lemma two_instances_eq:
  "map_option (\<lambda>s. (insts s 100, insts s 200, pid_file s, 100 \<in> won s)) (inst_run two_instances no_instances) =
    Some (I_Back 0, I_Back (-1), Some (''100'' @ [LocalConsole.NUL]), True)"
  by code_simp

text \<open>
  The process number 100 gets the lock first, the process 200 is refused.
\<close>

theorem single_instance_witness:
  "\<exists>s. reach inst_init (inst_step True) s \<and> 100 \<in> won s \<and> 200 \<notin> won s \<and>
     insts s 200 = I_Back (-1) \<and> pid_file s = Some (own_text 100)"
proof -
  obtain s where s: "inst_run two_instances no_instances = Some s" "insts s 100 = I_Back 0"
      "insts s 200 = I_Back (-1)" "100 \<in> won s"
    using two_instances_eq by (auto simp: map_option_eq_Some)
  have "inst_init no_instances" by (simp add: inst_init_def no_instances_def)
  then have r: "reach inst_init (inst_step True) s"
    using inst_run_reach [OF reach_init s(1)] by (simp add: two_instances_def ready_os_def)
  have "200 \<notin> won s" using single_instance [OF r, of 100 200] s(4) by auto
  moreover have "pid_file s = Some (own_text 100)" using single_instance [OF r, of 100] s(2) by blast
  ultimately show ?thesis using r s by blast
qed

text \<open>
  If \<^verbatim>\<open>ftruncate\<close> and \<^verbatim>\<open>write\<close> fail, the call returns 0 all the same, and the file keeps the
  number of another process.
\<close>

definition lazy_os :: inst_os where
  "lazy_os = ready_os\<lparr>trunc_ok := False, written := 0\<rparr>"

lemma stale_pid_file:
  "\<exists>s. reach inst_init (inst_step False) s \<and> insts s 100 = I_Back 0 \<and> pid_file s = Some ''9999999''"
proof -
  have "map_option (\<lambda>s. (insts s 100, pid_file s))
      (inst_run [Ask 100, Go ready_os 100, Go ready_os 100, Go lazy_os 100, Go lazy_os 100] no_instances) =
      Some (I_Back 0, Some ''9999999'')"
    by code_simp
  then obtain s where s: "inst_run [Ask 100, Go ready_os 100, Go ready_os 100, Go lazy_os 100,
      Go lazy_os 100] no_instances = Some s" "insts s 100 = I_Back 0" "pid_file s = Some ''9999999''"
    by (auto simp: map_option_eq_Some)
  have "inst_init no_instances" by (simp add: inst_init_def no_instances_def)
  then have "reach inst_init (inst_step False) s" using inst_run_reach [OF reach_init s(1)] by simp
  then show ?thesis using s by blast
qed

text \<open>
  A process that asks while nobody else has the lock gets it, and writes its number; the
  process that has it already is not told so.
\<close>

lemma free_lock_given:
  assumes "lock_owner s = None \<or> lock_owner s = Some p" and "0 < p" and "int p < 2 ^ 31"
    and "outside (insts s p)"
  shows "\<exists>t. inst_run [Ask p, Go ready_os p, Go ready_os p, Go ready_os p, Go ready_os p] s = Some t \<and> insts t p = I_Back 0 \<and>
    pid_file t = Some (own_text p)"
proof -
  have "sprintf 16 (dec (int p)) = Done (dec (int p))"
    using pid_text [OF assms(3)] by (simp add: sprintf_def)
  moreover have "open_ok ready_os" "trunc_ok ready_os" "written ready_os = 20"
    by (simp_all add: ready_os_def)
  moreover have "lockfile ready_os p x = (None, x\<lparr>lock_owner := Some p\<rparr>)"
    if "lock_owner x = None \<or> lock_owner x = Some p" for x
    using that by (cases x) (auto simp: lockfile_def ready_os_def)
  ultimately show ?thesis using assms pid_text [OF assms(3)]
    by (simp add: inst_at_def open_file_def write_file_def ftruncate_def own_text_def)
qed

subsection \<open>\<^verbatim>\<open>CSolar\<close>\<close>

record CSolar =
  m_TimerMaintain :: CEZTimer
  m_strVer :: string
  m_iRunPeriod :: u32
  m_ttStartTime :: int

definition version_string :: string where
  "version_string = ''v 0.9.0 - ''"

definition copy_right :: string where
  "copy_right = ''Copyright (C) 2013 ezlibs.com, All Rights Reserved.''"

definition desc :: string where
  "desc = ''P_2013-6-25.SmartPorts.1010''"

text \<open>The constructor, in the memory \<open>old\<close>, of a program compiled at \<open>date\<close> and \<open>clock\<close>.\<close>

definition CSolar_new :: "string \<Rightarrow> string \<Rightarrow> int \<Rightarrow> CSolar \<Rightarrow> CSolar" where
  "CSolar_new date clock now old =
     old\<lparr>m_TimerMaintain := CEZTimer_new ''CSolar-Maintain'' (m_TimerMaintain old),
         m_strVer := version_string @ date @ '' '' @ clock, m_iRunPeriod := 0, m_ttStartTime := now\<rparr>"

definition TimerProcMaintain :: "CSolar \<Rightarrow> CSolar" where
  "TimerProcMaintain s = s\<lparr>m_iRunPeriod := m_iRunPeriod s + 1\<rparr>"

definition GetRunPeriod :: "CSolar \<Rightarrow> u32" where
  "GetRunPeriod s = m_iRunPeriod s"

definition ruler :: string where
  "ruler = replicate 27 CHR ''-'' @ newline"

definition ShowVersion :: "string \<Rightarrow> string \<Rightarrow> string" where
  "ShowVersion date clock =
     ruler @ newline @ copy_right @ newline @ desc @ newline @
     ''$ Solar: main.c,v 2.6 '' @ date @ '' '' @ clock @ '' Exp $'' @ newline @ newline @ ruler"

definition haveException :: "int \<Rightarrow> string \<Rightarrow> string" where
  "haveException ExcNo pMsg = ''CSolar::haveException:'' @ dec ExcNo @ '' Msg:'' @ pMsg @ newline"

subsection \<open>\<^verbatim>\<open>main\<close> and the signals\<close>

text \<open>The numbers of the signals.\<close>

definition SIGINT :: int where "SIGINT = 2"
definition SIGQUIT :: int where "SIGQUIT = 3"
definition SIGKILL :: int where "SIGKILL = 9"
definition SIGPIPE :: int where "SIGPIPE = 13"
definition SIGTERM :: int where "SIGTERM = 15"

lemmas signal_numbers = SIGINT_def SIGQUIT_def SIGKILL_def SIGPIPE_def SIGTERM_def

datatype main_pc =
    S_Args           \<comment> \<open>before the arguments are printed\<close>
  | S_Signal nat     \<comment> \<open>before the call of \<^verbatim>\<open>signal\<close> with that number\<close>
  | S_Version        \<comment> \<open>in \<^verbatim>\<open>Initialize\<close>, before \<^verbatim>\<open>ShowVersion\<close>\<close>
  | S_Register       \<comment> \<open>before \<^verbatim>\<open>RegisterMainThread\<close>\<close>
  | S_Timers         \<comment> \<open>before \<^verbatim>\<open>g_TimerManager.Start\<close>\<close>
  | S_Report         \<comment> \<open>before the lines \<^verbatim>\<open>Initialize\<close> prints at its end\<close>
  | S_Console        \<comment> \<open>before \<^verbatim>\<open>g_LocalConsole.Start\<close>\<close>
  | S_Done           \<comment> \<open>in \<^verbatim>\<open>Done\<close>, before the semaphore is made\<close>
  | S_Wait CEZSemaphore

datatype ending = Exit int | Killed int

text \<open>
  The process: \<^verbatim>\<open>main\<close>'s place and the objects it starts, the signals with a handler, what
  has been printed, and how the process has ended.
\<close>

record solar =
  g_Solar :: CSolar
  g_ThreadManager :: CEZThreadManager
  g_TimerManager :: CEZThread
  g_LocalConsole :: CEZThread
  main_at :: main_pc
  handlers :: "int list"
  printed :: string
  ending :: "ending option"

text \<open>What \<^verbatim>\<open>main\<close> and the constructors find in the system.\<close>

record solar_os =
  plat :: platform
  argv :: "string list"
  compiled :: "string \<times> string"
  main_tid :: int
  os_thread :: thread_os

definition print :: "string \<Rightarrow> solar \<Rightarrow> solar" where
  "print x s = s\<lparr>printed := printed s @ x\<rparr>"

definition signals :: "int list" where
  "signals = [SIGPIPE, SIGTERM, SIGKILL, SIGQUIT, SIGINT]"

text \<open>\<^verbatim>\<open>signal\<close> with \<^verbatim>\<open>signal_proc\<close>; the system refuses a handler of \<^verbatim>\<open>SIGKILL\<close>.\<close>

definition set_handler :: "int \<Rightarrow> solar \<Rightarrow> solar" where
  "set_handler n s = (if n = SIGKILL then s else s\<lparr>handlers := n # handlers s\<rparr>)"

definition args_text :: "string list \<Rightarrow> string" where
  "args_text as = ''main('' @ dec (int (length as)) @ '','' @ concat (map (\<lambda>a. '' '' @ a) as) @ '')'' @ newline"

definition program_name :: "string list \<Rightarrow> string" where
  "program_name as = (case as of [] \<Rightarrow> ''(null)'' | a # _ \<Rightarrow> a)"

text \<open>A step of \<^verbatim>\<open>Initialize\<close>.\<close>

fun initialize_step :: "solar_os \<Rightarrow> main_pc \<Rightarrow> solar \<Rightarrow> solar option" where
  "initialize_step os S_Version s =
     Some (print (ShowVersion (fst (compiled os)) (snd (compiled os))) s\<lparr>main_at := S_Register\<rparr>)"
| "initialize_step os S_Register s =
     Some (s\<lparr>g_ThreadManager := RegisterMainThread (main_tid os) (g_ThreadManager s), main_at := S_Timers\<rparr>)"
| "initialize_step os S_Timers s =
     (case TimerManager_Start (os_thread os) (g_TimerManager s) of
        Done (_, t) \<Rightarrow> Some (s\<lparr>g_TimerManager := t, main_at := S_Report\<rparr>)
      | _ \<Rightarrow> None)"
| "initialize_step os S_Report s =
     Some (print (''Starting('' @ desc @ '') ...'' @ newline @
        program_name (argv os) @ '' Initialize end, running ...'' @ newline) s\<lparr>main_at := S_Console\<rparr>)"
| "initialize_step os _ s = None"

text \<open>
  A step of \<^verbatim>\<open>Done\<close>, which makes a semaphore with the value 0, waits for it, and makes the next.
\<close>

fun done_step :: "platform \<Rightarrow> main_pc \<Rightarrow> solar \<Rightarrow> solar option" where
  "done_step p S_Done s = Some (s\<lparr>main_at := S_Wait (CEZSemaphore_new p 0)\<rparr>)"
| "done_step p (S_Wait x) s = (case Wait x of Done _ \<Rightarrow> Some (s\<lparr>main_at := S_Done\<rparr>) | _ \<Rightarrow> None)"
| "done_step p _ s = None"

text \<open>A step of \<^verbatim>\<open>main\<close>: \<^verbatim>\<open>None\<close> when it waits.\<close>

fun main_step :: "solar_os \<Rightarrow> main_pc \<Rightarrow> solar \<Rightarrow> solar option" where
  "main_step os S_Args s = Some (print (args_text (argv os)) s\<lparr>main_at := S_Signal 0\<rparr>)"
| "main_step os (S_Signal i) s =
     Some (if i < length signals then set_handler (signals ! i) s\<lparr>main_at := S_Signal (Suc i)\<rparr>
           else s\<lparr>main_at := S_Version\<rparr>)"
| "main_step os S_Version s = initialize_step os S_Version s"
| "main_step os S_Register s = initialize_step os S_Register s"
| "main_step os S_Timers s = initialize_step os S_Timers s"
| "main_step os S_Report s = initialize_step os S_Report s"
| "main_step os S_Console s =
     (case console_Start (os_thread os) (g_LocalConsole s) of
        Done (_, t) \<Rightarrow> Some (s\<lparr>g_LocalConsole := t, main_at := S_Done\<rparr>)
      | _ \<Rightarrow> None)"
| "main_step os S_Done s = done_step (plat os) S_Done s"
| "main_step os (S_Wait x) s = done_step (plat os) (S_Wait x) s"

text \<open>\<^verbatim>\<open>Term\<close> has nothing to do: the logs are empty, and \<^verbatim>\<open>USE_SMARTWEBS\<close> is not defined.\<close>

definition Term :: "solar \<Rightarrow> solar" where
  "Term s = s"

definition signal_proc :: "int \<Rightarrow> solar \<Rightarrow> solar" where
  "signal_proc signo s =
     (if signo = SIGTERM \<or> signo = SIGKILL \<or> signo = SIGQUIT \<or> signo = SIGINT
      then (Term (print (haveException signo ''on exit signal'') s))\<lparr>ending := Some (Exit 0)\<rparr>
      else if signo = SIGPIPE then print (haveException signo ''on signal:SIGPIPE'') s
      else s)"

text \<open>A signal without a handler ends the process.\<close>

definition deliver :: "int \<Rightarrow> solar \<Rightarrow> solar" where
  "deliver n s = (if n \<in> set (handlers s) then signal_proc n s else s\<lparr>ending := Some (Killed n)\<rparr>)"

datatype solar_action = Main | Signal_to int

fun solar_exec :: "solar_os \<Rightarrow> solar_action \<Rightarrow> solar \<Rightarrow> solar option" where
  "solar_exec os Main s = (if ending s = None then main_step os (main_at s) s else None)"
| "solar_exec os (Signal_to n) s =
     (if ending s = None \<and> n \<in> set signals then Some (deliver n s) else None)"

definition solar_step :: "solar_os \<Rightarrow> solar \<Rightarrow> solar \<Rightarrow> bool" where
  "solar_step os s t \<longleftrightarrow> (\<exists>a. solar_exec os a s = Some t)"

text \<open>The objects are made before \<^verbatim>\<open>main\<close> begins.\<close>

definition solar_init :: "solar_os \<Rightarrow> solar \<Rightarrow> bool" where
  "solar_init os s \<longleftrightarrow>
     (\<exists>now old. g_Solar s = CSolar_new (fst (compiled os)) (snd (compiled os)) now old) \<and>
     (\<exists>old. g_TimerManager s = timer_manager_thread (plat os) old) \<and>
     (\<exists>old. g_LocalConsole s = console_thread (plat os) old) \<and>
     main_at s = S_Args \<and> handlers s = [] \<and> printed s = [] \<and> ending s = None"

subsection \<open>The program runs until a signal ends it\<close>

fun handled :: "main_pc \<Rightarrow> nat" where
  "handled S_Args = 0"
| "handled (S_Signal i) = i"
| "handled _ = 5"

fun timers_started :: "main_pc \<Rightarrow> bool" where
  "timers_started S_Report = True"
| "timers_started S_Console = True"
| "timers_started S_Done = True"
| "timers_started (S_Wait x) = True"
| "timers_started _ = False"

fun console_started :: "main_pc \<Rightarrow> bool" where
  "console_started S_Done = True"
| "console_started (S_Wait x) = True"
| "console_started _ = False"

definition handlers_ok :: "solar \<Rightarrow> bool" where
  "handlers_ok s \<longleftrightarrow> set (handlers s) = set (take (handled (main_at s)) signals) - {SIGKILL}"

definition ending_ok :: "solar \<Rightarrow> bool" where
  "ending_ok s \<longleftrightarrow> (\<forall>c. ending s = Some (Exit c) \<longrightarrow> c = 0) \<and>
     (\<forall>n. ending s = Some (Killed n) \<longrightarrow> n \<in> set signals \<and> n \<notin> set (handlers s))"

definition started_ok :: "solar_os \<Rightarrow> solar \<Rightarrow> bool" where
  "started_ok os s \<longleftrightarrow> m_iRunPeriod (g_Solar s) = 0 \<and> handled (main_at s) \<le> 5 \<and>
     (timers_started (main_at s) \<longrightarrow> m_bLoop (g_TimerManager s)) \<and>
     (console_started (main_at s) \<longrightarrow> m_bLoop (g_LocalConsole s)) \<and>
     (\<forall>x. main_at s = S_Wait x \<longrightarrow> x = CEZSemaphore_new (plat os) 0)"

definition solar_inv :: "solar_os \<Rightarrow> solar \<Rightarrow> bool" where
  "solar_inv os s \<longleftrightarrow> handlers_ok s \<and> ending_ok s \<and> started_ok os s"

lemma CreateThread_loop: "CreateThread os t = Done (r, t') \<Longrightarrow> m_bLoop t'"
  by (cases "ThreadCreate os (m_nPriority t) (m_dwStackSize t)")
    (auto simp: CreateThread_def Let_def split: if_splits)

lemma console_Start_loop: "console_Start os t = Done (r, t') \<Longrightarrow> m_bLoop t'"
  by (auto simp: console_Start_def dest: CreateThread_loop)

lemma take_Suc_set: "i < length xs \<Longrightarrow> set (take (Suc i) xs) = insert (xs ! i) (set (take i xs))"
  by (simp add: take_Suc_conv_app_nth)

lemma length_signals [simp]: "length signals = 5"
  by (simp add: signals_def)

lemma main_step_ending: "main_step os c s = Some t \<Longrightarrow> ending t = ending s"
  by (cases c) (auto simp: print_def set_handler_def split: outcome.splits)

text \<open>Every step but that of \<^verbatim>\<open>signal\<close> leaves the handlers alone.\<close>

lemma main_step_frame:
  assumes "main_step os c s = Some t" and "\<forall>i < 5. c \<noteq> S_Signal i" and "handled c \<le> 5"
  shows "handlers t = handlers s \<and> handled (main_at t) = handled c"
proof (cases c)
  case (S_Signal i)
  then have "i = 5" using assms(2,3) by (metis antisym_conv2 handled.simps(2))
  then show ?thesis using S_Signal assms(1) by auto
qed (use assms in \<open>auto simp: print_def split: outcome.splits\<close>)

lemma main_step_handlers:
  assumes "handlers_ok s" and "handled (main_at s) \<le> 5" and "main_step os (main_at s) s = Some t"
  shows "handlers_ok t"
proof (cases "\<exists>i < 5. main_at s = S_Signal i")
  case True
  then obtain i where i: "i < 5" "main_at s = S_Signal i" by blast
  then have "t = set_handler (signals ! i) s\<lparr>main_at := S_Signal (Suc i)\<rparr>"
    using assms(3) by simp
  then show ?thesis using i assms(1) take_Suc_set [of i signals]
    by (auto simp: handlers_ok_def set_handler_def)
next
  case False
  then show ?thesis using main_step_frame [OF assms(3) _ assms(2)] assms(1)
    by (simp add: handlers_ok_def)
qed

lemma main_step_started:
  assumes "started_ok os s" and "main_step os (main_at s) s = Some t"
  shows "started_ok os t"
proof (cases "main_at s")
  case (S_Signal i)
  then show ?thesis using assms
    by (auto simp: started_ok_def set_handler_def split: if_splits)
qed (use assms in \<open>auto simp: started_ok_def print_def TimerManager_Start_def dest: CreateThread_loop console_Start_loop
       split: outcome.splits\<close>)

lemma deliver_fields:
  "handlers (deliver n s) = handlers s" "main_at (deliver n s) = main_at s"
  "g_Solar (deliver n s) = g_Solar s" "g_TimerManager (deliver n s) = g_TimerManager s"
  "g_LocalConsole (deliver n s) = g_LocalConsole s"
  by (simp_all add: deliver_def signal_proc_def Term_def print_def)

lemma deliver_ending:
  "ending (deliver n s) = (if n \<notin> set (handlers s) then Some (Killed n)
     else if n \<in> {SIGTERM, SIGKILL, SIGQUIT, SIGINT} then Some (Exit 0) else ending s)"
  by (simp add: deliver_def signal_proc_def Term_def print_def)

lemma solar_step_inv:
  assumes "solar_step os s t" and "solar_inv os s"
  shows "solar_inv os t"
proof -
  obtain a where a: "solar_exec os a s = Some t" using assms(1) by (auto simp: solar_step_def)
  have inv: "handlers_ok s" "ending_ok s" "started_ok os s" using assms(2) by (simp_all add: solar_inv_def)
  show ?thesis
  proof (cases a)
    case Main
    then have m: "main_step os (main_at s) s = Some t" "ending s = None"
      using a by (simp_all split: if_splits)
    have "ending_ok t" using main_step_ending [OF m(1)] m(2) by (simp add: ending_ok_def)
    moreover have "handled (main_at s) \<le> 5" using inv(3) by (simp add: started_ok_def)
    ultimately show ?thesis
      using main_step_handlers [OF inv(1) _ m(1)] main_step_started [OF inv(3) m(1)]
      by (simp add: solar_inv_def)
  next
    case (Signal_to n)
    then have t: "t = deliver n s" "n \<in> set signals" "ending s = None" using a by (simp_all split: if_splits)
    have "handlers_ok t" "started_ok os t" using inv(1,3) unfolding t(1)
      by (simp_all add: handlers_ok_def started_ok_def deliver_fields)
    moreover have "ending_ok t" using t(2,3) unfolding t(1)
      by (simp add: ending_ok_def deliver_ending deliver_fields)
    ultimately show ?thesis by (simp add: solar_inv_def)
  qed
qed

lemma solar_init_inv: "solar_init os s \<Longrightarrow> solar_inv os s"
  by (auto simp: solar_init_def solar_inv_def handlers_ok_def ending_ok_def started_ok_def CSolar_new_def)

interpretation solar_system: invariant_system "solar_init os" "solar_step os" "solar_inv os" for os
  by unfold_locales (auto intro: solar_init_inv solar_step_inv)

lemma Wait_for_ever: "Wait (CEZSemaphore_new p 0) = Blocked"
  by (cases p) (simp_all add: Wait_def)

text \<open>
  Whatever signals come and when: the program ends with the status 0 by its handler or is
  killed by the signal, by \<^verbatim>\<open>SIGKILL\<close> alone once \<^verbatim>\<open>main\<close> has set the handlers. \<^verbatim>\<open>main\<close> itself never
  ends it: it comes to wait, with both threads started, for a semaphore nobody posts. The
  period the program claims to have run is always 0, since nothing starts the timer.
\<close>

lemma solar_runs_until_signal:
  assumes "reach (solar_init os) (solar_step os) s"
  shows "GetRunPeriod (g_Solar s) = 0 \<and>
    (case ending s of None \<Rightarrow> True | Some (Exit c) \<Rightarrow> c = 0
     | Some (Killed n) \<Rightarrow> n \<in> set signals \<and> (handled (main_at s) = 5 \<longrightarrow> n = SIGKILL)) \<and>
    (\<forall>x. main_at s = S_Wait x \<longrightarrow> main_step os (main_at s) s = None \<and>
      m_bLoop (g_TimerManager s) \<and> m_bLoop (g_LocalConsole s))"
proof -
  have inv: "solar_inv os s" by (rule solar_system.reach_inv [OF assms])
  then have i: "set (handlers s) = set (take (handled (main_at s)) signals) - {SIGKILL}"
      "ending_ok s" "started_ok os s"
    by (simp_all add: solar_inv_def handlers_ok_def)
  have "n = SIGKILL" if "ending s = Some (Killed n)" "handled (main_at s) = 5" for n
    using i(1,2) that by (auto simp: ending_ok_def)
  then have "case ending s of None \<Rightarrow> True | Some (Exit c) \<Rightarrow> c = 0
     | Some (Killed n) \<Rightarrow> n \<in> set signals \<and> (handled (main_at s) = 5 \<longrightarrow> n = SIGKILL)"
    using i(2) by (auto simp: ending_ok_def split: option.splits ending.splits)
  then show ?thesis using i(3) by (auto simp: started_ok_def GetRunPeriod_def Wait_for_ever)
qed

fun solar_run :: "solar_os \<Rightarrow> solar_action list \<Rightarrow> solar \<Rightarrow> solar option" where
  "solar_run os [] s = Some s"
| "solar_run os (a # as) s = Option.bind (solar_exec os a s) (solar_run os as)"

lemma solar_run_reach:
  assumes "reach (solar_init os) (solar_step os) s" and "solar_run os as s = Some t"
  shows "reach (solar_init os) (solar_step os) t"
  using assms
proof (induction as arbitrary: s)
  case (Cons a as)
  then obtain u where "solar_exec os a s = Some u" "solar_run os as u = Some t"
    by (auto simp: bind_eq_Some_conv)
  moreover from this(1) have "solar_step os s u" by (auto simp: solar_step_def)
  ultimately show ?case using Cons.IH [OF reach_step [OF Cons.prems(1)]] by simp
qed simp

text \<open>A start, a broken pipe, and an end by \<^verbatim>\<open>SIGTERM\<close>.\<close>

definition solar_example :: solar_os where
  "solar_example = \<lparr>plat = Posix 9, argv = [''Solar''], compiled = (''Jun 25 2013'', ''11:16:53''),
     main_tid = 7, os_thread = good_os\<rparr>"

definition solar0 :: solar where
  "solar0 = \<lparr>g_Solar = CSolar_new ''Jun 25 2013'' ''11:16:53'' 0
       \<lparr>m_TimerMaintain = raw_timer, m_strVer = [], m_iRunPeriod = 77, m_ttStartTime = 0\<rparr>,
     g_ThreadManager = no_threads (\<lambda>_. raw_thread),
     g_TimerManager = timer_manager_thread (Posix 9) raw_thread,
     g_LocalConsole = console_thread (Posix 9) raw_thread,
     main_at = S_Args, handlers = [], printed = [], ending = None\<rparr>"

lemma solar0_init: "solar_init solar_example solar0"
  by (auto simp: solar_init_def solar_example_def solar0_def)

definition solar_starts :: "solar_action list" where
  "solar_starts = replicate 13 Main @ [Signal_to SIGPIPE]"

lemma solar_starts_eq:
  "map_option (\<lambda>s. (main_at s, ending s, m_mainThreadID (g_ThreadManager s),
      drop (length (printed s) - 47) (printed s)))
      (solar_run solar_example solar_starts solar0) =
    Some (S_Wait (CEZSemaphore_new (Posix 9) 0), None, 7,
      ''CSolar::haveException:13 Msg:on signal:SIGPIPE'' @ newline)"
  by code_simp

lemma solar_runs_until_signal_example:
  "\<exists>s. reach (solar_init solar_example) (solar_step solar_example) s \<and> ending s = None \<and>
     main_step solar_example (main_at s) s = None \<and>
     m_bLoop (g_TimerManager s) \<and> m_bLoop (g_LocalConsole s)"
proof -
  obtain s where s: "solar_run solar_example solar_starts solar0 = Some s" "ending s = None"
      "main_at s = S_Wait (CEZSemaphore_new (Posix 9) 0)"
    using solar_starts_eq by (auto simp: map_option_eq_Some)
  have r: "reach (solar_init solar_example) (solar_step solar_example) s"
    by (rule solar_run_reach [OF reach_init s(1)]) (rule solar0_init)
  then show ?thesis using solar_runs_until_signal [OF r] s by auto
qed

subsection \<open>\<^verbatim>\<open>daemon_init\<close>\<close>

text \<open>
  \<^verbatim>\<open>fork\<close> returns in both processes: \<open>pid\<close> is what it returns in this one, \<open>sid\<close> what \<^verbatim>\<open>setsid\<close>
  does. The result is that of the call, or the end of the process; \<open>umask\<close> and the open
  descriptors are those of this process.
\<close>

record session =
  umask :: nat
  fds :: "nat set"

definition daemon_init :: "int \<Rightarrow> int \<Rightarrow> session \<Rightarrow> (int + int) \<times> session" where
  "daemon_init pid sid s =
     (if pid < 0 then (Inr (-1), s)
      else if 0 < pid then (Inl 0, s)
      else let s = s\<lparr>umask := 0\<rparr>
           in if sid < 0 then (Inr (-1), s)
              else (Inr 0, s\<lparr>fds := fds s - {0, 1, 2}\<rparr>))"

text \<open>
  Where the call returns 0 it is in the child, without the three standard files; the parent
  has ended. A failure of \<^verbatim>\<open>setsid\<close> is reported in the child, whose parent has already ended
  with success.
\<close>

lemma daemon_init_result:
  assumes "daemon_init pid sid s = (r, t)"
  shows "r = Inr 0 \<longleftrightarrow> pid = 0 \<and> 0 \<le> sid" and "r = Inl 0 \<longleftrightarrow> 0 < pid"
    and "r = Inr 0 \<Longrightarrow> fds t = fds s - {0, 1, 2}"
  using assms by (auto simp: daemon_init_def Let_def split: if_splits)

end
