(* ===== verification/SimpleThread.thy ===== *)
theory SimpleThread
  imports ThreadLife
begin

section \<open>A thread that is started and stopped\<close>

text \<open>
  \<^verbatim>\<open>tutorial_libezthread/Thread.cpp\<close> and \<^verbatim>\<open>Solar/SimpleThread.cpp\<close>: a class whose \<^verbatim>\<open>Start\<close> creates its
  thread unless \<^verbatim>\<open>m_bLoop\<close> is set, whose \<^verbatim>\<open>Stop\<close> clears \<^verbatim>\<open>m_bLoop\<close> and then calls \<^verbatim>\<open>DestroyThread\<close>, and
  whose \<^verbatim>\<open>ThreadProc\<close> works as long as \<^verbatim>\<open>m_bLoop\<close> is set. The two differ in the work of a round:
  \<^verbatim>\<open>CProducers\<close> prints the list of threads, \<^verbatim>\<open>CSimpleThread\<close> a line. Any number of users call
  \<^verbatim>\<open>Start\<close> and \<^verbatim>\<open>Stop\<close>, over the steps of \<^verbatim>\<open>CreateThread\<close>, \<^verbatim>\<open>DestroyThread\<close> and \<^verbatim>\<open>ThreadBody\<close> of the theory
  \<open>ThreadLife\<close>.
\<close>

subsection \<open>The steps\<close>

datatype simple_pc =
    U_Idle
  | U_Start       \<comment> \<open>in \<^verbatim>\<open>Start\<close>, before the test of \<^verbatim>\<open>m_bLoop\<close>\<close>
  | U_Create      \<comment> \<open>in \<^verbatim>\<open>CreateThread\<close>\<close>
  | U_Stop        \<comment> \<open>in \<^verbatim>\<open>Stop\<close>, before the test of \<^verbatim>\<open>m_bLoop\<close>\<close>
  | U_Clear       \<comment> \<open>before \<^verbatim>\<open>m_bLoop = FALSE\<close>\<close>
  | U_Destroy     \<comment> \<open>in \<^verbatim>\<open>DestroyThread\<close>\<close>

datatype loop_pc =
    L_Test        \<comment> \<open>before the test of \<^verbatim>\<open>m_bLoop\<close>\<close>
  | L_Work        \<comment> \<open>before the work of a round\<close>

text \<open>
  User \<open>i\<close> is caller \<open>i\<close> of the thread's life. \<open>answers\<close> is the history of the results of \<^verbatim>\<open>Start\<close>
  and \<^verbatim>\<open>Stop\<close>, \<open>shown\<close> that of what the loops printed. \<open>held\<close> is set when the work of a round does
  not end; it then holds the lock of the thread manager for ever.
\<close>

record simple =
  sl :: life
  users_at :: "nat \<Rightarrow> simple_pc"
  loops :: "nat \<Rightarrow> loop_pc"
  answers :: "(nat \<times> EZTHREAD_BOOL) list"
  shown :: string
  held :: bool

definition simple_at :: "nat \<Rightarrow> simple_pc \<Rightarrow> simple \<Rightarrow> simple" where
  "simple_at i p s = s\<lparr>users_at := (users_at s)(i := p)\<rparr>"

definition answer :: "nat \<Rightarrow> EZTHREAD_BOOL \<Rightarrow> simple \<Rightarrow> simple" where
  "answer i b s = (simple_at i U_Idle s)\<lparr>answers := answers s @ [(i, b)]\<rparr>"

text \<open>The call of a function of \<^verbatim>\<open>CEZThread\<close> by user \<open>i\<close>, and its next step.\<close>

definition call_thread :: "nat \<Rightarrow> simple_pc \<Rightarrow> life_action \<Rightarrow> simple \<Rightarrow> simple option" where
  "call_thread i p a s = map_option (\<lambda>l. simple_at i p (s\<lparr>sl := l\<rparr>)) (life_exec a (sl s))"

text \<open>
  \<^verbatim>\<open>Start\<close> and \<^verbatim>\<open>Stop\<close>. The result of \<^verbatim>\<open>CreateThread\<close> tells whether \<^verbatim>\<open>ThreadCreate\<close> started a thread.
\<close>

fun simple_user_step :: "thread_os \<Rightarrow> u32 \<Rightarrow> nat \<Rightarrow> simple_pc \<Rightarrow> simple \<Rightarrow> simple option" where
  "simple_user_step os now i U_Idle s = None"
| "simple_user_step os now i U_Start s =
     (if m_bLoop (obj (sl s)) then Some (answer i True s) else call_thread i U_Create (Create i) s)"
| "simple_user_step os now i U_Create s =
     map_option (\<lambda>l. if callers l ! i = C_Idle then answer i (failed l = failed (sl s)) (s\<lparr>sl := l\<rparr>)
                     else s\<lparr>sl := l\<rparr>)
       (life_exec (Caller i os now) (sl s))"
| "simple_user_step os now i U_Stop s =
     Some (if m_bLoop (obj (sl s)) then simple_at i U_Clear s else answer i True s)"
| "simple_user_step os now i U_Clear s =
     call_thread i U_Destroy (Destroy i False) (s\<lparr>sl := upd_obj (\<lambda>t. t\<lparr>m_bLoop := False\<rparr>) (sl s)\<rparr>)"
| "simple_user_step os now i U_Destroy s =
     map_option (\<lambda>l. if callers l ! i = C_Idle then answer i True (s\<lparr>sl := l\<rparr>) else s\<lparr>sl := l\<rparr>)
       (life_exec (Caller i os now) (sl s))"

text \<open>
  \<^verbatim>\<open>ThreadProc\<close> in the \<open>j\<close>th thread: \<open>w\<close> is the work of a round, \<open>None\<close> if it does not end. While
  the manager's lock is held, no other round is worked and no thread enters or leaves the list.
\<close>

fun simple_loop_step :: "(CEZThreadManager \<Rightarrow> string option) \<Rightarrow> nat \<Rightarrow> loop_pc \<Rightarrow> simple \<Rightarrow> simple option" where
  "simple_loop_step w j L_Test s =
     (if m_bLoop (obj (sl s)) then Some (s\<lparr>loops := (loops s)(j := L_Work)\<rparr>)
      else map_option (\<lambda>l. s\<lparr>sl := l\<rparr>) (life_exec (Body j) (sl s)))"
| "simple_loop_step w j L_Work s =
     (if held s then None
      else case w (mgr (sl s)) of
        None \<Rightarrow> Some (s\<lparr>held := True\<rparr>)
      | Some x \<Rightarrow> Some (s\<lparr>shown := shown s @ x, loops := (loops s)(j := L_Test)\<rparr>))"

definition simple_body_step :: "(CEZThreadManager \<Rightarrow> string option) \<Rightarrow> nat \<Rightarrow> simple \<Rightarrow> simple option" where
  "simple_body_step w j s =
     (if \<not> j < length (bodies (sl s)) then None
      else if bodies (sl s) ! j = B_Proc then simple_loop_step w j (loops s j) s
      else if held s \<and> bodies (sl s) ! j \<in> {B_Add, B_Remove} then None
      else map_option (\<lambda>l. s\<lparr>sl := l\<rparr>) (life_exec (Body j) (sl s)))"

datatype 'n simple_action =
    Ask_Start nat | Ask_Stop nat
  | User_Step nat thread_os u32
  | Thread_Step nat 'n

text \<open>\<open>work\<close> is the work of a round, given what it finds in the system.\<close>

fun simple_exec :: "('n \<Rightarrow> CEZThreadManager \<Rightarrow> string option) \<Rightarrow> 'n simple_action \<Rightarrow> simple \<Rightarrow> simple option" where
  "simple_exec work (Ask_Start i) s =
     (if i < length (callers (sl s)) \<and> users_at s i = U_Idle then Some (simple_at i U_Start s) else None)"
| "simple_exec work (Ask_Stop i) s =
     (if i < length (callers (sl s)) \<and> users_at s i = U_Idle then Some (simple_at i U_Stop s) else None)"
| "simple_exec work (User_Step i os now) s = simple_user_step os now i (users_at s i) s"
| "simple_exec work (Thread_Step j n) s = simple_body_step (work n) j s"

definition simple_step :: "('n \<Rightarrow> CEZThreadManager \<Rightarrow> string option) \<Rightarrow> simple \<Rightarrow> simple \<Rightarrow> bool" where
  "simple_step work s t \<longleftrightarrow> (\<exists>a. simple_exec work a s = Some t)"

text \<open>The work of \<^verbatim>\<open>CProducers\<close>, at readings \<open>now\<close> of the clock, and of \<^verbatim>\<open>CSimpleThread\<close>.\<close>

definition CProducers_work :: "(int \<Rightarrow> u32) \<Rightarrow> CEZThreadManager \<Rightarrow> string option" where
  "CProducers_work now m = DumpThreads_console now m"

definition CSimpleThread_work :: "string \<Rightarrow> CEZThreadManager \<Rightarrow> string option" where
  "CSimpleThread_work fline m = Some (fline @ ''CSimpleThread::ThreadProc()'' @ newline)"

definition simple_init :: "simple \<Rightarrow> bool" where
  "simple_init s \<longleftrightarrow> (\<exists>p old name. (case p of Posix k \<Rightarrow> 1 \<le> k | Win32 \<Rightarrow> True) \<and>
       name \<in> {''CProducers'', ''CSimpleThread''} \<and>
       obj (sl s) = CEZThread_new p old name THREAD_PRIORITY_DEFAULT 0 0) \<and>
     m_pHead (mgr (sl s)) = None \<and> (\<forall>p \<in> set (callers (sl s)). p = C_Idle) \<and> bodies (sl s) = [] \<and>
     failed (sl s) = 0 \<and> (\<forall>i. users_at s i = U_Idle) \<and> (\<forall>j. loops s j = L_Test) \<and>
     answers s = [] \<and> shown s = [] \<and> \<not> held s"

subsection \<open>One loop at a time\<close>

lemma life_inv_loop_flag: "life_inv (upd_obj (\<lambda>t. t\<lparr>m_bLoop := b\<rparr>) l) = life_inv l"
  by (simp add: life_inv_def)

lemma simple_user_inv:
  assumes "life_inv (sl s)" and "simple_user_step os now i p s = Some t"
  shows "life_inv (sl t)"
proof -
  have "sl (answer j b u) = sl u" "sl (simple_at j q u) = sl u" for j b q u
    by (simp_all add: answer_def simple_at_def)
  moreover have "life_inv (upd_obj (\<lambda>t. t\<lparr>m_bLoop := False\<rparr>) (sl s))"
    using assms(1) by (simp add: life_inv_loop_flag)
  ultimately show ?thesis using assms life_inv_exec
    by (cases p) (auto simp: call_thread_def simp del: life_exec.simps split: if_splits)
qed

lemma simple_loop_inv:
  assumes "life_inv (sl s)" and "simple_loop_step w j p s = Some t"
  shows "life_inv (sl t)"
  using assms life_inv_exec [OF assms(1), of "Body j"] by (cases p) (auto split: if_splits option.splits)

lemma simple_step_inv:
  assumes "simple_step work s t" and "life_inv (sl s)"
  shows "life_inv (sl t)"
proof -
  obtain a where a: "simple_exec work a s = Some t" using assms(1) by (auto simp: simple_step_def)
  show ?thesis
  proof (cases a)
    case (User_Step i os now)
    then show ?thesis using a simple_user_inv [OF assms(2)] by simp
  next
    case (Thread_Step j n)
    then show ?thesis using a simple_loop_inv [OF assms(2)] life_inv_exec [OF assms(2), of "Body j"]
      by (auto simp: simple_body_step_def split: if_splits)
  qed (use a assms(2) in \<open>auto simp: simple_at_def split: if_splits\<close>)
qed

lemma simple_init_inv: "simple_init s \<Longrightarrow> life_inv (sl s)"
proof -
  assume "simple_init s"
  then have "life_init (sl s)" unfolding simple_init_def life_init_def by blast
  then show ?thesis by (rule life_inv_init)
qed

interpretation simple_system: invariant_system simple_init "simple_step work" "\<lambda>s. life_inv (sl s)" for work
  by unfold_locales (auto intro: simple_init_inv simple_step_inv)

text \<open>
  However users start and stop it: at most one thread of the object is in its loop.
\<close>

lemma one_loop:
  assumes "reach simple_init (simple_step work) s"
    and "i < length (bodies (sl s))" and "j < length (bodies (sl s))"
    and "bodies (sl s) ! i = B_Proc" and "bodies (sl s) ! j = B_Proc"
  shows "i = j"
proof -
  have "life_inv (sl s)" by (rule simple_system.reach_inv [OF assms(1)])
  then show ?thesis by (rule one_holder) (use assms in auto)
qed

subsection \<open>Starting again\<close>

fun simple_run ::
    "('n \<Rightarrow> CEZThreadManager \<Rightarrow> string option) \<Rightarrow> 'n simple_action list \<Rightarrow> simple \<Rightarrow> simple option" where
  "simple_run work [] s = Some s"
| "simple_run work (a # as) s = Option.bind (simple_exec work a s) (simple_run work as)"

lemma simple_run_reach:
  "reach simple_init (simple_step work) s \<Longrightarrow> simple_run work as s = Some t \<Longrightarrow>
    reach simple_init (simple_step work) t"
proof (induction as arbitrary: s)
  case (Cons a as)
  then obtain u where u: "simple_exec work a s = Some u" "simple_run work as u = Some t"
    by (auto simp: bind_eq_Some_conv)
  then have "simple_step work s u" by (auto simp: simple_step_def)
  then show ?case using Cons.IH [OF reach_step [OF Cons.prems(1)]] u(2) by blast
qed simp

definition simple0 :: simple where
  "simple0 = \<lparr>sl = \<lparr>self = 1, mgr = no_threads (\<lambda>_. CEZThread_new (Posix 9) raw_thread
          ''CProducers'' THREAD_PRIORITY_DEFAULT 0 0),
        callers = [C_Idle, C_Idle], bodies = [], failed = 0\<rparr>,
     users_at = (\<lambda>_. U_Idle), loops = (\<lambda>_. L_Test), answers = [], shown = [], held = False\<rparr>"

lemma simple0_init: "simple_init simple0"
proof -
  have "obj (sl simple0) = CEZThread_new (Posix 9) raw_thread ''CProducers'' THREAD_PRIORITY_DEFAULT 0 0"
    by (simp add: simple0_def obj_def no_threads_def)
  then show ?thesis unfolding simple_init_def
    by (intro conjI exI [of _ "Posix 9"] exI [of _ raw_thread] exI [of _ "''CProducers''"])
      (simp_all add: simple0_def no_threads_def)
qed

text \<open>
  User 0 starts the thread, stops it, and starts it again. The new thread enters the manager's
  list before the old one has left it.
\<close>

definition user_steps :: "nat \<Rightarrow> nat \<Rightarrow> 'n simple_action list" where
  "user_steps n i = replicate n (User_Step i good_os 0)"

definition restart_run :: "(int \<Rightarrow> u32) simple_action list" where
  "restart_run =
     Ask_Start 0 # user_steps 4 0 @ replicate 2 (Thread_Step 0 (\<lambda>_. 0)) @
     Ask_Stop 0 # user_steps 3 0 @ replicate 4 (Thread_Step 0 (\<lambda>_. 0)) @
     Ask_Start 0 # user_steps 4 0 @ replicate 3 (Thread_Step 1 (\<lambda>_. 0))"

lemma restart_run_eq:
  "map_option (\<lambda>s. (answers s, bodies (sl s), loops s 1, m_pHead (mgr (sl s)),
      m_pNext (threads (mgr (sl s)) 1), held s)) (simple_run CProducers_work restart_run simple0) =
    Some ([(0, True), (0, True), (0, True)], [B_Remove, B_Proc], L_Work, Some 1, Some 1, False)"
  by code_simp

text \<open>While two users start the thread, the second waits for its end, and then starts it again.\<close>

definition two_starts :: "(int \<Rightarrow> u32) simple_action list" where
  "two_starts =
     [Ask_Start 0, Ask_Start 1] @ user_steps 1 0 @ user_steps 1 1 @ user_steps 3 0 @
     replicate 2 (Thread_Step 0 (\<lambda>_. 0))"

lemma second_start_waits:
  "map_option (\<lambda>s. (answers s, bodies (sl s), users_at s 1,
      map_option answers (simple_exec CProducers_work (User_Step 1 good_os 0) s)))
      (simple_run CProducers_work two_starts simple0) =
    Some ([(0, True)], [B_Proc], U_Create, None) \<and>
   map_option (\<lambda>s. (answers s, bodies (sl s), m_bLoop (obj (sl s))))
      (simple_run CProducers_work (two_starts @ Ask_Stop 0 # user_steps 3 0 @
         replicate 5 (Thread_Step 0 (\<lambda>_. 0)) @ user_steps 3 1) simple0) =
    Some ([(0, True), (0, True), (1, True)], [B_Exit, B_ID], True)"
  by code_simp

lemma dump_loop_cycle:
  assumes "m_pNext (ths x) = Some x"
  shows "dump_console_loop ths now (Some x) i out = None"
proof (rule ccontr)
  assume "dump_console_loop ths now (Some x) i out \<noteq> None"
  then obtain r where "dump_console_loop ths now (Some x) i out = Some r" by auto
  then have "ths = ths \<longrightarrow> Some x \<noteq> Some x"
  proof (rule dump_console_loop.raw_induct [where P = "\<lambda>ths' now' p i' out' _. ths' = ths \<longrightarrow> p \<noteq> Some x", rotated])
    fix loop ths' now' p i' out' r
    assume IH: "\<And>ths' now' p i' out' r. loop ths' now' p i' out' = Some r \<Longrightarrow> ths' = ths \<longrightarrow> p \<noteq> Some x"
      and st: "(case p of None \<Rightarrow> Some (out', i')
        | Some a \<Rightarrow> loop ths' now' (m_pNext (ths' a)) (i' + 1)
            (out' @ thread_line (now' (i' + 1)) (ths' a))) = Some r"
    show "ths' = ths \<longrightarrow> p \<noteq> Some x"
    proof (intro impI notI)
      assume "ths' = ths" "p = Some x"
      then have "loop ths now' (Some x) (i' + 1) (out' @ thread_line (now' (i' + 1)) (ths x)) = Some r"
        using st assms by simp
      then show False using IH by blast
    qed
  qed
  then show False by simp
qed

text \<open>A thread that lists the threads, and one that waits to leave the list, once the lock is held.\<close>

definition loop_hung :: "simple \<Rightarrow> bool" where
  "loop_hung s \<longleftrightarrow> held s \<and> 2 \<le> length (bodies (sl s)) \<and> bodies (sl s) ! 0 = B_Remove \<and>
     bodies (sl s) ! 1 = B_Proc \<and> loops s 1 = L_Work"

lemma caller_step_bodies:
  "caller_step os now i c l = Some l' \<Longrightarrow> bodies l' = bodies l \<or> bodies l' = bodies l @ [B_ID]"
  by (cases c) (auto split: outcome.splits option.splits)

lemma life_exec_Body: "life_exec (Body j) l = Some l' \<Longrightarrow> \<exists>p. bodies l' = (bodies l)[j := p]"
  by (cases "bodies l ! j") (auto split: if_splits outcome.splits)

lemma life_exec_bodies:
  assumes "life_exec a l = Some l'" and "\<forall>j. a \<noteq> Body j" and "n < length (bodies l)"
  shows "length (bodies l) \<le> length (bodies l') \<and> bodies l' ! n = bodies l ! n"
proof (cases a)
  case (Caller i os now)
  then show ?thesis using assms caller_step_bodies [of os now i "callers l ! i" l l']
    by (auto simp: nth_append split: if_splits)
qed (use assms in \<open>auto split: if_splits\<close>)

lemma loop_hung_user:
  assumes "loop_hung s" and "simple_user_step os now i p s = Some t"
  shows "loop_hung t"
proof -
  have f: "sl (answer j b u) = sl u" "sl (simple_at j q u) = sl u" "held (answer j b u) = held u"
      "held (simple_at j q u) = held u" "loops (answer j b u) = loops u"
      "loops (simple_at j q u) = loops u" for j b q u
    by (simp_all add: answer_def simple_at_def)
  have g: "loop_hung u" if "held u = held s" "loops u = loops s"
      "sl u = l'" "life_exec a l = Some l'" "\<forall>j. a \<noteq> Body j" "bodies l = bodies (sl s)" for u a l l'
  proof -
    have "2 \<le> length (bodies l)" using assms(1) that(6) by (simp add: loop_hung_def)
    then have "0 < length (bodies l)" "1 < length (bodies l)" by linarith+
    then show ?thesis
      using that assms(1) life_exec_bodies [OF that(4,5), of 0] life_exec_bodies [OF that(4,5), of 1]
      by (simp add: loop_hung_def)
  qed
  have h: "loop_hung u" if "held u = held s" "loops u = loops s" "bodies (sl u) = bodies (sl s)" for u
    using that assms(1) by (simp add: loop_hung_def)
  show ?thesis using assms(2)
    by (cases p) (auto simp: call_thread_def f simp del: life_exec.simps split: if_splits
      intro: g [where l = "sl s"] g [where l = "upd_obj (\<lambda>t. t\<lparr>m_bLoop := False\<rparr>) (sl s)"] h)
qed

lemma loop_hung_step:
  assumes "simple_step work s t" and "loop_hung s"
  shows "loop_hung t"
proof -
  obtain a where a: "simple_exec work a s = Some t" using assms(1) by (auto simp: simple_step_def)
  have h: "held s" "bodies (sl s) ! 0 = B_Remove" "bodies (sl s) ! 1 = B_Proc" "loops s 1 = L_Work"
      "2 \<le> length (bodies (sl s))"
    using assms(2) by (simp_all add: loop_hung_def)
  show ?thesis
  proof (cases a)
    case (User_Step i os now)
    then show ?thesis using a loop_hung_user [OF assms(2)] by simp
  next
    case (Thread_Step j n)
    then have st: "simple_body_step (work n) j s = Some t" using a by simp
    have "j \<noteq> 0" using st h by (intro notI) (simp add: simple_body_step_def split: if_splits)
    moreover have "j \<noteq> 1" using st h by (intro notI) (simp add: simple_body_step_def split: if_splits)
    ultimately have j: "j \<noteq> 0" "j \<noteq> 1" .
    have b: "bodies l ! 0 = bodies (sl s) ! 0 \<and> bodies l ! 1 = bodies (sl s) ! 1 \<and>
        length (bodies l) = length (bodies (sl s))"
      if "life_exec (Body j) (sl s) = Some l" for l
      using life_exec_Body [OF that] j by auto
    have "held t \<and> loops t 1 = loops s 1 \<and> length (bodies (sl t)) = length (bodies (sl s)) \<and>
        bodies (sl t) ! 0 = bodies (sl s) ! 0 \<and> bodies (sl t) ! 1 = bodies (sl s) ! 1"
      using st h(1) j b
      by (cases "loops s j") (auto simp: simple_body_step_def simp del: life_exec.simps split: if_splits)
    then show ?thesis using h by (simp add: loop_hung_def)
  qed (use a assms(2) in \<open>auto simp: loop_hung_def simple_at_def split: if_splits\<close>)
qed

text \<open>
  C40. \<^verbatim>\<open>Start\<close>, \<^verbatim>\<open>Stop\<close> and \<^verbatim>\<open>Start\<close> again, each of which returns TRUE: the new thread can enter the
  manager's list before the old one has left it. The list is then a cycle, \<^verbatim>\<open>DumpThreads\<close> in the
  new thread's first round never ends, and the old thread waits for the manager's lock for
  ever, whatever anybody does.
\<close>

theorem restart_never_ends:
  "\<exists>s t. reach simple_init (simple_step CProducers_work) s \<and>
    answers s = [(0, True), (0, True), (0, True)] \<and> (\<forall>now. CProducers_work now (mgr (sl s)) = None) \<and>
    simple_step CProducers_work s t \<and>
    {u. (simple_step CProducers_work)\<^sup>*\<^sup>* t u} \<subseteq>
      {u. held u \<and> bodies (sl u) ! 0 = B_Remove \<and> bodies (sl u) ! 1 = B_Proc \<and> loops u 1 = L_Work}"
proof -
  obtain s where s: "simple_run CProducers_work restart_run simple0 = Some s"
      "answers s = [(0, True), (0, True), (0, True)]" "bodies (sl s) = [B_Remove, B_Proc]"
      "loops s 1 = L_Work" "m_pHead (mgr (sl s)) = Some 1" "m_pNext (threads (mgr (sl s)) 1) = Some 1"
      "\<not> held s"
    using restart_run_eq by auto
  have r: "reach simple_init (simple_step CProducers_work) s"
    by (rule simple_run_reach [OF reach_init s(1)]) (rule simple0_init)
  have w: "CProducers_work now (mgr (sl s)) = None" for now
    using s(5,6) dump_loop_cycle [of "threads (mgr (sl s))" 1]
    by (simp add: CProducers_work_def DumpThreads_console_def)
  define t where "t = s\<lparr>held := True\<rparr>"
  have "simple_exec CProducers_work (Thread_Step 1 (\<lambda>_. 0)) s = Some t"
    using s(3,4,7) w by (simp add: simple_body_step_def t_def)
  then have st: "simple_step CProducers_work s t" unfolding simple_step_def by blast
  have t: "loop_hung t" using s(3,4) by (simp add: loop_hung_def t_def)
  have "loop_hung u" if "(simple_step CProducers_work)\<^sup>*\<^sup>* t u" for u
    using that by (induction rule: rtranclp_induct) (auto intro: loop_hung_step t)
  then show ?thesis using r s(2) w st by (intro exI [of _ s] exI [of _ t]) (auto simp: loop_hung_def)
qed

end
