(* ===== verification/SigcObserver.thy ===== *)
theory SigcObserver
  imports ThreadLife
begin

section \<open>A producer with the signals of another library\<close>

text \<open>
  \<^verbatim>\<open>tutorial_libezthread/Observer.cpp\<close>: \<^verbatim>\<open>MyObserver.cpp\<close> with \<^verbatim>\<open>sigc::signal\<close> in place of \<^verbatim>\<open>TSignal\<close>.
  \<^verbatim>\<open>Start\<close> connects a slot and gives its iterator, \<^verbatim>\<open>Stop\<close> takes the iterator; the thread sends to the
  consumer and emits the signal, round after round. The library is not part of the program: its
  calls are parameters, and what is used of their laws is named \<open>sigc_ok\<close>. It is documented not to be safe for
  threads: to connect or disconnect while another thread emits is undefined. The program
  with its main and the consumer is in theory \<open>SigcMain\<close>.
\<close>

subsection \<open>The library\<close>

text \<open>
  Slots are named by the observer they call. \<open>sg_alive\<close> are the iterators whose slot is connected,
  \<open>sg_wf\<close> the signals the library can make.
\<close>

record ('g, 'i) sigc =
  sg_connect :: "nat \<Rightarrow> 'g \<Rightarrow> 'i \<times> 'g"
  sg_disconnect :: "'i \<Rightarrow> 'g \<Rightarrow> 'g"
  sg_slots :: "'g \<Rightarrow> nat list"
  sg_alive :: "'g \<Rightarrow> 'i set"
  sg_wf :: "'g \<Rightarrow> bool"

definition sigc_ok :: "('g, 'i) sigc \<Rightarrow> bool" where
  "sigc_ok sg \<longleftrightarrow> (\<forall>g x i. sg_wf sg g \<longrightarrow>
     sg_wf sg (snd (sg_connect sg x g)) \<and> sg_wf sg (sg_disconnect sg i g) \<and>
     finite (sg_alive sg g) \<and> card (sg_alive sg g) = length (sg_slots sg g) \<and>
     fst (sg_connect sg x g) \<notin> sg_alive sg g \<and>
     sg_alive sg (snd (sg_connect sg x g)) = insert (fst (sg_connect sg x g)) (sg_alive sg g) \<and>
     sg_slots sg (snd (sg_connect sg x g)) = sg_slots sg g @ [x] \<and>
     sg_alive sg (sg_disconnect sg i g) = sg_alive sg g - {i})"

subsection \<open>The program\<close>

datatype su_pc =
    V_Out
  | V_Lock         \<comment> \<open>in \<^verbatim>\<open>Start\<close>, before \<^verbatim>\<open>__lock\<close>\<close>
  | V_Connect      \<comment> \<open>before \<^verbatim>\<open>connect\<close>\<close>
  | V_Test         \<comment> \<open>before the test of \<^verbatim>\<open>m_iUser\<close>\<close>
  | V_Create       \<comment> \<open>in \<^verbatim>\<open>CreateThread\<close>\<close>
  | V_Count        \<comment> \<open>before \<^verbatim>\<open>m_iUser++\<close>\<close>
  | V_Unlock
  | V_In           \<comment> \<open>\<^verbatim>\<open>Start\<close> has returned\<close>
  | W_Destroy      \<comment> \<open>in \<^verbatim>\<open>Stop\<close>, in \<^verbatim>\<open>DestroyThread(TRUE)\<close>\<close>
  | W_Lock
  | W_Dec          \<comment> \<open>before \<^verbatim>\<open>m_iUser--\<close>\<close>
  | W_Disconnect   \<comment> \<open>before \<^verbatim>\<open>disconnect\<close>\<close>
  | W_Unlock

datatype sloop_pc =
    E_Test             \<comment> \<open>before the test of \<^verbatim>\<open>m_bLoop\<close>\<close>
  | E_Send             \<comment> \<open>before \<^verbatim>\<open>SendMessage\<close>\<close>
  | E_Emit "nat list"  \<comment> \<open>in \<^verbatim>\<open>emit\<close>, with these slots still to be called\<close>

text \<open>
  User \<open>i\<close> is caller \<open>i\<close> of the thread's life; \<open>sp_iter i\<close> is the iterator \<^verbatim>\<open>Start\<close> gave it. \<open>sp_told\<close> is
  the history of the slots called, with the round; \<open>race\<close> is set when the behaviour becomes
  undefined: by a race on the signal, or by an overflow of \<open>ii\<close>.
\<close>

record ('g, 'i) sigc_prod =
  sp_life :: life
  sp_sig :: 'g
  sp_mtx :: CEZMutex
  sp_user :: int
  sp_at :: "su_pc list"
  sp_iter :: "nat \<Rightarrow> 'i"
  sp_loop :: "nat \<Rightarrow> sloop_pc"
  sp_ii :: "nat \<Rightarrow> int"
  sp_consumers :: CEZThread
  sp_told :: "(int \<times> nat) list"
  race :: bool

definition sp_user_at :: "nat \<Rightarrow> su_pc \<Rightarrow> ('g, 'i) sigc_prod \<Rightarrow> ('g, 'i) sigc_prod" where
  "sp_user_at i p s = s\<lparr>sp_at := (sp_at s)[i := p]\<rparr>"

definition emitting :: "('g, 'i) sigc_prod \<Rightarrow> bool" where
  "emitting s \<longleftrightarrow> (\<exists>j < length (bodies (sp_life s)). bodies (sp_life s) ! j = B_Proc \<and>
     (case sp_loop s j of E_Emit _ \<Rightarrow> True | _ \<Rightarrow> False))"

definition sp_call :: "nat \<Rightarrow> su_pc \<Rightarrow> su_pc \<Rightarrow> life_action \<Rightarrow> ('g, 'i) sigc_prod \<Rightarrow> ('g, 'i) sigc_prod option" where
  "sp_call i p q a s =
     map_option (\<lambda>l. sp_user_at i (if callers l ! i = C_Idle then q else p) (s\<lparr>sp_life := l\<rparr>))
       (life_exec a (sp_life s))"

definition sp_lock :: "nat \<Rightarrow> su_pc \<Rightarrow> ('g, 'i) sigc_prod \<Rightarrow> ('g, 'i) sigc_prod option" where
  "sp_lock i p s =
     (case Lock i (sp_mtx s) of Done m \<Rightarrow> Some (sp_user_at i p (s\<lparr>sp_mtx := m\<rparr>)) | _ \<Rightarrow> None)"

definition sp_unlock :: "nat \<Rightarrow> su_pc \<Rightarrow> ('g, 'i) sigc_prod \<Rightarrow> ('g, 'i) sigc_prod option" where
  "sp_unlock i p s =
     (case Unlock i (sp_mtx s) of Done m \<Rightarrow> Some (sp_user_at i p (s\<lparr>sp_mtx := m\<rparr>)) | _ \<Rightarrow> None)"

text \<open>\<^verbatim>\<open>Start\<close>.\<close>

fun sg_start_step ::
    "('g, 'i) sigc \<Rightarrow> thread_os \<Rightarrow> u32 \<Rightarrow> nat \<Rightarrow> su_pc \<Rightarrow> ('g, 'i) sigc_prod \<Rightarrow> ('g, 'i) sigc_prod option" where
  "sg_start_step sg os now i V_Lock s = sp_lock i V_Connect s"
| "sg_start_step sg os now i V_Connect s =
     Some (if emitting s then s\<lparr>race := True\<rparr>
           else let (it, g) = sg_connect sg i (sp_sig s)
                in sp_user_at i V_Test (s\<lparr>sp_sig := g, sp_iter := (sp_iter s)(i := it)\<rparr>))"
| "sg_start_step sg os now i V_Test s =
     (if sp_user s = 0 then sp_call i V_Create V_Create (Create i) s else Some (sp_user_at i V_Count s))"
| "sg_start_step sg os now i V_Create s = sp_call i V_Create V_Count (Caller i os now) s"
| "sg_start_step sg os now i V_Count s = Some (sp_user_at i V_Unlock (s\<lparr>sp_user := sp_user s + 1\<rparr>))"
| "sg_start_step sg os now i V_Unlock s = sp_unlock i V_In s"
| "sg_start_step sg os now i _ s = None"

text \<open>\<^verbatim>\<open>Stop\<close>, which asks the thread to end whoever else is connected.\<close>

fun sg_stop_step ::
    "('g, 'i) sigc \<Rightarrow> thread_os \<Rightarrow> u32 \<Rightarrow> nat \<Rightarrow> su_pc \<Rightarrow> ('g, 'i) sigc_prod \<Rightarrow> ('g, 'i) sigc_prod option" where
  "sg_stop_step sg os now i W_Destroy s = sp_call i W_Destroy W_Lock (Caller i os now) s"
| "sg_stop_step sg os now i W_Lock s = sp_lock i W_Dec s"
| "sg_stop_step sg os now i W_Dec s = Some (sp_user_at i W_Disconnect (s\<lparr>sp_user := sp_user s - 1\<rparr>))"
| "sg_stop_step sg os now i W_Disconnect s =
     Some (if emitting s then s\<lparr>race := True\<rparr>
           else sp_user_at i W_Unlock (s\<lparr>sp_sig := sg_disconnect sg (sp_iter s i) (sp_sig s)\<rparr>))"
| "sg_stop_step sg os now i W_Unlock s = sp_unlock i V_Out s"
| "sg_stop_step sg os now i _ s = None"

text \<open>\<^verbatim>\<open>CProducers::ThreadProc\<close> in the \<open>j\<close>th thread.\<close>

fun sg_loop_step ::
    "('g, 'i) sigc \<Rightarrow> u32 \<Rightarrow> nat \<Rightarrow> sloop_pc \<Rightarrow> ('g, 'i) sigc_prod \<Rightarrow> ('g, 'i) sigc_prod option" where
  "sg_loop_step sg now j E_Test s =
     (if m_bLoop (obj (sp_life s)) then Some (s\<lparr>sp_loop := (sp_loop s)(j := E_Send)\<rparr>)
      else map_option (\<lambda>l. s\<lparr>sp_life := l\<rparr>) (life_exec (Body j) (sp_life s)))"
| "sg_loop_step sg now j E_Send s =
     Some (s\<lparr>sp_consumers := snd (Thread_SendMessage now 100 (word_of_int (sp_ii s j))
               (word_of_int (sp_ii s j - 1)) 0 (sp_consumers s)),
             sp_loop := (sp_loop s)(j := E_Emit (sg_slots sg (sp_sig s)))\<rparr>)"
| "sg_loop_step sg now j (E_Emit (x # xs)) s =
     Some (s\<lparr>sp_told := sp_told s @ [(sp_ii s j, x)], sp_loop := (sp_loop s)(j := E_Emit xs)\<rparr>)"
| "sg_loop_step sg now j (E_Emit []) s =
     Some (if sp_ii s j = 2 ^ 31 - 1 then s\<lparr>race := True\<rparr>
           else s\<lparr>sp_ii := (sp_ii s)(j := sp_ii s j + 1), sp_loop := (sp_loop s)(j := E_Test)\<rparr>)"

datatype sigc_action =
    Sg_Start nat | Sg_Stop nat | Sg_User nat thread_os u32 | Sg_Thread nat u32

fun sg_exec :: "('g, 'i) sigc \<Rightarrow> sigc_action \<Rightarrow> ('g, 'i) sigc_prod \<Rightarrow> ('g, 'i) sigc_prod option" where
  "sg_exec sg (Sg_Start i) s =
     (if i < length (sp_at s) \<and> sp_at s ! i = V_Out then Some (sp_user_at i V_Lock s) else None)"
| "sg_exec sg (Sg_Stop i) s =
     (if i < length (sp_at s) \<and> sp_at s ! i = V_In then sp_call i W_Destroy W_Destroy (Destroy i True) s
      else None)"
| "sg_exec sg (Sg_User i os now) s =
     (if i < length (sp_at s)
      then (if sp_at s ! i \<in> {W_Destroy, W_Lock, W_Dec, W_Disconnect, W_Unlock}
            then sg_stop_step sg os now i (sp_at s ! i) s
            else sg_start_step sg os now i (sp_at s ! i) s)
      else None)"
| "sg_exec sg (Sg_Thread j now) s =
     (if j < length (bodies (sp_life s)) \<and> bodies (sp_life s) ! j = B_Proc
      then sg_loop_step sg now j (sp_loop s j) s
      else map_option (\<lambda>l. s\<lparr>sp_life := l\<rparr>) (life_exec (Body j) (sp_life s)))"

definition sg_step :: "('g, 'i) sigc \<Rightarrow> ('g, 'i) sigc_prod \<Rightarrow> ('g, 'i) sigc_prod \<Rightarrow> bool" where
  "sg_step sg s t \<longleftrightarrow> \<not> race s \<and> (\<exists>a. sg_exec sg a s = Some t)"

definition sg_init :: "('g, 'i) sigc \<Rightarrow> ('g, 'i) sigc_prod \<Rightarrow> bool" where
  "sg_init sg s \<longleftrightarrow> (\<exists>p old. (case p of Posix k \<Rightarrow> 1 \<le> k | Win32 \<Rightarrow> True) \<and>
       obj (sp_life s) = CEZThread_new p old ''CProducers'' THREAD_PRIORITY_DEFAULT 0 0 \<and>
       sp_mtx s = CEZMutex_new p MUTEX_FAST) \<and>
     m_pHead (mgr (sp_life s)) = None \<and> bodies (sp_life s) = [] \<and> failed (sp_life s) = 0 \<and>
     callers (sp_life s) = replicate (length (sp_at s)) C_Idle \<and>
     sg_wf sg (sp_sig s) \<and> sg_alive sg (sp_sig s) = {} \<and> sp_user s = 0 \<and> (\<forall>i < length (sp_at s). sp_at s ! i = V_Out) \<and>
     (\<forall>j. sp_loop s j = E_Test \<and> sp_ii s j = 0) \<and> sp_told s = [] \<and> \<not> race s"

subsection \<open>The lock and the count\<close>

text \<open>Where a user has the lock, is counted, and has a slot.\<close>

fun v_inside :: "su_pc \<Rightarrow> bool" where
  "v_inside V_Out = False" | "v_inside V_Lock = False" | "v_inside V_In = False"
| "v_inside W_Destroy = False" | "v_inside W_Lock = False" | "v_inside _ = True"

fun v_counted :: "su_pc \<Rightarrow> nat" where
  "v_counted V_Unlock = 1" | "v_counted V_In = 1" | "v_counted W_Destroy = 1"
| "v_counted W_Lock = 1" | "v_counted W_Dec = 1" | "v_counted _ = 0"

fun v_slot :: "su_pc \<Rightarrow> bool" where
  "v_slot V_Out = False" | "v_slot V_Lock = False" | "v_slot V_Connect = False"
| "v_slot W_Unlock = False" | "v_slot _ = True"

definition lock_inv :: "CEZMutex \<Rightarrow> su_pc list \<Rightarrow> bool" where
  "lock_inv m ps \<longleftrightarrow> mutex_ok m \<and>
     (case mtx_owner m of
        None \<Rightarrow> \<forall>i < length ps. \<not> v_inside (ps ! i)
      | Some i \<Rightarrow> mtx_depth m = 1 \<and> i < length ps \<and> v_inside (ps ! i) \<and>
          (\<forall>k < length ps. k \<noteq> i \<longrightarrow> \<not> v_inside (ps ! k)))"

definition slot_owners :: "su_pc list \<Rightarrow> nat set" where
  "slot_owners ps = {i. i < length ps \<and> v_slot (ps ! i)}"

definition sp_inv :: "('g, 'i) sigc \<Rightarrow> ('g, 'i) sigc_prod \<Rightarrow> bool" where
  "sp_inv sg s \<longleftrightarrow> lock_inv (sp_mtx s) (sp_at s) \<and>
     sp_user s = int (sum_list (map v_counted (sp_at s))) \<and>
     inj_on (sp_iter s) (slot_owners (sp_at s)) \<and> sg_wf sg (sp_sig s) \<and>
     sg_alive sg (sp_sig s) = sp_iter s ` slot_owners (sp_at s)"

lemma lock_inv_stay:
  assumes "lock_inv m ps" and "i < length ps" and "v_inside p = v_inside (ps ! i)"
  shows "lock_inv m (ps[i := p])"
  using assms by (auto simp: lock_inv_def nth_list_update split: option.splits)

lemma lock_inv_lock:
  assumes "lock_inv m ps" and "i < length ps" and "\<not> v_inside (ps ! i)" and "v_inside p"
    and "Lock i m = Done m'"
  shows "lock_inv m' (ps[i := p])"
  using assms
  by (auto simp: lock_inv_def Lock_def mutex_ok_def nth_list_update split: option.splits if_splits)

lemma lock_inv_unlock:
  assumes "lock_inv m ps" and "i < length ps" and "v_inside (ps ! i)" and "\<not> v_inside p"
    and "Unlock i m = Done m'"
  shows "lock_inv m' (ps[i := p])"
  using assms
  by (auto simp: lock_inv_def Unlock_def mutex_ok_def nth_list_update split: option.splits if_splits)

lemma slot_owners_update:
  "i < length ps \<Longrightarrow> slot_owners (ps[i := p]) = (if v_slot p then insert i (slot_owners ps) else slot_owners ps - {i})"
  by (auto simp: slot_owners_def nth_list_update)

lemma slot_owners_in [simp]: "i < length ps \<Longrightarrow> i \<in> slot_owners ps \<longleftrightarrow> v_slot (ps ! i)"
  by (simp add: slot_owners_def)

lemma counted_update:
  "i < length ps \<Longrightarrow> int (sum_list (map v_counted (ps[i := p]))) =
     int (sum_list (map v_counted ps)) + int (v_counted p) - int (v_counted (ps ! i))"
  using sum_list_update_eq [of i ps v_counted p] by linarith

text \<open>A step of user \<open>i\<close> that keeps its count and its slot.\<close>

lemma sp_inv_move:
  assumes "sp_inv sg s" and "i < length (sp_at s)" and "sp_at t = (sp_at s)[i := p]"
    and "lock_inv (sp_mtx t) ((sp_at s)[i := p])"
    and "v_counted p = v_counted (sp_at s ! i)" and "v_slot p = v_slot (sp_at s ! i)"
    and "sp_user t = sp_user s" and "sp_sig t = sp_sig s" and "sp_iter t = sp_iter s"
  shows "sp_inv sg t"
proof -
  have "slot_owners (sp_at t) = slot_owners (sp_at s)"
    using assms(2,3,6) slot_owners_update [OF assms(2), of p] by (auto simp: insert_absorb)
  then show ?thesis using assms counted_update [OF assms(2), of p] by (simp add: sp_inv_def)
qed

lemma sp_call_inv:
  assumes inv: "sp_inv sg s" and i: "i < length (sp_at s)" and c: "sp_call i p q a s = Some t"
    and p: "v_inside p = v_inside (sp_at s ! i)" "v_counted p = v_counted (sp_at s ! i)" "v_slot p = v_slot (sp_at s ! i)"
    and q: "v_inside q = v_inside (sp_at s ! i)" "v_counted q = v_counted (sp_at s ! i)" "v_slot q = v_slot (sp_at s ! i)"
  shows "sp_inv sg t"
proof -
  have l: "lock_inv (sp_mtx s) (sp_at s)" using inv by (simp add: sp_inv_def)
  obtain x where x: "life_exec a (sp_life s) = Some x"
      "t = sp_user_at i (if callers x ! i = C_Idle then q else p) (s\<lparr>sp_life := x\<rparr>)"
    using c by (auto simp: sp_call_def)
  define r where "r = (if callers x ! i = C_Idle then q else p)"
  then have "r = p \<or> r = q" "sp_at t = (sp_at s)[i := r]" "sp_mtx t = sp_mtx s" "sp_user t = sp_user s"
      "sp_sig t = sp_sig s" "sp_iter t = sp_iter s"
    using x(2) by (auto simp: sp_user_at_def)
  then show ?thesis using p q lock_inv_stay [OF l i, of r]
    by (intro sp_inv_move [OF inv i, of t r]) auto
qed

lemma sp_lock_inv:
  assumes inv: "sp_inv sg s" and i: "i < length (sp_at s)" and c: "sp_lock i p s = Some t"
    and p: "\<not> v_inside (sp_at s ! i)" "v_inside p" "v_counted p = v_counted (sp_at s ! i)" "v_slot p = v_slot (sp_at s ! i)"
  shows "sp_inv sg t"
proof -
  have l: "lock_inv (sp_mtx s) (sp_at s)" using inv by (simp add: sp_inv_def)
  obtain m where "Lock i (sp_mtx s) = Done m" "t = sp_user_at i p (s\<lparr>sp_mtx := m\<rparr>)"
    using c by (auto simp: sp_lock_def split: outcome.splits)
  then show ?thesis using p lock_inv_lock [OF l i p(1,2)]
    by (intro sp_inv_move [OF inv i, of t p]) (auto simp: sp_user_at_def)
qed

lemma sp_unlock_inv:
  assumes inv: "sp_inv sg s" and i: "i < length (sp_at s)" and c: "sp_unlock i p s = Some t"
    and p: "v_inside (sp_at s ! i)" "\<not> v_inside p" "v_counted p = v_counted (sp_at s ! i)" "v_slot p = v_slot (sp_at s ! i)"
  shows "sp_inv sg t"
proof -
  have l: "lock_inv (sp_mtx s) (sp_at s)" using inv by (simp add: sp_inv_def)
  obtain m where "Unlock i (sp_mtx s) = Done m" "t = sp_user_at i p (s\<lparr>sp_mtx := m\<rparr>)"
    using c by (auto simp: sp_unlock_def split: outcome.splits)
  then show ?thesis using p lock_inv_unlock [OF l i p(1,2)]
    by (intro sp_inv_move [OF inv i, of t p]) (auto simp: sp_user_at_def)
qed

lemma sp_count_inv:
  assumes "sp_inv sg s" and "i < length (sp_at s)" and "t = sp_user_at i p (s\<lparr>sp_user := sp_user s + d\<rparr>)"
    and "v_inside p = v_inside (sp_at s ! i)" and "v_slot p = v_slot (sp_at s ! i)"
    and "int (v_counted p) = int (v_counted (sp_at s ! i)) + d"
  shows "sp_inv sg t"
proof -
  have "slot_owners ((sp_at s)[i := p]) = slot_owners (sp_at s)"
    using assms(2,5) slot_owners_update [OF assms(2), of p] by (auto simp: insert_absorb)
  then show ?thesis using assms counted_update [OF assms(2), of p] lock_inv_stay [OF _ assms(2,4), of "sp_mtx s"]
    by (simp add: sp_inv_def sp_user_at_def)
qed

lemma connect_inv:
  assumes inv: "sp_inv sg s" and ok: "sigc_ok sg" and i: "i < length (sp_at s)" "sp_at s ! i = V_Connect"
    and t: "sg_connect sg i (sp_sig s) = (it, g)"
      "t = sp_user_at i V_Test (s\<lparr>sp_sig := g, sp_iter := (sp_iter s)(i := it)\<rparr>)"
  shows "sp_inv sg t"
proof -
  have "sg_wf sg (sp_sig s)" using inv by (simp add: sp_inv_def)
  then have g: "it \<notin> sg_alive sg (sp_sig s)" "sg_alive sg g = insert it (sg_alive sg (sp_sig s))"
      "sg_wf sg g"
    using ok t(1) unfolding sigc_ok_def by (metis fst_conv snd_conv)+
  have n: "i \<notin> slot_owners (sp_at s)" using i by simp
  have "slot_owners ((sp_at s)[i := V_Test]) = insert i (slot_owners (sp_at s))"
    using slot_owners_update [OF i(1), of V_Test] by simp
  moreover have "(sp_iter s)(i := it) ` slot_owners (sp_at s) = sp_iter s ` slot_owners (sp_at s)"
    using n by (intro image_cong) auto
  moreover have "inj_on ((sp_iter s)(i := it)) (slot_owners (sp_at s))"
    using inv n by (auto simp: sp_inv_def inj_on_def)
  ultimately show ?thesis
    using inv g n i counted_update [OF i(1), of V_Test] lock_inv_stay [OF _ i(1), of "sp_mtx s" V_Test]
    by (auto simp: sp_inv_def t(2) sp_user_at_def)
qed

lemma disconnect_inv:
  assumes inv: "sp_inv sg s" and ok: "sigc_ok sg" and i: "i < length (sp_at s)" "sp_at s ! i = W_Disconnect"
    and t: "t = sp_user_at i W_Unlock (s\<lparr>sp_sig := sg_disconnect sg (sp_iter s i) (sp_sig s)\<rparr>)"
  shows "sp_inv sg t"
proof -
  have "sg_wf sg (sp_sig s)" using inv by (simp add: sp_inv_def)
  then have g: "sg_alive sg (sp_sig t) = sg_alive sg (sp_sig s) - {sp_iter s i}" "sg_wf sg (sp_sig t)"
    using ok by (simp_all add: t sigc_ok_def sp_user_at_def)
  have n: "i \<in> slot_owners (sp_at s)" using i by simp
  have j: "inj_on (sp_iter s) (slot_owners (sp_at s))"
      "sg_alive sg (sp_sig s) = sp_iter s ` slot_owners (sp_at s)"
    using inv by (simp_all add: sp_inv_def)
  have o: "slot_owners ((sp_at s)[i := W_Unlock]) = slot_owners (sp_at s) - {i}"
    using slot_owners_update [OF i(1), of W_Unlock] by simp
  have "sp_iter s ` (slot_owners (sp_at s) - {i}) = sp_iter s ` slot_owners (sp_at s) - {sp_iter s i}"
    using inj_on_image_set_diff [OF j(1), of "slot_owners (sp_at s)" "{i}"] n by simp
  moreover have "inj_on (sp_iter s) (slot_owners (sp_at s) - {i})"
    by (rule inj_on_subset [OF j(1)]) blast
  ultimately show ?thesis
    using inv g i j counted_update [OF i(1), of W_Unlock] lock_inv_stay [OF _ i(1), of "sp_mtx s" W_Unlock] o
    by (simp add: sp_inv_def t sp_user_at_def)
qed

lemma sg_loop_same:
  assumes "sg_loop_step sg now j p s = Some t"
  shows "sp_mtx t = sp_mtx s \<and> sp_at t = sp_at s \<and> sp_user t = sp_user s \<and> sp_iter t = sp_iter s \<and> sp_sig t = sp_sig s"
proof (cases p)
  case (E_Emit xs)
  then show ?thesis using assms by (cases xs) auto
qed (use assms in \<open>auto split: if_splits\<close>)

lemma sp_inv_same:
  "sp_inv sg s \<Longrightarrow> sp_mtx t = sp_mtx s \<and> sp_at t = sp_at s \<and> sp_user t = sp_user s \<and> sp_iter t = sp_iter s \<and>
     sp_sig t = sp_sig s \<Longrightarrow> sp_inv sg t"
  by (simp add: sp_inv_def)

lemma sg_start_inv:
  assumes ok: "sigc_ok sg" and inv: "sp_inv sg s" and i: "i < length (sp_at s)"
    and st: "sg_start_step sg os now i (sp_at s ! i) s = Some t"
  shows "sp_inv sg t"
proof (cases "sp_at s ! i")
  case V_Connect
  then show ?thesis using st connect_inv [OF inv ok i V_Connect] sp_inv_same [OF inv, of t]
    by (auto split: if_splits prod.splits)
next
  case V_Test
  have l: "lock_inv (sp_mtx s) (sp_at s)" using inv by (simp add: sp_inv_def)
  show ?thesis
  proof (cases "sp_user s = 0")
    case True
    then show ?thesis using st V_Test sp_call_inv [OF inv i, of V_Create V_Create] by simp
  next
    case False
    then have "t = sp_user_at i V_Count s" using st V_Test by simp
    then show ?thesis using V_Test sp_inv_move [OF inv i, of t V_Count] lock_inv_stay [OF l i, of V_Count]
      by (simp add: sp_user_at_def)
  qed
next
  case V_Lock
  then show ?thesis using st sp_lock_inv [OF inv i, of V_Connect] by simp
next
  case V_Create
  then show ?thesis using st sp_call_inv [OF inv i, of V_Create V_Count] by simp
next
  case V_Count
  then show ?thesis using st sp_count_inv [OF inv i, of t V_Unlock 1] by simp
next
  case V_Unlock
  then show ?thesis using st sp_unlock_inv [OF inv i, of V_In] by simp
qed (use st in simp_all)

lemma sg_stop_inv:
  assumes ok: "sigc_ok sg" and inv: "sp_inv sg s" and i: "i < length (sp_at s)"
    and st: "sg_stop_step sg os now i (sp_at s ! i) s = Some t"
  shows "sp_inv sg t"
proof (cases "sp_at s ! i")
  case W_Disconnect
  then show ?thesis using st disconnect_inv [OF inv ok i W_Disconnect] sp_inv_same [OF inv, of t]
    by (auto split: if_splits)
next
  case W_Destroy
  then show ?thesis using st sp_call_inv [OF inv i, of W_Destroy W_Lock] by simp
next
  case W_Lock
  then show ?thesis using st sp_lock_inv [OF inv i, of W_Dec] by simp
next
  case W_Dec
  then show ?thesis using st sp_count_inv [OF inv i, of t W_Disconnect "- 1"] by simp
next
  case W_Unlock
  then show ?thesis using st sp_unlock_inv [OF inv i, of V_Out] by simp
qed (use st in simp_all)

lemma sg_step_inv:
  assumes ok: "sigc_ok sg" and "sg_step sg s t" and inv: "sp_inv sg s"
  shows "sp_inv sg t"
proof -
  obtain a where a: "sg_exec sg a s = Some t" using assms(2) by (auto simp: sg_step_def)
  have l: "lock_inv (sp_mtx s) (sp_at s)" using inv by (simp add: sp_inv_def)
  show ?thesis
  proof (cases a)
    case (Sg_Start i)
    then show ?thesis
      using a lock_inv_stay [OF l, of i V_Lock] sp_inv_move [OF inv, of i t V_Lock]
      by (auto simp: sp_user_at_def split: if_splits)
  next
    case (Sg_Stop i)
    then show ?thesis using a sp_call_inv [OF inv, of i W_Destroy W_Destroy] by (auto split: if_splits)
  next
    case (Sg_User i os now)
    then show ?thesis using a sg_start_inv [OF ok inv, of i] sg_stop_inv [OF ok inv, of i]
      by (auto split: if_splits)
  next
    case (Sg_Thread j now)
    then show ?thesis using a sp_inv_same [OF inv, of t] sg_loop_same [of sg now j "sp_loop s j" s t]
      by (auto simp del: life_exec.simps split: if_splits)
  qed
qed

lemma sg_init_inv:
  assumes "sg_init sg s"
  shows "sp_inv sg s"
proof -
  obtain p where p: "sp_mtx s = CEZMutex_new p MUTEX_FAST" using assms by (auto simp: sg_init_def)
  have out: "\<forall>i < length (sp_at s). sp_at s ! i = V_Out" "sg_alive sg (sp_sig s) = {}" "sp_user s = 0"
      "sg_wf sg (sp_sig s)"
    using assms by (simp_all add: sg_init_def)
  then have "slot_owners (sp_at s) = {}" by (auto simp: slot_owners_def)
  moreover have "sum_list (map v_counted (sp_at s)) = 0" using out(1) by (intro sum_list_all_zero) simp
  moreover have "lock_inv (sp_mtx s) (sp_at s)"
    using p out(1) mutex_new_free [of p MUTEX_FAST] by (simp add: lock_inv_def)
  ultimately show ?thesis using out by (simp add: sp_inv_def)
qed

text \<open>
  However users start and stop, and as long as nothing undefined has happened: whenever nobody has
  the lock, \<^verbatim>\<open>m_iUser\<close> is the number of the slots that are connected, and of the users that
  are in.
\<close>

lemma slots_counted:
  assumes ok: "sigc_ok sg" and "reach (sg_init sg) (sg_step sg) s" and free: "mtx_owner (sp_mtx s) = None"
  shows "sp_user s = int (length (sg_slots sg (sp_sig s)))"
    and "sp_user s = int (card {i. i < length (sp_at s) \<and> sp_at s ! i \<in> {V_In, W_Destroy, W_Lock}})"
proof -
  have inv: "sp_inv sg s"
    using assms(2) by (induction rule: reach.induct) (auto intro: sg_init_inv sg_step_inv [OF ok])
  let ?C = "slot_owners (sp_at s)" and ?in = "\<lambda>p. p \<in> {V_In, W_Destroy, W_Lock}"
  have "\<not> v_inside (sp_at s ! i)" if "i < length (sp_at s)" for i
    using inv free that by (simp add: sp_inv_def lock_inv_def)
  then have pc: "sp_at s ! i \<in> {V_Out, V_Lock, V_In, W_Destroy, W_Lock}" if "i < length (sp_at s)" for i
    using that by (cases "sp_at s ! i") force+
  have C: "?C = {i. i < length (sp_at s) \<and> ?in (sp_at s ! i)}"
    using pc by (fastforce simp: slot_owners_def)
  have "map v_counted (sp_at s) = map (\<lambda>p. if ?in p then 1 else 0) (sp_at s)"
    using pc by (intro nth_equalityI) fastforce+
  moreover have "sum_list (map (\<lambda>p. if ?in p then 1 else 0 :: nat) ps) = length (filter ?in ps)" for ps
    by (induction ps) auto
  ultimately have "sum_list (map v_counted (sp_at s)) = length (filter ?in (sp_at s))" by (simp only:)
  also have "\<dots> = card {i. i < length (sp_at s) \<and> ?in (sp_at s ! i)}" by (rule length_filter_conv_card)
  finally have n: "sum_list (map v_counted (sp_at s)) = card ?C" unfolding C .
  then show "sp_user s = int (card {i. i < length (sp_at s) \<and> ?in (sp_at s ! i)})"
    using inv by (simp add: sp_inv_def C)
  have "card ?C = card (sp_iter s ` ?C)" using inv by (simp add: sp_inv_def card_image)
  also have "\<dots> = card (sg_alive sg (sp_sig s))" using inv by (simp add: sp_inv_def)
  also have "\<dots> = length (sg_slots sg (sp_sig s))"
  proof -
    have "sg_wf sg (sp_sig s)" using inv by (simp add: sp_inv_def)
    then show ?thesis using ok unfolding sigc_ok_def by blast
  qed
  finally show "sp_user s = int (length (sg_slots sg (sp_sig s)))" using inv n by (simp add: sp_inv_def)
qed

subsection \<open>A race\<close>

text \<open>A library whose signals are lists of numbered slots.\<close>

definition list_sigc :: "(nat \<times> (nat \<times> nat) list, nat) sigc" where
  "list_sigc = \<lparr>sg_connect = (\<lambda>x (n, ss). (n, (Suc n, ss @ [(n, x)]))),
     sg_disconnect = (\<lambda>i (n, ss). (n, filter (\<lambda>s. fst s \<noteq> i) ss)),
     sg_slots = (\<lambda>(n, ss). map snd ss), sg_alive = (\<lambda>(n, ss). fst ` set ss),
     sg_wf = (\<lambda>(n, ss). distinct (map fst ss) \<and> (\<forall>s \<in> set ss. fst s < n))\<rparr>"

lemma list_sigc_ok: "sigc_ok list_sigc"
proof -
  have "card (fst ` set ss) = length ss" if "distinct (map fst ss)" for ss :: "(nat \<times> nat) list"
    using distinct_card [OF that] by simp
  moreover have "fst ` set (filter (\<lambda>s. fst s \<noteq> i) ss) = fst ` set ss - {i}" for i and ss :: "(nat \<times> nat) list"
    by auto
  moreover have "distinct (map fst (filter P ss))" if "distinct (map fst ss)" for P and ss :: "(nat \<times> nat) list"
    using that by (rule distinct_map_filter)
  ultimately show ?thesis by (fastforce simp: sigc_ok_def list_sigc_def)
qed

definition sigc_prod0 :: "(nat \<times> (nat \<times> nat) list, nat) sigc_prod" where
  "sigc_prod0 = \<lparr>sp_life = \<lparr>self = 1, mgr = no_threads (\<lambda>_. CEZThread_new (Posix 9) raw_thread
          ''CProducers'' THREAD_PRIORITY_DEFAULT 0 0),
        callers = [C_Idle, C_Idle], bodies = [], failed = 0\<rparr>,
     sp_sig = (0, []), sp_mtx = CEZMutex_new (Posix 9) MUTEX_FAST, sp_user = 0,
     sp_at = [V_Out, V_Out], sp_iter = (\<lambda>_. 0), sp_loop = (\<lambda>_. E_Test), sp_ii = (\<lambda>_. 0),
     sp_consumers = CEZThread_new (Posix 900) raw_thread ''CConsumers'' THREAD_PRIORITY_DEFAULT 100 0,
     sp_told = [], race = False\<rparr>"

fun sg_run :: "('g, 'i) sigc \<Rightarrow> sigc_action list \<Rightarrow> ('g, 'i) sigc_prod \<Rightarrow> ('g, 'i) sigc_prod option" where
  "sg_run sg [] s = Some s"
| "sg_run sg (a # as) s = (if race s then None else Option.bind (sg_exec sg a s) (sg_run sg as))"

text \<open>
  User 0 starts; the thread calls its slot and has just finished the round, or is still in it when
  user 1 starts.
\<close>

definition one_user :: "sigc_action list" where
  "one_user = Sg_Start 0 # replicate 8 (Sg_User 0 good_os 0) @ replicate 5 (Sg_Thread 0 7)"

lemma sigc_round:
  "map_option (\<lambda>s. (sp_at s, sp_user s, sg_slots list_sigc (sp_sig s), sp_told s, sp_ii s 0, race s))
     (sg_run list_sigc (one_user @ [Sg_Thread 0 7, Sg_Start 1, Sg_User 1 good_os 0, Sg_User 1 good_os 0])
       sigc_prod0) =
   Some ([V_In, V_Test], 1, [0, 1], [(0, 0)], 1, False)"
  by code_simp

lemma sigc_race:
  "map_option (\<lambda>s. (sp_at s, emitting s, race s))
     (sg_run list_sigc (one_user @ [Sg_Start 1, Sg_User 1 good_os 0, Sg_User 1 good_os 0]) sigc_prod0) =
   Some ([V_In, V_Connect], True, True)"
  by code_simp

end
