(* ===== verification/Producer.thy ===== *)
theory Producer
  imports ThreadLife Signal
begin

section \<open>A producer and its users\<close>

text \<open>
  \<^verbatim>\<open>CDevUsbStorageKey\<close> of \<^verbatim>\<open>tutorial_libezthread/Observer.signal\<close> and \<^verbatim>\<open>CProducers\<close> of
  \<^verbatim>\<open>tutorial_libezthread/MyObserver.cpp\<close>: a thread that, as long as it runs, calls the
  observers of its signal. Any number of users attach with \<^verbatim>\<open>Start(pObj, pProc)\<close> and leave
  with \<^verbatim>\<open>Stop(pObj, pProc)\<close>; a mutex guards both, and a count of the users decides when the
  thread is created and destroyed. Here the models of the mutex, the signal and the life of
  a thread work together: the users, the steps of \<^verbatim>\<open>CreateThread\<close> and \<^verbatim>\<open>DestroyThread\<close> they
  are in, and the threads started interleave freely. \<^verbatim>\<open>CFunUsbStorageKey\<close> and \<^verbatim>\<open>CObserver\<close> are
  the users: user \<open>i\<close> is the object at the address \<open>i\<close>, and its function is \<^verbatim>\<open>OnDownload\<close>,
  which only prints.
\<close>

subsection \<open>Program points and states\<close>

datatype observer_proc = OnDownload

datatype user_pc =
    U_Out            \<comment> \<open>not registered\<close>
  | S_Lock           \<comment> \<open>\<^verbatim>\<open>Start\<close>: at the lock of \<^verbatim>\<open>m_MutexSigBuffer\<close>\<close>
  | S_Attach         \<comment> \<open>before \<^verbatim>\<open>m_SigBuffer.Attach\<close> and the test of \<^verbatim>\<open>m_iUser\<close>\<close>
  | S_Create         \<comment> \<open>in \<^verbatim>\<open>CreateThread\<close>\<close>
  | S_Count          \<comment> \<open>before \<^verbatim>\<open>m_iUser++\<close>\<close>
  | S_Unlock bool    \<comment> \<open>before the end of the lock; with the result\<close>
  | U_In             \<comment> \<open>registered\<close>
  | T_Lock           \<comment> \<open>\<^verbatim>\<open>Stop\<close>: at the lock\<close>
  | T_Dec            \<comment> \<open>before the decrement of \<^verbatim>\<open>m_iUser\<close>\<close>
  | T_Detach         \<comment> \<open>before \<^verbatim>\<open>m_SigBuffer.Detach\<close> and the test of \<^verbatim>\<open>m_iUser\<close>\<close>
  | T_Destroy        \<comment> \<open>in \<^verbatim>\<open>DestroyThread(TRUE)\<close>\<close>
  | T_Unlock bool    \<comment> \<open>before the end of the lock; with the result\<close>
  | M_Destroy        \<comment> \<open>\<^verbatim>\<open>CProducers::Stop\<close>: in \<^verbatim>\<open>DestroyThread(TRUE)\<close>, without the lock\<close>
  | M_Lock
  | M_Dec
  | M_Detach
  | M_Unlock

datatype proc_pc =
    R_Test       \<comment> \<open>\<^verbatim>\<open>ThreadProc\<close>: before the test of \<^verbatim>\<open>m_bLoop\<close>\<close>
  | R_Slot nat   \<comment> \<open>the call operator of the signal: before the test of slot \<open>k\<close>\<close>
  | R_Call nat   \<comment> \<open>before the call through slot \<open>k\<close>\<close>

text \<open>\<open>told\<close> is the history of the calls made to the observers.\<close>

record producer =
  life :: life
  sig :: "observer_proc TSignal"
  mtx :: CEZMutex
  m_iUser :: int
  users :: "user_pc list"
  procs :: "nat \<Rightarrow> proc_pc"
  told :: "(addr option \<times> observer_proc option) list"

definition observer_of :: "nat \<Rightarrow> addr option \<times> observer_proc option" where
  "observer_of i = (Some i, Some OnDownload)"

definition user_at :: "nat \<Rightarrow> user_pc \<Rightarrow> producer \<Rightarrow> producer" where
  "user_at i p s = s\<lparr>users := (users s)[i := p]\<rparr>"

definition proc_at :: "nat \<Rightarrow> proc_pc \<Rightarrow> producer \<Rightarrow> producer" where
  "proc_at j p s = s\<lparr>procs := (procs s)(j := p)\<rparr>"

definition call_life :: "life_action \<Rightarrow> producer \<Rightarrow> producer option" where
  "call_life a s = map_option (\<lambda>l. s\<lparr>life := l\<rparr>) (life_exec a (life s))"

text \<open>
  The methods without arguments, which nothing calls and which leave the count alone.
  \<^verbatim>\<open>Stop()\<close> clears \<^verbatim>\<open>m_bLoop\<close> first, so that \<^verbatim>\<open>DestroyThread\<close> takes the thread for stopped.
\<close>

definition CDevUsbStorageKey_Start :: "thread_os \<Rightarrow> CEZThread \<Rightarrow> (EZTHREAD_BOOL \<times> CEZThread) outcome" where
  "CDevUsbStorageKey_Start os t = (if m_bLoop t then Done (True, t) else CreateThread os t)"

definition CDevUsbStorageKey_Stop ::
    "u32 \<Rightarrow> int \<Rightarrow> CEZThread \<Rightarrow> (EZTHREAD_BOOL \<times> CEZThread) outcome" where
  "CDevUsbStorageKey_Stop now me t =
     (if m_bLoop t then
        obind (DestroyThread now me False (t\<lparr>m_bLoop := False\<rparr>)) (\<lambda>(_, t). Done (True, t))
      else Done (True, t))"

lemma CDevUsbStorageKey_Stop_eq: "CDevUsbStorageKey_Stop now me t = Done (True, t\<lparr>m_bLoop := False\<rparr>)"
  by (simp add: CDevUsbStorageKey_Stop_def DestroyThread_def IsStoped_def)

subsection \<open>Steps\<close>

text \<open>\<^verbatim>\<open>Start\<close> by user \<open>i\<close>.\<close>

fun start_step :: "nat \<Rightarrow> user_pc \<Rightarrow> producer \<Rightarrow> producer option" where
  "start_step i S_Lock s =
     (case Lock i (mtx s) of Done m \<Rightarrow> Some (user_at i S_Attach (s\<lparr>mtx := m\<rparr>)) | _ \<Rightarrow> None)"
| "start_step i S_Attach s =
     (case Attach i (Some i) (Some OnDownload) (sig s) of
        Done (r, g) \<Rightarrow>
          (let s = s\<lparr>sig := g\<rparr>
           in if r < 0 then Some (user_at i (S_Unlock False) s)
              else if m_iUser s = 0 then call_life (Create i) (user_at i S_Create s)
              else Some (user_at i S_Count s))
      | _ \<Rightarrow> None)"
| "start_step i S_Create s =
     (if callers (life s) ! i = C_Idle then Some (user_at i S_Count s) else None)"
| "start_step i S_Count s = Some (user_at i (S_Unlock True) (s\<lparr>m_iUser := m_iUser s + 1\<rparr>))"
| "start_step i (S_Unlock b) s =
     (case Unlock i (mtx s) of
        Done m \<Rightarrow> Some (user_at i (if b then U_In else U_Out) (s\<lparr>mtx := m\<rparr>))
      | _ \<Rightarrow> None)"
| "start_step i _ s = None"

text \<open>\<^verbatim>\<open>CDevUsbStorageKey::Stop\<close>.\<close>

fun stop_step :: "nat \<Rightarrow> user_pc \<Rightarrow> producer \<Rightarrow> producer option" where
  "stop_step i T_Lock s =
     (case Lock i (mtx s) of Done m \<Rightarrow> Some (user_at i T_Dec (s\<lparr>mtx := m\<rparr>)) | _ \<Rightarrow> None)"
| "stop_step i T_Dec s =
     Some (user_at i T_Detach (if 0 < m_iUser s then s\<lparr>m_iUser := m_iUser s - 1\<rparr> else s))"
| "stop_step i T_Detach s =
     (case Detach i (Some i) (Some OnDownload) (sig s) of
        Done (r, g) \<Rightarrow>
          (let s = s\<lparr>sig := g\<rparr>
           in if m_iUser s = 0 then call_life (Destroy i True) (user_at i T_Destroy s)
              else Some (user_at i (T_Unlock (r = 0)) s))
      | _ \<Rightarrow> None)"
| "stop_step i T_Destroy s =
     (if callers (life s) ! i = C_Idle then Some (user_at i (T_Unlock True) s) else None)"
| "stop_step i (T_Unlock b) s =
     (case Unlock i (mtx s) of Done m \<Rightarrow> Some (user_at i U_Out (s\<lparr>mtx := m\<rparr>)) | _ \<Rightarrow> None)"
| "stop_step i _ s = None"

text \<open>\<^verbatim>\<open>CProducers::Stop\<close>.\<close>

fun my_stop_step :: "nat \<Rightarrow> user_pc \<Rightarrow> producer \<Rightarrow> producer option" where
  "my_stop_step i M_Destroy s =
     (if callers (life s) ! i = C_Idle then Some (user_at i M_Lock s) else None)"
| "my_stop_step i M_Lock s =
     (case Lock i (mtx s) of Done m \<Rightarrow> Some (user_at i M_Dec (s\<lparr>mtx := m\<rparr>)) | _ \<Rightarrow> None)"
| "my_stop_step i M_Dec s = Some (user_at i M_Detach (s\<lparr>m_iUser := m_iUser s - 1\<rparr>))"
| "my_stop_step i M_Detach s =
     (case Detach i (Some i) (Some OnDownload) (sig s) of
        Done (r, g) \<Rightarrow> Some (user_at i M_Unlock (s\<lparr>sig := g\<rparr>))
      | _ \<Rightarrow> None)"
| "my_stop_step i M_Unlock s =
     (case Unlock i (mtx s) of Done m \<Rightarrow> Some (user_at i U_Out (s\<lparr>mtx := m\<rparr>)) | _ \<Rightarrow> None)"
| "my_stop_step i _ s = None"

fun user_step :: "nat \<Rightarrow> user_pc \<Rightarrow> producer \<Rightarrow> producer option" where
  "user_step i S_Lock s = start_step i S_Lock s"
| "user_step i S_Attach s = start_step i S_Attach s"
| "user_step i S_Create s = start_step i S_Create s"
| "user_step i S_Count s = start_step i S_Count s"
| "user_step i (S_Unlock b) s = start_step i (S_Unlock b) s"
| "user_step i T_Lock s = stop_step i T_Lock s"
| "user_step i T_Dec s = stop_step i T_Dec s"
| "user_step i T_Detach s = stop_step i T_Detach s"
| "user_step i T_Destroy s = stop_step i T_Destroy s"
| "user_step i (T_Unlock b) s = stop_step i (T_Unlock b) s"
| "user_step i M_Destroy s = my_stop_step i M_Destroy s"
| "user_step i M_Lock s = my_stop_step i M_Lock s"
| "user_step i M_Dec s = my_stop_step i M_Dec s"
| "user_step i M_Detach s = my_stop_step i M_Detach s"
| "user_step i M_Unlock s = my_stop_step i M_Unlock s"
| "user_step i U_Out s = None"
| "user_step i U_In s = None"

text \<open>
  \<^verbatim>\<open>ThreadProc\<close> in the \<open>j\<close>th thread started: the loop \<^verbatim>\<open>while (m_bLoop) m_SigBuffer(...)\<close>. The
  call operator takes no lock; it reads a slot's status, and then its object and function
  as it calls.
\<close>

fun proc_step :: "nat \<Rightarrow> proc_pc \<Rightarrow> producer \<Rightarrow> producer option" where
  "proc_step j R_Test s =
     (if m_bLoop (obj (life s)) then Some (proc_at j (R_Slot 0) s) else call_life (Body j) s)"
| "proc_step j (R_Slot k) s =
     Some (proc_at j
       (if int k < m_nMaxSlots (sig s)
        then if normal (m_Vector (sig s) ! k) then R_Call k else R_Slot (Suc k)
        else R_Test) s)"
| "proc_step j (R_Call k) s =
     Some (proc_at j (R_Slot (Suc k)) (s\<lparr>told := told s @ [target (m_Vector (sig s) ! k)]\<rparr>))"

datatype prod_action =
    Begin nat                \<comment> \<open>user \<open>i\<close> calls \<^verbatim>\<open>Start\<close>\<close>
  | Finish nat               \<comment> \<open>user \<open>i\<close> calls \<^verbatim>\<open>CDevUsbStorageKey::Stop\<close>\<close>
  | MyFinish nat             \<comment> \<open>user \<open>i\<close> calls \<^verbatim>\<open>CProducers::Stop\<close>\<close>
  | User nat                 \<comment> \<open>user \<open>i\<close> makes its next step\<close>
  | Call nat thread_os u32   \<comment> \<open>the next step in \<^verbatim>\<open>CreateThread\<close> or \<^verbatim>\<open>DestroyThread\<close>\<close>
  | Run nat                  \<comment> \<open>the \<open>j\<close>th thread makes its next step\<close>

fun prod_exec :: "prod_action \<Rightarrow> producer \<Rightarrow> producer option" where
  "prod_exec (Begin i) s =
     (if i < length (users s) \<and> users s ! i = U_Out then Some (user_at i S_Lock s) else None)"
| "prod_exec (Finish i) s =
     (if i < length (users s) \<and> users s ! i = U_In then Some (user_at i T_Lock s) else None)"
| "prod_exec (MyFinish i) s =
     (if i < length (users s) \<and> users s ! i = U_In
      then call_life (Destroy i True) (user_at i M_Destroy s) else None)"
| "prod_exec (User i) s = (if i < length (users s) then user_step i (users s ! i) s else None)"
| "prod_exec (Call i os now) s =
     (if i < length (users s) then call_life (Caller i os now) s else None)"
| "prod_exec (Run j) s =
     (if j < length (bodies (life s)) \<and> bodies (life s) ! j = B_Proc
      then proc_step j (procs s j) s else call_life (Body j) s)"

fun prod_run :: "prod_action list \<Rightarrow> producer \<Rightarrow> producer option" where
  "prod_run [] s = Some s"
| "prod_run (a # as) s = (case prod_exec a s of None \<Rightarrow> None | Some t \<Rightarrow> prod_run as t)"

fun my_action :: "prod_action \<Rightarrow> bool" where
  "my_action (MyFinish _) = True"
| "my_action _ = False"

text \<open>The steps of \<^verbatim>\<open>CDevUsbStorageKey\<close>, and with \<open>my\<close> those of \<^verbatim>\<open>CProducers\<close> as well.\<close>

definition prod_step :: "bool \<Rightarrow> producer \<Rightarrow> producer \<Rightarrow> bool" where
  "prod_step my s t \<longleftrightarrow> (\<exists>a. (my_action a \<longrightarrow> my) \<and> prod_exec a s = Some t)"

text \<open>The constructors, of \<^verbatim>\<open>CDevUsbStorageKey\<close> and of \<^verbatim>\<open>CProducers\<close>: a thread without a queue,
  and a signal asked for two slots.\<close>

definition prod_init :: "producer \<Rightarrow> bool" where
  "prod_init s \<longleftrightarrow> (\<exists>p old name. (case p of Posix k \<Rightarrow> 1 \<le> k | Win32 \<Rightarrow> True) \<and>
       name \<in> {''CDevUsbStorageKey'', ''CProducers''} \<and>
       obj (life s) = CEZThread_new p old name THREAD_PRIORITY_DEFAULT 0 0 \<and>
       TSignal_new p 2 = Done (sig s) \<and> mtx s = CEZMutex_new p MUTEX_FAST) \<and>
     m_pHead (mgr (life s)) = None \<and> bodies (life s) = [] \<and> failed (life s) = 0 \<and>
     callers (life s) = replicate (length (users s)) C_Idle \<and>
     m_iUser s = 0 \<and> (\<forall>i < length (users s). users s ! i = U_Out) \<and>
     (\<forall>j. procs s j = R_Test) \<and> told s = []"

lemma prod_run_reach:
  assumes "reach prod_init (prod_step my) s" and "prod_run as s = Some t"
    and "\<forall>a \<in> set as. my_action a \<longrightarrow> my"
  shows "reach prod_init (prod_step my) t"
  using assms
proof (induction as arbitrary: s)
  case (Cons a as)
  then obtain u where u: "prod_exec a s = Some u" "prod_run as u = Some t"
    by (auto split: option.splits)
  moreover have "prod_step my s u" using u(1) Cons.prems(3) by (auto simp: prod_step_def)
  ultimately show ?case
    using Cons.IH [OF reach_step [OF Cons.prems(1)] u(2)] Cons.prems(3) by simp
qed simp

subsection \<open>Concrete runs\<close>

definition prod0 :: "nat \<Rightarrow> producer" where
  "prod0 n =
     \<lparr>life = \<lparr>self = 1, mgr = no_threads (\<lambda>_. CEZThread_new (Posix 9) raw_thread
          ''CDevUsbStorageKey'' THREAD_PRIORITY_DEFAULT 0 0),
        callers = replicate n C_Idle, bodies = [], failed = 0\<rparr>,
      sig = \<lparr>m_nMaxSlots = 4, m_Vector = replicate 4 TSigNode_new,
        m_CMutex = CEZMutex_new (Posix 9) MUTEX_FAST\<rparr>,
      mtx = CEZMutex_new (Posix 9) MUTEX_FAST, m_iUser = 0, users = replicate n U_Out,
      procs = (\<lambda>_. R_Test), told = []\<rparr>"

lemma prod0_init: "prod_init (prod0 n)"
  unfolding prod_init_def
  by (intro conjI exI [of _ "Posix 9"] exI [of _ raw_thread] exI [of _ "''CDevUsbStorageKey''"])
    (simp_all add: prod0_def obj_def no_threads_def TSignal_new_def)

lemma prod0_run:
  assumes "prod_run as (prod0 n) = Some t" and "\<forall>a \<in> set as. my_action a \<longrightarrow> my"
  shows "reach prod_init (prod_step my) t"
  using prod_run_reach [OF reach_init [of prod_init, OF prod0_init]] assms by blast

text \<open>User \<open>i\<close> starts as the first user, or as a later one; the thread reaches its loop.\<close>

definition starts_first :: "nat \<Rightarrow> prod_action list" where
  "starts_first i = [Begin i, User i, User i, Call i good_os 0, Call i good_os 0,
     Call i good_os 0, User i, User i, User i]"

definition starts_next :: "nat \<Rightarrow> prod_action list" where
  "starts_next i = [Begin i, User i, User i, User i, User i]"

definition hang_run :: "prod_action list" where
  "hang_run = starts_first 0 @ [Run 0, Run 0, Finish 0, User 0, User 0, User 0,
     Call 0 good_os 0, Call 0 good_os 0] @ replicate 5 (Run 0) @ replicate 4 (Call 0 good_os 0)"

text \<open>User 0 waits in \<^verbatim>\<open>DestroyThread\<close> for a thread that has ended, and holds the lock.\<close>

definition hung :: "producer \<Rightarrow> bool" where
  "hung s \<longleftrightarrow> (\<exists>u v. users s = [T_Destroy, u, v] \<and> {u, v} \<subseteq> {U_Out, S_Lock}) \<and>
     callers (life s) = [D_Wait, C_Idle, C_Idle] \<and> bodies (life s) = [B_Exit] \<and>
     mtx_owner (mtx s) = Some 0 \<and> Wait (m_desCEZSemaphore (obj (life s))) = Blocked"

lemma hang_run_eq:
  "map_option (\<lambda>t. (users t, callers (life t), bodies (life t), failed (life t), mtx_owner (mtx t),
      Wait (m_desCEZSemaphore (obj (life t))))) (prod_run hang_run (prod0 3)) =
    Some ([T_Destroy, U_Out, U_Out], [D_Wait, C_Idle, C_Idle], [B_Exit], 0, Some 0, Blocked)"
  by code_simp

lemma hung_step:
  assumes "prod_step False s t" and "hung s"
  shows "hung t"
proof -
  obtain a where a: "\<not> my_action a" "prod_exec a s = Some t"
    using assms(1) by (auto simp: prod_step_def)
  obtain u v where u: "users s = [T_Destroy, u, v]" "u = U_Out \<or> u = S_Lock" "v = U_Out \<or> v = S_Lock"
    and l: "callers (life s) = [D_Wait, C_Idle, C_Idle]" "bodies (life s) = [B_Exit]"
    and m: "mtx_owner (mtx s) = Some 0"
    and w: "Wait (m_desCEZSemaphore (obj (life s))) = Blocked"
    using assms(2) by (auto simp: hung_def)
  have no_call: "life_exec (Caller i os now) (life s) = None" for i os now
    using l(1) w by (cases i; cases "i - 1"; cases "i - 2") auto
  have no_lock: "0 < i \<Longrightarrow> Lock i (mtx s) = Blocked" for i
    using m by (simp add: Lock_def)
  have c: "i = 0 \<or> i = 1 \<or> i = 2" if "i < 3" for i :: nat using that by auto
  show ?thesis
  proof (cases a)
    case (Begin i)
    then have "i < 3" "users s ! i = U_Out" "t = user_at i S_Lock s"
      using a(2) u(1) by (auto split: if_splits)
    then show ?thesis using c [of i] u l m w by (auto simp: hung_def user_at_def)
  next
    case (Finish i)
    then have "i < 3" "users s ! i = U_In" using a(2) u(1) by (auto split: if_splits)
    then show ?thesis using c [of i] u by auto
  next
    case (User i)
    then have i: "i < 3" "user_step i (users s ! i) s = Some t"
      using a(2) u(1) by (auto split: if_splits)
    then show ?thesis using c [of i] u l no_lock [of i] by auto
  next
    case (Call i os now)
    then show ?thesis using a(2) no_call by (simp add: call_life_def split: if_splits)
  next
    case (Run j)
    then show ?thesis using a(2) l(2) by (auto simp: call_life_def split: if_splits)
  qed (use a in simp)
qed

subsection \<open>What a program point means\<close>

fun counted :: "user_pc \<Rightarrow> nat" where
  "counted (S_Unlock b) = (if b then 1 else 0)"
| "counted U_In = 1"
| "counted T_Lock = 1"
| "counted T_Dec = 1"
| "counted _ = 0"

fun attached :: "user_pc \<Rightarrow> bool" where
  "attached S_Create = True"
| "attached S_Count = True"
| "attached T_Detach = True"
| "attached p = (counted p = 1)"

fun in_section :: "user_pc \<Rightarrow> bool" where
  "in_section U_Out = False"
| "in_section S_Lock = False"
| "in_section U_In = False"
| "in_section T_Lock = False"
| "in_section M_Destroy = False"
| "in_section M_Lock = False"
| "in_section _ = True"

text \<open>The user wants the thread to run, as far as its call has got.\<close>

fun loop_on :: "user_pc \<Rightarrow> caller_pc \<Rightarrow> bool" where
  "loop_on S_Create c = (c = C_Spawn \<or> c = C_Idle)"
| "loop_on T_Destroy c = (c = D_Check True \<or> c = D_Loop True)"
| "loop_on p c = attached p"

fun call_ok :: "user_pc \<Rightarrow> caller_pc \<Rightarrow> bool" where
  "call_ok S_Create c = (c \<in> {C_Idle, C_Wait, C_Loop, C_Spawn})"
| "call_ok T_Destroy c = (c \<in> {D_Check True, D_Loop True, D_Send True, D_Self True, D_Flag True,
     D_Test, D_Wait, C_Idle})"
| "call_ok M_Destroy c = False"
| "call_ok M_Lock c = False"
| "call_ok M_Dec c = False"
| "call_ok M_Detach c = False"
| "call_ok M_Unlock c = False"
| "call_ok p c = (c = C_Idle)"

definition late :: "body_pc \<Rightarrow> bool" where
  "late p \<longleftrightarrow> p \<in> {B_Clear, B_Check, B_PostD, B_PostC}"

definition early :: "body_pc \<Rightarrow> bool" where
  "early p \<longleftrightarrow> p \<in> {B_ID, B_Add, B_Proc}"

lemma body_holds_late: "body_holds p = (if early p \<or> late p then 1 else 0)"
  by (cases p) (simp_all add: late_def early_def)

definition others_on :: "user_pc list \<Rightarrow> caller_pc list \<Rightarrow> nat \<Rightarrow> bool" where
  "others_on us cs i \<longleftrightarrow> (\<exists>j < length us. j \<noteq> i \<and> loop_on (us ! j) (cs ! j))"

subsection \<open>The invariant, by component\<close>

definition life_part :: "life \<Rightarrow> user_pc list \<Rightarrow> bool" where
  "life_part l us \<longleftrightarrow> life_inv l \<and> length (callers l) = length us \<and>
     (\<forall>i < length us. call_ok (us ! i) (callers l ! i)) \<and>
     (m_bLoop (obj l) \<longleftrightarrow> (\<exists>i < length us. loop_on (us ! i) (callers l ! i))) \<and>
     (m_bLoop (obj l) \<longrightarrow> sem_value (m_cCEZSemaphore (obj l)) = 0 \<and> (\<forall>p \<in> set (bodies l). \<not> late p))"

definition lock_part :: "CEZMutex \<Rightarrow> user_pc list \<Rightarrow> bool" where
  "lock_part m us \<longleftrightarrow> mutex_ok m \<and> mtx_depth m \<le> 1 \<and> (\<forall>i < length us. in_section (us ! i) \<longleftrightarrow> mtx_owner m = Some i)"

definition count_part :: "int \<Rightarrow> user_pc list \<Rightarrow> bool" where
  "count_part k us \<longleftrightarrow> k = int (sum_list (map counted us)) \<and>
     (\<forall>i < length us. (us ! i \<in> {S_Create, T_Destroy} \<longrightarrow> k = 0) \<and>
        (\<forall>b. us ! i = T_Unlock b \<longrightarrow> b = (k = 0)))"

definition sig_part :: "observer_proc TSignal \<Rightarrow> user_pc list \<Rightarrow> bool" where
  "sig_part g us \<longleftrightarrow> sig_ok g \<and>
     observers (m_Vector g) = observer_of ` {i. i < length us \<and> attached (us ! i)}"

definition prod_inv :: "producer \<Rightarrow> bool" where
  "prod_inv s \<longleftrightarrow> life_part (life s) (users s) \<and> lock_part (mtx s) (users s) \<and>
     count_part (m_iUser s) (users s) \<and> sig_part (sig s) (users s)"

lemma loop_split:
  assumes "i < length us" and "length cs = length us"
  shows "(\<exists>j < length us. loop_on (us[i := p] ! j) (cs[i := c] ! j)) \<longleftrightarrow>
    loop_on p c \<or> others_on us cs i"
  using assms by (auto simp: others_on_def nth_list_update)

lemma life_partD:
  assumes "life_part l us" and "i < length us"
  shows "life_inv l" "length (callers l) = length us" "call_ok (us ! i) (callers l ! i)"
    "m_bLoop (obj l) \<longleftrightarrow> loop_on (us ! i) (callers l ! i) \<or> others_on us (callers l) i"
    "m_bLoop (obj l) \<Longrightarrow> sem_value (m_cCEZSemaphore (obj l)) = 0"
    "m_bLoop (obj l) \<Longrightarrow> p \<in> set (bodies l) \<Longrightarrow> \<not> late p"
  using assms loop_split [of i us "callers l" "us ! i" "callers l ! i"] by (auto simp: life_part_def)

lemma life_part_move:
  assumes part: "life_part l us" and i: "i < length us"
    and "life_inv l'" and cs: "callers l' = (callers l)[i := c]" and ok: "call_ok p c"
    and on: "m_bLoop (obj l') \<longleftrightarrow> loop_on p c \<or> others_on us (callers l) i"
    and "m_bLoop (obj l') \<Longrightarrow> sem_value (m_cCEZSemaphore (obj l')) = 0 \<and> (\<forall>p \<in> set (bodies l'). \<not> late p)"
  shows "life_part l' (us[i := p])"
proof -
  note d = life_partD [OF part i]
  have "\<forall>j < length us. call_ok (us[i := p] ! j) (callers l' ! j)"
    using part ok i d(2) by (simp add: cs life_part_def nth_list_update)
  then show ?thesis
    using assms(3,7) on loop_split [OF i d(2), of p c] d(2) by (simp add: life_part_def cs)
qed

text \<open>The user moves and the thread does not.\<close>

lemma life_part_user:
  assumes part: "life_part l us" and i: "i < length us" and "call_ok p (callers l ! i)"
    and "loop_on p (callers l ! i) \<or> others_on us (callers l) i \<longleftrightarrow>
      loop_on (us ! i) (callers l ! i) \<or> others_on us (callers l) i"
  shows "life_part l (us[i := p])"
  using life_partD [OF part i] assms by (intro life_part_move [OF part i]) auto

lemma lock_part_keep:
  assumes "lock_part m us" and "i < length us" and "in_section p = in_section (us ! i)"
  shows "lock_part m (us[i := p])"
  using assms by (auto simp: lock_part_def nth_list_update)

lemma lock_part_enter:
  assumes "lock_part m us" and i: "i < length us" and "\<not> in_section (us ! i)" and "in_section p"
    and l: "Lock i m = Done m'"
  shows "lock_part m' (us[i := p])"
proof -
  have "mtx_owner m \<noteq> Some i" using assms by (auto simp: lock_part_def)
  then have "mtx_owner m = None" "mtx_depth m' = 1" using l by (auto simp: Lock_Done_iff)
  then show ?thesis
    using assms Lock_mutex_ok [OF l] Lock_owner [OF l] by (auto simp: lock_part_def nth_list_update)
qed

lemma lock_part_leave:
  assumes "lock_part m us" and i: "i < length us" and "in_section (us ! i)" and "\<not> in_section p"
    and u: "Unlock i m = Done m'"
  shows "lock_part m' (us[i := p])"
proof -
  have o: "mtx_owner m = Some i" "mtx_depth m \<le> 1" using assms by (auto simp: lock_part_def)
  then have "mtx_owner m' = None" "mtx_depth m' = 0" using u by (auto simp: Unlock_def)
  moreover have "mutex_ok m'" using Unlock_mutex_ok [OF u] assms(1) by (simp add: lock_part_def)
  ultimately show ?thesis using assms o(1) by (auto simp: lock_part_def nth_list_update)
qed

lemma only_one_inside:
  "lock_part m us \<Longrightarrow> i < length us \<Longrightarrow> j < length us \<Longrightarrow> in_section (us ! i) \<Longrightarrow>
    in_section (us ! j) \<Longrightarrow> i = j"
  by (auto simp: lock_part_def)

text \<open>The count, and what follows from it for the thread.\<close>

lemma counted_le: "counted p \<le> 1" "counted p = 1 \<Longrightarrow> loop_on p c \<and> attached p"
  by (cases p; simp)+

lemma count_part_keep:
  assumes "count_part k us" and "i < length us" and "counted p = counted (us ! i)"
    and "p \<in> {S_Create, T_Destroy} \<Longrightarrow> k = 0" and "\<And>b. p = T_Unlock b \<Longrightarrow> b = (k = 0)"
  shows "count_part k (us[i := p])"
  using assms sum_list_update_eq [OF assms(2), of counted p]
  by (auto simp: count_part_def nth_list_update simp del: sum_list_eq_0_iff)

lemma count_part_change:
  assumes part: "count_part k us" and i: "i < length us"
    and lock: "lock_part m us" "in_section (us ! i)" and p: "p \<notin> {S_Create, T_Destroy}" "\<And>b. p \<noteq> T_Unlock b"
    and k: "k' + int (counted (us ! i)) = k + int (counted p)"
  shows "count_part k' (us[i := p])"
proof -
  have "us ! j \<notin> {S_Create, T_Destroy} \<and> us ! j \<noteq> T_Unlock b" if "j < length us" "j \<noteq> i" for j b
    using only_one_inside [OF lock(1) i that(1) lock(2)] that(2) by (cases "us ! j") auto
  then show ?thesis
    using assms sum_list_update_eq [OF i, of counted p]
    by (auto simp: count_part_def nth_list_update)
qed

lemma counted_others:
  assumes "count_part k us" and "counted (us ! i) = 0" and "k \<noteq> 0"
  shows "others_on us cs i" and "\<exists>j < length us. j \<noteq> i \<and> attached (us ! j)"
proof -
  have "sum_list (map counted us) \<noteq> 0" using assms by (simp add: count_part_def)
  then obtain j where j: "j < length us" "counted (us ! j) \<noteq> 0"
    using sum_list_all_zero [of us counted] by metis
  then have "counted (us ! j) = 1" using counted_le(1) [of "us ! j"] by simp
  then have "loop_on (us ! j) (cs ! j) \<and> attached (us ! j)" by (rule counted_le(2))
  then show "others_on us cs i" "\<exists>j < length us. j \<noteq> i \<and> attached (us ! j)"
    using j assms(2) by (auto simp: others_on_def intro!: exI [of _ j])
qed

lemma alone_off:
  assumes "count_part 0 us" and "lock_part m us" and "i < length us" and "in_section (us ! i)"
  shows "\<not> others_on us cs i"
proof
  assume "others_on us cs i"
  then obtain j where j: "j < length us" "j \<noteq> i" "loop_on (us ! j) (cs ! j)"
    by (auto simp: others_on_def)
  have "counted (us ! j) \<le> sum_list (map counted us)" using j(1) by (rule sum_list_member_le)
  then have "counted (us ! j) = 0" using assms(1)
    by (simp add: count_part_def del: sum_list_eq_0_iff)
  moreover have "\<not> in_section (us ! j)" using only_one_inside [OF assms(2,3) j(1) assms(4)] j(2) by blast
  ultimately show False using j(3) by (cases "us ! j") (auto split: if_splits)
qed

text \<open>The observers.\<close>

lemma observer_of_inj: "observer_of i = observer_of j \<longleftrightarrow> i = j"
  by (simp add: observer_of_def)

lemma sig_part_keep:
  assumes "sig_part g us" and "i < length us" and "attached p = attached (us ! i)"
  shows "sig_part g (us[i := p])"
proof -
  have "{j. j < length (us[i := p]) \<and> attached (us[i := p] ! j)} = {j. j < length us \<and> attached (us ! j)}"
    using assms by (auto simp: nth_list_update)
  then show ?thesis using assms(1) by (simp only: sig_part_def)
qed

lemma sig_part_member:
  assumes "sig_part g us" and "i < length us"
  shows "observer_of i \<in> observers (m_Vector g) \<longleftrightarrow> attached (us ! i)"
  using assms by (auto simp: sig_part_def observer_of_inj)

lemma sig_part_attach:
  assumes part: "sig_part g us" and i: "i < length us" and "\<not> attached (us ! i)" and "attached p"
    and a: "Attach i (Some i) (Some OnDownload) g = Done (r, g')" and r: "\<not> r < 0"
  shows "sig_part g' (us[i := p])"
proof -
  have n: "(Some i, Some OnDownload) \<notin> observers (m_Vector g)"
    using sig_part_member [OF part i] assms(3) by (simp add: observer_of_def)
  have g: "sig_ok g" using part by (simp add: sig_part_def)
  have "sig_ok g'" "observers (m_Vector g') = insert (observer_of i) (observers (m_Vector g))"
    using Attach_new [OF g n, of i] a r by (auto simp: observer_of_def split: if_splits)
  moreover have "{j. j < length us \<and> attached (us[i := p] ! j)} =
      insert i {j. j < length us \<and> attached (us ! j)}"
    using assms by (auto simp: nth_list_update)
  ultimately show ?thesis using part by (simp add: sig_part_def)
qed

lemma sig_part_refused:
  assumes part: "sig_part g us" and i: "i < length us" and "\<not> attached (us ! i)"
    and a: "Attach i (Some i) (Some OnDownload) g = Done (r, g')" and r: "r < 0"
  shows "g' = g"
proof -
  have n: "(Some i, Some OnDownload) \<notin> observers (m_Vector g)"
    using sig_part_member [OF part i] assms(3) by (simp add: observer_of_def)
  have g: "sig_ok g" using part by (simp add: sig_part_def)
  show ?thesis using Attach_new [OF g n, of i] a r by (auto split: if_splits)
qed

lemma sig_part_detach:
  assumes part: "sig_part g us" and i: "i < length us" and "attached (us ! i)" and "\<not> attached p"
    and d: "Detach i (Some i) (Some OnDownload) g = Done (r, g')"
  shows "sig_part g' (us[i := p])" and "r = 0 \<longleftrightarrow> \<not> (\<exists>j < length us. j \<noteq> i \<and> attached (us ! j))"
proof -
  let ?A = "{j. j < length us \<and> attached (us ! j)}"
  have m: "(Some i, Some OnDownload) \<in> observers (m_Vector g)"
    using sig_part_member [OF part i] assms(3) by (simp add: observer_of_def)
  have g: "sig_ok g" and o: "observers (m_Vector g) = observer_of ` ?A"
    using part by (simp_all add: sig_part_def)
  have "r = int (card (observers (m_Vector g))) - 1" "sig_ok g'"
      "observers (m_Vector g') = observers (m_Vector g) - {observer_of i}"
    using Detach_member [OF g m, of i] d by (auto simp: observer_of_def)
  moreover have "observer_of ` ?A - {observer_of i} = observer_of ` (?A - {i})"
    by (auto simp: observer_of_inj)
  moreover have "{j. j < length us \<and> attached (us[i := p] ! j)} = ?A - {i}"
    using assms by (auto simp: nth_list_update)
  ultimately show "sig_part g' (us[i := p])" using o by (simp add: sig_part_def)
  have "card (observer_of ` ?A) = card ?A" by (intro card_image) (simp add: inj_on_def observer_of_inj)
  moreover have "card ?A = Suc (card (?A - {i}))" using i assms(3) by (intro card.remove) auto
  ultimately have "r = int (card (?A - {i}))" using o \<open>r = _\<close> by simp
  then show "r = 0 \<longleftrightarrow> \<not> (\<exists>j < length us. j \<noteq> i \<and> attached (us ! j))" by auto
qed

subsection \<open>The steps keep the invariant\<close>

lemma prod_invD:
  assumes "prod_inv s"
  shows "life_part (life s) (users s)" "lock_part (mtx s) (users s)"
    "count_part (m_iUser s) (users s)" "sig_part (sig s) (users s)"
  using assms by (simp_all add: prod_inv_def)

lemma user_at_fields [simp]:
  "life (user_at i p s) = life s" "mtx (user_at i p s) = mtx s" "m_iUser (user_at i p s) = m_iUser s"
  "sig (user_at i p s) = sig s" "users (user_at i p s) = (users s)[i := p]"
  by (simp_all add: user_at_def)

lemma proc_at_fields [simp]:
  "life (proc_at j q s) = life s" "mtx (proc_at j q s) = mtx s" "m_iUser (proc_at j q s) = m_iUser s"
  "sig (proc_at j q s) = sig s" "users (proc_at j q s) = users s"
  by (simp_all add: proc_at_def)

text \<open>User \<open>i\<close> goes from \<open>users s ! i\<close> to \<open>p\<close> while the thread stays as it is.\<close>

lemma prod_inv_user:
  assumes inv: "prod_inv s" and i: "i < length (users s)"
    and t: "life t = life s" "users t = (users s)[i := p]"
    and "call_ok p (callers (life s) ! i)"
    and "loop_on p (callers (life s) ! i) \<or> others_on (users s) (callers (life s)) i \<longleftrightarrow>
      loop_on (users s ! i) (callers (life s) ! i) \<or> others_on (users s) (callers (life s)) i"
    and "lock_part (mtx t) (users t)" and "count_part (m_iUser t) (users t)"
    and "sig_part (sig t) (users t)"
  shows "prod_inv t"
  using assms life_part_user [OF prod_invD(1) [OF inv] i] by (simp add: prod_inv_def)

text \<open>User \<open>i\<close> calls \<^verbatim>\<open>CreateThread\<close> or \<^verbatim>\<open>DestroyThread\<close>.\<close>

lemma prod_inv_call:
  assumes inv: "prod_inv s" and i: "i < length (users s)"
    and t: "life t = caller_at i c (life s)" "users t = (users s)[i := p]"
    and "life_inv (life t)" and "call_ok p c"
    and "loop_on p c \<or> others_on (users s) (callers (life s)) i \<longleftrightarrow>
      loop_on (users s ! i) (callers (life s) ! i) \<or> others_on (users s) (callers (life s)) i"
    and "lock_part (mtx t) (users t)" and "count_part (m_iUser t) (users t)"
    and "sig_part (sig t) (users t)"
  shows "prod_inv t"
proof -
  note d = life_partD [OF prod_invD(1) [OF inv] i]
  have "life_part (life t) ((users s)[i := p])"
    by (rule life_part_move [OF prod_invD(1) [OF inv] i assms(5), where c = c])
      (use assms d in auto)
  then show ?thesis using assms by (simp add: prod_inv_def)
qed

text \<open>User \<open>i\<close>, not in a call, moves and only the lock may change.\<close>

lemma prod_inv_move:
  assumes inv: "prod_inv s" and i: "i < length (users s)"
    and t: "life t = life s" "users t = (users s)[i := p]" "m_iUser t = m_iUser s" "sig t = sig s"
    and idle: "callers (life s) ! i = C_Idle" and ok: "call_ok p C_Idle"
    and same: "attached p = attached (users s ! i)" "counted p = counted (users s ! i)"
      "loop_on p C_Idle = loop_on (users s ! i) C_Idle"
    and p: "p \<notin> {S_Create, T_Destroy}" "\<And>b. p = T_Unlock b \<Longrightarrow> b = (m_iUser s = 0)"
    and lock: "lock_part (mtx t) ((users s)[i := p])"
  shows "prod_inv t"
proof -
  note P = prod_invD [OF inv]
  have "count_part (m_iUser s) ((users s)[i := p])"
    using P(3) i same(2) p by (intro count_part_keep) auto
  moreover have "sig_part (sig s) ((users s)[i := p])"
    using P(4) i same(1) by (rule sig_part_keep)
  ultimately show ?thesis
    by (intro prod_inv_user [OF inv i t(1,2)]) (use idle ok same(3) lock t in simp_all)
qed

lemma call_life_inv: "call_life a s = Some t \<Longrightarrow> life_inv (life s) \<Longrightarrow> life_inv (life t)"
  by (auto simp: call_life_def intro: life_inv_exec)

lemma call_life_start:
  "call_life (Create i) s = Some t \<Longrightarrow> t = s\<lparr>life := caller_at i C_Wait (life s)\<rparr>"
  "call_life (Destroy i b) s = Some t \<Longrightarrow> t = s\<lparr>life := caller_at i (D_Check b) (life s)\<rparr>"
  by (auto simp: call_life_def split: if_splits)

lemma attach_step_inv:
  assumes inv: "prod_inv s" and i: "i < length (users s)" and pc: "users s ! i = S_Attach"
    and st: "user_step i (users s ! i) s = Some t"
  shows "prod_inv t"
proof -
  note P = prod_invD [OF inv] and d = life_partD [OF prod_invD(1) [OF inv] i]
  have idle: "callers (life s) ! i = C_Idle" using d(3) pc by simp
  note lock = lock_part_keep [OF P(2) i] and count = count_part_keep [OF P(3) i]
  obtain r g where a: "Attach i (Some i) (Some OnDownload) (sig s) = Done (r, g)"
    using st pc by (auto split: outcome.splits)
  have new: "\<not> attached (users s ! i)" by (simp add: pc)
  consider (refused) "r < 0" "t = user_at i (S_Unlock False) (s\<lparr>sig := g\<rparr>)"
    | (first) "\<not> r < 0" "m_iUser s = 0" "call_life (Create i) (user_at i S_Create (s\<lparr>sig := g\<rparr>)) = Some t"
    | (later) "\<not> r < 0" "m_iUser s \<noteq> 0" "t = user_at i S_Count (s\<lparr>sig := g\<rparr>)"
    using st pc a by (auto simp: Let_def split: if_splits)
  then show ?thesis
  proof cases
    case refused
    have g: "g = sig s" using sig_part_refused [OF P(4) i new a refused(1)] .
    show ?thesis
      by (rule prod_inv_move [OF inv i, where p = "S_Unlock False"])
        (use refused g pc idle lock [of "S_Unlock False"] in auto)
  next
    case first
    note c = call_life_start(1) [OF first(3)]
    have "life_inv (life t)" using call_life_inv [OF first(3)] d(1) by simp
    moreover have "count_part 0 ((users s)[i := S_Create])"
      using count [of S_Create] first(2) pc by simp
    ultimately show ?thesis
      by (intro prod_inv_call [OF inv i, where p = S_Create and c = C_Wait])
        (use c first pc idle lock [of S_Create] sig_part_attach [OF P(4) i new _ a first(1), of S_Create]
          in auto)
  next
    case later
    have "others_on (users s) (callers (life s)) i"
      using counted_others(1) [OF P(3) _ later(2), of i] pc by simp
    then show ?thesis
      by (intro prod_inv_user [OF inv i, where p = S_Count])
        (use later pc idle lock [of S_Count] count [of S_Count]
          sig_part_attach [OF P(4) i new _ a later(1), of S_Count] in auto)
  qed
qed

lemma detach_step_inv:
  assumes inv: "prod_inv s" and i: "i < length (users s)" and pc: "users s ! i = T_Detach"
    and st: "user_step i (users s ! i) s = Some t"
  shows "prod_inv t"
proof -
  note P = prod_invD [OF inv] and d = life_partD [OF prod_invD(1) [OF inv] i]
  have idle: "callers (life s) ! i = C_Idle" using d(3) pc by simp
  note lock = lock_part_keep [OF P(2) i] and count = count_part_keep [OF P(3) i]
  obtain r g where a: "Detach i (Some i) (Some OnDownload) (sig s) = Done (r, g)"
    using st pc by (auto split: outcome.splits)
  have old: "attached (users s ! i)" by (simp add: pc)
  consider (final) "m_iUser s = 0" "call_life (Destroy i True) (user_at i T_Destroy (s\<lparr>sig := g\<rparr>)) = Some t"
    | (more) "m_iUser s \<noteq> 0" "t = user_at i (T_Unlock (r = 0)) (s\<lparr>sig := g\<rparr>)"
    using st pc a by (auto simp: Let_def split: if_splits)
  then show ?thesis
  proof cases
    case final
    note c = call_life_start(2) [OF final(2)]
    have "life_inv (life t)" using call_life_inv [OF final(2)] d(1) by simp
    moreover have "count_part 0 ((users s)[i := T_Destroy])"
      using count [of T_Destroy] final(1) pc by simp
    ultimately show ?thesis
      by (intro prod_inv_call [OF inv i, where p = T_Destroy and c = "D_Check True"])
        (use c final pc idle lock [of T_Destroy] sig_part_detach(1) [OF P(4) i old _ a, of T_Destroy]
          in auto)
  next
    case more
    note o = counted_others [OF P(3) _ more(1), of i]
    have "others_on (users s) (callers (life s)) i" using o(1) pc by simp
    moreover have "r \<noteq> 0" using sig_part_detach(2) [OF P(4) i old _ a, of T_Destroy] o(2) pc by simp
    ultimately show ?thesis
      by (intro prod_inv_user [OF inv i, where p = "T_Unlock False"])
        (use more pc idle lock [of "T_Unlock False"] count [of "T_Unlock False"]
          sig_part_detach(1) [OF P(4) i old _ a, of "T_Unlock False"] in auto)
  qed
qed

lemma user_step_inv:
  assumes inv: "prod_inv s" and i: "i < length (users s)"
    and st: "user_step i (users s ! i) s = Some t"
  shows "prod_inv t"
proof -
  note P = prod_invD [OF inv] and d = life_partD [OF prod_invD(1) [OF inv] i]
  note enter = lock_part_enter [OF P(2) i] and leave = lock_part_leave [OF P(2) i]
    and keep = lock_part_keep [OF P(2) i] and move = prod_inv_move [OF inv i]
  show ?thesis
  proof (cases "users s ! i")
    case S_Lock
    then obtain m where m: "Lock i (mtx s) = Done m" "t = user_at i S_Attach (s\<lparr>mtx := m\<rparr>)"
      using st by (auto split: outcome.splits)
    show ?thesis
      by (rule move [where p = S_Attach]) (use S_Lock d(3) m enter [OF _ _ m(1), of S_Attach] in auto)
  next
    case S_Attach
    then show ?thesis by (rule attach_step_inv [OF inv i _ st])
  next
    case S_Create
    then have "callers (life s) ! i = C_Idle" "t = user_at i S_Count s"
      using st by (auto split: if_splits)
    then show ?thesis
      by (intro move [where p = S_Count]) (use S_Create keep [of S_Count] in auto)
  next
    case S_Count
    have "count_part (m_iUser s + 1) ((users s)[i := S_Unlock True])"
      by (rule count_part_change [OF P(3) i P(2)]) (simp_all add: S_Count)
    then show ?thesis
      by (intro prod_inv_user [OF inv i, where p = "S_Unlock True"])
        (use S_Count st d(3) keep [of "S_Unlock True"] sig_part_keep [OF P(4) i, of "S_Unlock True"] in auto)
  next
    case (S_Unlock b)
    then obtain m where m: "Unlock i (mtx s) = Done m"
        "t = user_at i (if b then U_In else U_Out) (s\<lparr>mtx := m\<rparr>)"
      using st by (auto split: outcome.splits)
    show ?thesis
      by (cases b; rule move [where p = "if b then U_In else U_Out"])
        (use S_Unlock d(3) m leave [OF _ _ m(1), of U_In] leave [OF _ _ m(1), of U_Out] in auto)
  next
    case T_Lock
    then obtain m where m: "Lock i (mtx s) = Done m" "t = user_at i T_Dec (s\<lparr>mtx := m\<rparr>)"
      using st by (auto split: outcome.splits)
    show ?thesis
      by (rule move [where p = T_Dec]) (use T_Lock d(3) m enter [OF _ _ m(1), of T_Dec] in auto)
  next
    case T_Dec
    have "counted (users s ! i) \<le> sum_list (map counted (users s))"
      using i by (rule sum_list_member_le)
    then have "0 < m_iUser s" using P(3) T_Dec by (simp add: count_part_def del: sum_list_eq_0_iff)
    moreover have "count_part (m_iUser s - 1) ((users s)[i := T_Detach])"
      by (rule count_part_change [OF P(3) i P(2)]) (simp_all add: T_Dec)
    ultimately show ?thesis
      by (intro prod_inv_user [OF inv i, where p = T_Detach])
        (use T_Dec st d(3) keep [of T_Detach] sig_part_keep [OF P(4) i, of T_Detach] in auto)
  next
    case T_Detach
    then show ?thesis by (rule detach_step_inv [OF inv i _ st])
  next
    case T_Destroy
    then have "callers (life s) ! i = C_Idle" "t = user_at i (T_Unlock True) s" "m_iUser s = 0"
      using st P(3) i by (auto simp: count_part_def split: if_splits)
    then show ?thesis
      by (intro move [where p = "T_Unlock True"]) (use T_Destroy keep [of "T_Unlock True"] in auto)
  next
    case (T_Unlock b)
    then obtain m where m: "Unlock i (mtx s) = Done m" "t = user_at i U_Out (s\<lparr>mtx := m\<rparr>)"
      using st by (auto split: outcome.splits)
    show ?thesis
      by (rule move [where p = U_Out]) (use T_Unlock d(3) m leave [OF _ _ m(1), of U_Out] in auto)
  qed (use st d in auto)
qed

text \<open>The next step in \<^verbatim>\<open>CreateThread\<close> or \<^verbatim>\<open>DestroyThread\<close>: what it does to the object.\<close>

lemma token_taken:
  assumes "life_inv l" and "i < length (callers l)" and "callers l ! i = C_Loop"
  shows "sem_value (m_cCEZSemaphore (obj l)) = 0" and "p \<in> set (bodies l) \<Longrightarrow> \<not> late p"
proof -
  have "caller_holds (callers l ! i) \<le> sum_list (map caller_holds (callers l))"
    using assms(2) by (rule sum_list_member_le)
  then have z: "sem_value (m_cCEZSemaphore (obj l)) = 0" "sum_list (map body_holds (bodies l)) = 0"
    using assms(1,3) by (simp_all add: life_inv_def del: sum_list_eq_0_iff)
  then show "sem_value (m_cCEZSemaphore (obj l)) = 0" by simp
  show "p \<in> set (bodies l) \<Longrightarrow> \<not> late p"
    using z(2) body_holds_late [of p] by (auto split: if_splits)
qed

lemma Send_keeps:
  "m_bLoop (snd (Thread_SendMessage now m w l pr t)) = m_bLoop t"
  by (auto simp: Thread_SendMessage_def split: option.splits prod.splits)

lemma call_step_inv:
  assumes inv: "prod_inv s" and i: "i < length (users s)"
    and st: "call_life (Caller i os now) s = Some t"
  shows "prod_inv t"
proof -
  note P = prod_invD [OF inv] and d = life_partD [OF prod_invD(1) [OF inv] i]
  let ?l = "life s" and ?u = "users s ! i"
  have il: "i < length (callers ?l)" using i d(2) by simp
  obtain l' where l': "t = s\<lparr>life := l'\<rparr>" "caller_step os now i (callers ?l ! i) ?l = Some l'"
    using st il by (auto simp: call_life_def)
  have linv: "life_inv l'" using call_life_inv [OF st d(1)] l'(1) by simp
  have off: "\<not> others_on (users s) (callers ?l) i" if "?u = T_Destroy \<or> ?u = S_Create"
  proof -
    have "m_iUser s = 0" using P(3) i that by (auto simp: count_part_def)
    then show ?thesis using alone_off [of "users s" "mtx s" i] P(2,3) i that by auto
  qed
  have move: "prod_inv t" if "callers l' = (callers ?l)[i := c]" "call_ok ?u c"
      "m_bLoop (obj l') \<longleftrightarrow> loop_on ?u c \<or> others_on (users s) (callers ?l) i"
      "m_bLoop (obj l') \<Longrightarrow> sem_value (m_cCEZSemaphore (obj l')) = 0 \<and> (\<forall>p \<in> set (bodies l'). \<not> late p)"
    for c
  proof -
    have "life_part l' ((users s)[i := ?u])"
      by (rule life_part_move [OF P(1) i linv that])
    then show ?thesis using P l'(1) by (simp add: prod_inv_def)
  qed
  show ?thesis
  proof (cases "callers ?l ! i")
    case C_Wait
    then have u: "?u = S_Create" using d(3) by (cases ?u) auto
    have nl: "\<not> m_bLoop (obj ?l)" using d(4) off u C_Wait by simp
    obtain c where c: "l' = caller_at i C_Loop (upd_obj (\<lambda>t. t\<lparr>m_cCEZSemaphore := c\<rparr>) ?l)"
      using l'(2) C_Wait by (auto split: outcome.splits)
    show ?thesis by (rule move [where c = C_Loop]) (use c u nl off in auto)
  next
    case C_Loop
    then have u: "?u = S_Create" using d(3) by (cases ?u) auto
    show ?thesis
      by (rule move [where c = C_Spawn])
        (use l'(2) C_Loop u token_taken [OF d(1) il C_Loop] in auto)
  next
    case C_Spawn
    then have u: "?u = S_Create" using d(3) by (cases ?u) auto
    moreover have "\<not> late B_ID" by (simp add: late_def)
    ultimately show ?thesis using l'(2) C_Spawn d(4-6)
      by (intro move [where c = C_Idle]) (auto split: option.splits)
  next
    case (D_Check b)
    then have u: "?u = T_Destroy" "b = True" using d(3) by (cases ?u; simp)+
    then have "m_bLoop (obj ?l)" using d(4) D_Check by simp
    then show ?thesis using l'(2) D_Check u d(5,6)
      by (intro move [where c = "D_Loop True"]) (auto simp: IsStoped_def)
  next
    case (D_Loop b)
    then have u: "?u = T_Destroy" "b = True" using d(3) by (cases ?u; simp)+
    then show ?thesis using l'(2) D_Loop off
      by (intro move [where c = "D_Send True"]) auto
  next
    case (D_Send b)
    then have u: "?u = T_Destroy" "b = True" using d(3) by (cases ?u; simp)+
    then show ?thesis using l'(2) D_Send d(4) off
      by (intro move [where c = "D_Self True"]) (auto simp: Send_keeps)
  next
    case (D_Self b)
    then have u: "?u = T_Destroy" "b = True" using d(3) by (cases ?u; simp)+
    then show ?thesis using l'(2) D_Self d(4) off
      by (intro move [where c = "if m_ID (obj ?l) \<noteq> caller_id i then D_Flag True else C_Idle"]) auto
  next
    case (D_Flag b)
    then have u: "?u = T_Destroy" "b = True" using d(3) by (cases ?u; simp)+
    then show ?thesis using l'(2) D_Flag d(4) off
      by (intro move [where c = D_Test]) auto
  next
    case D_Test
    then have u: "?u = T_Destroy" using d(3) by (cases ?u) auto
    then show ?thesis using l'(2) D_Test d(4) off
      by (intro move [where c = "if m_bWaitThreadExit (obj ?l) then D_Wait else C_Idle"]) auto
  next
    case D_Wait
    then have u: "?u = T_Destroy" using d(3) by (cases ?u) auto
    then show ?thesis using l'(2) D_Wait d(4) off
      by (intro move [where c = C_Idle]) (auto split: outcome.splits)
  qed (use l'(2) in simp)
qed

text \<open>A step of a thread.\<close>

lemma body_step_effect:
  assumes "body_step j (bodies l ! j) l = Some l'"
  shows "callers l' = callers l" and "m_bLoop (obj l') = m_bLoop (obj l)"
    and "bodies l ! j \<noteq> B_PostC \<Longrightarrow> m_cCEZSemaphore (obj l') = m_cCEZSemaphore (obj l)"
    and "\<exists>q. bodies l' = (bodies l)[j := q] \<and> (late q \<longrightarrow> late (bodies l ! j) \<or> bodies l ! j = B_Proc)"
proof -
  have m: "Thread_ClearMessage t = Done t' \<Longrightarrow> m_bLoop t' = m_bLoop t" for t t'
    by (auto simp: Thread_ClearMessage_def split: option.splits)
  show "callers l' = callers l" using assms by (cases "bodies l ! j") (auto split: outcome.splits)
  show "m_bLoop (obj l') = m_bLoop (obj l)"
    using assms by (cases "bodies l ! j") (auto simp: m obj_def [symmetric] split: outcome.splits)
  show "bodies l ! j \<noteq> B_PostC \<Longrightarrow> m_cCEZSemaphore (obj l') = m_cCEZSemaphore (obj l)"
    using assms by (cases "bodies l ! j") (auto simp: obj_def [symmetric] split: outcome.splits)
  show "\<exists>q. bodies l' = (bodies l)[j := q] \<and> (late q \<longrightarrow> late (bodies l ! j) \<or> bodies l ! j = B_Proc)"
    using assms by (cases "bodies l ! j") (auto simp: late_def split: outcome.splits)
qed

lemma body_step_prod_inv:
  assumes inv: "prod_inv s" and st: "call_life (Body j) s = Some t"
    and loop: "bodies (life s) ! j = B_Proc \<Longrightarrow> \<not> m_bLoop (obj (life s))"
  shows "prod_inv t"
proof -
  note P = prod_invD [OF inv]
  let ?l = "life s"
  obtain l' where l': "t = s\<lparr>life := l'\<rparr>" "j < length (bodies ?l)" "body_step j (bodies ?l ! j) ?l = Some l'"
    using st by (auto simp: call_life_def split: if_splits)
  note e = body_step_effect [OF l'(3)]
  have linv: "life_inv ?l" and late: "m_bLoop (obj ?l) \<Longrightarrow> p \<in> set (bodies ?l) \<Longrightarrow> \<not> late p"
    and val: "m_bLoop (obj ?l) \<Longrightarrow> sem_value (m_cCEZSemaphore (obj ?l)) = 0" for p
    using P(1) by (auto simp: life_part_def)
  obtain q where q: "bodies l' = (bodies ?l)[j := q]"
      "late q \<longrightarrow> late (bodies ?l ! j) \<or> bodies ?l ! j = B_Proc"
    using e(4) by blast
  have "sem_value (m_cCEZSemaphore (obj l')) = 0 \<and> (\<forall>p \<in> set (bodies l'). \<not> late p)"
    if on: "m_bLoop (obj l')"
  proof -
    have on': "m_bLoop (obj ?l)" using on e(2) by simp
    have nl: "\<not> late (bodies ?l ! j)" using late [OF on'] l'(2) by simp
    then have "bodies ?l ! j \<noteq> B_PostC" by (auto simp: late_def)
    moreover have "\<not> late q" using q(2) nl loop on' by blast
    ultimately show ?thesis using e(3) val [OF on'] late [OF on'] q(1)
      by (auto dest: set_update_subset_insert [THEN subsetD])
  qed
  moreover have "life_inv l'" using call_life_inv [OF st linv] l'(1) by simp
  ultimately have "life_part l' (users s)" using P(1) e(1,2) by (simp add: life_part_def)
  then show ?thesis using P l'(1) by (simp add: prod_inv_def)
qed

lemma prod_inv_same:
  "prod_inv s \<Longrightarrow> life t = life s \<Longrightarrow> users t = users s \<Longrightarrow> mtx t = mtx s \<Longrightarrow> m_iUser t = m_iUser s \<Longrightarrow>
    sig t = sig s \<Longrightarrow> prod_inv t"
  by (simp add: prod_inv_def)

lemma proc_step_inv:
  assumes inv: "prod_inv s" and st: "proc_step j p s = Some t"
  shows "prod_inv t"
proof (cases p)
  case R_Test
  then show ?thesis using st body_step_prod_inv [OF inv, of j t] prod_inv_same [OF inv, of t]
    by (auto split: if_splits)
qed (use st in \<open>auto intro: prod_inv_same [OF inv]\<close>)

lemma prod_step_inv: "prod_step False s t \<Longrightarrow> prod_inv s \<Longrightarrow> prod_inv t"
proof -
  assume "prod_step False s t" and inv: "prod_inv s"
  then obtain a where a: "\<not> my_action a" "prod_exec a s = Some t" by (auto simp: prod_step_def)
  note P = prod_invD [OF inv]
  show ?thesis
  proof (cases a)
    case (Begin i)
    then have i: "i < length (users s)" "users s ! i = U_Out" "t = user_at i S_Lock s"
      using a(2) by (auto split: if_splits)
    then show ?thesis using life_partD(3) [OF P(1) i(1)] lock_part_keep [OF P(2) i(1), of S_Lock]
      by (intro prod_inv_move [OF inv i(1), where p = S_Lock]) auto
  next
    case (Finish i)
    then have i: "i < length (users s)" "users s ! i = U_In" "t = user_at i T_Lock s"
      using a(2) by (auto split: if_splits)
    then show ?thesis using life_partD(3) [OF P(1) i(1)] lock_part_keep [OF P(2) i(1), of T_Lock]
      by (intro prod_inv_move [OF inv i(1), where p = T_Lock]) auto
  next
    case (User i)
    then show ?thesis using a(2) user_step_inv [OF inv] by (auto split: if_splits)
  next
    case (Call i os now)
    then show ?thesis using a(2) call_step_inv [OF inv] by (auto split: if_splits)
  next
    case (Run j)
    then show ?thesis using a(2) proc_step_inv [OF inv] body_step_prod_inv [OF inv, of j t]
      by (auto simp: call_life_def split: if_splits)
  qed (use a in simp)
qed

lemma prod_init_inv: "prod_init s \<Longrightarrow> prod_inv s"
proof -
  assume "prod_init s"
  then obtain p old name where p: "case p of Posix k \<Rightarrow> 1 \<le> k | Win32 \<Rightarrow> True"
      "obj (life s) = CEZThread_new p old name THREAD_PRIORITY_DEFAULT 0 0"
      "TSignal_new p 2 = Done (sig s)" "mtx s = CEZMutex_new p MUTEX_FAST"
    and l: "m_pHead (mgr (life s)) = None" "bodies (life s) = []" "failed (life s) = 0"
      "callers (life s) = replicate (length (users s)) C_Idle"
    and u: "m_iUser s = 0" "\<forall>i < length (users s). users s ! i = U_Out"
    unfolding prod_init_def by blast
  have "life_init (life s)"
    unfolding life_init_def
    by (intro conjI exI [of _ p] exI [of _ old] exI [of _ name]
        exI [of _ THREAD_PRIORITY_DEFAULT] exI [of _ 0]) (use p(1,2) l in auto)
  then have "life_inv (life s)" by (rule life_inv_init)
  then have "life_part (life s) (users s)"
    using p(2) l u by (simp add: life_part_def CEZThread_new_def)
  moreover have "mtx_depth (mtx s) = 0" using p(4) by (cases p) simp_all
  then have "lock_part (mtx s) (users s)"
    using p(4) u mutex_new_free [of p MUTEX_FAST] by (simp add: lock_part_def)
  moreover have "sum_list (map counted (users s)) = 0"
    using u(2) by (intro sum_list_all_zero) simp
  then have "count_part (m_iUser s) (users s)" using u by (simp add: count_part_def)
  moreover have "sig_part (sig s) (users s)"
    using sig_ok_new [OF p(3)] u(2) by (auto simp: sig_part_def)
  ultimately show ?thesis by (simp add: prod_inv_def)
qed

interpretation prod_system: invariant_system prod_init "prod_step False" prod_inv
  by unfold_locales (auto intro: prod_init_inv prod_step_inv)

lemma sum_counted: "sum_list (map counted us) = card {i. i < length us \<and> counted (us ! i) = 1}"
proof -
  have "counted p = (if counted p = 1 then 1 else 0)" for p using counted_le(1) [of p] by auto
  then have "sum_list (map counted us) = (\<Sum>i < length us. if counted (us ! i) = 1 then 1 else 0)"
    by (simp add: sum_list_sum_nth atLeast0LessThan)
  also have "\<dots> = card {i \<in> {..<length us}. counted (us ! i) = 1}" by (simp add: sum.If_cases Int_def)
  finally show ?thesis by simp
qed

lemma holds_early:
  "\<forall>p \<in> set ps. \<not> late p \<Longrightarrow> sum_list (map body_holds ps) = length (filter early ps)"
  by (induction ps) (auto simp: body_holds_late)

subsection \<open>Properties\<close>

text \<open>
  C15. However the users of a producer start and stop and its threads run: whenever nobody
  holds the producer's lock, the count is the number of the users that have started and
  not stopped, exactly these are attached to the signal, and the thread is asked to run if
  and only if there is one. Then exactly one thread is on its way to or in the producer's
  loop, unless the system refused to start it.
\<close>

theorem producer_runs_for_its_users:
  assumes "reach prod_init (prod_step False) s" and "mtx_owner (mtx s) = None"
  defines "registered \<equiv> {i. i < length (users s) \<and> users s ! i \<in> {U_In, T_Lock}}"
  shows "m_iUser s = int (card registered) \<and>
    observers (m_Vector (sig s)) = observer_of ` registered \<and>
    (m_bLoop (obj (life s)) \<longleftrightarrow> registered \<noteq> {}) \<and>
    (registered = {} \<or> length (filter early (bodies (life s))) + failed (life s) = 1)"
proof -
  note P = prod_invD [OF prod_system.reach_inv [OF assms(1)]]
  have out: "\<not> in_section (users s ! i)" if "i < length (users s)" for i
    using P(2) assms(2) that by (simp add: lock_part_def)
  have pc: "users s ! i \<in> {U_Out, S_Lock, U_In, T_Lock}" if i: "i < length (users s)" for i
    using out [OF i] life_partD(3) [OF P(1) i] by (cases "users s ! i") auto
  then have idle: "callers (life s) ! i = C_Idle" if i: "i < length (users s)" for i
    using life_partD(3) [OF P(1) i] pc [OF i] by auto
  have c: "counted (users s ! i) = 1 \<longleftrightarrow> users s ! i \<in> {U_In, T_Lock}"
    "attached (users s ! i) \<longleftrightarrow> users s ! i \<in> {U_In, T_Lock}"
    "loop_on (users s ! i) (callers (life s) ! i) \<longleftrightarrow> users s ! i \<in> {U_In, T_Lock}"
    if i: "i < length (users s)" for i
    using pc [OF i] by auto
  have "registered = {i. i < length (users s) \<and> counted (users s ! i) = 1}"
    "registered = {i. i < length (users s) \<and> attached (users s ! i)}"
    using c by (auto simp: registered_def)
  then have 1: "m_iUser s = int (card registered)" "observers (m_Vector (sig s)) = observer_of ` registered"
    using P(3,4) by (simp_all add: count_part_def sig_part_def sum_counted)
  have 2: "m_bLoop (obj (life s)) \<longleftrightarrow> registered \<noteq> {}"
    using P(1) c(3) by (auto simp: life_part_def registered_def)
  have "length (filter early (bodies (life s))) + failed (life s) = 1" if "registered \<noteq> {}"
  proof -
    have late: "\<forall>p \<in> set (bodies (life s)). \<not> late p" and v: "sem_value (m_cCEZSemaphore (obj (life s))) = 0"
      using P(1) 2 that by (auto simp: life_part_def)
    have "length (callers (life s)) = length (users s)" using P(1) by (simp add: life_part_def)
    then have "sum_list (map caller_holds (callers (life s))) = 0"
      using idle by (intro sum_list_all_zero) simp
    moreover have "sum_list (map body_holds (bodies (life s))) = length (filter early (bodies (life s)))"
      using late by (rule holds_early)
    ultimately show ?thesis using P(1) v
      by (simp add: life_part_def life_inv_def del: sum_list_eq_0_iff)
  qed
  then show ?thesis using 1 2 by blast
qed

definition two_users :: "prod_action list" where
  "two_users = starts_first 0 @ starts_next 1 @ [Run 0, Run 0]"

lemma two_users_eq:
  "map_option (\<lambda>s. (users s, mtx_owner (mtx s), bodies (life s))) (prod_run two_users (prod0 2)) =
    Some ([U_In, U_In], None, [B_Proc])"
  by code_simp

theorem producer_runs_for_its_users_witness:
  "\<exists>s. prod_run two_users (prod0 2) = Some s \<and> m_iUser s = 2 \<and>
    observers (m_Vector (sig s)) = {observer_of 0, observer_of 1} \<and> m_bLoop (obj (life s))"
proof -
  obtain s where s: "prod_run two_users (prod0 2) = Some s" "users s = [U_In, U_In]"
      "mtx_owner (mtx s) = None"
    using two_users_eq by (auto simp: map_option_eq_Some)
  have "reach prod_init (prod_step False) s"
    by (rule prod0_run [OF s(1)]) (auto simp: two_users_def starts_first_def starts_next_def)
  note r = producer_runs_for_its_users [OF this s(3)]
  have "{i. i < length (users s) \<and> users s ! i \<in> {U_In, T_Lock}} = {0, 1}"
    using s(2) by (auto simp: less_Suc_eq)
  then show ?thesis using s(1) r by auto
qed

text \<open>
  \<^verbatim>\<open>Stop\<close> reports success exactly to the user that stops last: for the others \<^verbatim>\<open>Detach\<close>
  returns the number of the observers left, which \<^verbatim>\<open>Stop\<close> takes for an error.
\<close>

lemma stop_reports_failure:
  assumes "reach prod_init (prod_step False) s" and "i < length (users s)"
    and "users s ! i = T_Unlock b"
  shows "b \<longleftrightarrow> m_iUser s = 0"
  using prod_invD(3) [OF prod_system.reach_inv [OF assms(1)]] assms(2,3)
  unfolding count_part_def by blast

text \<open>
  C37. \<^verbatim>\<open>Stop\<close> by the last user can wait for ever, although \<^verbatim>\<open>ThreadProc\<close> ends as it should
  when \<^verbatim>\<open>m_bLoop\<close> is cleared: \<^verbatim>\<open>DestroyThread\<close> clears \<^verbatim>\<open>m_bLoop\<close> before it sets
  \<^verbatim>\<open>m_bWaitThreadExit\<close>, and a thread that ends in between posts nothing. The user keeps the
  producer's lock, so that nobody else can ever start or stop the producer again.
\<close>

theorem producer_stop_hangs:
  "\<exists>s. reach prod_init (prod_step False) s \<and> failed (life s) = 0 \<and> bodies (life s) = [B_Exit] \<and>
    {t. (prod_step False)\<^sup>*\<^sup>* s t} \<subseteq>
      {t. users t ! 0 = T_Destroy \<and> {users t ! 1, users t ! 2} \<subseteq> {U_Out, S_Lock}}"
proof -
  obtain s where s: "prod_run hang_run (prod0 3) = Some s" "users s = [T_Destroy, U_Out, U_Out]"
      "callers (life s) = [D_Wait, C_Idle, C_Idle]" "bodies (life s) = [B_Exit]"
      "failed (life s) = 0" "mtx_owner (mtx s) = Some 0"
      "Wait (m_desCEZSemaphore (obj (life s))) = Blocked"
    using hang_run_eq by (auto simp: map_option_eq_Some)
  have "reach prod_init (prod_step False) s"
    by (rule prod0_run [OF s(1)]) (auto simp: hang_run_def starts_first_def)
  moreover have h: "hung s" using s by (simp add: hung_def)
  have "hung t" if r: "(prod_step False)\<^sup>*\<^sup>* s t" for t
    using r by (induction rule: rtranclp_induct) (auto intro: hung_step h)
  then have "{t. (prod_step False)\<^sup>*\<^sup>* s t} \<subseteq>
      {t. users t ! 0 = T_Destroy \<and> {users t ! 1, users t ! 2} \<subseteq> {U_Out, S_Lock}}"
    by (fastforce simp: hung_def)
  ultimately show ?thesis using s(4,5) by blast
qed

text \<open>
  Two users; the thread has found the slot of user 0 in use, and user 0 stops. After \<^verbatim>\<open>Stop\<close>
  has returned, the thread calls user 0.
\<close>

definition told_run :: "prod_action list" where
  "told_run = starts_first 0 @ starts_next 1 @ [Run 0, Run 0, Run 0, Run 0,
     Finish 0, User 0, User 0, User 0, User 0]"

lemma told_run_eq:
  "map_option (\<lambda>s. (users s, told s, map target (filter normal (m_Vector (sig s))), m_iUser s,
      map_option told (prod_exec (Run 0) s))) (prod_run told_run (prod0 2)) =
    Some ([U_Out, U_In], [], [observer_of 1], 1, Some [observer_of 0])"
  by code_simp

text \<open>
  An observer can be called after its \<^verbatim>\<open>Stop\<close> has returned: the producer's thread reads
  the signal without a lock, so it may already have found the slot in use. If the observer
  has been deleted meanwhile, the call is through a dangling pointer.
\<close>

lemma told_after_stop:
  "\<exists>s t. reach prod_init (prod_step False) s \<and> users s = [U_Out, U_In] \<and>
    observer_of 0 \<notin> observers (m_Vector (sig s)) \<and> prod_exec (Run 0) s = Some t \<and>
    told t = told s @ [observer_of 0]"
proof -
  obtain s t where s: "prod_run told_run (prod0 2) = Some s" "users s = [U_Out, U_In]"
      "told s = []" "map target (filter normal (m_Vector (sig s))) = [observer_of 1]"
      "prod_exec (Run 0) s = Some t" "told t = [observer_of 0]"
    using told_run_eq by (auto simp: map_option_eq_Some)
  have "observers (m_Vector (sig s)) = {observer_of 1}"
    using arg_cong [OF s(4), of set] by (simp add: observers_def)
  moreover have "reach prod_init (prod_step False) s"
    by (rule prod0_run [OF s(1)]) (auto simp: told_run_def starts_first_def starts_next_def)
  ultimately show ?thesis using s by (intro exI [of _ s] exI [of _ t]) (simp add: observer_of_def)
qed

text \<open>
  \<^verbatim>\<open>CProducers::Stop\<close> destroys the thread whoever else is registered. Two users start, user 0
  stops and starts again: the thread has exited, both users are registered, and no new
  thread is created because the count never was 0.
\<close>

definition my_run :: "prod_action list" where
  "my_run = starts_first 0 @ starts_next 1 @ [Run 0, Run 0, MyFinish 0,
     Call 0 good_os 0, Call 0 good_os 0, Call 0 good_os 0, Call 0 good_os 0, Call 0 good_os 0,
     Call 0 good_os 0] @ replicate 6 (Run 0) @ [Call 0 good_os 0] @ replicate 5 (User 0) @
     starts_next 0"

lemma my_stop_kills_producer:
  "map_option (\<lambda>s. (users s, bodies (life s), m_iUser s, m_bLoop (obj (life s)),
      map m_Status (take 2 (m_Vector (sig s))))) (prod_run my_run (prod0 2)) =
    Some ([U_In, U_In], [B_Exit], 2, False, [SIGNAL_NODE_NORMAL, SIGNAL_NODE_NORMAL])"
  by code_simp

end
