(* ===== verification/Observed.thy ===== *)
theory Observed
  imports Producer Consumer
begin

section \<open>A producer with observers and a consumer\<close>

text \<open>
  \<^verbatim>\<open>tutorial_libezthread/MyObserver.cpp\<close> as a whole: the thread of \<^verbatim>\<open>CProducers\<close> sends a message
  to \<^verbatim>\<open>CConsumers\<close> and then calls its observers, round after round, numbering the rounds; the
  observers come and go (theory \<open>Producer\<close>), and the consumer handles its messages (theory
  \<open>Consumer\<close>) with a \<^verbatim>\<open>ThreadProc\<close> of its own. What is printed under \<^verbatim>\<open>__trip\<close> and \<^verbatim>\<open>__fline\<close>
  is left out.
\<close>

subsection \<open>The two loops\<close>

datatype round_pc =
    O_Test   \<comment> \<open>before the test of \<^verbatim>\<open>m_bLoop\<close>\<close>
  | O_Send   \<comment> \<open>before \<^verbatim>\<open>g_Consumers.SendMessage(100, ii, ii-1, 0)\<close>\<close>
  | O_Emit   \<comment> \<open>in \<^verbatim>\<open>m_SigBuffer(1, NULL, ii, time(NULL))\<close>\<close>

text \<open>
  \<open>ii\<close> is the local variable of \<^verbatim>\<open>ThreadProc\<close> in the \<open>j\<close>th thread started. \<open>offers\<close> and \<open>calls\<close> are
  the histories of the messages sent, with the result, and of the observers called, each with
  the thread and the number of its round. \<open>overflown\<close> is set when \<^verbatim>\<open>ii++\<close> overflows, which is
  undefined.
\<close>

record observed =
  prod :: producer
  pp :: pipe
  round_at :: "nat \<Rightarrow> round_pc"
  ii :: "nat \<Rightarrow> int"
  last_time :: u32
  offers :: "(nat \<times> int \<times> bool) list"
  calls :: "(nat \<times> int \<times> (addr option \<times> observer_proc option)) list"
  overflown :: bool

definition next_round :: "nat \<Rightarrow> observed \<Rightarrow> observed" where
  "next_round j s =
     (if ii s j = 2 ^ 31 - 1 then s\<lparr>overflown := True\<rparr>
      else s\<lparr>ii := (ii s)(j := ii s j + 1), round_at := (round_at s)(j := O_Test)\<rparr>)"

text \<open>\<^verbatim>\<open>CProducers::ThreadProc\<close>.\<close>

fun loop_step :: "u32 \<Rightarrow> nat \<Rightarrow> round_pc \<Rightarrow> observed \<Rightarrow> observed option" where
  "loop_step now j O_Test s =
     (if m_bLoop (obj (life (prod s))) then Some (s\<lparr>round_at := (round_at s)(j := O_Send)\<rparr>)
      else map_option (\<lambda>p. s\<lparr>prod := p\<rparr>) (call_life (Body j) (prod s)))"
| "loop_step now j O_Send s =
     (let (r, c) = Thread_SendMessage now 100 (word_of_int (ii s j)) (word_of_int (ii s j - 1)) 0
            (consumers (pp s))
      in Some (s\<lparr>pp := consumer_now c (pp s), offers := offers s @ [(j, ii s j, r)],
           prod := proc_at j (R_Slot 0) (prod s), round_at := (round_at s)(j := O_Emit)\<rparr>))"
| "loop_step now j O_Emit s =
     map_option (\<lambda>p.
         let s' = s\<lparr>prod := p,
               calls := calls s @ map (\<lambda>o'. (j, ii s j, o')) (drop (length (told (prod s))) (told p))\<rparr>
         in if procs p j = R_Test then next_round j s' else s')
       (proc_step j (procs (prod s) j) (prod s))"

text \<open>
  What \<^verbatim>\<open>CConsumers::ThreadProc\<close> does with a message at the time \<open>now\<close>: the static
  \<^verbatim>\<open>__ttLastTimeProc\<close> keeps it from printing twice in a second.
\<close>

definition my_message :: "u32 \<Rightarrow> u32 \<Rightarrow> MSG_NODE \<Rightarrow> string" where
  "my_message prev now x =
     (if prev \<noteq> now
      then ''RecvMessage msg.msg:'' @ dec (sint (msg x)) @ '', round -> msg.wpa:'' @ dec (sint (wpa x)) @
        '', msg.lpa:'' @ dec (sint (lpa x)) @ '', msg.time:'' @ dec (sint (time x)) @ newline
      else [])"

definition my_consumer_step :: "u32 \<Rightarrow> observed \<Rightarrow> observed option" where
  "my_consumer_step now s =
     map_option (\<lambda>p. s\<lparr>pp := p,
         last_time := (if length (gone p) = Suc (length (gone (pp s))) \<and> cpc (pp s) = CP_Recv
                       then now else last_time s)\<rparr>)
       (consumer_step (my_message (last_time s) now) (cpc (pp s)) (pp s))"

subsection \<open>The system\<close>

text \<open>
  The steps of the users, whose \<^verbatim>\<open>Stop\<close> is that of this \<^verbatim>\<open>CProducers\<close>, and of \<^verbatim>\<open>CreateThread\<close> and
  \<^verbatim>\<open>DestroyThread\<close>, those of the producer's threads,
  those of the consumer, and other threads that start, stop and destroy the consumer.
\<close>

datatype obs_action =
    Users prod_action
  | Loop nat u32
  | Consume u32
  | Consumer_Call pipe_op

fun consumer_call :: "pipe_op \<Rightarrow> bool" where
  "consumer_call (Start_Consumer os) = True"
| "consumer_call (Stop_Consumer now me) = True"
| "consumer_call (Destroy_Consumer now me) = True"
| "consumer_call _ = False"

definition in_loop :: "nat \<Rightarrow> observed \<Rightarrow> bool" where
  "in_loop j s \<longleftrightarrow> j < length (bodies (life (prod s))) \<and> bodies (life (prod s)) ! j = B_Proc"

fun obs_exec :: "obs_action \<Rightarrow> observed \<Rightarrow> observed option" where
  "obs_exec (Users a) s =
     (if (case a of Run j \<Rightarrow> in_loop j s | Finish i \<Rightarrow> True | _ \<Rightarrow> False) then None
      else map_option (\<lambda>p. s\<lparr>prod := p\<rparr>) (prod_exec a (prod s)))"
| "obs_exec (Loop j now) s = (if in_loop j s then loop_step now j (round_at s j) s else None)"
| "obs_exec (Consume now) s = my_consumer_step now s"
| "obs_exec (Consumer_Call a) s =
     (if consumer_call a then map_option (\<lambda>p. s\<lparr>pp := p\<rparr>) (pipe_exec a (pp s)) else None)"

definition obs_step :: "observed \<Rightarrow> observed \<Rightarrow> bool" where
  "obs_step s t \<longleftrightarrow> \<not> overflown s \<and> (\<exists>a. obs_exec a s = Some t)"

definition obs_init :: "observed \<Rightarrow> bool" where
  "obs_init s \<longleftrightarrow> prod_init (prod s) \<and> pipe_init (pp s) \<and> (\<forall>j. round_at s j = O_Test \<and> ii s j = 0) \<and>
     offers s = [] \<and> calls s = [] \<and> \<not> overflown s"

subsection \<open>Rounds, messages and calls agree\<close>

text \<open>The numbers of the rounds of the \<open>j\<close>th thread in a history.\<close>

definition numbers :: "nat \<Rightarrow> (nat \<times> int \<times> 'a) list \<Rightarrow> int list" where
  "numbers j xs = map (\<lambda>(_, n, _). n) (filter (\<lambda>(k, _, _). k = j) xs)"

definition message_args :: "MSG_NODE \<Rightarrow> EZTHREAD_PARAM \<times> EZTHREAD_PARAM" where
  "message_args x = (wpa x, lpa x)"

definition offer_args :: "nat \<times> int \<times> bool \<Rightarrow> EZTHREAD_PARAM \<times> EZTHREAD_PARAM" where
  "offer_args x = (word_of_int (fst (snd x)), word_of_int (fst (snd x) - 1))"

abbreviation round_messages :: "MSG_NODE list \<Rightarrow> (EZTHREAD_PARAM \<times> EZTHREAD_PARAM) list" where
  "round_messages xs \<equiv> map message_args (filter (\<lambda>x. msg x = 100) xs)"

definition rounds_done :: "nat \<Rightarrow> observed \<Rightarrow> nat" where
  "rounds_done j s = nat (ii s j) + (if round_at s j = O_Emit then 1 else 0)"

definition obs_inv :: "observed \<Rightarrow> bool" where
  "obs_inv s \<longleftrightarrow> pipe_inv (pp s) \<and>
     round_messages (sent (pp s)) = map offer_args (filter (\<lambda>x. snd (snd x)) (offers s)) \<and>
     (\<forall>j. 0 \<le> ii s j \<and> numbers j (offers s) = map int [0..<rounds_done j s] \<and>
        sorted (numbers j (calls s)) \<and> (\<forall>n \<in> set (numbers j (calls s)). 0 \<le> n \<and> n < int (rounds_done j s)))"

lemma numbers_append [simp]:
  "numbers j [] = []" "numbers j (xs @ ys) = numbers j xs @ numbers j ys"
  "numbers j ((k, n, x) # xs) = (if k = j then [n] else []) @ numbers j xs"
  by (simp_all add: numbers_def)

lemma numbers_round: "numbers j (map (\<lambda>x. (k, n, x)) xs) = (if k = j then replicate (length xs) n else [])"
  by (induction xs) auto

text \<open>A step that changes neither the histories nor the rounds.\<close>

lemma obs_inv_frame:
  assumes "obs_inv s" and "pipe_inv (pp t)" and "round_messages (sent (pp t)) = round_messages (sent (pp s))"
    and "offers t = offers s" and "calls t = calls s" and "ii t = ii s"
    and "\<forall>j. round_at t j = O_Emit \<longleftrightarrow> round_at s j = O_Emit"
  shows "obs_inv t"
proof -
  have "rounds_done j t = rounds_done j s" for j using assms(6,7) by (simp add: rounds_done_def)
  then show ?thesis using assms(1-6) by (simp add: obs_inv_def)
qed

lemma consumer_step_sent: "consumer_step h c s = Some t \<Longrightarrow> sent t = sent s"
  by (cases c) (auto split: if_splits outcome.splits option.splits bool.splits)

lemma my_consumer_inv:
  assumes "obs_inv s" and "my_consumer_step now s = Some t"
  shows "obs_inv t"
proof -
  obtain p where p: "consumer_step (my_message (last_time s) now) (cpc (pp s)) (pp s) = Some p"
      "pp t = p" "offers t = offers s" "calls t = calls s" "ii t = ii s" "round_at t = round_at s"
    using assms(2) by (auto simp: my_consumer_step_def)
  have "pipe_inv (pp s)" using assms(1) by (simp add: obs_inv_def)
  then have "pipe_inv p" by (rule consumer_step_inv [OF _ p(1)])
  then show ?thesis using obs_inv_frame [OF assms(1)] p(2-) consumer_step_sent [OF p(1)] by simp
qed

lemma consumer_call_sent:
  assumes "pipe_inv s" and "consumer_call a" and "pipe_exec a s = Some t"
  shows "round_messages (sent t) = round_messages (sent s)"
proof -
  have ok: "queue_ok (consumers s)" using assms(1) by (simp add: pipe_inv_def)
  show ?thesis
  proof (cases a)
    case (Destroy_Consumer now me)
    then obtain r c where c: "DestroyThread now me False (consumers s) = Done (r, c)" "t = consumer_now c s"
      using assms(3) by (auto split: outcome.splits)
    then obtain xs where "pending c = pending (consumers s) @ xs" "\<forall>x \<in> set xs. msg x = XM_QUIT"
      using Destroy_pending [OF ok c(1)] by blast
    moreover from this(2) have "filter (\<lambda>x. msg x = 100) xs = []"
      by (auto simp: filter_empty_conv XM_QUIT_def)
    ultimately show ?thesis using c(2) by (simp add: consumer_now_def)
  next
    case (Stop_Consumer now me)
    then show ?thesis using assms(3) by (auto simp: CConsumers_Stop_eq consumer_now_def)
  qed (use assms in \<open>auto split: outcome.splits\<close>)
qed

lemma send_round_inv:
  assumes "obs_inv s" and "round_at s j = O_Send" and "loop_step now j O_Send s = Some t"
  shows "obs_inv t"
proof -
  let ?w = "word_of_int (ii s j) :: u32" and ?l = "word_of_int (ii s j - 1) :: u32"
  obtain r c where c: "Thread_SendMessage now 100 ?w ?l 0 (consumers (pp s)) = (r, c)" by fastforce
  have t: "pp t = consumer_now c (pp s)" "offers t = offers s @ [(j, ii s j, r)]" "calls t = calls s"
      "ii t = ii s" "round_at t = (round_at s)(j := O_Emit)"
    using assms(3) c by auto
  have inv: "pipe_inv (pp s)" using assms(1) by (simp add: obs_inv_def)
  then have "queue_ok (consumers (pp s))" by (simp add: pipe_inv_def)
  note q = Send_exact [OF this c]
  have "pipe_inv (pp t)" unfolding t(1)
    by (rule consumer_now_inv [OF inv, of c "if r then [\<lparr>msg = 100, wpa = ?w, lpa = ?l, pData = None, time = now\<rparr>] else []"])
      (use q in \<open>auto simp: known_def MSG_TYPE_PRODUCER_def\<close>)
  moreover have "sent (pp t) = sent (pp s) @
      (if r then [\<lparr>msg = 100, wpa = ?w, lpa = ?l, pData = None, time = now\<rparr>] else [])"
    using q t(1) by (simp add: consumer_now_def)
  moreover have d: "rounds_done k t = (if k = j then Suc (rounds_done k s) else rounds_done k s)" for k
    using t(4,5) assms(2) by (simp add: rounds_done_def)
  moreover have "ii s j = int (rounds_done j s)"
    using assms(1,2) by (auto simp: obs_inv_def rounds_done_def)
  ultimately show ?thesis using assms(1) t(2-4)
    by (fastforce simp: obs_inv_def message_args_def offer_args_def)
qed

lemma next_round_inv:
  assumes "obs_inv s" and "round_at s j = O_Emit"
  shows "obs_inv (next_round j s)"
proof -
  have "0 \<le> ii s j" using assms(1) by (simp add: obs_inv_def)
  then have "rounds_done k (next_round j s) = rounds_done k s" for k
    using assms(2) by (simp add: rounds_done_def next_round_def nat_add_distrib)
  moreover have "0 \<le> ii (next_round j s) k" for k
    using assms(1) by (auto simp: obs_inv_def next_round_def)
  moreover have "pp (next_round j s) = pp s" "offers (next_round j s) = offers s"
      "calls (next_round j s) = calls s"
    by (simp_all add: next_round_def)
  ultimately show ?thesis using assms(1) by (simp add: obs_inv_def)
qed

lemma emit_round_inv:
  assumes "obs_inv s" and "round_at s j = O_Emit" and "loop_step now j O_Emit s = Some t"
  shows "obs_inv t"
proof -
  obtain p where p: "proc_step j (procs (prod s) j) (prod s) = Some p"
    using assms(3) by auto
  let ?s = "s\<lparr>prod := p,
    calls := calls s @ map (\<lambda>o'. (j, ii s j, o')) (drop (length (told (prod s))) (told p))\<rparr>"
  let ?cs = "map (\<lambda>o'. (j, ii s j, o')) (drop (length (told (prod s))) (told p))"
  have e: "rounds_done k ?s = rounds_done k s" for k by (simp add: rounds_done_def)
  have d: "int (rounds_done j s) = ii s j + 1" "0 \<le> ii s j"
    using assms(1,2) by (auto simp: obs_inv_def rounds_done_def)
  have "sorted (numbers k (calls s @ ?cs)) \<and>
      (\<forall>n \<in> set (numbers k (calls s @ ?cs)). 0 \<le> n \<and> n < int (rounds_done k s))" for k
  proof -
    have "sorted (numbers k (calls s))" "\<forall>n \<in> set (numbers k (calls s)). 0 \<le> n \<and> n < int (rounds_done k s)"
      using assms(1) by (simp_all add: obs_inv_def)
    then show ?thesis using d by (cases "k = j") (auto simp: numbers_round sorted_append)
  qed
  then have "obs_inv ?s" using assms(1) by (simp add: obs_inv_def e)
  moreover have "t = (if procs p j = R_Test then next_round j ?s else ?s)"
    using assms(3) p by (simp add: Let_def)
  ultimately show ?thesis using next_round_inv [of ?s j] assms(2) by simp
qed

lemma obs_step_inv:
  assumes "obs_step s t" and "obs_inv s"
  shows "obs_inv t"
proof -
  obtain a where a: "obs_exec a s = Some t" using assms(1) by (auto simp: obs_step_def)
  have inv: "pipe_inv (pp s)" using assms(2) by (simp add: obs_inv_def)
  show ?thesis
  proof (cases a)
    case (Users b)
    then show ?thesis using a by (auto split: if_splits intro!: obs_inv_frame [OF assms(2)] inv)
  next
    case (Loop j now)
    then have st: "loop_step now j (round_at s j) s = Some t" using a by (simp split: if_splits)
    show ?thesis
    proof (cases "round_at s j")
      case O_Test
      then show ?thesis using st
        by (auto split: if_splits intro!: obs_inv_frame [OF assms(2)] inv)
    qed (use st send_round_inv [OF assms(2)] emit_round_inv [OF assms(2)] in auto)
  next
    case (Consume now)
    then show ?thesis using a my_consumer_inv [OF assms(2)] by simp
  next
    case (Consumer_Call b)
    then obtain p where p: "consumer_call b" "pipe_exec b (pp s) = Some p" "t = s\<lparr>pp := p\<rparr>"
      using a by (auto split: if_splits)
    then have "pipe_inv p" using pipe_step_inv inv by (auto simp: pipe_step_def)
    then show ?thesis using p consumer_call_sent [OF inv p(1,2)]
      by (intro obs_inv_frame [OF assms(2)]) simp_all
  qed
qed

lemma obs_init_inv: "obs_init s \<Longrightarrow> obs_inv s"
  using pipe_init_inv by (simp add: obs_init_def obs_inv_def rounds_done_def pipe_init_def)

interpretation obs_system: invariant_system obs_init obs_step obs_inv
  by unfold_locales (auto intro: obs_init_inv obs_step_inv)

subsection \<open>Property\<close>

text \<open>
  C18. However users, threads and the consumer interleave: every thread started sends the messages
  of its rounds in order, without a gap; it calls its observers in the order of the rounds,
  and in no round before it has sent that round's message; and the messages that
  left the consumer's queue and those still in it are those of the rounds whose
  message the queue accepted, with the number of the round and its predecessor, in the order
  sent, among them only requests to quit.
\<close>

theorem rounds_agree:
  assumes "reach obs_init obs_step s"
  shows "(\<exists>k. numbers j (offers s) = map int [0..<k]) \<and> sorted (numbers j (calls s)) \<and>
    set (numbers j (calls s)) \<subseteq> set (numbers j (offers s)) \<and>
    map fst (gone (pp s)) @ pending (consumers (pp s)) = sent (pp s) \<and>
    msg ` set (sent (pp s)) \<subseteq> {100, MSG_TYPE_TIMER, XM_QUIT} \<and>
    map (\<lambda>x. (wpa x, lpa x)) (filter (\<lambda>x. msg x = 100) (sent (pp s))) =
      map (\<lambda>(j, n, b). (word_of_int n, word_of_int (n - 1))) (filter (\<lambda>(j, n, b). b) (offers s))"
proof -
  have inv: "obs_inv s" by (rule obs_system.reach_inv [OF assms])
  then have p: "pipe_inv (pp s)" and r: "numbers j (offers s) = map int [0..<rounds_done j s]"
      "sorted (numbers j (calls s))" "\<forall>n \<in> set (numbers j (calls s)). 0 \<le> n \<and> n < int (rounds_done j s)"
    by (simp_all add: obs_inv_def)
  have "set (numbers j (calls s)) \<subseteq> set (numbers j (offers s))"
  proof
    fix n assume "n \<in> set (numbers j (calls s))"
    then have "0 \<le> n" "n < int (rounds_done j s)" using r(3) by auto
    then have "n = int (nat n)" "nat n < rounds_done j s" by auto
    then show "n \<in> set (numbers j (offers s))" unfolding r(1) by (metis atLeast0LessThan atLeast_upt imageI lessThan_iff list.set_map)
  qed
  moreover have "map (\<lambda>x. (wpa x, lpa x)) (filter (\<lambda>x. msg x = 100) (sent (pp s))) =
      map (\<lambda>(j, n, b). (word_of_int n, word_of_int (n - 1))) (filter (\<lambda>(j, n, b). b) (offers s))"
    using inv by (simp add: obs_inv_def message_args_def [abs_def] offer_args_def [abs_def] split_def)
  ultimately show ?thesis using r(1,2) p
    by (auto simp: pipe_inv_def known_def MSG_TYPE_PRODUCER_def)
qed

text \<open>One observer and a consumer, and a first round of the producer.\<close>

definition obs0 :: observed where
  "obs0 = \<lparr>prod = prod0 1, pp = pipe0, round_at = (\<lambda>_. O_Test), ii = (\<lambda>_. 0), last_time = 0,
     offers = [], calls = [], overflown = False\<rparr>"

lemma obs0_init: "obs_init obs0"
  using prod0_init pipe0_init by (simp add: obs_init_def obs0_def)

fun obs_run :: "obs_action list \<Rightarrow> observed \<Rightarrow> observed option" where
  "obs_run [] s = Some s"
| "obs_run (a # as) s = (if overflown s then None else Option.bind (obs_exec a s) (obs_run as))"

lemma obs_run_reach:
  "reach obs_init obs_step s \<Longrightarrow> obs_run as s = Some t \<Longrightarrow> reach obs_init obs_step t"
proof (induction as arbitrary: s)
  case (Cons a as)
  then obtain u where u: "obs_exec a s = Some u" "obs_run as u = Some t" "\<not> overflown s"
    by (auto simp: bind_eq_Some_conv split: if_splits)
  then have "obs_step s u" by (auto simp: obs_step_def)
  then show ?case using Cons.IH [OF reach_step [OF Cons.prems(1)]] u(2) by blast
qed simp

definition one_round :: "obs_action list" where
  "one_round = map Users (starts_first 0 @ [Run 0, Run 0]) @ [Consumer_Call (Start_Consumer good_os)] @
     replicate 2 (Loop 0 5) @ replicate 6 (Loop 0 6) @ replicate 2 (Loop 0 7) @ replicate 2 (Consume 8)"

lemma one_round_eq:
  "map_option (\<lambda>s. (offers s, calls s, gone (pp s))) (obs_run one_round obs0) =
     Some ([(0, 0, True), (0, 1, True)], [(0, 0, Some 0, Some OnDownload)],
       [(\<lparr>msg = 100, wpa = 0, lpa = 0xFFFFFFFF, pData = None, time = 5\<rparr>, True)])"
  by code_simp

text \<open>The first message tells of round 0 and of the round -1 before it.\<close>

theorem rounds_agree_witness:
  "\<exists>s. reach obs_init obs_step s \<and> calls s = [(0, 0, Some 0, Some OnDownload)] \<and>
     map fst (gone (pp s)) = [\<lparr>msg = 100, wpa = 0, lpa = 0xFFFFFFFF, pData = None, time = 5\<rparr>] \<and>
     map (\<lambda>x. (wpa x, lpa x)) (filter (\<lambda>x. msg x = 100) (sent (pp s))) = [(0, 0xFFFFFFFF), (1, 0)]"
proof -
  obtain s where s: "obs_run one_round obs0 = Some s" "offers s = [(0, 0, True), (0, 1, True)]"
      "calls s = [(0, 0, Some 0, Some OnDownload)]"
      "gone (pp s) = [(\<lparr>msg = 100, wpa = 0, lpa = 0xFFFFFFFF, pData = None, time = 5\<rparr>, True)]"
    using one_round_eq by auto
  have r: "reach obs_init obs_step s"
    using obs_run_reach [OF reach_init [of obs_init, OF obs0_init] s(1)] .
  show ?thesis using r s(2-) rounds_agree [OF r, of 0] by (intro exI [of _ s]) simp
qed

end
