(* ===== verification/SigcMain.thy ===== *)
theory SigcMain
  imports TimerJobs SigcObserver Observed
begin

section \<open>The program with two observers over another library's signals\<close>

text \<open>
  \<^verbatim>\<open>tutorial_libezthread/Observer.cpp\<close> as a whole: \<^verbatim>\<open>main\<close> starts the timers' thread and the
  consumer, lets two observers, \<open>bob\<close> and then \<open>tom\<close>, start the producer of theory \<open>SigcObserver\<close>,
  and waits; the producer's thread and the consumer's run beside it. The consumer has the
  queue and the start of theory \<open>Consumer\<close>. What is printed under \<^verbatim>\<open>__fline\<close> and \<^verbatim>\<open>__trip\<close> is left out.
\<close>

subsection \<open>The program\<close>

text \<open>The observers, as users of the producer: \<^verbatim>\<open>__withCallback_bob\<close> and \<^verbatim>\<open>__withCallback_tom\<close>.\<close>

definition bob :: nat where
  "bob = 0"

definition tom :: nat where
  "tom = 1"

datatype observer_main = OM_Timers | OM_Register | OM_Consumers | OM_Bob | OM_Tom | OM_Wait

record ('g, 'i) observer_prog =
  op_prod :: "('g, 'i) sigc_prod"
  op_pipe :: pipe
  op_time :: u32
  op_timers :: CEZThread
  op_id :: int
  op_at :: observer_main

text \<open>A step of a user or of the producer's thread; it may send to the consumer.\<close>

definition prod_part ::
    "('g, 'i) sigc \<Rightarrow> sigc_action \<Rightarrow> ('g, 'i) observer_prog \<Rightarrow> ('g, 'i) observer_prog option" where
  "prod_part sg a s =
     map_option (\<lambda>p. s\<lparr>op_prod := p, op_pipe := consumer_now (sp_consumers p) (op_pipe s)\<rparr>)
       (sg_exec sg a ((op_prod s)\<lparr>sp_consumers := consumers (op_pipe s)\<rparr>))"

text \<open>The next step of \<^verbatim>\<open>main\<close> in the call of \<^verbatim>\<open>__prod.Start\<close> for user \<open>i\<close>; \<open>next\<close> is where the call returns.\<close>

definition main_Start ::
    "('g, 'i) sigc \<Rightarrow> thread_os \<Rightarrow> u32 \<Rightarrow> nat \<Rightarrow> observer_main \<Rightarrow> ('g, 'i) observer_prog \<Rightarrow> ('g, 'i) observer_prog option" where
  "main_Start sg os now i return s =
     map_option (\<lambda>t. if sp_at (op_prod t) ! i = V_In then t\<lparr>op_at := return\<rparr> else t)
       (prod_part sg (if sp_at (op_prod s) ! i = V_Out then Sg_Start i else Sg_User i os now) s)"

fun observer_main_step ::
    "('g, 'i) sigc \<Rightarrow> platform \<Rightarrow> thread_os \<Rightarrow> u32 \<Rightarrow> int \<Rightarrow> observer_main \<Rightarrow> ('g, 'i) observer_prog \<Rightarrow>
     ('g, 'i) observer_prog option" where
  "observer_main_step sg pl os now me OM_Timers s =
     (case TimerManager_Start os (op_timers s) of
        Done (_, t) \<Rightarrow> Some (s\<lparr>op_timers := t, op_at := OM_Register\<rparr>) | _ \<Rightarrow> None)"
| "observer_main_step sg pl os now me OM_Register s = Some (s\<lparr>op_id := me, op_at := OM_Consumers\<rparr>)"
| "observer_main_step sg pl os now me OM_Consumers s =
     map_option (\<lambda>f. s\<lparr>op_pipe := f, op_at := OM_Bob\<rparr>) (pipe_exec (Start_Consumer os) (op_pipe s))"
| "observer_main_step sg pl os now me OM_Bob s = main_Start sg os now bob OM_Tom s"
| "observer_main_step sg pl os now me OM_Tom s = main_Start sg os now tom OM_Wait s"
| "observer_main_step sg pl os now me OM_Wait s =
     (case Wait (CEZSemaphore_new pl 0) of Done _ \<Rightarrow> Some s | _ \<Rightarrow> None)"

text \<open>\<^verbatim>\<open>CConsumers::ThreadProc\<close>, with the static \<^verbatim>\<open>__ttLastTimeProc\<close>.\<close>

definition observer_consumer_step :: "u32 \<Rightarrow> ('g, 'i) observer_prog \<Rightarrow> ('g, 'i) observer_prog option" where
  "observer_consumer_step now s =
     map_option (\<lambda>p. s\<lparr>op_pipe := p,
         op_time := (if length (gone p) = Suc (length (gone (op_pipe s))) \<and> cpc (op_pipe s) = CP_Recv
                     then now else op_time s)\<rparr>)
       (consumer_step (my_message (op_time s) now) (cpc (op_pipe s)) (op_pipe s))"

datatype observer_op =
    Ob_Main thread_os u32 int
  | Ob_Producer nat u32
  | Ob_Consumer u32

fun observer_exec ::
    "('g, 'i) sigc \<Rightarrow> platform \<Rightarrow> observer_op \<Rightarrow> ('g, 'i) observer_prog \<Rightarrow> ('g, 'i) observer_prog option" where
  "observer_exec sg pl (Ob_Main os now me) s = observer_main_step sg pl os now me (op_at s) s"
| "observer_exec sg pl (Ob_Producer j now) s = prod_part sg (Sg_Thread j now) s"
| "observer_exec sg pl (Ob_Consumer now) s = observer_consumer_step now s"

text \<open>After something undefined nothing is said.\<close>

definition observer_step :: "('g, 'i) sigc \<Rightarrow> platform \<Rightarrow> ('g, 'i) observer_prog \<Rightarrow> ('g, 'i) observer_prog \<Rightarrow> bool" where
  "observer_step sg pl s t \<longleftrightarrow> \<not> race (op_prod s) \<and> (\<exists>a. observer_exec sg pl a s = Some t)"

definition observer_init :: "('g, 'i) sigc \<Rightarrow> platform \<Rightarrow> ('g, 'i) observer_prog \<Rightarrow> bool" where
  "observer_init sg pl s \<longleftrightarrow> sg_init sg (op_prod s) \<and> length (sp_at (op_prod s)) = 2 \<and> pipe_init (op_pipe s) \<and>
     sg_slots sg (sp_sig (op_prod s)) = [] \<and>
     (\<exists>old. op_timers s = timer_manager_thread pl old) \<and> op_at s = OM_Timers"

definition observer_reachable :: "('g, 'i) sigc \<Rightarrow> platform \<Rightarrow> ('g, 'i) observer_prog \<Rightarrow> bool" where
  "observer_reachable sg pl s \<longleftrightarrow> reach (observer_init sg pl) (observer_step sg pl) s"

subsection \<open>The invariant\<close>

text \<open>The thread: \<^verbatim>\<open>bob\<close>'s start creates it, nobody else's, and it never ends.\<close>

definition one_thread_ok :: "su_pc \<Rightarrow> life \<Rightarrow> bool" where
  "one_thread_ok p l \<longleftrightarrow> length (callers l) = 2 \<and> callers l ! tom = C_Idle \<and> set (bodies l) \<subseteq> {B_ID, B_Add, B_Proc} \<and>
     (if p = V_Create
      then callers l ! bob \<in> {C_Wait, C_Loop, C_Spawn} \<and> bodies l = [] \<and> failed l = 0 \<and>
        (callers l ! bob = C_Spawn \<longrightarrow> m_bLoop (obj l))
      else callers l ! bob = C_Idle \<and>
        (if p \<in> {V_Count, V_Unlock, V_In} then length (bodies l) + failed l = 1 \<and> m_bLoop (obj l)
         else bodies l = [] \<and> failed l = 0))"

fun main_at :: "observer_main \<Rightarrow> su_pc \<Rightarrow> su_pc \<Rightarrow> bool" where
  "main_at OM_Bob p q \<longleftrightarrow> q = V_Out \<and> p \<in> {V_Out, V_Lock, V_Connect, V_Test, V_Create, V_Count, V_Unlock}"
| "main_at OM_Tom p q \<longleftrightarrow> p = V_In \<and> q \<in> {V_Out, V_Lock, V_Connect, V_Test, V_Count, V_Unlock}"
| "main_at OM_Wait p q \<longleftrightarrow> p = V_In \<and> q = V_In"
| "main_at _ p q \<longleftrightarrow> p = V_Out \<and> q = V_Out"

text \<open>
  The calls of the first \<open>n\<close> rounds: \<^verbatim>\<open>bob\<close> in every round, \<^verbatim>\<open>tom\<close> from round \<open>k\<close> on. \<open>begun\<close> is the
  number of rounds whose message has been offered, \<open>due_calls\<close> what the current one has still to call.
\<close>

definition rounds_told :: "nat \<Rightarrow> nat \<Rightarrow> (int \<times> nat) list" where
  "rounds_told k n = concat (map (\<lambda>m. (int m, bob) # (if k \<le> m then [(int m, tom)] else [])) [0 ..< n])"

definition begun :: "('g, 'i) sigc_prod \<Rightarrow> nat" where
  "begun s = nat (sp_ii s 0) + (case sp_loop s 0 of E_Emit _ \<Rightarrow> 1 | _ \<Rightarrow> 0)"

definition due_calls :: "('g, 'i) sigc_prod \<Rightarrow> (int \<times> nat) list" where
  "due_calls s = (case sp_loop s 0 of E_Emit xs \<Rightarrow> map (Pair (sp_ii s 0)) xs | _ \<Rightarrow> [])"

definition told_ok :: "bool \<Rightarrow> ('g, 'i) sigc_prod \<Rightarrow> bool" where
  "told_ok connected s \<longleftrightarrow> 0 \<le> sp_ii s 0 \<and>
     (sp_loop s 0 \<noteq> E_Test \<longrightarrow> bodies (sp_life s) = [B_Proc]) \<and>
     (\<exists>k. sp_told s @ due_calls s = rounds_told k (begun s) \<and>
       (if connected then k \<le> begun s else begun s \<le> k))"

definition observers_ok :: "('g, 'i) sigc \<Rightarrow> observer_main \<Rightarrow> ('g, 'i) sigc_prod \<Rightarrow> bool" where
  "observers_ok sg om s \<longleftrightarrow> (\<exists>p q. sp_at s = [p, q] \<and> main_at om p q \<and> one_thread_ok p (sp_life s) \<and>
     sg_slots sg (sp_sig s) = (if v_slot p then [bob] else []) @ (if v_slot q then [tom] else []) \<and>
     told_ok (v_slot q) s)"

definition sends_ok :: "nat \<Rightarrow> MSG_NODE list \<Rightarrow> bool" where
  "sends_ok n xs \<longleftrightarrow> (\<exists>ns. sorted_wrt (<) ns \<and> (\<forall>m \<in> set ns. 0 \<le> m \<and> m < int n) \<and>
     round_messages xs = map (\<lambda>m. (word_of_int m, word_of_int (m - 1))) ns)"

definition observer_inv :: "('g, 'i) sigc \<Rightarrow> ('g, 'i) observer_prog \<Rightarrow> bool" where
  "observer_inv sg s \<longleftrightarrow> sp_inv sg (op_prod s) \<and> observers_ok sg (op_at s) (op_prod s) \<and> pipe_inv (op_pipe s) \<and>
     sends_ok (begun (op_prod s)) (sent (op_pipe s))"

lemma consumer_now_same [simp]: "consumer_now (consumers f) f = f"
  by (simp add: consumer_now_def)

lemma rounds_told_simps [simp]:
  "rounds_told k 0 = []"
  "rounds_told k (Suc n) = rounds_told k n @ (int n, bob) # (if k \<le> n then [(int n, tom)] else [])"
  by (simp_all add: rounds_told_def)

lemma rounds_told_before: "n \<le> k \<Longrightarrow> n \<le> k' \<Longrightarrow> rounds_told k n = rounds_told k' n"
  by (induction n) simp_all

lemma told_okI:
  assumes "sp_told s @ due_calls s = rounds_told k (begun s)" and "if b then k \<le> begun s else begun s \<le> k"
    and "0 \<le> sp_ii s 0" and "sp_loop s 0 \<noteq> E_Test \<longrightarrow> bodies (sp_life s) = [B_Proc]"
  shows "told_ok b s"
  using assms unfolding told_ok_def by blast

text \<open>A step that keeps the rounds.\<close>

lemma told_ok_same:
  assumes "told_ok b s" and "sp_ii t = sp_ii s" and "sp_loop t = sp_loop s" and "sp_told t = sp_told s"
    and "bodies (sp_life s) = [B_Proc] \<longrightarrow> bodies (sp_life t) = [B_Proc]"
  shows "told_ok b t" and "begun t = begun s"
proof -
  have e: "begun t = begun s" "due_calls t = due_calls s"
    using assms(2,3) by (simp_all add: begun_def due_calls_def split: sloop_pc.split)
  then show "told_ok b t" "begun t = begun s"
    using assms unfolding told_ok_def e by simp_all
qed

text \<open>\<^verbatim>\<open>tom\<close>'s slot is connected between rounds.\<close>

lemma told_ok_connect:
  assumes "told_ok False s"
  shows "told_ok True s"
proof -
  obtain k where k: "sp_told s @ due_calls s = rounds_told k (begun s)" "begun s \<le> k"
    using assms by (auto simp: told_ok_def)
  then have "sp_told s @ due_calls s = rounds_told (begun s) (begun s)"
    using rounds_told_before [OF k(2), of "begun s"] by simp
  then show ?thesis using assms by (auto simp: told_ok_def)
qed

subsection \<open>The thread\<close>

lemma one_thread_ok_body:
  assumes "one_thread_ok p l" and "life_exec (Body j) l = Some l'" and "bodies l ! j \<noteq> B_Proc"
  shows "one_thread_ok p l'" and "bodies l \<noteq> [B_Proc]" and "j < length (bodies l)"
proof -
  have j: "j < length (bodies l)" and b: "body_step j (bodies l ! j) l = Some l'"
    using assms(2) by (auto split: if_splits)
  have "length (bodies l) \<le> 1" using assms(1) by (auto simp: one_thread_ok_def split: if_splits)
  then obtain b where b0: "bodies l = [b]" "j = 0" using j by (cases "bodies l") auto
  then have "b \<in> {B_ID, B_Add}" using assms(1,3) by (auto simp: one_thread_ok_def split: if_splits)
  then show "one_thread_ok p l'" using assms(1) b b0
    by (auto simp: one_thread_ok_def body_at_def upd_obj_def upd_mgr_def obj_def split: if_splits)
  show "bodies l \<noteq> [B_Proc]" using assms(3) b0 by auto
  show "j < length (bodies l)" by (rule j)
qed

lemma one_thread_ok_create:
  assumes "one_thread_ok V_Create l" and "life_exec (Caller bob os now) l = Some l'"
  shows "one_thread_ok (if callers l' ! bob = C_Idle then V_Count else V_Create) l'"
  using assms
  by (auto simp: one_thread_ok_def bob_def tom_def split: if_splits outcome.splits option.splits prod.splits)

lemma one_thread_ok_begin:
  assumes "one_thread_ok V_Test l" and "life_exec (Create bob) l = Some l'"
  shows "one_thread_ok V_Create l'" and "callers l' ! bob = C_Wait"
  using assms by (auto simp: one_thread_ok_def bob_def tom_def split: if_splits)

lemma one_thread_ok_move:
  assumes "one_thread_ok p l" and "p \<noteq> V_Create" and "q \<noteq> V_Create"
    and "p \<in> {V_Count, V_Unlock, V_In} \<longleftrightarrow> q \<in> {V_Count, V_Unlock, V_In}"
  shows "one_thread_ok q l"
  using assms unfolding one_thread_ok_def by simp

subsection \<open>The calls of \<open>Start\<close>\<close>

lemma sp_call_ok:
  assumes "sp_call i p q a s = Some t"
  shows "\<exists>l. life_exec a (sp_life s) = Some l \<and>
    t = s\<lparr>sp_life := l, sp_at := (sp_at s)[i := if callers l ! i = C_Idle then q else p]\<rparr>"
  using assms by (cases s) (auto simp: sp_call_def sp_user_at_def simp del: life_exec.simps)

lemma observers_okI:
  assumes "sp_at t = [p, q]" "main_at om p q" "one_thread_ok p (sp_life t)"
    and "sg_slots sg (sp_sig t) = (if v_slot p then [bob] else []) @ (if v_slot q then [tom] else [])"
    and "told_ok (v_slot q) t"
  shows "observers_ok sg om t"
  using assms by (auto simp: observers_ok_def)

lemma users_step_fields:
  assumes "sg_start_step sg os now i pc s = Some t"
  shows "sp_ii t = sp_ii s" "sp_loop t = sp_loop s" "sp_told t = sp_told s" "sp_consumers t = sp_consumers s"
  using assms
  by (cases pc; auto simp: sp_lock_def sp_unlock_def sp_user_at_def sp_call_def Let_def
    simp del: life_exec.simps split: outcome.splits prod.splits if_splits)+

lemma connect_slots:
  assumes "sigc_ok sg" and "sp_inv sg s" and "sg_connect sg i (sp_sig s) = (it, g)"
  shows "sg_slots sg g = sg_slots sg (sp_sig s) @ [i]"
  using assms unfolding sigc_ok_def sp_inv_def by (metis snd_conv)

lemma bob_step_ok:
  assumes ok: "sigc_ok sg" and inv: "sp_inv sg s" and obs: "observers_ok sg OM_Bob s"
    and st: "sg_exec sg (if sp_at s ! bob = V_Out then Sg_Start bob else Sg_User bob os now) s = Some t"
  shows "observers_ok sg (if sp_at t ! bob = V_In then OM_Tom else OM_Bob) t \<and> begun t = begun s \<and>
    sp_consumers t = sp_consumers s"
proof -
  obtain p where s: "sp_at s = [p, V_Out]" "one_thread_ok p (sp_life s)"
      "p \<in> {V_Out, V_Lock, V_Connect, V_Test, V_Create, V_Count, V_Unlock}"
      "sg_slots sg (sp_sig s) = (if v_slot p then [bob] else [])" "told_ok False s"
    using obs by (auto simp: observers_ok_def)
  have t: "sp_ii t = sp_ii s" "sp_loop t = sp_loop s" "sp_told t = sp_told s" "sp_consumers t = sp_consumers s"
    using st s(1,3) users_step_fields [of sg os now bob p s t]
    by (auto simp: bob_def sp_user_at_def split: if_splits)
  have told: "told_ok False t" "begun t = begun s"
    if "bodies (sp_life s) = [B_Proc] \<longrightarrow> bodies (sp_life t) = [B_Proc]"
    using told_ok_same [OF s(5) t(1-3) that] by simp_all
  have "\<exists>q. sp_at t = [q, V_Out] \<and> one_thread_ok q (sp_life t) \<and>
      (q = V_In \<or> q \<in> {V_Out, V_Lock, V_Connect, V_Test, V_Create, V_Count, V_Unlock}) \<and>
      sg_slots sg (sp_sig t) = (if v_slot q then [bob] else []) \<and>
      (bodies (sp_life s) = [B_Proc] \<longrightarrow> bodies (sp_life t) = [B_Proc])"
  proof (cases p)
    case V_Out
    then show ?thesis using st s one_thread_ok_move [OF s(2), of V_Lock]
      by (auto simp: bob_def sp_user_at_def)
  next
    case V_Lock
    then show ?thesis using st s one_thread_ok_move [OF s(2), of V_Connect]
      by (auto simp: bob_def sp_user_at_def sp_lock_def split: outcome.splits)
  next
    case V_Connect
    then show ?thesis using st s one_thread_ok_move [OF s(2), of V_Test] connect_slots [OF ok inv]
      by (auto simp: bob_def sp_user_at_def Let_def split: if_splits prod.splits)
  next
    case V_Test
    have "sp_user s = 0" using inv s(1) V_Test by (simp add: sp_inv_def)
    then have "sp_call bob V_Create V_Create (Create bob) s = Some t"
      using st s V_Test by (simp add: bob_def)
    from sp_call_ok [OF this] obtain l where "life_exec (Create bob) (sp_life s) = Some l"
        "t = s\<lparr>sp_life := l, sp_at := [V_Create, V_Out]\<rparr>" using s(1) by (auto simp: bob_def)
    then show ?thesis using one_thread_ok_begin [of "sp_life s" l] s V_Test by (auto split: if_splits)
  next
    case V_Create
    then have "sp_call bob V_Create V_Count (Caller bob os now) s = Some t"
      using st s by (simp add: bob_def)
    from sp_call_ok [OF this] obtain l where "life_exec (Caller bob os now) (sp_life s) = Some l"
        "t = s\<lparr>sp_life := l, sp_at := [if callers l ! bob = C_Idle then V_Count else V_Create, V_Out]\<rparr>"
      using s(1) by (auto simp: bob_def)
    moreover have "bodies (sp_life s) \<noteq> [B_Proc]" using s(2) V_Create by (simp add: one_thread_ok_def)
    ultimately show ?thesis
      using one_thread_ok_create [of "sp_life s" os now l] s V_Create by (simp del: life_exec.simps)
  next
    case V_Count
    then show ?thesis using st s one_thread_ok_move [OF s(2), of V_Unlock]
      by (auto simp: bob_def sp_user_at_def)
  next
    case V_Unlock
    then show ?thesis using st s one_thread_ok_move [OF s(2), of V_In]
      by (auto simp: bob_def sp_user_at_def sp_unlock_def split: outcome.splits)
  qed (use s(3) in simp_all)
  then obtain q where q: "sp_at t = [q, V_Out]" "one_thread_ok q (sp_life t)"
      "q = V_In \<or> q \<in> {V_Out, V_Lock, V_Connect, V_Test, V_Create, V_Count, V_Unlock}"
      "sg_slots sg (sp_sig t) = (if v_slot q then [bob] else [])"
      "bodies (sp_life s) = [B_Proc] \<longrightarrow> bodies (sp_life t) = [B_Proc]" by blast
  have "observers_ok sg (if sp_at t ! bob = V_In then OM_Tom else OM_Bob) t"
    by (rule observers_okI [OF q(1)]) (use q told in \<open>auto simp: bob_def\<close>)
  then show ?thesis using told(2) [OF q(5)] t(4) by blast
qed

text \<open>When \<^verbatim>\<open>tom\<close> starts the count is 1: no second thread is created.\<close>

lemma tom_step_ok:
  assumes ok: "sigc_ok sg" and inv: "sp_inv sg s" and obs: "observers_ok sg OM_Tom s"
    and st: "sg_exec sg (if sp_at s ! tom = V_Out then Sg_Start tom else Sg_User tom os now) s = Some t"
  shows "observers_ok sg (if sp_at t ! tom = V_In then OM_Wait else OM_Tom) t \<and> begun t = begun s \<and>
    sp_consumers t = sp_consumers s"
proof -
  obtain p where s: "sp_at s = [V_In, p]" "one_thread_ok V_In (sp_life s)"
      "p \<in> {V_Out, V_Lock, V_Connect, V_Test, V_Count, V_Unlock}"
      "sg_slots sg (sp_sig s) = [bob] @ (if v_slot p then [tom] else [])" "told_ok (v_slot p) s"
    using obs by (auto simp: observers_ok_def split: if_splits)
  have t: "sp_ii t = sp_ii s" "sp_loop t = sp_loop s" "sp_told t = sp_told s" "sp_consumers t = sp_consumers s"
    using st s(1,3) users_step_fields [of sg os now tom p s t]
    by (auto simp: tom_def sp_user_at_def split: if_splits)
  have "\<exists>q. sp_at t = [V_In, q] \<and> sp_life t = sp_life s \<and>
      (q = V_In \<or> q \<in> {V_Out, V_Lock, V_Connect, V_Test, V_Count, V_Unlock}) \<and>
      sg_slots sg (sp_sig t) = [bob] @ (if v_slot q then [tom] else []) \<and> (v_slot p \<longrightarrow> v_slot q)"
  proof (cases p)
    case V_Connect
    then show ?thesis using st s connect_slots [OF ok inv]
      by (auto simp: tom_def sp_user_at_def Let_def split: if_splits prod.splits)
  next
    case V_Test
    have "sp_user s = 1" using inv s(1) V_Test by (simp add: sp_inv_def)
    then show ?thesis using st s V_Test by (auto simp: tom_def sp_user_at_def)
  qed (use st s in \<open>auto simp: tom_def sp_user_at_def sp_lock_def sp_unlock_def split: outcome.splits\<close>)
  then obtain q where q: "sp_at t = [V_In, q]" "sp_life t = sp_life s"
      "q = V_In \<or> q \<in> {V_Out, V_Lock, V_Connect, V_Test, V_Count, V_Unlock}"
      "sg_slots sg (sp_sig t) = [bob] @ (if v_slot q then [tom] else [])" "v_slot p \<longrightarrow> v_slot q" by blast
  have "told_ok (v_slot q) s" using s(5) q(5) told_ok_connect [of s] by (cases "v_slot p"; cases "v_slot q") auto
  then have told: "told_ok (v_slot q) t" "begun t = begun s"
    using told_ok_same [of "v_slot q" s t] t(1-3) q(2) by simp_all
  have "observers_ok sg (if sp_at t ! tom = V_In then OM_Wait else OM_Tom) t"
    by (rule observers_okI [OF q(1)]) (use q s(2) told in \<open>auto simp: tom_def\<close>)
  then show ?thesis using told(2) t(4) by blast
qed

subsection \<open>The rounds\<close>

text \<open>A step of the producer's thread, with what it sends.\<close>

lemma round_step_ok:
  assumes obs: "observers_ok sg om s" and st: "sg_exec sg (Sg_Thread j now) s = Some t"
  shows "observers_ok sg om t"
    and "begun t = begun s \<and> sp_consumers t = sp_consumers s \<or>
      begun t = Suc (begun s) \<and> sp_consumers t = snd (Thread_SendMessage now 100
        (word_of_int (int (begun s))) (word_of_int (int (begun s) - 1)) 0 (sp_consumers s))"
proof -
  obtain p q where s: "sp_at s = [p, q]" "main_at om p q" "one_thread_ok p (sp_life s)"
      "sg_slots sg (sp_sig s) = (if v_slot p then [bob] else []) @ (if v_slot q then [tom] else [])"
      "told_ok (v_slot q) s"
    using obs by (auto simp: observers_ok_def)
  note I = observers_okI [of t p q om sg]
  have "observers_ok sg om t \<and> (begun t = begun s \<and> sp_consumers t = sp_consumers s \<or>
      begun t = Suc (begun s) \<and> sp_consumers t = snd (Thread_SendMessage now 100
        (word_of_int (int (begun s))) (word_of_int (int (begun s) - 1)) 0 (sp_consumers s)))"
  proof (cases "j < length (bodies (sp_life s)) \<and> bodies (sp_life s) ! j = B_Proc")
    case False
    then obtain l where l: "life_exec (Body j) (sp_life s) = Some l" "t = s\<lparr>sp_life := l\<rparr>"
      using st by (auto simp del: life_exec.simps)
    have "bodies (sp_life s) ! j \<noteq> B_Proc" using False l(1) by (auto split: if_splits)
    note b = one_thread_ok_body [OF s(3) l(1) this]
    have "told_ok (v_slot q) t" "begun t = begun s"
      using told_ok_same [OF s(5), of t] l(2) b(2) by simp_all
    then show ?thesis using I s b(1) l(2) by simp
  next
    case True
    have c: "length (bodies (sp_life s)) \<le> 1" "p \<in> {V_Count, V_Unlock, V_In}" "m_bLoop (obj (sp_life s))"
      using s(3) True by (auto simp: one_thread_ok_def split: if_splits)
    then have j: "j = 0" "bodies (sp_life s) = [B_Proc]" using True by (cases "bodies (sp_life s)"; auto)+
    have st': "sg_loop_step sg now 0 (sp_loop s 0) s = Some t" using st True j(1) by simp
    have slots: "sg_slots sg (sp_sig s) = bob # (if v_slot q then [tom] else [])" using s(4) c(2) by auto
    obtain k where k: "sp_told s @ due_calls s = rounds_told k (begun s)"
        "if v_slot q then k \<le> begun s else begun s \<le> k" and ii: "0 \<le> sp_ii s 0"
      using s(5) by (auto simp: told_ok_def)
    show ?thesis
    proof (cases "sp_loop s 0")
      case E_Test
      then have t: "t = s\<lparr>sp_loop := (sp_loop s)(0 := E_Send)\<rparr>" using st' c(3) by simp
      then have "begun t = begun s" "due_calls t = due_calls s" using E_Test by (simp_all add: begun_def due_calls_def)
      moreover from this have "told_ok (v_slot q) t" using k ii j(2) t by (auto simp: told_ok_def)
      ultimately show ?thesis using I s t by simp
    next
      case E_Send
      let ?c = "snd (Thread_SendMessage now 100 (word_of_int (sp_ii s 0)) (word_of_int (sp_ii s 0 - 1)) 0 (sp_consumers s))"
      have t: "t = s\<lparr>sp_consumers := ?c, sp_loop := (sp_loop s)(0 := E_Emit (sg_slots sg (sp_sig s)))\<rparr>"
        using st' E_Send by simp
      have n: "int (begun s) = sp_ii s 0" "begun t = Suc (begun s)" "due_calls s = []"
        using E_Send ii t by (simp_all add: begun_def due_calls_def)
      let ?k = "if v_slot q then k else Suc (begun s)"
      have "sp_told t @ due_calls t = rounds_told ?k (begun t)"
      proof -
        have "due_calls t = map (Pair (int (begun s))) (bob # (if v_slot q then [tom] else []))"
          using t slots n(1) by (simp add: due_calls_def)
        moreover have "sp_told t = rounds_told ?k (begun s)"
          using k n(3) t rounds_told_before [of "begun s" k "Suc (begun s)"] by (cases "v_slot q") simp_all
        ultimately show ?thesis unfolding n(2) using k(2) by (cases "v_slot q") simp_all
      qed
      then have "told_ok (v_slot q) t"
        by (rule told_okI) (use k(2) n(2) ii j(2) t in \<open>simp_all split: if_splits\<close>)
      then show ?thesis using I s t n by simp
    next
      case (E_Emit xs)
      show ?thesis
      proof (cases xs)
        case Nil
        show ?thesis
        proof (cases "sp_ii s 0 = 2 ^ 31 - 1")
          case True
          then have t: "t = s\<lparr>race := True\<rparr>" using st' E_Emit Nil by simp
          moreover have "told_ok (v_slot q) t" "begun t = begun s" using told_ok_same [OF s(5), of t] t by simp_all
          ultimately show ?thesis using I s by simp
        next
          case False
          then have t: "t = s\<lparr>sp_ii := (sp_ii s)(0 := sp_ii s 0 + 1), sp_loop := (sp_loop s)(0 := E_Test)\<rparr>"
            using st' E_Emit Nil by simp
          then have "begun t = begun s" "due_calls t = due_calls s"
            using E_Emit Nil ii by (simp_all add: begun_def due_calls_def nat_add_distrib)
          moreover from this have "told_ok (v_slot q) t" using k ii j(2) t by (auto simp: told_ok_def)
          ultimately show ?thesis using I s t by simp
        qed
      next
        case (Cons x ys)
        then have t: "t = s\<lparr>sp_told := sp_told s @ [(sp_ii s 0, x)], sp_loop := (sp_loop s)(0 := E_Emit ys)\<rparr>"
          using st' E_Emit by simp
        then have "begun t = begun s" "sp_told t @ due_calls t = sp_told s @ due_calls s"
          using E_Emit Cons by (simp_all add: begun_def due_calls_def)
        moreover from this have "told_ok (v_slot q) t" using k ii j(2) t by (auto simp: told_ok_def)
        ultimately show ?thesis using I s t by simp
      qed
    qed
  qed
  then show "observers_ok sg om t" and "begun t = begun s \<and> sp_consumers t = sp_consumers s \<or>
      begun t = Suc (begun s) \<and> sp_consumers t = snd (Thread_SendMessage now 100
        (word_of_int (int (begun s))) (word_of_int (int (begun s) - 1)) 0 (sp_consumers s))"
    by blast+
qed

subsection \<open>Every step keeps the invariant\<close>

lemma sends_ok_mono: "sends_ok n xs \<Longrightarrow> n \<le> m \<Longrightarrow> sends_ok m xs"
  unfolding sends_ok_def by (elim exE, rule exI) force

lemma sends_ok_send:
  assumes "sends_ok n xs" and "wpa x = word_of_int (int n)" and "lpa x = word_of_int (int n - 1)" and "msg x = 100"
  shows "sends_ok (Suc n) (xs @ [x])"
proof -
  obtain ns where ns: "sorted_wrt (<) ns" "\<forall>m \<in> set ns. 0 \<le> m \<and> m < int n"
      "round_messages xs = map (\<lambda>m. (word_of_int m, word_of_int (m - 1))) ns"
    using assms(1) by (auto simp: sends_ok_def)
  then show ?thesis using assms(2-4) unfolding sends_ok_def
    by (intro exI [of _ "ns @ [int n]"]) (auto simp: sorted_wrt_append message_args_def)
qed

lemma sp_inv_consumers [simp]: "sp_inv sg (s\<lparr>sp_consumers := c\<rparr>) = sp_inv sg s"
  by (simp add: sp_inv_def)

lemma observers_ok_consumers [simp]:
  "observers_ok sg om (s\<lparr>sp_consumers := c\<rparr>) = observers_ok sg om s" "begun (s\<lparr>sp_consumers := c\<rparr>) = begun s"
proof -
  have e: "begun (s\<lparr>sp_consumers := c\<rparr>) = begun s" "due_calls (s\<lparr>sp_consumers := c\<rparr>) = due_calls s"
    by (simp_all add: begun_def due_calls_def split: sloop_pc.split)
  then have "told_ok b (s\<lparr>sp_consumers := c\<rparr>) = told_ok b s" for b
    unfolding told_ok_def e by simp
  then show "observers_ok sg om (s\<lparr>sp_consumers := c\<rparr>) = observers_ok sg om s"
    by (simp add: observers_ok_def)
qed (simp add: begun_def)

lemma observers_ok_next:
  "observers_ok sg om s \<Longrightarrow> (\<And>p q. main_at om p q \<Longrightarrow> main_at om' p q) \<Longrightarrow> observers_ok sg om' s"
  unfolding observers_ok_def by blast

lemma main_Start_inv:
  assumes ok: "sigc_ok sg" and inv: "observer_inv sg s" and "\<not> race (op_prod s)"
    and i: "op_at s = OM_Bob \<and> i = bob \<and> r = OM_Tom \<or> op_at s = OM_Tom \<and> i = tom \<and> r = OM_Wait"
    and st: "main_Start sg os now i r s = Some t"
  shows "observer_inv sg t"
proof -
  let ?P = "(op_prod s)\<lparr>sp_consumers := consumers (op_pipe s)\<rparr>"
  let ?a = "if sp_at (op_prod s) ! i = V_Out then Sg_Start i else Sg_User i os now"
  obtain p where p: "sg_exec sg ?a ?P = Some p"
      "t = s\<lparr>op_prod := p, op_pipe := consumer_now (sp_consumers p) (op_pipe s),
        op_at := if sp_at p ! i = V_In then r else op_at s\<rparr>"
    using st by (cases s) (auto simp: main_Start_def prod_part_def split: if_splits)
  have P: "sp_inv sg ?P" "observers_ok sg (op_at s) ?P" using inv by (simp_all add: observer_inv_def)
  have "observers_ok sg (if sp_at p ! i = V_In then r else op_at s) p \<and> begun p = begun ?P \<and>
      sp_consumers p = sp_consumers ?P"
    using i bob_step_ok [OF ok P(1), of os now p] tom_step_ok [OF ok P(1), of os now p] P(2) p(1)
    by auto
  moreover have "sg_step sg ?P p" unfolding sg_step_def using assms(3) p(1) by (auto simp del: sg_exec.simps)
  then have "sp_inv sg p" by (rule sg_step_inv [OF ok _ P(1)])
  ultimately show ?thesis using inv p(2) by (simp add: observer_inv_def)
qed

lemma producer_inv:
  assumes ok: "sigc_ok sg" and inv: "observer_inv sg s" and "\<not> race (op_prod s)"
    and st: "prod_part sg (Sg_Thread j now) s = Some t"
  shows "observer_inv sg t"
proof -
  let ?P = "(op_prod s)\<lparr>sp_consumers := consumers (op_pipe s)\<rparr>"
  obtain p where p: "sg_exec sg (Sg_Thread j now) ?P = Some p"
      "t = s\<lparr>op_prod := p, op_pipe := consumer_now (sp_consumers p) (op_pipe s)\<rparr>"
    using st by (auto simp: prod_part_def)
  have P: "sp_inv sg ?P" "observers_ok sg (op_at s) ?P" "pipe_inv (op_pipe s)"
      "sends_ok (begun ?P) (sent (op_pipe s))"
    using inv by (simp_all add: observer_inv_def)
  have "sg_step sg ?P p" unfolding sg_step_def using assms(3) p(1) by (auto simp del: sg_exec.simps)
  then have "sp_inv sg p" by (rule sg_step_inv [OF ok _ P(1)])
  moreover note R = round_step_ok [OF P(2) p(1)]
  moreover from R(2) have "pipe_inv (op_pipe t) \<and> sends_ok (begun p) (sent (op_pipe t))"
  proof
    assume "begun p = begun ?P \<and> sp_consumers p = sp_consumers ?P"
    then show ?thesis using P(3,4) p(2) by simp
  next
    let ?n = "int (begun ?P)" and ?f = "op_pipe s"
    assume b: "begun p = Suc (begun ?P) \<and> sp_consumers p =
      snd (Thread_SendMessage now 100 (word_of_int ?n) (word_of_int (?n - 1)) 0 (sp_consumers ?P))"
    obtain r c where c: "Thread_SendMessage now 100 (word_of_int ?n) (word_of_int (?n - 1)) 0 (consumers ?f) = (r, c)"
      by fastforce
    have q: "queue_ok (consumers ?f)" using P(3) by (simp add: pipe_inv_def)
    let ?x = "\<lparr>msg = 100, wpa = word_of_int ?n, lpa = word_of_int (?n - 1), pData = None, time = now\<rparr>"
    note S = Send_exact [OF q c]
    have f: "op_pipe t = consumer_now c ?f" "sent (op_pipe t) = sent ?f @ (if r then [?x] else [])"
      using p(2) b c S by (simp_all add: consumer_now_def)
    have "pipe_inv (op_pipe t)" unfolding f(1)
      by (rule consumer_now_inv [OF P(3), of c "if r then [?x] else []"])
        (use S in \<open>auto simp: known_def MSG_TYPE_PRODUCER_def\<close>)
    moreover have "sends_ok (begun p) (sent (op_pipe t))"
      using b f(2) sends_ok_send [OF P(4), of ?x] sends_ok_mono [OF P(4), of "Suc (begun ?P)"]
      by (cases r) simp_all
    ultimately show ?thesis by blast
  qed
  ultimately show ?thesis using p(2) by (simp add: observer_inv_def)
qed

lemma observer_consumer_inv:
  assumes inv: "observer_inv sg s" and "observer_consumer_step now s = Some t"
  shows "observer_inv sg t"
proof -
  obtain p where p: "consumer_step (my_message (op_time s) now) (cpc (op_pipe s)) (op_pipe s) = Some p"
      "op_pipe t = p" "op_prod t = op_prod s" "op_at t = op_at s"
    using assms(2) by (auto simp: observer_consumer_step_def)
  have "pipe_inv p" by (rule consumer_step_inv [OF _ p(1)]) (use inv in \<open>simp add: observer_inv_def\<close>)
  then show ?thesis using inv p(2-) consumer_step_sent [OF p(1)] by (simp add: observer_inv_def)
qed

lemma observer_main_inv:
  assumes ok: "sigc_ok sg" and inv: "observer_inv sg s" and r: "\<not> race (op_prod s)"
    and st: "observer_main_step sg pl os now me (op_at s) s = Some t"
  shows "observer_inv sg t"
proof (cases "op_at s")
  case OM_Consumers
  then obtain f where f: "pipe_exec (Start_Consumer os) (op_pipe s) = Some f" "t = s\<lparr>op_pipe := f, op_at := OM_Bob\<rparr>"
    using st by (auto simp del: pipe_exec.simps)
  have p: "pipe_inv (op_pipe s)" using inv by (simp add: observer_inv_def)
  have "pipe_inv f" using pipe_step_inv [OF _ p] f(1) unfolding pipe_step_def by blast
  moreover have "round_messages (sent f) = round_messages (sent (op_pipe s))"
    by (rule consumer_call_sent [OF p _ f(1)]) simp
  moreover have "observers_ok sg OM_Bob (op_prod s)"
    by (rule observers_ok_next [of sg OM_Consumers]) (use inv OM_Consumers in \<open>simp_all add: observer_inv_def\<close>)
  ultimately show ?thesis using inv f(2) by (simp add: observer_inv_def sends_ok_def)
next
  case OM_Timers
  have "observers_ok sg OM_Register (op_prod s)"
    by (rule observers_ok_next [of sg OM_Timers]) (use inv OM_Timers in \<open>simp_all add: observer_inv_def\<close>)
  then show ?thesis using st inv OM_Timers by (auto simp: observer_inv_def split: outcome.splits)
next
  case OM_Register
  have "observers_ok sg OM_Consumers (op_prod s)"
    by (rule observers_ok_next [of sg OM_Register]) (use inv OM_Register in \<open>simp_all add: observer_inv_def\<close>)
  then show ?thesis using st inv OM_Register by (auto simp: observer_inv_def)
next
  case OM_Bob
  then show ?thesis using st main_Start_inv [OF ok inv r, of bob OM_Tom] by simp
next
  case OM_Tom
  then show ?thesis using st main_Start_inv [OF ok inv r, of tom OM_Wait] by simp
next
  case OM_Wait
  then show ?thesis using st inv by (auto split: outcome.splits)
qed

lemma observer_step_inv:
  assumes "sigc_ok sg" and "observer_inv sg s" and "observer_step sg pl s t"
  shows "observer_inv sg t"
proof -
  obtain a where a: "observer_exec sg pl a s = Some t" "\<not> race (op_prod s)"
    using assms(3) by (auto simp: observer_step_def)
  show ?thesis
  proof (cases a)
    case (Ob_Main os now me)
    then show ?thesis using a observer_main_inv [OF assms(1,2) a(2), of pl os now me t] by simp
  next
    case (Ob_Producer j now)
    then show ?thesis using a producer_inv [OF assms(1,2) a(2), of j now t] by simp
  next
    case (Ob_Consumer now)
    then show ?thesis using a observer_consumer_inv [OF assms(2), of now t] by simp
  qed
qed

lemma observer_init_inv:
  assumes "observer_init sg pl s"
  shows "observer_inv sg s"
proof -
  have i: "sg_init sg (op_prod s)" "length (sp_at (op_prod s)) = 2" "pipe_init (op_pipe s)"
      "sg_slots sg (sp_sig (op_prod s)) = []" "op_at s = OM_Timers"
    using assms by (simp_all add: observer_init_def)
  then have out: "\<forall>j < 2. sp_at (op_prod s) ! j = V_Out" by (simp add: sg_init_def)
  have "sp_at (op_prod s) = [V_Out, V_Out]"
    by (rule nth_equalityI) (use i(2) out in \<open>auto simp: less_2_cases_iff\<close>)
  moreover have "callers (sp_life (op_prod s)) = [C_Idle, C_Idle]"
    using i(1,2) by (simp add: sg_init_def numeral_2_eq_2)
  ultimately have "observers_ok sg OM_Timers (op_prod s)"
    using i by (auto simp: observers_ok_def one_thread_ok_def bob_def tom_def sg_init_def told_ok_def begun_def due_calls_def)
  moreover have "sends_ok (begun (op_prod s)) (sent (op_pipe s))"
    using i(3) by (auto simp: sends_ok_def pipe_init_def)
  ultimately show ?thesis
    using i sg_init_inv [OF i(1)] pipe_init_inv [OF i(3)] by (simp add: observer_inv_def)
qed

interpretation observer_system: invariant_system "observer_init sg pl"
  "\<lambda>s t. sigc_ok sg \<and> observer_step sg pl s t" "observer_inv sg" for sg pl
  by unfold_locales (auto intro: observer_init_inv observer_step_inv)

subsection \<open>Property\<close>

text \<open>
  C19. The program of \<^verbatim>\<open>Observer.cpp\<close>, in every interleaving of its threads, as long as nothing
  undefined has happened, and for every signal library with the laws it relies on: at most
  one thread of the producer exists, and it never ends; when \<^verbatim>\<open>main\<close> waits both observers
  are connected and counted. Every round calls \<^verbatim>\<open>bob\<close> once, and from some round on \<^verbatim>\<open>tom\<close>
  once after him, with the number of the round; what is still to come in the current round
  is \<open>due_calls\<close>. The messages the queue has accepted are those of strictly growing rounds
  that have begun, and the consumer gets them in this order.
\<close>

theorem both_observers_told:
  assumes ok: "sigc_ok sg" and "observer_reachable sg pl s"
  shows "(\<exists>k. sp_told (op_prod s) @ due_calls (op_prod s) = rounds_told k (begun (op_prod s))) \<and>
    length (bodies (sp_life (op_prod s))) \<le> 1 \<and> set (bodies (sp_life (op_prod s))) \<subseteq> {B_ID, B_Add, B_Proc} \<and>
    (op_at s = OM_Wait \<longrightarrow> sg_slots sg (sp_sig (op_prod s)) = [bob, tom] \<and> sp_user (op_prod s) = 2) \<and>
    (\<exists>ns. sorted_wrt (<) ns \<and> set ns \<subseteq> {0 ..< int (begun (op_prod s))} \<and>
      map (\<lambda>x. (wpa x, lpa x)) (filter (\<lambda>x. msg x = 100) (sent (op_pipe s))) =
        map (\<lambda>n. (word_of_int n, word_of_int (n - 1))) ns) \<and>
    map fst (gone (op_pipe s)) @ pending (consumers (op_pipe s)) = sent (op_pipe s)"
proof -
  have "reach (observer_init sg pl) (\<lambda>s t. sigc_ok sg \<and> observer_step sg pl s t) s"
    using assms unfolding observer_reachable_def by simp
  then have inv: "observer_inv sg s" by (rule observer_system.reach_inv)
  then obtain p q where o: "sp_at (op_prod s) = [p, q]" "main_at (op_at s) p q"
      "one_thread_ok p (sp_life (op_prod s))" "told_ok (v_slot q) (op_prod s)"
      "sg_slots sg (sp_sig (op_prod s)) = (if v_slot p then [bob] else []) @ (if v_slot q then [tom] else [])"
    unfolding observer_inv_def observers_ok_def by blast
  have "sp_inv sg (op_prod s)" using inv by (simp add: observer_inv_def)
  then have "sp_user (op_prod s) = int (v_counted p + v_counted q)" using o(1) by (simp add: sp_inv_def)
  then have "op_at s = OM_Wait \<longrightarrow> sg_slots sg (sp_sig (op_prod s)) = [bob, tom] \<and> sp_user (op_prod s) = 2"
    using o(2,5) by auto
  moreover have "length (bodies (sp_life (op_prod s))) \<le> 1 \<and> set (bodies (sp_life (op_prod s))) \<subseteq> {B_ID, B_Add, B_Proc}"
    using o(3) by (auto simp: one_thread_ok_def split: if_splits)
  moreover have "\<exists>k. sp_told (op_prod s) @ due_calls (op_prod s) = rounds_told k (begun (op_prod s))"
    using o(4) by (auto simp: told_ok_def)
  moreover obtain ns where "sorted_wrt (<) ns" "\<forall>m \<in> set ns. 0 \<le> m \<and> m < int (begun (op_prod s))"
      "round_messages (sent (op_pipe s)) = map (\<lambda>m. (word_of_int m, word_of_int (m - 1))) ns"
    using inv by (auto simp: observer_inv_def sends_ok_def)
  moreover have "map fst (gone (op_pipe s)) @ pending (consumers (op_pipe s)) = sent (op_pipe s)"
    using inv by (simp add: observer_inv_def pipe_inv_def)
  ultimately show ?thesis by (auto simp: message_args_def [abs_def] intro!: exI [of _ ns])
qed

definition observer0 :: "(nat \<times> (nat \<times> nat) list, nat) observer_prog" where
  "observer0 = \<lparr>op_prod = sigc_prod0, op_pipe = pipe0, op_time = 0,
     op_timers = timer_manager_thread (Posix 9) raw_thread, op_id = 0, op_at = OM_Timers\<rparr>"

lemma observer0_init: "observer_init list_sigc (Posix 9) observer0"
proof -
  have "sg_init list_sigc sigc_prod0"
    unfolding sg_init_def
    by (intro conjI exI [of _ "Posix 9"] exI [of _ raw_thread])
      (auto simp: sigc_prod0_def list_sigc_def obj_def no_threads_def less_Suc_eq)
  then show ?thesis using pipe0_init
    by (auto simp: observer_init_def observer0_def sigc_prod0_def list_sigc_def)
qed

fun observer_run ::
    "('g, 'i) sigc \<Rightarrow> platform \<Rightarrow> observer_op list \<Rightarrow> ('g, 'i) observer_prog \<Rightarrow> ('g, 'i) observer_prog option" where
  "observer_run sg pl [] s = Some s"
| "observer_run sg pl (a # as) s =
     (if race (op_prod s) then None else Option.bind (observer_exec sg pl a s) (observer_run sg pl as))"

lemma observer_run_reach:
  "observer_reachable sg pl s \<Longrightarrow> observer_run sg pl as s = Some t \<Longrightarrow> observer_reachable sg pl t"
proof (induction as arbitrary: s)
  case (Cons a as)
  then obtain u where u: "\<not> race (op_prod s)" "observer_exec sg pl a s = Some u" "observer_run sg pl as u = Some t"
    by (auto simp: bind_eq_Some_conv split: if_splits)
  then have "observer_step sg pl s u" by (auto simp: observer_step_def)
  then have "observer_reachable sg pl u" using Cons.prems(1) unfolding observer_reachable_def by (rule reach_step [rotated])
  then show ?case using Cons.IH u(3) by blast
qed simp

text \<open>A round with \<^verbatim>\<open>bob\<close>, and a second one after \<^verbatim>\<open>tom\<close> has come; and \<^verbatim>\<open>tom\<close> coming in the middle of a round.\<close>

abbreviation main_steps :: "nat \<Rightarrow> observer_op list" where
  "main_steps n \<equiv> replicate n (Ob_Main good_os 1 7)"

definition two_rounds :: "observer_op list" where
  "two_rounds = main_steps 12 @ replicate 7 (Ob_Producer 0 5) @ main_steps 6 @ replicate 4 (Ob_Producer 0 6) @
     replicate 2 (Ob_Consumer 6)"

lemma two_rounds_eq:
  "map_option (\<lambda>s. (op_at s, sp_told (op_prod s), begun (op_prod s), due_calls (op_prod s),
       map wpa (sent (op_pipe s)), map (wpa \<circ> fst) (gone (op_pipe s))))
     (observer_run list_sigc (Posix 9) two_rounds observer0) =
   Some (OM_Wait, [(0, bob), (1, bob), (1, tom)], 2, [], [0, 1], [0])"
  by code_simp

text \<open>
  \<^verbatim>\<open>main\<close> itself connects \<^verbatim>\<open>tom\<close> while the thread that \<^verbatim>\<open>bob\<close> has started may be in \<^verbatim>\<open>emit\<close>.
\<close>

lemma main_races:
  "map_option (\<lambda>s. (op_at s, emitting (op_prod s), race (op_prod s)))
     (observer_run list_sigc (Posix 9) (main_steps 12 @ replicate 4 (Ob_Producer 0 5) @ main_steps 3) observer0) =
   Some (OM_Tom, True, True)"
  by code_simp

theorem both_observers_told_witness:
  "\<exists>s. observer_reachable list_sigc (Posix 9) s \<and> sp_told (op_prod s) = [(0, bob), (1, bob), (1, tom)] \<and>
    sp_user (op_prod s) = 2 \<and> sg_slots list_sigc (sp_sig (op_prod s)) = [bob, tom]"
proof -
  obtain s where s: "observer_run list_sigc (Posix 9) two_rounds observer0 = Some s" "op_at s = OM_Wait"
      "sp_told (op_prod s) = [(0, bob), (1, bob), (1, tom)]"
    using two_rounds_eq by auto
  have "observer_reachable list_sigc (Posix 9) observer0"
    unfolding observer_reachable_def by (rule reach_init, rule observer0_init)
  then have r: "observer_reachable list_sigc (Posix 9) s" by (rule observer_run_reach [OF _ s(1)])
  show ?thesis using r s both_observers_told [OF list_sigc_ok r] by (intro exI [of _ s]) simp
qed

end
