(* ===== verification/Buddy.thy ===== *)
theory Buddy
  imports Sync
begin

section \<open>Packet: the buddy lists of CPacketManager\<close>

text \<open>
  \<^verbatim>\<open>tutorial_libezthread/ezPacket/Packet.cpp\<close>, the part that manages the pages of the packet
  buffer. For every type \<open>i\<close> the manager has an array \<^verbatim>\<open>PBA\<close> of nodes \<^verbatim>\<open>PBN\<close>; node \<open>k\<close> of type
  \<open>i\<close> stands for the \<open>2 ^ i\<close> pages from page \<open>k * 2 ^ i\<close> on. The nodes that are free are
  linked in a circular list through \<^verbatim>\<open>pPrev\<close> and \<^verbatim>\<open>pNext\<close>, and \<^verbatim>\<open>pNext\<close> of a node that is not
  free is NULL. A pointer to a node is its index in its array. This theory has the nodes,
  \<^verbatim>\<open>InsertFree\<close> and \<^verbatim>\<open>RemoveFree\<close>, and the arithmetic of aligned blocks of pages.
\<close>

subsection \<open>Nodes\<close>

record PBN =
  pPrev :: "nat option"
  pNext :: "nat option"
  nIndex :: nat

record PBA =
  pArray :: "nat \<Rightarrow> PBN"
  pHeader :: "nat option"
  nCount :: nat

definition set_next :: "nat \<Rightarrow> nat option \<Rightarrow> PBA \<Rightarrow> PBA" where
  "set_next k v b = b\<lparr>pArray := (pArray b)(k := (pArray b k)\<lparr>pNext := v\<rparr>)\<rparr>"

definition set_prev :: "nat \<Rightarrow> nat option \<Rightarrow> PBA \<Rightarrow> PBA" where
  "set_prev k v b = b\<lparr>pArray := (pArray b)(k := (pArray b k)\<lparr>pPrev := v\<rparr>)\<rparr>"

definition next_of :: "PBA \<Rightarrow> nat \<Rightarrow> nat option" where
  "next_of b k = pNext (pArray b k)"

definition prev_of :: "PBA \<Rightarrow> nat \<Rightarrow> nat option" where
  "prev_of b k = pPrev (pArray b k)"

lemma node_set [simp]:
  "next_of (set_next k v b) = (next_of b)(k := v)"
  "prev_of (set_next k v b) = prev_of b"
  "next_of (set_prev k v b) = next_of b"
  "prev_of (set_prev k v b) = (prev_of b)(k := v)"
  "pHeader (set_next k v b) = pHeader b" "pHeader (set_prev k v b) = pHeader b"
  "nCount (set_next k v b) = nCount b" "nCount (set_prev k v b) = nCount b"
  "nIndex (pArray (set_next k v b) j) = nIndex (pArray b j)"
  "nIndex (pArray (set_prev k v b) j) = nIndex (pArray b j)"
  "next_of (b\<lparr>pHeader := h\<rparr>) = next_of b" "prev_of (b\<lparr>pHeader := h\<rparr>) = prev_of b"
  by (auto simp: set_next_def set_prev_def next_of_def prev_of_def fun_eq_iff)

subsection \<open>InsertFree and RemoveFree\<close>

text \<open>A node outside its array and a NULL pointer that is followed are undefined.\<close>

definition RemoveFree :: "nat \<Rightarrow> PBA \<Rightarrow> PBA outcome" where
  "RemoveFree this b =
     (if nCount b \<le> this then Undefined
      else
        let b1 = (if pHeader b = Some this then b\<lparr>pHeader := next_of b this\<rparr> else b)
        in if pHeader b = Some this \<and> pHeader b1 = Some this
           then Done ((set_next this None b1)\<lparr>pHeader := None\<rparr>)
           else (case prev_of b1 this of
                   None \<Rightarrow> Undefined
                 | Some p \<Rightarrow>
                     let b2 = set_next p (next_of b1 this) b1
                     in case next_of b2 this of
                          None \<Rightarrow> Undefined
                        | Some n \<Rightarrow> Done (set_next this None (set_prev n (prev_of b2 this) b2))))"

definition InsertFree :: "nat \<Rightarrow> PBA \<Rightarrow> PBA outcome" where
  "InsertFree this b =
     (if nCount b \<le> this then Undefined
      else case pHeader b of
             Some h \<Rightarrow>
               (case prev_of b h of
                  None \<Rightarrow> Undefined
                | Some p \<Rightarrow>
                    let b1 = set_next p (Some this) b;
                        b2 = set_prev this (prev_of b1 h) b1;
                        b3 = set_prev h (Some this) b2;
                        b4 = set_next this (Some h) b3
                    in Done (b4\<lparr>pHeader := Some this\<rparr>))
           | None \<Rightarrow>
               Done (set_next this (Some this) (set_prev this (Some this) (b\<lparr>pHeader := Some this\<rparr>))))"

subsection \<open>Rings\<close>

text \<open>\<open>path nx pv a xs b\<close>: the nodes from \<open>a\<close> over \<open>xs\<close> to \<open>b\<close> are linked both ways.\<close>

fun path :: "(nat \<Rightarrow> nat option) \<Rightarrow> (nat \<Rightarrow> nat option) \<Rightarrow> nat \<Rightarrow> nat list \<Rightarrow> nat \<Rightarrow> bool" where
  "path nx pv a [] b \<longleftrightarrow> nx a = Some b \<and> pv b = Some a"
| "path nx pv a (x # xs) b \<longleftrightarrow> nx a = Some x \<and> pv x = Some a \<and> path nx pv x xs b"

fun ring :: "(nat \<Rightarrow> nat option) \<Rightarrow> (nat \<Rightarrow> nat option) \<Rightarrow> nat list \<Rightarrow> bool" where
  "ring nx pv [] \<longleftrightarrow> True"
| "ring nx pv (x # xs) \<longleftrightarrow> path nx pv x xs x"

lemma path_append:
  "path nx pv a (xs @ y # ys) b \<longleftrightarrow> path nx pv a xs y \<and> path nx pv y ys b"
  by (induction xs arbitrary: a) auto

lemma path_cong:
  "(\<And>k. k = a \<or> k \<in> set xs \<Longrightarrow> nx' k = nx k) \<Longrightarrow> (\<And>k. k = b \<or> k \<in> set xs \<Longrightarrow> pv' k = pv k) \<Longrightarrow>
   path nx' pv' a xs b = path nx pv a xs b"
  by (induction xs arbitrary: a) auto

lemma path_next: "path nx pv a xs b \<Longrightarrow> k = a \<or> k \<in> set xs \<Longrightarrow> nx k \<noteq> None"
  by (induction xs arbitrary: a) auto

text \<open>The end of a path is bent from \<open>x\<close> to \<open>b\<close>.\<close>

lemma path_redirect:
  "path nx pv a xs x \<Longrightarrow> distinct (a # xs) \<Longrightarrow> b \<notin> set xs \<Longrightarrow>
   \<exists>p. pv x = Some p \<and> p \<in> set (a # xs) \<and> path (nx(p := Some b)) (pv(b := Some p)) a xs b"
proof (induction xs arbitrary: a)
  case Nil
  then show ?case by auto
next
  case (Cons y ys)
  have "path nx pv y ys x" "distinct (y # ys)" "b \<notin> set ys" using Cons.prems by simp_all
  from Cons.IH [OF this] obtain p where p: "pv x = Some p" "p \<in> set (y # ys)"
      "path (nx(p := Some b)) (pv(b := Some p)) y ys b"
    by blast
  have "p \<noteq> a" "b \<noteq> y" using Cons.prems p(2) by auto
  with Cons.prems p show ?case by (intro exI [of _ p]) (simp add: fun_upd_def)
qed

subsection \<open>One level: the nodes of one type\<close>

definition level_ok :: "PBA \<Rightarrow> nat set \<Rightarrow> bool" where
  "level_ok b S \<longleftrightarrow>
     (\<exists>ks. distinct ks \<and> set ks = S \<and> ring (next_of b) (prev_of b) ks \<and>
        pHeader b = (case ks of [] \<Rightarrow> None | k # _ \<Rightarrow> Some k)) \<and>
     (\<forall>k. next_of b k \<noteq> None \<longrightarrow> k \<in> S) \<and> (\<forall>k \<in> S. k < nCount b) \<and>
     (\<forall>k < nCount b. nIndex (pArray b k) = k)"

lemma level_next_iff:
  assumes "level_ok b S"
  shows "next_of b k \<noteq> None \<longleftrightarrow> k \<in> S"
proof -
  obtain ks where ks: "set ks = S" "ring (next_of b) (prev_of b) ks"
    using assms by (auto simp: level_ok_def)
  have "next_of b k \<noteq> None" if "k \<in> S"
    using ks that path_next by (cases ks) auto
  then show ?thesis using assms by (auto simp: level_ok_def)
qed

lemma level_header:
  assumes "level_ok b S"
  shows "pHeader b = None \<longleftrightarrow> S = {}" and "pHeader b = Some k \<Longrightarrow> k \<in> S \<and> nIndex (pArray b k) = k"
proof -
  obtain ks where ks: "set ks = S" "pHeader b = (case ks of [] \<Rightarrow> None | k # _ \<Rightarrow> Some k)"
    using assms by (auto simp: level_ok_def)
  show "pHeader b = None \<longleftrightarrow> S = {}" using ks by (cases ks) auto
  show "k \<in> S \<and> nIndex (pArray b k) = k" if "pHeader b = Some k"
    using ks that assms by (cases ks) (auto simp: level_ok_def)
qed

lemma InsertFree_ok:
  assumes ok: "level_ok b S" and k: "k \<notin> S" "k < nCount b"
  shows "\<exists>b'. InsertFree k b = Done b' \<and> level_ok b' (insert k S) \<and> nCount b' = nCount b"
proof -
  obtain ks where ks: "distinct ks" "set ks = S" "ring (next_of b) (prev_of b) ks"
      "pHeader b = (case ks of [] \<Rightarrow> None | k # _ \<Rightarrow> Some k)"
    using ok by (auto simp: level_ok_def)
  show ?thesis
  proof (cases ks)
    case Nil
    let ?b = "set_next k (Some k) (set_prev k (Some k) (b\<lparr>pHeader := Some k\<rparr>))"
    have "InsertFree k b = Done ?b" using Nil ks(4) k(2) by (simp add: InsertFree_def)
    moreover have "level_ok ?b (insert k S)"
      using ok ks Nil k unfolding level_ok_def
      by (intro conjI exI [of _ "[k]"]) (auto split: if_splits)
    ultimately show ?thesis by simp
  next
    case (Cons h hs)
    then have h: "pHeader b = Some h" and ring: "path (next_of b) (prev_of b) h hs h"
      using ks by simp_all
    have khs: "k \<noteq> h" "k \<notin> set hs" using k(1) ks(2) Cons by auto
    obtain p where p: "prev_of b h = Some p" "p \<in> set (h # hs)"
        "path ((next_of b)(p := Some k)) ((prev_of b)(k := Some p)) h hs k"
      using path_redirect [OF ring, of k] ks(1) Cons khs by auto
    let ?b = "(set_next k (Some h) (set_prev h (Some k)
        (set_prev k (Some p) (set_next p (Some k) b))))\<lparr>pHeader := Some k\<rparr>"
    have "InsertFree k b = Done ?b"
      using h p(1) k(2) by (simp add: InsertFree_def)
    moreover have "level_ok ?b (insert k S)"
      unfolding level_ok_def
    proof (intro conjI exI [of _ "k # h # hs"])
      have "path (next_of ?b) (prev_of ?b) h hs k"
        by (rule iffD2 [OF path_cong p(3)]) (use khs ks(1) Cons p(2) in auto)
      then show "ring (next_of ?b) (prev_of ?b) (k # h # hs)"
        using khs by simp
    qed (use ok ks Cons k p(2) in \<open>auto simp: level_ok_def\<close>)
    ultimately show ?thesis by simp
  qed
qed

text \<open>The effect of \<^verbatim>\<open>RemoveFree\<close> on a node between two others.\<close>

lemma RemoveFree_unlink:
  assumes "k < nCount b" and "prev_of b k = Some p" and "next_of b k = Some n" and "p \<noteq> k" and "n \<noteq> k"
    and "hd' = (if pHeader b = Some k then Some n else pHeader b)"
  shows "RemoveFree k b =
    Done ((set_next k None (set_prev n (Some p) (set_next p (Some n) b)))\<lparr>pHeader := hd'\<rparr>)"
  using assms by (simp add: RemoveFree_def Let_def set_next_def set_prev_def next_of_def prev_of_def)

lemma RemoveFree_ok:
  assumes ok: "level_ok b S" and k: "k \<in> S"
  shows "\<exists>b'. RemoveFree k b = Done b' \<and> level_ok b' (S - {k}) \<and> nCount b' = nCount b"
proof -
  obtain ks where ks: "distinct ks" "set ks = S" "ring (next_of b) (prev_of b) ks"
      "pHeader b = (case ks of [] \<Rightarrow> None | k # _ \<Rightarrow> Some k)"
    using ok by (auto simp: level_ok_def)
  have kc: "k < nCount b" using ok k by (auto simp: level_ok_def)
  obtain as bs where s: "ks = as @ k # bs" using k ks(2) by (meson split_list)
  have unlink: ?thesis
    if "prev_of b k = Some p" "next_of b k = Some n" "p \<noteq> k" "n \<noteq> k" "p \<in> S" "n \<in> S"
      "path ((next_of b)(p := Some n)) ((prev_of b)(n := Some p)) h hs h"
      "as @ bs = h # hs" "(if pHeader b = Some k then Some n else pHeader b) = Some h" for p n h hs
  proof -
    let ?b = "(set_next k None (set_prev n (Some p) (set_next p (Some n) b)))\<lparr>pHeader := Some h\<rparr>"
    have "RemoveFree k b = Done ?b"
      using RemoveFree_unlink [OF kc that(1-4) refl] that(9) by simp
    moreover have "level_ok ?b (S - {k})"
      unfolding level_ok_def
    proof (intro conjI exI [of _ "h # hs"])
      have d: "k \<notin> set (h # hs)" "distinct (h # hs)" "set (h # hs) = S - {k}"
        unfolding that(8) [symmetric] using ks(1,2) s by auto
      show "distinct (h # hs)" "set (h # hs) = S - {k}" by (rule d)+
      have "path (next_of ?b) (prev_of ?b) h hs h"
        by (rule iffD2 [OF path_cong that(7)]) (use d in auto)
      then show "ring (next_of ?b) (prev_of ?b) (h # hs)" by simp
    qed (use ok that in \<open>auto simp: level_ok_def\<close>)
    ultimately show ?thesis by simp
  qed
  show ?thesis
  proof (cases as)
    case Nil
    show ?thesis
    proof (cases bs)
      case Nil
      then have "next_of b k = Some k" "pHeader b = Some k" "S = {k}"
        using ks s \<open>as = []\<close> by auto
      moreover have "level_ok ((set_next k None (b\<lparr>pHeader := Some k\<rparr>))\<lparr>pHeader := None\<rparr>) (S - {k})"
        using ok \<open>S = {k}\<close> unfolding level_ok_def by (intro conjI exI [of _ "[]"]) auto
      ultimately show ?thesis using kc by (auto simp: RemoveFree_def)
    next
      case (Cons y ys)
      then have r: "next_of b k = Some y" "path (next_of b) (prev_of b) y ys k" "pHeader b = Some k"
        using ks s \<open>as = []\<close> by auto
      have d: "distinct (y # ys)" "y \<notin> set ys" "k \<notin> set (y # ys)" "set (y # ys) \<subseteq> S"
        using ks s Nil Cons by auto
      obtain p where p: "prev_of b k = Some p" "p \<in> set (y # ys)"
          "path ((next_of b)(p := Some y)) ((prev_of b)(y := Some p)) y ys y"
        using path_redirect [OF r(2) d(1,2)] by blast
      show ?thesis
        by (rule unlink [OF p(1) r(1) _ _ _ _ p(3)]) (use p d r s Nil Cons in auto)
    qed
  next
    case (Cons h hs)
    then have r: "path (next_of b) (prev_of b) h hs k" "path (next_of b) (prev_of b) k bs h"
        "pHeader b = Some h"
      using ks s by (auto simp: path_append)
    have d: "distinct (h # hs @ k # bs)" "set (h # hs @ k # bs) = S" using ks s Cons by auto
    show ?thesis
    proof (cases bs)
      case Nil
      obtain p where p: "prev_of b k = Some p" "p \<in> set (h # hs)"
          "path ((next_of b)(p := Some h)) ((prev_of b)(h := Some p)) h hs h"
        using path_redirect [OF r(1), of h] d by auto
      have n: "next_of b k = Some h" using r(2) Nil by simp
      show ?thesis
        by (rule unlink [OF p(1) n _ _ _ _ p(3)]) (use p d r s Nil Cons in auto)
    next
      case (Cons y ys)
      have n: "next_of b k = Some y" "path (next_of b) (prev_of b) y ys h" using r(2) Cons by auto
      obtain p where p: "prev_of b k = Some p" "p \<in> set (h # hs)"
          "path ((next_of b)(p := Some y)) ((prev_of b)(y := Some p)) h hs y"
        using path_redirect [OF r(1), of y] d Cons by auto
      have "path ((next_of b)(p := Some y)) ((prev_of b)(y := Some p)) y ys h"
        by (rule iffD2 [OF path_cong n(2)]) (use d p(2) Cons in auto)
      with p(3) have "path ((next_of b)(p := Some y)) ((prev_of b)(y := Some p)) h (hs @ y # ys) h"
        by (simp add: path_append)
      then show ?thesis
        by (rule unlink [OF p(1) n(1), rotated 4]) (use p d r s Cons \<open>as = h # hs\<close> in auto)
    qed
  qed
qed

subsection \<open>Blocks of pages\<close>

text \<open>The node \<open>k\<close> of type \<open>i\<close> as the set of its pages.\<close>

type_synonym block = "nat \<times> nat"

definition pages :: "block \<Rightarrow> nat set" where
  "pages b = {p. p div 2 ^ fst b = snd b}"

definition the_other :: "nat \<Rightarrow> nat" where
  "the_other k = (if odd k then k - 1 else k + 1)"

lemma pages_interval: "pages (i, k) = {k * 2 ^ i ..< Suc k * 2 ^ i}"
proof -
  have "p div 2 ^ i = k \<longleftrightarrow> k * 2 ^ i \<le> p \<and> p < Suc k * 2 ^ i" for p
  proof
    assume "p div 2 ^ i = k"
    then show "k * 2 ^ i \<le> p \<and> p < Suc k * 2 ^ i"
      using div_times_less_eq_dividend [of p "2 ^ i"] dividend_less_div_times [of "2 ^ i" p] by auto
  next
    assume "k * 2 ^ i \<le> p \<and> p < Suc k * 2 ^ i"
    then show "p div 2 ^ i = k" by (intro div_nat_eqI) (auto simp: mult.commute)
  qed
  then show ?thesis by (simp only: pages_def set_eq_iff mem_Collect_eq fst_conv snd_conv atLeastLessThan_iff) simp
qed

lemma first_page: "k * 2 ^ i \<in> pages (i, k)"
  by (simp add: pages_def)

lemma pages_nonempty [simp]: "pages b \<noteq> {}"
  using first_page [of "snd b" "fst b"] by auto

lemma pages_halves:
  "pages (Suc i, k) = pages (i, 2 * k) \<union> pages (i, Suc (2 * k))"
  "pages (i, 2 * k) \<inter> pages (i, Suc (2 * k)) = {}"
proof -
  have "p div (2 * 2 ^ i) = k \<longleftrightarrow> p div 2 ^ i = 2 * k \<or> p div 2 ^ i = Suc (2 * k)" for p
    unfolding div_mult2_eq [of p "2 ^ i" 2, simplified mult.commute [of "2 ^ i" 2]] by auto
  then show "pages (Suc i, k) = pages (i, 2 * k) \<union> pages (i, Suc (2 * k))"
    by (auto simp: pages_def)
qed (auto simp: pages_def)

lemma pages_buddies:
  "pages (Suc i, k div 2) = pages (i, k) \<union> pages (i, the_other k)"
  "pages (i, k) \<inter> pages (i, the_other k) = {}"
proof -
  have "k = 2 * (k div 2) \<and> the_other k = Suc (2 * (k div 2)) \<or>
      k = Suc (2 * (k div 2)) \<and> the_other k = 2 * (k div 2)"
    by (auto simp: the_other_def)
  then show "pages (Suc i, k div 2) = pages (i, k) \<union> pages (i, the_other k)"
      "pages (i, k) \<inter> pages (i, the_other k) = {}"
    using pages_halves [of i "k div 2"] by (metis Un_commute, metis Int_commute)
qed

lemma the_other_double [simp]: "the_other (Suc (2 * k)) = 2 * k" "the_other (2 * k) = Suc (2 * k)"
  by (simp_all add: the_other_def)

lemma the_other_inv [simp]: "the_other (the_other k) = k"
  by (auto simp: the_other_def elim: oddE)

text \<open>A block that holds one page of a smaller one holds it all.\<close>

lemma pages_nested:
  assumes "p \<in> pages (i, k)" and "p \<in> pages (j, m)" and "i \<le> j"
  shows "pages (i, k) \<subseteq> pages (j, m)"
proof -
  have "q div 2 ^ j = (q div 2 ^ i) div 2 ^ (j - i)" for q :: nat
    using assms(3) by (simp add: div_mult2_eq [symmetric] power_add [symmetric])
  then show ?thesis using assms by (auto simp: pages_def)
qed

lemma pages_same_type: "pages (i, k) \<subseteq> pages (i, m) \<Longrightarrow> k = m"
proof -
  assume "pages (i, k) \<subseteq> pages (i, m)"
  then have "k * 2 ^ i \<in> pages (i, m)" using first_page by blast
  then show "k = m" by (simp add: pages_def)
qed

subsection \<open>Tilings\<close>

text \<open>The blocks of \<open>B\<close> cover the pages below \<open>n\<close>, each once.\<close>

definition tiling :: "nat \<Rightarrow> block set \<Rightarrow> bool" where
  "tiling n B \<longleftrightarrow> (\<Union>b \<in> B. pages b) = {..<n} \<and>
     (\<forall>b \<in> B. \<forall>c \<in> B. b \<noteq> c \<longrightarrow> pages b \<inter> pages c = {})"

lemma tiling_overlap:
  "tiling n B \<Longrightarrow> b \<in> B \<Longrightarrow> c \<in> B \<Longrightarrow> pages b \<inter> pages c \<noteq> {} \<Longrightarrow> b = c"
  by (auto simp: tiling_def)

lemma tiling_replace:
  assumes t: "tiling n (X \<union> B)" and d: "X \<inter> B = {}"
    and p: "(\<Union>b \<in> X. pages b) = (\<Union>b \<in> Y. pages b)"
    and Y: "\<forall>b \<in> Y. \<forall>c \<in> Y. b \<noteq> c \<longrightarrow> pages b \<inter> pages c = {}"
  shows "tiling n (Y \<union> B) \<and> Y \<inter> B = {}"
proof -
  have sep: "pages y \<inter> pages b = {}" if "y \<in> Y" "b \<in> B" for y b
  proof (rule ccontr)
    assume "pages y \<inter> pages b \<noteq> {}"
    then obtain q where q: "q \<in> pages y" "q \<in> pages b" by blast
    have "q \<in> (\<Union>b \<in> X. pages b)" unfolding p using q(1) that(1) by (rule UN_I [rotated])
    then obtain x where x: "x \<in> X" "q \<in> pages x" by (rule UN_E)
    have "x = b" by (rule tiling_overlap [OF t]) (use x q that(2) in auto)
    then show False using d x that(2) by blast
  qed
  then have "tiling n (Y \<union> B)"
    unfolding tiling_def
  proof (intro conjI ballI impI)
    show "(\<Union>b \<in> Y \<union> B. pages b) = {..<n}" using t p by (simp add: tiling_def)
    show "pages b \<inter> pages c = {}" if "b \<in> Y \<union> B" "c \<in> Y \<union> B" "b \<noteq> c" for b c
    proof (cases "b \<in> Y"; cases "c \<in> Y")
      assume "b \<in> Y" "c \<notin> Y"
      then show ?thesis using sep that(2) by blast
    next
      assume "b \<notin> Y" "c \<in> Y"
      then show ?thesis using sep [of c b] that(1) by blast
    next
      assume "b \<notin> Y" "c \<notin> Y"
      then show ?thesis using t that unfolding tiling_def by blast
    qed (use Y that(3) in blast)
  qed
  moreover have "Y \<inter> B = {}" using sep by fastforce
  ultimately show ?thesis by blast
qed

lemma tiling_split:
  assumes "tiling n (insert (Suc i, k) B)" and "(Suc i, k) \<notin> B"
  shows "tiling n (insert (i, 2 * k) (insert (i, Suc (2 * k)) B)) \<and>
    (i, 2 * k) \<notin> B \<and> (i, Suc (2 * k)) \<notin> B"
  using tiling_replace [of n "{(Suc i, k)}" B "{(i, 2 * k), (i, Suc (2 * k))}"] assms pages_halves [of i k]
  by (auto simp: Int_commute)

lemma tiling_merge:
  assumes "tiling n (insert (i, k) (insert (i, the_other k) B))" and "(i, k) \<notin> B" and "(i, the_other k) \<notin> B"
  shows "tiling n (insert (Suc i, k div 2) B) \<and> (Suc i, k div 2) \<notin> B"
  using tiling_replace [of n "{(i, k), (i, the_other k)}" B "{(Suc i, k div 2)}"] assms pages_buddies [of i k]
  by auto

text \<open>No two halves of one block are free at once.\<close>

definition coalesced :: "nat \<Rightarrow> block set \<Rightarrow> bool" where
  "coalesced T F \<longleftrightarrow> (\<forall>(i, k) \<in> F. Suc i < T \<longrightarrow> (i, the_other k) \<notin> F)"

text \<open>Then an aligned run of pages that are all free lies in one free block.\<close>

lemma coalesced_cover:
  assumes t: "tiling n (F \<union> U)" and c: "coalesced T F"
  shows "pages (ty, k) \<subseteq> {..<n} \<Longrightarrow> pages (ty, k) \<inter> (\<Union>b \<in> U. pages b) = {} \<Longrightarrow> ty < T \<Longrightarrow>
    \<exists>j m. (j, m) \<in> F \<and> ty \<le> j \<and> pages (ty, k) \<subseteq> pages (j, m)"
proof (induction ty arbitrary: k)
  case 0
  have k: "pages (0, k) = {k}" by (auto simp: pages_def)
  then have "k \<in> (\<Union>b \<in> F \<union> U. pages b)" using t 0 by (simp add: tiling_def)
  then show ?case using 0 k by fastforce
next
  case (Suc ty)
  note h = pages_halves [of ty k]
  have l0: "pages (ty, 2 * k) \<subseteq> {..<n}" "pages (ty, 2 * k) \<inter> (\<Union>b \<in> U. pages b) = {}"
    and r0: "pages (ty, Suc (2 * k)) \<subseteq> {..<n}" "pages (ty, Suc (2 * k)) \<inter> (\<Union>b \<in> U. pages b) = {}"
    using Suc.prems(1,2) unfolding h(1) by blast+
  obtain j m where l: "(j, m) \<in> F" "ty \<le> j" "pages (ty, 2 * k) \<subseteq> pages (j, m)"
    using Suc.IH [OF l0] Suc.prems(3) by (meson Suc_lessD)
  obtain j' m' where r: "(j', m') \<in> F" "ty \<le> j'" "pages (ty, Suc (2 * k)) \<subseteq> pages (j', m')"
    using Suc.IH [OF r0] Suc.prems(3) by (meson Suc_lessD)
  have up: "pages (Suc ty, k) \<subseteq> pages (a, b)" if "Suc ty \<le> a" "p \<in> pages (Suc ty, k)" "p \<in> pages (a, b)" for a b p
    using pages_nested that by blast
  consider "Suc ty \<le> j" | "Suc ty \<le> j'" | "j = ty" "j' = ty" using l(2) r(2) by linarith
  then show ?case
  proof cases
    case 1
    then show ?thesis using up [OF 1] l h first_page [of "2 * k" ty] by blast
  next
    case 2
    then show ?thesis using up [OF 2] r h first_page [of "Suc (2 * k)" ty] by blast
  next
    case 3
    then have "(ty, 2 * k) \<in> F" "(ty, the_other (2 * k)) \<in> F"
      using l(1) r(1) pages_same_type [OF l(3) [unfolded 3]] pages_same_type [OF r(3) [unfolded 3]] 3 by auto
    then show ?thesis using c Suc.prems(3) by (auto simp: coalesced_def)
  qed
qed

subsection \<open>The loops of GetPacket and PutPacket\<close>

text \<open>
  The functions take the number of types \<^verbatim>\<open>m_nTypes\<close> and the arrays \<^verbatim>\<open>m_PBAs\<close>. An array that
  the constructor did not make and a node outside its array are undefined.
\<close>

type_synonym PBAs = "nat \<Rightarrow> PBA"

definition at_level :: "nat \<Rightarrow> nat \<Rightarrow> (PBA \<Rightarrow> PBA outcome) \<Rightarrow> PBAs \<Rightarrow> PBAs outcome" where
  "at_level T i f P = (if i < T then obind (f (P i)) (\<lambda>b. Done (P(i := b))) else Undefined)"

definition node_free :: "nat \<Rightarrow> PBAs \<Rightarrow> nat \<Rightarrow> nat \<Rightarrow> bool outcome" where
  "node_free T P i k =
     (if i < T \<and> k < nCount (P i) then Done (next_of (P i) k \<noteq> None) else Undefined)"

text \<open>The smallest type from \<open>i\<close> on that has a free node.\<close>

function find_free :: "nat \<Rightarrow> PBAs \<Rightarrow> nat \<Rightarrow> nat" where
  "find_free T P i =
     (if i < T then if pHeader (P i) \<noteq> None then i else find_free T P (Suc i) else i)"
  by pat_completeness auto
termination by (relation "measure (\<lambda>(T, P, i). T - i)") auto

text \<open>A node is cut down to type \<open>ty\<close>: the upper half of every cut becomes free.\<close>

function split_nodes :: "nat \<Rightarrow> nat \<Rightarrow> nat \<Rightarrow> nat \<Rightarrow> PBAs \<Rightarrow> (nat \<times> PBAs) outcome" where
  "split_nodes T ty i index P =
     (if ty < i then
        obind (at_level T (i - 1) (InsertFree (2 * index + 1)) P) (\<lambda>P.
        split_nodes T ty (i - 1) (2 * index) P)
      else Done (index, P))"
  by pat_completeness auto
termination by (relation "measure (\<lambda>(T, ty, i, index, P). i - ty)") auto

text \<open>
  The node left over when the number of pages is no power of two, from type \<open>i - 1\<close> down to 0.
\<close>

fun leftover_nodes :: "nat \<Rightarrow> nat \<Rightarrow> nat \<Rightarrow> int \<Rightarrow> PBAs \<Rightarrow> PBAs outcome" where
  "leftover_nodes T 0 index n P = Done P"
| "leftover_nodes T (Suc i) index n P =
     (if \<not> bit n i then
        obind (at_level T i (InsertFree (2 * index + 1)) P) (leftover_nodes T i (2 * index) n)
      else if n - 2 ^ i = 0 then at_level T i (InsertFree (2 * index + 1)) P
      else leftover_nodes T i (2 * index + 1) (n - 2 ^ i) P)"

text \<open>
  The other direction, for a packet whose number of pages is no power of two. \<^verbatim>\<open>merged\<close> is 0
  before, 1 during and 2 after the merging.
\<close>

definition put_part :: "nat \<Rightarrow> nat \<Rightarrow> nat \<Rightarrow> nat \<Rightarrow> PBAs \<Rightarrow> (nat \<times> PBAs) outcome" where
  "put_part T i index merged P =
     (if odd index then
        if merged = 0 then
          obind (node_free T P i index) (\<lambda>free.
          if free then obind (at_level T i (RemoveFree index) P) (\<lambda>P. Done (1, P))
          else obind (at_level T i (InsertFree (index - 1)) P) (\<lambda>P. Done (2, P)))
        else if merged = 2 then
          obind (at_level T i (InsertFree (index - 1)) P) (\<lambda>P. Done (2, P))
        else Done (merged, P)
      else if merged = 1 then
        obind (node_free T P i (index + 1)) (\<lambda>free.
        if free then obind (at_level T i (RemoveFree (index + 1)) P) (\<lambda>P. Done (1, P))
        else obind (at_level T i (InsertFree index) P) (\<lambda>P. Done (2, P)))
      else Done (merged, P))"

function put_parts :: "nat \<Rightarrow> nat \<Rightarrow> nat \<Rightarrow> nat \<Rightarrow> nat \<Rightarrow> PBAs \<Rightarrow> (nat \<times> nat \<times> PBAs) outcome" where
  "put_parts T ty i index merged P =
     (if i < ty then
        obind (put_part T i index merged P) (\<lambda>(merged, P).
        put_parts T ty (Suc i) (index div 2) merged P)
      else Done (index, merged, P))"
  by pat_completeness auto
termination by (relation "measure (\<lambda>(T, ty, i, index, merged, P). ty - i)") auto

text \<open>From \<^verbatim>\<open>post_merge\<close> on: a node is merged with its other half while that is free.\<close>

function merge_nodes :: "nat \<Rightarrow> nat \<Rightarrow> nat \<Rightarrow> PBAs \<Rightarrow> PBAs outcome" where
  "merge_nodes T i index P =
     (if Suc i < T then
        obind (node_free T P i (the_other index)) (\<lambda>free.
        if free then
          obind (at_level T i (RemoveFree (the_other index)) P) (\<lambda>P.
          merge_nodes T (Suc i) (index div 2) P)
        else at_level T i (InsertFree index) P)
      else at_level T i (InsertFree index) P)"
  by pat_completeness auto
termination by (relation "measure (\<lambda>(T, i, index, P). T - i)") auto

declare find_free.simps [simp del] split_nodes.simps [simp del] put_parts.simps [simp del]
  merge_nodes.simps [simp del]

subsection \<open>The invariant of the buddy lists\<close>

definition free_set :: "PBA \<Rightarrow> nat set" where
  "free_set b = {k. next_of b k \<noteq> None}"

definition free_nodes :: "nat \<Rightarrow> PBAs \<Rightarrow> block set" where
  "free_nodes T P = Sigma {..<T} (\<lambda>i. free_set (P i))"

definition levels_ok :: "nat \<Rightarrow> PBAs \<Rightarrow> bool" where
  "levels_ok T P \<longleftrightarrow>
     (\<forall>i < T. level_ok (P i) (free_set (P i)) \<and> 2 ^ (T - 1) \<le> nCount (P i) * 2 ^ i)"

text \<open>
  The blocks in use and the free nodes tile the \<open>2 ^ (T - 1)\<close> pages, and no two halves of a
  block are both free.
\<close>

definition buddy_ok :: "nat \<Rightarrow> PBAs \<Rightarrow> block set \<Rightarrow> bool" where
  "buddy_ok T P U \<longleftrightarrow> levels_ok T P \<and> tiling (2 ^ (T - 1)) (free_nodes T P \<union> U) \<and>
     free_nodes T P \<inter> U = {} \<and> coalesced T (free_nodes T P)"

lemma free_set_level: "level_ok b S \<Longrightarrow> free_set b = S"
  using level_next_iff by (auto simp: free_set_def)

lemma pages_bound: "pages (i, k) \<subseteq> {..<n} \<longleftrightarrow> Suc k * 2 ^ i \<le> n"
proof
  obtain m where m: "(2::nat) ^ i = Suc m" using not0_implies_Suc [of "(2::nat) ^ i"] by auto
  assume "pages (i, k) \<subseteq> {..<n}"
  moreover have "k * Suc m + m \<in> pages (i, k)" by (simp add: pages_interval m)
  ultimately have "k * Suc m + m < n" by blast
  then show "Suc k * 2 ^ i \<le> n" by (simp add: m)
qed (auto simp: pages_interval)

lemma tiling_bound: "tiling n B \<Longrightarrow> (i, k) \<in> B \<Longrightarrow> Suc k * 2 ^ i \<le> n"
  unfolding pages_bound [symmetric] by (auto simp: tiling_def)

lemma free_nodes_update:
  "i < T \<Longrightarrow> free_nodes T (P(i := b)) = (free_nodes T P - {i} \<times> UNIV) \<union> {i} \<times> free_set b"
  by (auto simp: free_nodes_def split: if_splits)

lemma levels_update:
  assumes "levels_ok T P" and "level_ok b S" and "nCount b = nCount (P i)" and "i < T"
  shows "levels_ok T (P(i := b))"
  using assms by (simp add: levels_ok_def free_set_level [OF assms(2)])

lemma remove_step:
  assumes ok: "levels_ok T P" and k: "(i, k) \<in> free_nodes T P"
  shows "\<exists>P'. at_level T i (RemoveFree k) P = Done P' \<and> levels_ok T P' \<and>
    free_nodes T P' = free_nodes T P - {(i, k)}"
proof -
  have i: "i < T" "k \<in> free_set (P i)" using k by (auto simp: free_nodes_def)
  obtain b where b: "RemoveFree k (P i) = Done b" "level_ok b (free_set (P i) - {k})"
      "nCount b = nCount (P i)"
    using RemoveFree_ok [of "P i", OF _ i(2)] ok i(1) by (auto simp: levels_ok_def)
  have "free_nodes T (P(i := b)) = free_nodes T P - {(i, k)}"
    unfolding free_nodes_update [OF i(1)] free_set_level [OF b(2)] using i(1)
    by (auto simp: free_nodes_def)
  with levels_update [OF ok b(2,3) i(1)] b(1) i(1) show ?thesis by (simp add: at_level_def)
qed

lemma insert_step:
  assumes ok: "levels_ok T P" and k: "(i, k) \<notin> free_nodes T P" and i: "i < T"
    and n: "Suc k * 2 ^ i \<le> 2 ^ (T - 1)"
  shows "\<exists>P'. at_level T i (InsertFree k) P = Done P' \<and> levels_ok T P' \<and>
    free_nodes T P' = insert (i, k) (free_nodes T P)"
proof -
  have "Suc k * 2 ^ i \<le> nCount (P i) * 2 ^ i" using ok i n le_trans by (fastforce simp: levels_ok_def)
  then have "Suc k \<le> nCount (P i)" by (simp only: mult_le_cancel2 zero_less_power)
  then have kc: "k < nCount (P i)" by simp
  have "k \<notin> free_set (P i)" using k i by (auto simp: free_nodes_def)
  then obtain b where b: "InsertFree k (P i) = Done b" "level_ok b (insert k (free_set (P i)))"
      "nCount b = nCount (P i)"
    using InsertFree_ok [of "P i" "free_set (P i)" k] ok i kc by (auto simp: levels_ok_def)
  have "free_nodes T (P(i := b)) = insert (i, k) (free_nodes T P)"
    unfolding free_nodes_update [OF i] free_set_level [OF b(2)] using i
    by (auto simp: free_nodes_def)
  with levels_update [OF ok b(2,3) i] b(1) i show ?thesis by (simp add: at_level_def)
qed

subsection \<open>GetPacket and PutPacket on the buddy lists\<close>

lemma buddy_bound: "buddy_ok T P U \<Longrightarrow> (i, k) \<in> U \<or> (i, k) \<in> free_nodes T P \<Longrightarrow> Suc k * 2 ^ i \<le> 2 ^ (T - 1)"
  by (rule tiling_bound [of _ "free_nodes T P \<union> U"]) (auto simp: buddy_ok_def)

text \<open>A free node is taken into use.\<close>

lemma buddy_take:
  assumes ok: "buddy_ok T P U" and k: "(i, k) \<in> free_nodes T P"
  shows "\<exists>P'. at_level T i (RemoveFree k) P = Done P' \<and> buddy_ok T P' (insert (i, k) U) \<and> (i, k) \<notin> U"
proof -
  obtain P' where P': "at_level T i (RemoveFree k) P = Done P'" "levels_ok T P'"
      "free_nodes T P' = free_nodes T P - {(i, k)}"
    using remove_step k ok by (metis buddy_ok_def)
  have "free_nodes T P' \<union> insert (i, k) U = free_nodes T P \<union> U" "(i, k) \<notin> U"
    using P'(3) k ok by (auto simp: buddy_ok_def)
  then have "buddy_ok T P' (insert (i, k) U)"
    using ok P'(2,3) by (auto simp: buddy_ok_def coalesced_def)
  with P'(1) \<open>(i, k) \<notin> U\<close> show ?thesis by blast
qed

text \<open>A block in use whose other half is not free becomes free.\<close>

lemma buddy_put:
  assumes ok: "buddy_ok T P (insert (i, k) U)" and k: "(i, k) \<notin> U" and i: "i < T"
    and alone: "Suc i < T \<Longrightarrow> (i, the_other k) \<notin> free_nodes T P"
  shows "\<exists>P'. at_level T i (InsertFree k) P = Done P' \<and> buddy_ok T P' U"
proof -
  have "(i, k) \<notin> free_nodes T P" using ok by (auto simp: buddy_ok_def)
  then obtain P' where P': "at_level T i (InsertFree k) P = Done P'" "levels_ok T P'"
      "free_nodes T P' = insert (i, k) (free_nodes T P)"
    using insert_step [of T P i k] ok i buddy_bound [OF ok] by (auto simp: buddy_ok_def)
  have c: "coalesced T (free_nodes T P')"
    unfolding coalesced_def
  proof (clarify)
    fix j m
    assume j: "(j, m) \<in> free_nodes T P'" "Suc j < T" "(j, the_other m) \<in> free_nodes T P'"
    have "the_other k \<noteq> k" by (cases k) (auto simp: the_other_def)
    with j P'(3) consider "(j, m) = (i, k)" "(i, the_other k) \<in> free_nodes T P"
      | "j = i" "the_other m = k" "(j, m) \<in> free_nodes T P"
      | "(j, m) \<in> free_nodes T P" "(j, the_other m) \<in> free_nodes T P"
      by auto
    then show False
    proof cases
      case 2
      then have "m = the_other k" by auto
      then show False using 2 alone j(2) by auto
    qed (use alone j(2) ok in \<open>auto simp: buddy_ok_def coalesced_def\<close>)
  qed
  have "free_nodes T P' \<union> U = free_nodes T P \<union> insert (i, k) U" using P'(3) by auto
  moreover have "free_nodes T P' \<inter> U = {}" using P'(3) ok k by (auto simp: buddy_ok_def)
  ultimately have "buddy_ok T P' U" using ok P'(2) c by (simp add: buddy_ok_def)
  with P'(1) show ?thesis by blast
qed

text \<open>A block in use is cut in halves, of which the upper one becomes free.\<close>

lemma buddy_cut:
  assumes ok: "buddy_ok T P (insert (Suc i, k) U)" and k: "(Suc i, k) \<notin> U" and i: "i < T"
  shows "\<exists>P'. at_level T i (InsertFree (2 * k + 1)) P = Done P' \<and>
    buddy_ok T P' (insert (i, 2 * k) U) \<and> (i, 2 * k) \<notin> U"
proof -
  have n: "(Suc i, k) \<notin> free_nodes T P" using ok by (auto simp: buddy_ok_def)
  have t: "tiling (2 ^ (T - 1)) (insert (i, 2 * k) (insert (i, Suc (2 * k)) (free_nodes T P \<union> U)))"
    and notin: "(i, 2 * k) \<notin> free_nodes T P \<union> U" "(i, Suc (2 * k)) \<notin> free_nodes T P \<union> U"
    using tiling_split [of "2 ^ (T - 1)" i k "free_nodes T P \<union> U"] ok k n by (auto simp: buddy_ok_def)
  have "Suc (Suc (2 * k)) * 2 ^ i \<le> 2 ^ (T - 1)"
    by (rule tiling_bound [OF t]) simp
  then obtain P' where P': "at_level T i (InsertFree (Suc (2 * k))) P = Done P'" "levels_ok T P'"
      "free_nodes T P' = insert (i, Suc (2 * k)) (free_nodes T P)"
    using insert_step [of T P i "Suc (2 * k)"] ok i notin by (auto simp: buddy_ok_def)
  have "coalesced T (free_nodes T P')"
    unfolding coalesced_def P'(3)
  proof (clarify)
    fix j m
    assume j: "(j, m) \<in> insert (i, Suc (2 * k)) (free_nodes T P)" "Suc j < T"
      "(j, the_other m) \<in> insert (i, Suc (2 * k)) (free_nodes T P)"
    have "m = the_other (the_other m)" by simp
    then have "m = 2 * k" if "the_other m = Suc (2 * k)" unfolding that by simp
    moreover have "the_other (Suc (2 * k)) = 2 * k" by simp
    ultimately show False using j notin ok by (auto simp: buddy_ok_def coalesced_def)
  qed
  moreover have "free_nodes T P' \<union> insert (i, 2 * k) U =
      insert (i, 2 * k) (insert (i, Suc (2 * k)) (free_nodes T P \<union> U))"
    using P'(3) by auto
  moreover have "free_nodes T P' \<inter> insert (i, 2 * k) U = {}"
    using P'(3) notin ok by (auto simp: buddy_ok_def)
  ultimately show ?thesis using P'(1,2) t notin by (simp add: buddy_ok_def)
qed

lemma split_nodes_ok:
  "buddy_ok T P (insert (i, k) U) \<Longrightarrow> (i, k) \<notin> U \<Longrightarrow> i < T \<Longrightarrow> ty \<le> i \<Longrightarrow>
   \<exists>P'. split_nodes T ty i k P = Done (k * 2 ^ (i - ty), P') \<and>
     buddy_ok T P' (insert (ty, k * 2 ^ (i - ty)) U) \<and> (ty, k * 2 ^ (i - ty)) \<notin> U"
proof (induction T ty i k P rule: split_nodes.induct)
  case (1 T ty i k P)
  show ?case
  proof (cases "ty < i")
    case False
    then have "ty = i" using "1.prems"(4) by simp
    then show ?thesis using 1 by (auto simp: split_nodes.simps [of T i i])
  next
    case True
    then obtain j where j: "i = Suc j" "ty \<le> j" by (cases i) auto
    obtain P1 where P1: "at_level T j (InsertFree (2 * k + 1)) P = Done P1"
        "buddy_ok T P1 (insert (j, 2 * k) U)" "(j, 2 * k) \<notin> U"
      using buddy_cut [of T P j k U] 1 j by auto
    have e: "2 * k * 2 ^ (j - ty) = k * 2 ^ (i - ty)" using j by (simp add: Suc_diff_le)
    have "j < T" "i - 1 = j" using "1.prems"(3) j by simp_all
    then obtain P' where P': "split_nodes T ty j (2 * k) P1 = Done (k * 2 ^ (i - ty), P')"
        "buddy_ok T P' (insert (ty, k * 2 ^ (i - ty)) U)" "(ty, k * 2 ^ (i - ty)) \<notin> U"
      using "1.IH" [OF True, of P1] P1(2,3) j(2) unfolding \<open>i - 1 = j\<close> e by blast
    have "split_nodes T ty i k P = Done (k * 2 ^ (i - ty), P')"
      using P1(1) P'(1) True \<open>i - 1 = j\<close> by (subst split_nodes.simps) simp
    with P'(2,3) show ?thesis by blast
  qed
qed

lemma double_bound: "Suc (2 * b) \<le> 2 * n \<Longrightarrow> Suc (Suc (2 * b)) \<le> 2 * (n::nat)"
  by presburger

lemma merge_nodes_ok:
  "buddy_ok T P (insert (i, k) U) \<Longrightarrow> (i, k) \<notin> U \<Longrightarrow> i < T \<Longrightarrow>
   \<exists>P'. merge_nodes T i k P = Done P' \<and> buddy_ok T P' U"
proof (induction T i k P rule: merge_nodes.induct)
  case (1 T i k P)
  note ok = "1.prems"(1) and k = "1.prems"(2) and i = "1.prems"(3)
  show ?case
  proof (cases "Suc i < T")
    case False
    then show ?thesis using buddy_put [OF ok k i] by (simp add: merge_nodes.simps [of T i])
  next
    case T: True
    have tl: "tiling (2 ^ (T - 1)) (free_nodes T P \<union> insert (i, k) U)" using ok by (simp add: buddy_ok_def)
    have "Suc (the_other k) * 2 ^ i \<le> 2 ^ (T - 1)"
    proof -
      have "Suc k * 2 ^ i \<le> 2 ^ (T - 1)" using buddy_bound [OF ok] by blast
      moreover have d: "(2::nat) ^ (T - 1) = 2 * 2 ^ (T - Suc (Suc i)) * 2 ^ i"
        using T by (simp add: power_Suc [symmetric] power_add [symmetric] del: power_Suc)
      ultimately have "Suc k \<le> 2 * 2 ^ (T - Suc (Suc i))" by (simp only: d mult_le_cancel2 zero_less_power)
      then have "Suc (the_other k) \<le> 2 * 2 ^ (T - Suc (Suc i))"
        by (cases "even k") (auto simp: the_other_def elim!: evenE oddE dest: double_bound)
      then show ?thesis unfolding d by (rule mult_le_mono1)
    qed
    moreover have "2 ^ (T - 1) \<le> nCount (P i) * 2 ^ i" using ok i by (simp add: buddy_ok_def levels_ok_def)
    ultimately have "Suc (the_other k) * 2 ^ i \<le> nCount (P i) * 2 ^ i" by (rule le_trans)
    then have "Suc (the_other k) \<le> nCount (P i)" by (simp only: mult_le_cancel2 zero_less_power)
    then have nf: "node_free T P i (the_other k) = Done ((i, the_other k) \<in> free_nodes T P)"
      using i by (auto simp: node_free_def free_nodes_def free_set_def)
    show ?thesis
    proof (cases "(i, the_other k) \<in> free_nodes T P")
      case False
      then show ?thesis using buddy_put [OF ok k i] nf T by (simp add: merge_nodes.simps [of T i])
    next
      case True
      obtain P1 where P1: "at_level T i (RemoveFree (the_other k)) P = Done P1"
          "buddy_ok T P1 (insert (i, the_other k) (insert (i, k) U))"
          "(i, the_other k) \<notin> insert (i, k) U"
        using buddy_take [OF ok True] by blast
      let ?U = "free_nodes T P1 \<union> U"
      have "tiling (2 ^ (T - 1)) (insert (i, k) (insert (i, the_other k) ?U))"
        using P1(2) by (simp add: buddy_ok_def insert_commute)
      moreover have "(i, k) \<notin> ?U" "(i, the_other k) \<notin> ?U" using P1(2,3) k by (auto simp: buddy_ok_def)
      ultimately have m: "tiling (2 ^ (T - 1)) (insert (Suc i, k div 2) ?U)" "(Suc i, k div 2) \<notin> ?U"
        using tiling_merge by blast+
      then have "buddy_ok T P1 (insert (Suc i, k div 2) U)" "(Suc i, k div 2) \<notin> U"
        using P1(2) by (auto simp: buddy_ok_def)
      then show ?thesis
        using "1.IH" [OF T TrueI, of P1] True T nf P1(1) by (subst merge_nodes.simps) simp
    qed
  qed
qed

text \<open>The search for a free node, and what its failure means.\<close>

lemma find_free_found:
  assumes "levels_ok T P" and "find_free T P ty < T"
  shows "\<exists>k. pHeader (P (find_free T P ty)) = Some k \<and> (find_free T P ty, k) \<in> free_nodes T P \<and>
    nIndex (pArray (P (find_free T P ty)) k) = k \<and> ty \<le> find_free T P ty"
  using assms
proof (induction T P ty rule: find_free.induct)
  case (1 T P ty)
  show ?case
  proof (cases "ty < T \<and> pHeader (P ty) \<noteq> None")
    case True
    then obtain k where k: "pHeader (P ty) = Some k" by auto
    have "level_ok (P ty) (free_set (P ty))" using 1 True by (simp add: levels_ok_def)
    then show ?thesis using level_header(2) [OF _ k] k True
      by (subst (1 2 3 4) find_free.simps) (auto simp: free_nodes_def)
  next
    case False
    then have "find_free T P ty = (if ty < T then find_free T P (Suc ty) else ty)"
      by (subst find_free.simps) auto
    then show ?thesis using 1 False by (cases "ty < T") auto
  qed
qed

lemma find_free_none:
  assumes "levels_ok T P" and "(j, k) \<in> free_nodes T P" and "ty \<le> j"
  shows "find_free T P ty < T"
  using assms
proof (induction T P ty rule: find_free.induct)
  case (1 T P ty)
  have j: "j < T" using 1 by (auto simp: free_nodes_def)
  show ?case
  proof (cases "pHeader (P ty) = None")
    case False
    then show ?thesis using j "1.prems"(3) by (subst find_free.simps) auto
  next
    case True
    have "level_ok (P ty) (free_set (P ty))" using 1 j by (simp add: levels_ok_def)
    then have "ty \<noteq> j" using level_header(1) True 1 by (auto simp: free_nodes_def)
    then show ?thesis using 1 True j by (subst find_free.simps) auto
  qed
qed

end
