(* ===== verification/Pool.thy ===== *)
theory Pool
  imports Links Sync
begin

section \<open>CEZPool and pool_allocator\<close>

text \<open>
  \<^verbatim>\<open>src/EZPoolAllocator.h\<close>, \<^verbatim>\<open>src/EZPoolAllocator.cpp\<close> and the macro \<^verbatim>\<open>USE_POOL_ALLOCATOR\<close>
  of \<^verbatim>\<open>src/EZObject.h\<close>. A pool hands out elements of one size from chunks got by
  \<^verbatim>\<open>operator new[]\<close>; the free elements are linked through their first word. The memory is
  part of the state: the field \<^verbatim>\<open>next\<close> of the elements and of the chunks at every
  address, and the blocks \<^verbatim>\<open>operator new[]\<close> has given. \<^verbatim>\<open>operator new[]\<close> is a parameter, which
  may return no block (\<^verbatim>\<open>std::bad_alloc\<close>). The sizes are those of a 64-bit machine;
  alignment of the elements is not modelled.
\<close>

subsection \<open>Data\<close>

definition sizeof_Link :: nat where
  "sizeof_Link = 8"

definition sizeof_Chunk :: nat where
  "sizeof_Chunk = 16"

definition ecount_default :: u32 where
  "ecount_default = 1024"

record CEZPool =
  chunks :: "addr option"
  esize :: u32
  ecount :: u32
  head :: "addr option"
  mutex :: CEZMutex
  Link_next :: "addr \<Rightarrow> addr option"
  Chunk_next :: "addr \<Rightarrow> addr option"
  Chunk_mem :: "addr \<Rightarrow> addr"
  blocks :: "(addr \<times> nat) list"

type_synonym op_new = "(addr \<times> nat) list \<Rightarrow> nat \<Rightarrow> addr option"

definition CEZPool_new :: "platform \<Rightarrow> u32 \<Rightarrow> CEZPool" where
  "CEZPool_new p sz =
     \<lparr>chunks = None,
      esize = (if sz < word_of_nat sizeof_Link then word_of_nat sizeof_Link else sz),
      ecount = ecount_default, head = None, mutex = CEZMutex_new p MUTEX_FAST,
      Link_next = (\<lambda>_. None), Chunk_next = (\<lambda>_. None), Chunk_mem = (\<lambda>_. 0), blocks = []\<rparr>"

subsection \<open>Operations\<close>

text \<open>
  The loop of \<^verbatim>\<open>grow\<close>: from \<open>p\<close> to before \<open>final\<close> every element points to the next one.
  A write of a link that leaves the block, which ends at \<open>lim\<close>, is undefined; an element
  size of 0 would loop for ever.
\<close>

function link_elements ::
    "nat \<Rightarrow> addr \<Rightarrow> addr \<Rightarrow> addr \<Rightarrow> (addr \<Rightarrow> addr option) \<Rightarrow> (addr \<Rightarrow> addr option) outcome" where
  "link_elements e lim final p nx =
     (if p < final then
        if e = 0 then Blocked
        else if lim < p + sizeof_Link then Undefined
        else link_elements e lim final (p + e) (nx(p := Some (p + e)))
      else Done nx)"
  by pat_completeness auto
termination by (relation "measure (\<lambda>(e, lim, final, p, nx). final - p)") auto

declare link_elements.simps [simp del]

text \<open>
  \<^verbatim>\<open>grow\<close>. The byte counts are \<^verbatim>\<open>unsigned int\<close> products. The result is FALSE when
  \<^verbatim>\<open>operator new[]\<close> throws, and then nothing has changed.
\<close>

definition grow :: "op_new \<Rightarrow> CEZPool \<Rightarrow> (bool \<times> CEZPool) outcome" where
  "grow new s =
     (let bytes = unat (esize s * ecount s) + sizeof_Chunk
      in case new (blocks s) bytes of
           None \<Rightarrow> Done (False, s)
         | Some n \<Rightarrow>
             let start = n + sizeof_Chunk;
                 final = start + unat ((ecount s - 1) * esize s)
             in obind (link_elements (unat (esize s)) (n + bytes) final start (Link_next s)) (\<lambda>nx.
                if n + bytes < final + sizeof_Link then Undefined
                else Done (True, s\<lparr>blocks := (n, bytes) # blocks s,
                       Chunk_mem := (Chunk_mem s)(n := start),
                       Chunk_next := (Chunk_next s)(n := chunks s), chunks := Some n,
                       Link_next := nx(final := None), head := Some start\<rparr>)))"

text \<open>
  \<^verbatim>\<open>alloc\<close> returns no element when \<^verbatim>\<open>grow\<close> throws; the exception leaves the function
  between \<^verbatim>\<open>mutex.Lock()\<close> and \<^verbatim>\<open>mutex.Unlock()\<close>.
\<close>

definition alloc :: "tid \<Rightarrow> op_new \<Rightarrow> CEZPool \<Rightarrow> (addr option \<times> CEZPool) outcome" where
  "alloc t new s =
     obind (Lock t (mutex s)) (\<lambda>m.
     obind (if head s = None then grow new (s\<lparr>mutex := m\<rparr>) else Done (True, s\<lparr>mutex := m\<rparr>))
       (\<lambda>(returned, s).
        if \<not> returned then Done (None, s)
        else case head s of
               None \<Rightarrow> Undefined
             | Some p \<Rightarrow>
                 obind (Unlock t (mutex s)) (\<lambda>m.
                 Done (Some p, s\<lparr>head := Link_next s p, mutex := m\<rparr>))))"

definition free :: "tid \<Rightarrow> addr \<Rightarrow> CEZPool \<Rightarrow> CEZPool outcome" where
  "free t b s =
     obind (Lock t (mutex s)) (\<lambda>m.
     obind (Unlock t m) (\<lambda>m.
     Done (s\<lparr>Link_next := (Link_next s)(b := head s), head := Some b, mutex := m\<rparr>)))"

definition setec :: "tid \<Rightarrow> u32 \<Rightarrow> CEZPool \<Rightarrow> CEZPool outcome" where
  "setec t n s =
     obind (Lock t (mutex s)) (\<lambda>m. obind (Unlock t m) (\<lambda>m. Done (s\<lparr>ecount := n, mutex := m\<rparr>)))"

definition getec :: "CEZPool \<Rightarrow> u32" where
  "getec s = ecount s"

text \<open>
  The destructor deletes the chunks along their \<^verbatim>\<open>next\<close> pointers. (It gives a block of
  \<^verbatim>\<open>new char[]\<close> to \<^verbatim>\<open>delete\<close> of a \<^verbatim>\<open>Chunk*\<close>, which the allocators of the platforms accept.)
\<close>

partial_function (option) delete_chunks ::
    "(addr \<Rightarrow> addr option) \<Rightarrow> addr option \<Rightarrow> (addr \<times> nat) list \<Rightarrow> (addr \<times> nat) list option" where
  "delete_chunks nx n bl =
     (case n of
        None \<Rightarrow> Some bl
      | Some p \<Rightarrow> delete_chunks nx (nx p) (filter (\<lambda>(b, _). b \<noteq> p) bl))"

definition CEZPool_delete :: "CEZPool \<Rightarrow> (addr \<times> nat) list option" where
  "CEZPool_delete s = delete_chunks (Chunk_next s) (chunks s) (blocks s)"

subsection \<open>pool_allocator and USE_POOL_ALLOCATOR\<close>

definition allocate :: "tid \<Rightarrow> op_new \<Rightarrow> nat \<Rightarrow> CEZPool \<Rightarrow> (addr option \<times> CEZPool) outcome" where
  "allocate t new n s = (if n = 1 then alloc t new s else Aborted)"

definition deallocate :: "tid \<Rightarrow> addr \<Rightarrow> nat \<Rightarrow> CEZPool \<Rightarrow> CEZPool outcome" where
  "deallocate t p n s = (if n = 1 then free t p s else Aborted)"

definition setchunksize :: "tid \<Rightarrow> u32 \<Rightarrow> CEZPool \<Rightarrow> CEZPool outcome" where
  "setchunksize t n s = setec t n s"

definition getchunksize :: "CEZPool \<Rightarrow> u32" where
  "getchunksize s = getec s"

text \<open>
  The operators of a class of size \<open>sizeof_class\<close>. A derived class has another size and
  goes to the global operators, for which the result is \<^verbatim>\<open>Inr\<close>.
\<close>

definition operator_new ::
    "tid \<Rightarrow> op_new \<Rightarrow> nat \<Rightarrow> nat \<Rightarrow> CEZPool \<Rightarrow> ((addr option + nat) \<times> CEZPool) outcome" where
  "operator_new t new sizeof_class size_arg s =
     (if size_arg \<noteq> sizeof_class then Done (Inr size_arg, s)
      else obind (allocate t new 1 s) (\<lambda>(a, s). Done (Inl a, s)))"

definition operator_delete ::
    "tid \<Rightarrow> nat \<Rightarrow> addr option \<Rightarrow> nat \<Rightarrow> CEZPool \<Rightarrow> (bool \<times> CEZPool) outcome" where
  "operator_delete t sizeof_class p size_arg s =
     (case p of
        None \<Rightarrow> Done (False, s)
      | Some a \<Rightarrow>
          if size_arg \<noteq> sizeof_class then Done (True, s)
          else obind (deallocate t a size_arg s) (\<lambda>s. Done (False, s)))"

subsection \<open>The elements of a chunk\<close>

primrec elems :: "addr \<Rightarrow> nat \<Rightarrow> nat \<Rightarrow> addr list" where
  "elems p e 0 = []"
| "elems p e (Suc k) = p # elems (p + e) e k"

lemma elems_range: "a \<in> set (elems p e k) \<Longrightarrow> p \<le> a \<and> a + e \<le> p + k * e"
proof (induction k arbitrary: p)
  case (Suc k)
  then show ?case by (cases "a = p") fastforce+
qed simp

lemma elems_spaced: "a \<in> set (elems p e k) \<Longrightarrow> b \<in> set (elems p e k) \<Longrightarrow> a < b \<Longrightarrow> a + e \<le> b"
proof (induction k arbitrary: p)
  case (Suc k)
  then show ?case using elems_range [of _ "p + e" e k] by fastforce
qed simp

lemma link_elements_done:
  assumes "0 < e" and "p + k * e + sizeof_Link \<le> lim"
  shows "\<exists>nx'. link_elements e lim (p + k * e) p nx = Done nx' \<and>
    chain (nx'(p + k * e := None)) (Some p) (elems p e (Suc k)) \<and>
    (\<forall>a. a \<notin> set (elems p e k) \<longrightarrow> nx' a = nx a)"
  using assms(2)
proof (induction k arbitrary: p nx)
  case 0
  then show ?case by (simp add: link_elements.simps)
next
  case (Suc k)
  have l: "p + Suc k * e = (p + e) + k * e" by simp
  have IH: "\<exists>nx'. link_elements e lim ((p + e) + k * e) (p + e) (nx(p := Some (p + e))) = Done nx' \<and>
      chain (nx'((p + e) + k * e := None)) (Some (p + e)) (elems (p + e) e (Suc k)) \<and>
      (\<forall>a. a \<notin> set (elems (p + e) e k) \<longrightarrow> nx' a = (nx(p := Some (p + e))) a)"
    by (rule Suc.IH) (use Suc.prems in \<open>simp add: algebra_simps\<close>)
  then obtain nx' where nx':
      "link_elements e lim ((p + e) + k * e) (p + e) (nx(p := Some (p + e))) = Done nx'"
      "chain (nx'((p + e) + k * e := None)) (Some (p + e)) (elems (p + e) e (Suc k))"
      "\<forall>a. a \<notin> set (elems (p + e) e k) \<longrightarrow> nx' a = (nx(p := Some (p + e))) a"
    by blast
  have "p \<notin> set (elems (p + e) e k)" using elems_range [of p "p + e" e k] assms(1) by auto
  then have p: "nx' p = Some (p + e)" using nx'(3) by simp
  have "link_elements e lim (p + Suc k * e) p nx = Done nx'"
    unfolding l using nx'(1) assms(1) Suc.prems
    by (subst link_elements.simps) (simp add: algebra_simps)
  moreover have "chain (nx'(p + Suc k * e := None)) (Some p) (elems p e (Suc (Suc k)))"
    unfolding l using nx'(2) p assms(1) by simp
  moreover have "\<forall>a. a \<notin> set (elems p e (Suc k)) \<longrightarrow> nx' a = nx a"
    using nx'(3) by simp
  ultimately show ?case by blast
qed

subsection \<open>The invariant of a pool\<close>

definition spaced_by :: "nat \<Rightarrow> addr set \<Rightarrow> bool" where
  "spaced_by e A \<longleftrightarrow> (\<forall>a \<in> A. \<forall>b \<in> A. a < b \<longrightarrow> a + e \<le> b)"

definition inside :: "nat \<Rightarrow> (addr \<times> nat) list \<Rightarrow> addr set \<Rightarrow> bool" where
  "inside e bl A \<longleftrightarrow> (\<forall>a \<in> A. \<exists>(b, n) \<in> set bl. b + sizeof_Chunk \<le> a \<and> a + e \<le> b + n)"

text \<open>\<^verbatim>\<open>operator new[]\<close> finds memory and returns a block apart from the others.\<close>

definition new_ok :: "op_new \<Rightarrow> bool" where
  "new_ok new \<longleftrightarrow> (\<forall>bl n. \<exists>b. new bl n = Some b \<and> (\<forall>(c, m) \<in> set bl. b \<noteq> c \<and> (b + n \<le> c \<or> c + m \<le> b)))"

definition chunk_fits :: "u32 \<Rightarrow> u32 \<Rightarrow> bool" where
  "chunk_fits es ec \<longleftrightarrow> 0 < unat ec \<and> sizeof_Link \<le> unat es \<and> unat es * unat ec < 2 ^ 32"

definition pool_ok :: "CEZPool \<Rightarrow> addr set \<Rightarrow> bool" where
  "pool_ok s L \<longleftrightarrow>
     mutex_ok (mutex s) \<and> mtx_owner (mutex s) = None \<and> chunk_fits (esize s) (ecount s) \<and>
     (\<exists>fs. chain (Link_next s) (head s) fs \<and> set fs \<inter> L = {} \<and>
        spaced_by (unat (esize s)) (set fs \<union> L) \<and> inside (unat (esize s)) (blocks s) (set fs \<union> L)) \<and>
     chain (Chunk_next s) (chunks s) (map fst (blocks s))"

lemma chunk_fits_unat:
  assumes "chunk_fits es ec"
  shows "unat (es * ec) = unat es * unat ec"
    and "unat ((ec - 1) * es) = (unat ec - 1) * unat es"
proof -
  have f: "0 < unat ec" "unat es * unat ec < 2 ^ 32" using assms by (auto simp: chunk_fits_def)
  then show "unat (es * ec) = unat es * unat ec" by (simp add: unat_word_ariths)
  have "1 \<le> ec" using f(1) by (simp add: word_le_nat_alt)
  then have u: "unat (ec - 1) = unat ec - 1" by (simp add: unat_sub)
  have "(unat ec - 1) * unat es \<le> unat es * unat ec" by (simp add: mult.commute)
  then have "(unat ec - 1) * unat es < 2 ^ 32" using f(2) by (rule le_less_trans)
  then show "unat ((ec - 1) * es) = (unat ec - 1) * unat es"
    by (simp add: unat_word_ariths u)
qed

lemma free_mutex_twice:
  assumes "mutex_ok m" and "mtx_owner m = None"
  obtains m' where "Lock t m = Done m'" "Unlock t m' = Done m"
proof -
  have l: "Lock t m = Done (m\<lparr>mtx_owner := Some t, mtx_depth := 1\<rparr>)"
    using assms(2) by (simp add: Lock_def)
  show thesis by (rule that [OF l Lock_Unlock [OF assms(1) l]])
qed

text \<open>Growing an empty free list of a pool in order.\<close>

lemma grow_ok:
  assumes ok: "pool_ok s L" and empty: "head s = None" and new: "new_ok new"
  shows "\<exists>s' fs. grow new (s\<lparr>mutex := m\<rparr>) = Done (True, s') \<and> mutex s' = m \<and> esize s' = esize s \<and>
    ecount s' = ecount s \<and> chain (Link_next s') (head s') fs \<and> fs \<noteq> [] \<and> set fs \<inter> L = {} \<and>
    spaced_by (unat (esize s)) (set fs \<union> L) \<and> inside (unat (esize s)) (blocks s') (set fs \<union> L) \<and>
    chain (Chunk_next s') (chunks s') (map fst (blocks s'))"
proof -
  let ?e = "unat (esize s)"
  have fits: "chunk_fits (esize s) (ecount s)" using ok by (simp add: pool_ok_def)
  obtain k where k: "unat (ecount s) = Suc k"
    using fits by (auto simp: chunk_fits_def dest: gr0_implies_Suc)
  have e: "sizeof_Link \<le> ?e" using fits by (simp add: chunk_fits_def)
  then have e0: "0 < ?e" by (simp add: sizeof_Link_def)
  let ?n = "?e * Suc k + sizeof_Chunk"
  obtain b where b: "new (blocks s) ?n = Some b"
      and apart: "\<forall>(c, m) \<in> set (blocks s). b \<noteq> c \<and> (b + ?n \<le> c \<or> c + m \<le> b)"
    using new unfolding new_ok_def by blast
  let ?st = "b + sizeof_Chunk" and ?es = "elems (b + sizeof_Chunk) ?e (Suc k)"
  have "?st + k * ?e + sizeof_Link \<le> b + ?n" using e by (simp add: algebra_simps)
  then obtain nx' where nx': "link_elements ?e (b + ?n) (?st + k * ?e) ?st (Link_next s) = Done nx'"
      "chain (nx'(?st + k * ?e := None)) (Some ?st) ?es"
    using link_elements_done [OF e0] by blast
  let ?s = "s\<lparr>mutex := m, blocks := (b, ?n) # blocks s, Chunk_mem := (Chunk_mem s)(b := ?st),
      Chunk_next := (Chunk_next s)(b := chunks s), chunks := Some b,
      Link_next := nx'(?st + k * ?e := None), head := Some ?st\<rparr>"
  have g: "grow new (s\<lparr>mutex := m\<rparr>) = Done (True, ?s)"
    using chunk_fits_unat [OF fits] b nx'(1) e by (simp add: grow_def k Let_def algebra_simps)
  have old: "inside ?e (blocks s) L" "spaced_by ?e L"
    using ok empty by (auto simp: pool_ok_def)
  have new_el: "b + sizeof_Chunk \<le> a \<and> a + ?e \<le> b + ?n" if "a \<in> set ?es" for a
    using elems_range [OF that] by (simp add: algebra_simps)
  have out: "a + ?e \<le> b \<or> b + ?n \<le> a" if "a \<in> L" for a
  proof -
    obtain c m where "(c, m) \<in> set (blocks s)" "c + sizeof_Chunk \<le> a" "a + ?e \<le> c + m"
      using old(1) \<open>a \<in> L\<close> by (auto simp: inside_def)
    then show ?thesis using apart by fastforce
  qed
  have disj: "set ?es \<inter> L = {}" using new_el out e0 by fastforce
  have "spaced_by ?e (set ?es \<union> L)"
    using old(2) elems_spaced [of _ ?st ?e "Suc k"] new_el out e0 unfolding spaced_by_def
    by (smt (verit, best) Un_iff add_leD1 le_trans not_less)
  moreover have "inside ?e ((b, ?n) # blocks s) (set ?es \<union> L)"
    using old(1) new_el by (auto simp: inside_def)
  moreover have "chain (Chunk_next ?s) (chunks ?s) (map fst (blocks ?s))"
  proof -
    have "b \<notin> fst ` set (blocks s)" using apart by auto
    then show ?thesis using ok by (simp add: pool_ok_def)
  qed
  moreover have "chain (Link_next ?s) (head ?s) ?es" using nx'(2) by simp
  ultimately show ?thesis using g disj by (intro exI [of _ ?s] exI [of _ ?es]) simp
qed

lemma pool_ok_alloc:
  assumes ok: "pool_ok s L" and new: "new_ok new"
  shows "\<exists>a s'. alloc t new s = Done (Some a, s') \<and> a \<notin> L \<and> pool_ok s' (insert a L) \<and>
    (\<forall>fs. chain (Link_next s) (head s) fs \<longrightarrow> fs \<noteq> [] \<longrightarrow> a = hd fs)"
proof -
  obtain m where m: "Lock t (mutex s) = Done m" "Unlock t m = Done (mutex s)"
    using free_mutex_twice [of "mutex s" t] ok by (auto simp: pool_ok_def)
  have "\<exists>s1 fs. (if head s = None then grow new (s\<lparr>mutex := m\<rparr>) else Done (True, s\<lparr>mutex := m\<rparr>)) =
      Done (True, s1) \<and> mutex s1 = m \<and> esize s1 = esize s \<and> ecount s1 = ecount s \<and>
      chain (Link_next s1) (head s1) fs \<and> fs \<noteq> [] \<and> set fs \<inter> L = {} \<and>
      spaced_by (unat (esize s)) (set fs \<union> L) \<and> inside (unat (esize s)) (blocks s1) (set fs \<union> L) \<and>
      chain (Chunk_next s1) (chunks s1) (map fst (blocks s1)) \<and>
      (head s \<noteq> None \<longrightarrow> chain (Link_next s) (head s) fs)"
  proof (cases "head s")
    case None
    then show ?thesis using grow_ok [OF ok None new, of m] by auto
  next
    case (Some p)
    then show ?thesis using ok by (auto simp: pool_ok_def)
  qed
  then obtain s1 fs where s1: "(if head s = None then grow new (s\<lparr>mutex := m\<rparr>)
        else Done (True, s\<lparr>mutex := m\<rparr>)) = Done (True, s1)"
      "mutex s1 = m" "esize s1 = esize s" "ecount s1 = ecount s"
    and fs: "chain (Link_next s1) (head s1) fs" "fs \<noteq> []" "set fs \<inter> L = {}"
      "spaced_by (unat (esize s)) (set fs \<union> L)" "inside (unat (esize s)) (blocks s1) (set fs \<union> L)"
      "chain (Chunk_next s1) (chunks s1) (map fst (blocks s1))"
      "head s \<noteq> None \<longrightarrow> chain (Link_next s) (head s) fs"
    by blast
  obtain a as where a: "fs = a # as" using fs(2) by (cases fs) auto
  then have h: "head s1 = Some a" "chain (Link_next s1) (Link_next s1 a) as" using fs(1) by auto
  let ?s = "s1\<lparr>head := Link_next s1 a, mutex := mutex s\<rparr>"
  have "alloc t new s = Done (Some a, ?s)"
    using m s1 h(1) by (simp add: alloc_def)
  moreover have "a \<notin> L" using fs(3) a by auto
  moreover have "pool_ok ?s (insert a L)"
    unfolding pool_ok_def
  proof (intro conjI exI [of _ as])
    show "set as \<inter> insert a L = {}" using fs(1,3) a chain_distinct [of _ _ fs] by auto
  qed (use ok s1 fs h a in \<open>auto simp: pool_ok_def insert_commute\<close>)
  moreover have "a = hd fs'" if "chain (Link_next s) (head s) fs'" "fs' \<noteq> []" for fs'
    using that fs(7) a chain_unique by (cases fs') fastforce+
  ultimately show ?thesis by blast
qed

lemma pool_ok_free:
  assumes ok: "pool_ok s L" and a: "a \<in> L"
  shows "\<exists>s'. free t a s = Done s' \<and> pool_ok s' (L - {a}) \<and>
    (\<exists>fs. chain (Link_next s') (head s') (a # fs))"
proof -
  obtain m where m: "Lock t (mutex s) = Done m" "Unlock t m = Done (mutex s)"
    using free_mutex_twice [of "mutex s" t] ok by (auto simp: pool_ok_def)
  let ?s = "s\<lparr>Link_next := (Link_next s)(a := head s), head := Some a, mutex := mutex s\<rparr>"
  have f: "free t a s = Done ?s" using m by (simp add: free_def)
  obtain fs where fs: "chain (Link_next s) (head s) fs" "set fs \<inter> L = {}"
      "spaced_by (unat (esize s)) (set fs \<union> L)" "inside (unat (esize s)) (blocks s) (set fs \<union> L)"
    using ok by (auto simp: pool_ok_def)
  have "a \<notin> set fs" using fs(2) a by auto
  then have c: "chain (Link_next ?s) (head ?s) (a # fs)" using fs(1) by simp
  have e: "set (a # fs) \<union> (L - {a}) = set fs \<union> L" using a by auto
  have "pool_ok ?s (L - {a})"
    unfolding pool_ok_def
  proof (intro conjI exI [of _ "a # fs"])
    show "chain (Link_next ?s) (head ?s) (a # fs)" by (rule c)
    show "spaced_by (unat (esize ?s)) (set (a # fs) \<union> (L - {a}))" unfolding e using fs(3) by simp
    show "inside (unat (esize ?s)) (blocks ?s) (set (a # fs) \<union> (L - {a}))"
      unfolding e using fs(4) by simp
  qed (use ok fs(2) in \<open>auto simp: pool_ok_def\<close>)
  with f c show ?thesis by blast
qed

text \<open>The pool is an allocator with a free list; \<open>get\<close> is an allocation that got memory.\<close>

definition get_element :: "tid \<Rightarrow> op_new \<Rightarrow> CEZPool \<Rightarrow> (addr \<times> CEZPool) outcome" where
  "get_element t new s =
     obind (alloc t new s) (\<lambda>(r, s). case r of None \<Rightarrow> Aborted | Some a \<Rightarrow> Done (a, s))"

interpretation ez_pool: free_list_allocator
  "get_element t new" "free t" "\<lambda>s L. new_ok new \<and> pool_ok s L"
  for t new
proof (unfold_locales, goal_cases)
  case (1 s L a s')
  then show ?case using pool_ok_alloc [of s L new t] by (auto simp: get_element_def)
next
  case (2 s L)
  then show ?case using pool_ok_alloc [of s L new t] by (auto simp: get_element_def)
next
  case (3 s L a)
  then show ?case using pool_ok_free [of s L a t] by auto
next
  case (4 s L a s')
  then obtain fs where s': "pool_ok s' (L - {a})" "chain (Link_next s') (head s') (a # fs)"
    using pool_ok_free [of s L a t] by auto
  then obtain b s'' where "alloc t new s' = Done (Some b, s'')"
      "\<forall>fs. chain (Link_next s') (head s') fs \<longrightarrow> fs \<noteq> [] \<longrightarrow> b = hd fs"
    using pool_ok_alloc [OF s'(1), of new t] 4 by blast
  then show ?case using s'(2) by (fastforce simp: get_element_def)
qed

subsection \<open>Properties\<close>

lemma pool_ok_new:
  assumes "chunk_fits (esize (CEZPool_new p sz)) n"
  shows "pool_ok (CEZPool_new p sz\<lparr>ecount := n\<rparr>) {}"
  using assms mutex_new_free
  by (auto simp: pool_ok_def CEZPool_new_def spaced_by_def inside_def)

lemma pool_setec: "mutex_ok (mutex s) \<Longrightarrow> mtx_owner (mutex s) = None \<Longrightarrow>
    setec t n s = Done (s\<lparr>ecount := n\<rparr>)"
  by (rule free_mutex_twice [of "mutex s" t]) (simp_all add: setec_def)

lemma grow_keeps_esize: "grow new s = Done (r, s') \<Longrightarrow> esize s' = esize s"
  by (auto simp: grow_def Let_def split: option.splits if_splits)

lemma alloc_keeps_esize:
  assumes "alloc t new s = Done (r, s')"
  shows "esize s' = esize s"
proof -
  let ?g = "\<lambda>m. if head s = None then grow new (s\<lparr>mutex := m\<rparr>) else Done (True, s\<lparr>mutex := m\<rparr>)"
  obtain m b s1 where g: "?g m = Done (b, s1)"
    and r: "(if \<not> b then Done (None, s1) else case head s1 of None \<Rightarrow> Undefined
      | Some p \<Rightarrow> obind (Unlock t (mutex s1)) (\<lambda>m. Done (Some p, s1\<lparr>head := Link_next s1 p, mutex := m\<rparr>)))
      = Done (r, s')"
    using assms by (simp only: alloc_def obind_Done_iff split_paired_Ex split_conv) blast
  have "esize s1 = esize s"
    using g grow_keeps_esize [of new "s\<lparr>mutex := m\<rparr>" b s1] by (cases "head s") auto
  moreover have "esize s' = esize s1"
    using r by (cases b; cases "head s1") auto
  ultimately show ?thesis by simp
qed

lemma get_keeps_esize: "get_element t new s = Done (a, s') \<Longrightarrow> esize s' = esize s"
  by (auto simp: get_element_def dest!: alloc_keeps_esize split: option.splits)

lemma free_keeps_esize: "free t a s = Done s' \<Longrightarrow> esize s' = esize s"
  by (auto simp: free_def)

lemma client_keeps_esize:
  "ez_pool.client t new os s held = Done (s', held') \<Longrightarrow> esize s' = esize s"
proof (induction os arbitrary: s held)
  case (Cons x os)
  then show ?case
    by (cases x) (auto dest!: Cons.IH get_keeps_esize free_keeps_esize split: if_splits)
qed simp

text \<open>
  C6. Whatever sequence of allocations and releases a client runs on a fresh pool whose
  chunk fits 32 bits, no call blocks or leaves the defined behaviour; the elements it holds
  are distinct, lie at least an element size apart and each lies whole inside a block that
  \<^verbatim>\<open>operator new[]\<close> gave, behind the chunk's header.
\<close>

theorem pool_clients_safe:
  assumes "new_ok new" and "chunk_fits (esize (CEZPool_new p sz)) n"
  shows "\<exists>s0 s held. setchunksize t n (CEZPool_new p sz) = Done s0 \<and>
    ez_pool.client t new os s0 [] = Done (s, held) \<and> distinct held \<and>
    spaced_by (unat (esize s0)) (set held) \<and> inside (unat (esize s0)) (blocks s) (set held)"
proof -
  let ?s0 = "CEZPool_new p sz\<lparr>ecount := n\<rparr>"
  have s0: "setchunksize t n (CEZPool_new p sz) = Done ?s0"
    using pool_setec [of "CEZPool_new p sz" t n] mutex_new_free
    by (simp add: setchunksize_def CEZPool_new_def)
  have "pool_ok ?s0 {}" using assms(2) by (rule pool_ok_new)
  then obtain s held where r: "ez_pool.client t new os ?s0 [] = Done (s, held)" "distinct held"
      "pool_ok s (set held)"
    using ez_pool.client_safe [of new ?s0 "[]" t os] assms(1) by auto
  have "esize s = esize ?s0" by (rule client_keeps_esize [OF r(1)])
  then have "spaced_by (unat (esize ?s0)) (set held)" "inside (unat (esize ?s0)) (blocks s) (set held)"
    using r(3) by (auto simp: pool_ok_def spaced_by_def inside_def)
  with s0 r show ?thesis by blast
qed

text \<open>An \<^verbatim>\<open>operator new[]\<close> that always takes the memory behind everything it gave before.\<close>

definition new_behind :: op_new where
  "new_behind bl n = Some (foldr (\<lambda>(c, m) k. max k (Suc (c + m))) bl 4096)"

lemma new_behind_ok: "new_ok new_behind"
proof -
  have "(c, m) \<in> set bl \<Longrightarrow> Suc (c + m) \<le> foldr (\<lambda>(c, m) k. max k (Suc (c + m))) bl 4096" for c m :: nat and bl
    by (induction bl) (auto simp: le_max_iff_disj)
  then show ?thesis by (fastforce simp: new_ok_def new_behind_def)
qed

theorem pool_clients_safe_witness:
  "\<exists>s0 s held. setchunksize 0 2 (CEZPool_new (Posix 1) 40) = Done s0 \<and>
    ez_pool.client 0 new_behind [None, None, Some 0, None, None] s0 [] = Done (s, held) \<and>
    distinct held \<and> spaced_by 40 (set held)"
proof -
  have f: "chunk_fits (esize (CEZPool_new (Posix 1) 40)) 2"
    by (simp add: chunk_fits_def CEZPool_new_def sizeof_Link_def)
  from pool_clients_safe [OF new_behind_ok f, of 0 "[None, None, Some 0, None, None]"]
  obtain s0 s held where r: "setchunksize 0 2 (CEZPool_new (Posix 1) 40) = Done s0"
      "ez_pool.client 0 new_behind [None, None, Some 0, None, None] s0 [] = Done (s, held)"
      "distinct held" "spaced_by (unat (esize s0)) (set held)"
    by blast
  have "esize s0 = 40"
    using r(1) by (auto simp: setchunksize_def setec_def CEZPool_new_def sizeof_Link_def)
  with r show ?thesis by auto
qed

lemma delete_chunks_all:
  "chain nx p cs \<Longrightarrow> delete_chunks nx p bl = Some (filter (\<lambda>(b, _). b \<notin> set cs) bl)"
proof (induction cs arbitrary: p bl)
  case Nil
  then show ?case by (simp add: delete_chunks.simps)
next
  case (Cons c cs)
  then show ?case by (subst delete_chunks.simps) (auto simp: filter_filter split_beta intro!: filter_cong)
qed

text \<open>
  The destructor always ends and gives back every chunk.
\<close>

theorem pool_delete_returns_all:
  assumes "pool_ok s L"
  shows "CEZPool_delete s = Some []"
proof -
  have "CEZPool_delete s = Some (filter (\<lambda>(b, _). b \<notin> set (map fst (blocks s))) (blocks s))"
    unfolding CEZPool_delete_def using assms by (intro delete_chunks_all) (simp add: pool_ok_def)
  also have "filter (\<lambda>(b, _). b \<notin> set (map fst (blocks s))) (blocks s) = []"
    by (force simp: filter_empty_conv)
  finally show ?thesis .
qed

theorem pool_delete_returns_all_witness:
  "\<exists>a s. alloc 0 new_behind (CEZPool_new (Posix 1) 40) = Done (Some a, s) \<and>
    CEZPool_delete s = Some []"
proof -
  have e: "CEZPool_new (Posix 1) 40 = CEZPool_new (Posix 1) 40\<lparr>ecount := 1024\<rparr>"
    by (simp add: CEZPool_new_def ecount_default_def)
  have "chunk_fits (esize (CEZPool_new (Posix 1) 40)) 1024"
    by (simp add: chunk_fits_def CEZPool_new_def sizeof_Link_def)
  then have "pool_ok (CEZPool_new (Posix 1) 40) {}" using pool_ok_new e by metis
  from pool_ok_alloc [OF this new_behind_ok, of 0] obtain a s where
      "alloc 0 new_behind (CEZPool_new (Posix 1) 40) = Done (Some a, s)" "pool_ok s {a}"
    by auto
  then show ?thesis using pool_delete_returns_all by blast
qed

text \<open>
  \<^verbatim>\<open>delete\<close> of an object of a class with \<^verbatim>\<open>USE_POOL_ALLOCATOR\<close> fails the assertion of
  \<^verbatim>\<open>deallocate\<close>: the operator passes the size of the class where a count is expected. Only
  for a class of one byte the element goes back to the pool.
\<close>

lemma pooled_delete_aborts:
  assumes "sizeof_class \<noteq> 1"
  shows "operator_delete t sizeof_class (Some a) sizeof_class s = Aborted"
  using assms by (simp add: operator_delete_def deallocate_def)

text \<open>
  A chunk size of 0, which \<^verbatim>\<open>setec\<close> accepts, makes the first \<^verbatim>\<open>grow\<close> write outside its block.
\<close>

lemma pool_zero_chunk:
  assumes "new [] sizeof_Chunk = Some b"
  shows "alloc t new (CEZPool_new p sz\<lparr>ecount := 0\<rparr>) = Undefined"
proof -
  let ?s = "CEZPool_new p sz\<lparr>ecount := 0\<rparr>"
  have "word_of_nat sizeof_Link \<le> esize ?s"
    by (auto simp: CEZPool_new_def not_less)
  then have e: "8 \<le> unat (esize ?s)" by (simp add: word_le_nat_alt sizeof_Link_def)
  then have nz: "esize ?s \<noteq> 0" by auto
  then have "0 < unat (- esize ?s)" by (simp add: unat_gt_0)
  then have l: "link_elements (unat (esize ?s)) (b + sizeof_Chunk)
      (b + sizeof_Chunk + unat (- esize ?s)) (b + sizeof_Chunk) (\<lambda>_. None) = Undefined"
    using e by (subst link_elements.simps) (simp add: sizeof_Link_def)
  have "mtx_owner (mutex ?s) = None" "head ?s = None" "blocks ?s = []" "ecount ?s = 0"
      "Link_next ?s = (\<lambda>_. None)"
    using mutex_new_free by (simp_all add: CEZPool_new_def)
  then show ?thesis using l assms by (simp add: alloc_def grow_def Lock_def Let_def)
qed

text \<open>When \<^verbatim>\<open>operator new[]\<close> throws, the pool stays locked and blocks every other thread.\<close>

lemma pool_stays_locked:
  assumes "mtx_owner (mutex s) = None" and "head s = None" and "\<And>n. new (blocks s) n = None"
  shows "\<exists>s'. alloc t new s = Done (None, s') \<and> (\<forall>u new'. u \<noteq> t \<longrightarrow> alloc u new' s' = Blocked)"
  using assms by (simp add: alloc_def grow_def Lock_def Let_def)

end
