(* ===== verification/Packet.thy ===== *)
theory Packet
  imports Buddy Pool Format
begin

section \<open>Packet: packets and their buffers\<close>

text \<open>
  \<^verbatim>\<open>tutorial_libezthread/ezPacket/Packet.h\<close> and \<^verbatim>\<open>Packet.cpp\<close>: a packet is a counted reference
  to a run of pages that CPacketManager cuts from one buffer of 32 KiB (theory Buddy), and
  the packet objects come from a free list of their own. The packets and the bytes of the
  buffer are part of the state, which the manager's functions take and give back. Packet
  objects are numbered, one address each; \<^verbatim>\<open>new CPacket[NALL]\<close> is a parameter as in theory
  Pool, and \<^verbatim>\<open>Inl ()\<close> is its \<^verbatim>\<open>std::bad_alloc\<close>. \<^verbatim>\<open>unsigned long\<close>, which \<^verbatim>\<open>DWORD\<close> is, has 64 bits.
  The code between \<^verbatim>\<open>#if 0\<close> and \<^verbatim>\<open>#endif\<close> is in theory \<open>FrameInfo\<close>, \<^verbatim>\<open>Test\<close> in
  theory \<open>PacketTest\<close>.
\<close>

subsection \<open>Data\<close>

type_synonym DWORD = "64 word"

type_synonym BYTE = "8 word"

definition PKT_PAGE_SIZE :: nat where
  "PKT_PAGE_SIZE = 1024"

definition PKT_HDR_SIZE :: nat where
  "PKT_HDR_SIZE = 104"

definition NALL :: nat where
  "NALL = 1024"

record SYSTEM_TIME =
  year :: int
  month :: int
  day :: int
  wday :: int
  hour :: int
  minute :: int
  second :: int
  isdst :: int

record CPacket =
  m_iLastUId :: int
  m_pBuffer :: "addr option"
  m_Size :: DWORD
  m_Length :: DWORD
  m_RefCount :: DWORD
  m_Mutex :: CEZMutex
  m_SysTime :: SYSTEM_TIME
  m_Header :: "BYTE list"
  m_pNext :: "addr option"

record CPacketManager =
  mgr_OriginBuffer :: addr
  mgr_Buffer :: addr
  mgr_Mutex :: CEZMutex
  m_PBAs :: PBAs
  m_nTypes :: nat
  m_nPages :: nat
  m_pFreeList :: "addr option"
  packets :: "addr \<Rightarrow> CPacket"
  packet_blocks :: "(addr \<times> nat) list"
  memory :: "addr \<Rightarrow> BYTE"

record MEMORY_BLOCK =
  handle :: "addr option"
  ptr :: "addr option"
  header :: "addr option"
  length_ :: DWORD
  size_ :: DWORD
  block_next :: "addr option"
  block_prev :: "addr option"
  flag1 :: DWORD
  flag2 :: DWORD

definition set_packet :: "addr \<Rightarrow> (CPacket \<Rightarrow> CPacket) \<Rightarrow> CPacketManager \<Rightarrow> CPacketManager" where
  "set_packet a f s = s\<lparr>packets := (packets s)(a := f (packets s a))\<rparr>"

text \<open>A function whose body is guarded by the mutex of the packet, or of the manager.\<close>

definition packet_locked ::
    "tid \<Rightarrow> addr \<Rightarrow> (CPacketManager \<Rightarrow> ('a \<times> CPacketManager) outcome) \<Rightarrow> CPacketManager \<Rightarrow>
     ('a \<times> CPacketManager) outcome" where
  "packet_locked t a body s =
     obind (CEZLock_scope t body (m_Mutex (packets s a), s)) (\<lambda>(x, m, s).
     Done (x, set_packet a (\<lambda>k. k\<lparr>m_Mutex := m\<rparr>) s))"

definition manager_locked ::
    "tid \<Rightarrow> (CPacketManager \<Rightarrow> ('a \<times> CPacketManager) outcome) \<Rightarrow> CPacketManager \<Rightarrow>
     ('a \<times> CPacketManager) outcome" where
  "manager_locked t body s =
     obind (CEZLock_scope t body (mgr_Mutex s, s)) (\<lambda>(x, m, s). Done (x, s\<lparr>mgr_Mutex := m\<rparr>))"

subsection \<open>CPacket\<close>

definition Init :: "CPacket \<Rightarrow> CPacket" where
  "Init k = k\<lparr>m_RefCount := 1, m_Length := 0, m_Size := 0, m_pBuffer := None, m_iLastUId := -1\<rparr>"

text \<open>\<^verbatim>\<open>memcpy\<close>; it may not read beyond the source. Nothing is copied for a length of 0.\<close>

definition memcpy :: "addr option \<Rightarrow> BYTE list \<Rightarrow> nat \<Rightarrow> (addr \<Rightarrow> BYTE) \<Rightarrow> (addr \<Rightarrow> BYTE) outcome" where
  "memcpy dst src n m =
     (if n = 0 then Done m
      else case dst of
             None \<Rightarrow> Undefined
           | Some d \<Rightarrow> if length src < n then Undefined
                      else Done (\<lambda>a. if d \<le> a \<and> a < d + n then src ! (a - d) else m a))"

definition PutBuffer ::
    "tid \<Rightarrow> addr \<Rightarrow> BYTE list \<Rightarrow> DWORD \<Rightarrow> CPacketManager \<Rightarrow> (DWORD \<times> CPacketManager) outcome" where
  "PutBuffer t a pdat dwLength =
     packet_locked t a (\<lambda>s.
       let k = packets s a;
           left = m_Size k - m_Length k;
           n = (if left < dwLength then left else dwLength)
       in obind (memcpy (m_pBuffer k) pdat (unat n) (memory s)) (\<lambda>m.
          Done (n, set_packet a (\<lambda>k. k\<lparr>m_Length := m_Length k + n\<rparr>) (s\<lparr>memory := m\<rparr>))))"

definition GetBuffer :: "addr \<Rightarrow> CPacketManager \<Rightarrow> addr option" where
  "GetBuffer a s = m_pBuffer (packets s a)"

definition SetLength :: "addr \<Rightarrow> DWORD \<Rightarrow> CPacketManager \<Rightarrow> DWORD \<times> CPacketManager" where
  "SetLength a dwLength s =
     (let n = (if m_Size (packets s a) < dwLength then m_Size (packets s a) else dwLength)
      in (n, set_packet a (\<lambda>k. k\<lparr>m_Length := n\<rparr>) s))"

definition GetLength :: "addr \<Rightarrow> CPacketManager \<Rightarrow> DWORD" where
  "GetLength a s = m_Length (packets s a)"

definition GetSize :: "addr \<Rightarrow> CPacketManager \<Rightarrow> DWORD" where
  "GetSize a s = m_Size (packets s a)"

definition GetLeft :: "tid \<Rightarrow> addr \<Rightarrow> CPacketManager \<Rightarrow> (DWORD \<times> CPacketManager) outcome" where
  "GetLeft t a =
     packet_locked t a (\<lambda>s. Done (m_Size (packets s a) - m_Length (packets s a), s))"

definition ClearHeader :: "addr \<Rightarrow> CPacketManager \<Rightarrow> CPacketManager" where
  "ClearHeader a s = set_packet a (\<lambda>k. k\<lparr>m_Header := replicate PKT_HDR_SIZE 0\<rparr>) s"

definition AddRef :: "tid \<Rightarrow> addr \<Rightarrow> CPacketManager \<Rightarrow> (DWORD \<times> CPacketManager) outcome" where
  "AddRef t a =
     packet_locked t a (\<lambda>s.
       let s = set_packet a (\<lambda>k. k\<lparr>m_RefCount := m_RefCount k + 1\<rparr>) s
       in Done (m_RefCount (packets s a), s))"

definition GetRef :: "tid \<Rightarrow> addr \<Rightarrow> CPacketManager \<Rightarrow> (DWORD \<times> CPacketManager) outcome" where
  "GetRef t a = packet_locked t a (\<lambda>s. Done (m_RefCount (packets s a), s))"

text \<open>The time is copied out and in; a NULL pointer is only traced.\<close>

definition GetSysTime ::
    "tid \<Rightarrow> addr \<Rightarrow> bool \<Rightarrow> CPacketManager \<Rightarrow> (SYSTEM_TIME option \<times> CPacketManager) outcome" where
  "GetSysTime t a null =
     packet_locked t a (\<lambda>s. Done (if null then None else Some (m_SysTime (packets s a)), s))"

definition SetSysTime ::
    "tid \<Rightarrow> addr \<Rightarrow> SYSTEM_TIME option \<Rightarrow> CPacketManager \<Rightarrow> (unit \<times> CPacketManager) outcome" where
  "SetSysTime t a time =
     packet_locked t a (\<lambda>s.
       case time of
         None \<Rightarrow> Done ((), s)
       | Some x \<Rightarrow> Done ((), set_packet a (\<lambda>k. k\<lparr>m_SysTime := x\<rparr>) s))"

subsection \<open>The packet objects\<close>

text \<open>
  A new array of packets is linked from its last element down to the second one; the first
  one is returned.
\<close>

primrec link_packets :: "addr \<Rightarrow> nat \<Rightarrow> (addr \<Rightarrow> CPacket) \<Rightarrow> (addr \<Rightarrow> CPacket)" where
  "link_packets q 0 m = m"
| "link_packets q (Suc i) m =
     link_packets q i (m(q + Suc i := (m (q + Suc i))\<lparr>m_pNext := Some (q + i)\<rparr>))"

definition AllocPacket ::
    "platform \<Rightarrow> op_new \<Rightarrow> CPacketManager \<Rightarrow> addr option \<times> CPacketManager" where
  "AllocPacket pl new s =
     (case m_pFreeList s of
        Some p \<Rightarrow> (Some p, s\<lparr>m_pFreeList := m_pNext (packets s p)\<rparr>)
      | None \<Rightarrow>
          (case new (packet_blocks s) NALL of
             None \<Rightarrow> (None, s)
           | Some q \<Rightarrow>
               let m0 = (\<lambda>a. if q \<le> a \<and> a < q + NALL
                             then (packets s a)\<lparr>m_Mutex := CEZMutex_new pl MUTEX_FAST\<rparr>
                             else packets s a);
                   m1 = link_packets q (NALL - 1) m0;
                   m2 = m1(q + 1 := (m1 (q + 1))\<lparr>m_pNext := None\<rparr>)
               in (Some q, s\<lparr>packet_blocks := (q, NALL) # packet_blocks s, packets := m2,
                             m_pFreeList := Some (q + (NALL - 1))\<rparr>)))"

definition FreePacket :: "addr \<Rightarrow> CPacketManager \<Rightarrow> CPacketManager" where
  "FreePacket p s = (set_packet p (\<lambda>k. k\<lparr>m_pNext := m_pFreeList s\<rparr>) s)\<lparr>m_pFreeList := Some p\<rparr>"

subsection \<open>The types of buffers\<close>

text \<open>\<^verbatim>\<open>log2i\<close> counts the halvings; 0 has -1.\<close>

fun log2i_loop :: "nat \<Rightarrow> int \<Rightarrow> int" where
  "log2i_loop value ret = (if value = 0 then ret else log2i_loop (value div 2) (ret + 1))"

declare log2i_loop.simps [simp del]

definition log2i :: "DWORD \<Rightarrow> int" where
  "log2i value = log2i_loop (unat value) (-1)"

text \<open>
  A number of pages is an \<^verbatim>\<open>int\<close>: the conversion of a \<^verbatim>\<open>DWORD\<close> keeps the low 32 bits. The type
  is undefined when it would be a shift by a negative number or by 32 or more.
\<close>

definition int_of_DWORD :: "DWORD \<Rightarrow> int" where
  "int_of_DWORD w = sint (ucast w :: u32)"

definition pages_type :: "int \<Rightarrow> nat option" where
  "pages_type n =
     (let t = log2i (word_of_int n) in if 0 \<le> t \<and> t < 32 then Some (nat t) else None)"

definition is_power :: "nat \<Rightarrow> int \<Rightarrow> bool" where
  "is_power t n \<longleftrightarrow> push_bit t (1 :: u32) = word_of_int n"

text \<open>\<^verbatim>\<open>1 << type\<close> as an \<^verbatim>\<open>int\<close>.\<close>

definition power_int :: "nat \<Rightarrow> int" where
  "power_int t = sint (push_bit t (1 :: u32))"

definition bytes_pages :: "DWORD \<Rightarrow> int" where
  "bytes_pages dwBytes = int_of_DWORD ((dwBytes + word_of_nat PKT_PAGE_SIZE - 1) div word_of_nat PKT_PAGE_SIZE)"

definition request_type :: "DWORD \<Rightarrow> nat option" where
  "request_type dwBytes =
     (case pages_type (bytes_pages dwBytes) of
        None \<Rightarrow> None
      | Some t \<Rightarrow> Some (if is_power t (bytes_pages dwBytes) then t else t + 1))"

subsection \<open>CPacketManager\<close>

text \<open>
  The constructor. \<open>raw\<close> is what the memory of the arrays held before: it is not
  initialised, except that every \<^verbatim>\<open>pNext\<close> and \<^verbatim>\<open>nIndex\<close> is set. \<open>origin\<close> is the address
  of the new buffer, in which the pages start at the next multiple of their size.
\<close>

definition even_up :: "nat \<Rightarrow> nat" where
  "even_up n = (if odd n then n + 1 else n)"

definition new_level :: "nat \<Rightarrow> nat \<Rightarrow> nat \<Rightarrow> PBA \<Rightarrow> PBA" where
  "new_level n ty sz b =
     (let arr = (\<lambda>k. (pArray b k)\<lparr>pNext := None, nIndex := k\<rparr>);
          b0 = \<lparr>pArray = arr, pHeader = None, nCount = sz\<rparr>;
          node = n div 2 ^ ty - 1
      in if bit n ty then set_prev node (Some node) (set_next node (Some node) (b0\<lparr>pHeader := Some node\<rparr>))
         else b0)"

function new_levels :: "nat \<Rightarrow> nat \<Rightarrow> nat \<Rightarrow> PBAs \<Rightarrow> nat \<times> PBAs" where
  "new_levels n ty sz P =
     (if n < 2 ^ ty then (ty, P)
      else new_levels n (Suc ty) (even_up sz div 2) (P(ty := new_level n ty (even_up sz) (P ty))))"
  by pat_completeness auto
termination
proof (relation "measure (\<lambda>(n, ty, sz, P). Suc n - 2 ^ ty)", simp)
  fix n ty sz :: nat and P :: PBAs
  assume "\<not> n < 2 ^ ty"
  moreover have "(2::nat) ^ ty < 2 ^ Suc ty" by simp
  ultimately have "Suc n - 2 ^ Suc ty < Suc n - 2 ^ ty" by linarith
  then show "((n, Suc ty, even_up sz div 2, P(ty := new_level n ty (even_up sz) (P ty))), n, ty, sz, P)
      \<in> measure (\<lambda>(n, ty, sz, P). Suc n - 2 ^ ty)"
    by simp
qed

declare new_levels.simps [simp del]

definition PAGES :: nat where
  "PAGES = 32 * 1024 div PKT_PAGE_SIZE"

definition CPacketManager_new ::
    "platform \<Rightarrow> addr \<Rightarrow> PBAs \<Rightarrow> (addr \<Rightarrow> CPacket) \<Rightarrow> (addr \<Rightarrow> BYTE) \<Rightarrow> CPacketManager" where
  "CPacketManager_new pl origin raw pk mem =
     (let (T, P) = new_levels PAGES 0 PAGES raw
      in \<lparr>mgr_OriginBuffer = origin,
          mgr_Buffer = (origin + PKT_PAGE_SIZE) div PKT_PAGE_SIZE * PKT_PAGE_SIZE,
          mgr_Mutex = CEZMutex_new pl MUTEX_FAST, m_PBAs = P, m_nTypes = T, m_nPages = PAGES,
          m_pFreeList = None, packets = pk, packet_blocks = [], memory = mem\<rparr>)"

text \<open>\<^verbatim>\<open>GetPacket\<close>: \<open>Inr None\<close> is the NULL it returns when no node is free.\<close>

definition GetPacket_body ::
    "platform \<Rightarrow> op_new \<Rightarrow> DWORD \<Rightarrow> CPacketManager \<Rightarrow> ((unit + addr option) \<times> CPacketManager) outcome" where
  "GetPacket_body pl new dwBytes s0 =
     (case AllocPacket pl new s0 of
        (None, s) \<Rightarrow> Done (Inl (), s)
      | (Some a, s1) \<Rightarrow>
          let s = set_packet a Init s1
          in if dwBytes = 0 then
               Done (Inr (Some a), set_packet a (\<lambda>k. k\<lparr>m_Size := 0, m_pBuffer := None\<rparr>) s)
             else case request_type dwBytes of
               None \<Rightarrow> Undefined
             | Some ty \<Rightarrow>
                 let n = power_int ty; T = m_nTypes s; i = find_free T (m_PBAs s) ty
                 in if T \<le> i then Done (Inr None, FreePacket a s)
                    else case pHeader (m_PBAs s i) of
                      None \<Rightarrow> Undefined
                    | Some h \<Rightarrow>
                        let index = nIndex (pArray (m_PBAs s i) h)
                        in obind (at_level T i (RemoveFree index) (m_PBAs s)) (\<lambda>P.
                           let s = set_packet a (\<lambda>k. k\<lparr>m_Size := word_of_int (n * int PKT_PAGE_SIZE),
                                 m_pBuffer := Some (mgr_Buffer s + index * 2 ^ i * PKT_PAGE_SIZE)\<rparr>) s
                           in obind (split_nodes T ty i index P) (\<lambda>(index, P).
                              obind (if is_power ty n then Done P else leftover_nodes T ty index n P) (\<lambda>P.
                              Done (Inr (Some a), s\<lparr>m_PBAs := P\<rparr>)))))"

definition GetPacket ::
    "tid \<Rightarrow> platform \<Rightarrow> op_new \<Rightarrow> DWORD \<Rightarrow> CPacketManager \<Rightarrow> ((unit + addr option) \<times> CPacketManager) outcome" where
  "GetPacket t pl new dwBytes = manager_locked t (GetPacket_body pl new dwBytes)"

definition PutPacket_body :: "addr option \<Rightarrow> CPacketManager \<Rightarrow> (unit \<times> CPacketManager) outcome" where
  "PutPacket_body p s =
     (case p of
        None \<Rightarrow> Done ((), s)
      | Some a \<Rightarrow>
          (case m_pBuffer (packets s a) of
             None \<Rightarrow> Done ((), FreePacket a s)
           | Some buf \<Rightarrow>
               if m_Size (packets s a) = 0 then Done ((), FreePacket a s)
               else
                 let n = int_of_DWORD (m_Size (packets s a) div word_of_nat PKT_PAGE_SIZE);
                     index = (buf - mgr_Buffer s) div PKT_PAGE_SIZE; T = m_nTypes s
                 in if buf < mgr_Buffer s then Undefined
                    else case pages_type n of
                      None \<Rightarrow> Undefined
                    | Some ty \<Rightarrow>
                        obind
                          (if is_power ty n then merge_nodes T ty (index div nat n) (m_PBAs s)
                           else obind (put_parts T (ty + 1) 0 (index + nat n) 0 (m_PBAs s))
                             (\<lambda>(index, merged, P).
                              if merged = 1 then merge_nodes T (ty + 1) index P else Done P))
                          (\<lambda>P. Done ((), FreePacket a (s\<lparr>m_PBAs := P\<rparr>)))))"

definition PutPacket :: "tid \<Rightarrow> addr option \<Rightarrow> CPacketManager \<Rightarrow> (unit \<times> CPacketManager) outcome" where
  "PutPacket t p = manager_locked t (PutPacket_body p)"

text \<open>
  \<^verbatim>\<open>Release\<close>: the assertion is compiled in, so that the test behind it never fires; the
  packet goes back to the manager after its own mutex has been unlocked.
\<close>

definition Release_body :: "addr \<Rightarrow> CPacketManager \<Rightarrow> (DWORD \<times> CPacketManager) outcome" where
  "Release_body a s =
     (if m_RefCount (packets s a) = 0 then Aborted
      else let s = set_packet a (\<lambda>k. k\<lparr>m_RefCount := m_RefCount k - 1\<rparr>) s
           in Done (m_RefCount (packets s a), s))"

definition Release :: "tid \<Rightarrow> addr \<Rightarrow> CPacketManager \<Rightarrow> (DWORD \<times> CPacketManager) outcome" where
  "Release t a s =
     obind (packet_locked t a (Release_body a) s) (\<lambda>(count, s).
     if count = 0 then obind (PutPacket t (Some a) s) (\<lambda>(_, s). Done (count, s))
     else Done (count, s))"

definition GetBufferSize :: "tid \<Rightarrow> CPacketManager \<Rightarrow> (nat \<times> CPacketManager) outcome" where
  "GetBufferSize t = manager_locked t (\<lambda>s. Done (m_nPages s * PKT_PAGE_SIZE div 1024, s))"

text \<open>
  The walk of \<^verbatim>\<open>Dump\<close> and \<^verbatim>\<open>DumpNodes\<close> over one list, from the header to the node before it:
  the nodes passed.
\<close>

partial_function (option) walk_list :: "PBA \<Rightarrow> nat \<Rightarrow> nat option \<Rightarrow> nat list option" where
  "walk_list b end current =
     (case current of
        None \<Rightarrow> None
      | Some k \<Rightarrow>
          if k = end then Some [k]
          else Option.bind (walk_list b end (next_of b k)) (\<lambda>ks. Some (k # ks)))"

definition level_nodes :: "PBA \<Rightarrow> nat list option" where
  "level_nodes b =
     (case pHeader b of
        None \<Rightarrow> Some []
      | Some h \<Rightarrow> (case prev_of b h of None \<Rightarrow> None | Some e \<Rightarrow> walk_list b e (Some h)))"

fun free_pages :: "PBAs \<Rightarrow> nat \<Rightarrow> nat option" where
  "free_pages P 0 = Some 0"
| "free_pages P (Suc ty) =
     Option.bind (free_pages P ty) (\<lambda>n.
     Option.bind (level_nodes (P ty)) (\<lambda>ks. Some (n + length ks * 2 ^ ty)))"

text \<open>\<^verbatim>\<open>Dump\<close> prints the used pages, all pages and the percentage used.\<close>

definition usage :: "CPacketManager \<Rightarrow> nat option" where
  "usage s = map_option (\<lambda>free. m_nPages s - free) (free_pages (m_PBAs s) (m_nTypes s))"

definition Dump :: "tid \<Rightarrow> CPacketManager \<Rightarrow> (string option \<times> CPacketManager) outcome" where
  "Dump t =
     manager_locked t (\<lambda>s.
       Done (map_option
         (\<lambda>free. ''Packet usage : '' @ dec (int (m_nPages s) - int free) @ ''K / '' @ dec (int (m_nPages s)) @
            ''K, '' @ dec (100 - int (100 * free div m_nPages s)) @ ''%'' @ newline)
         (free_pages (m_PBAs s) (m_nTypes s)), s))"

text \<open>\<^verbatim>\<open>DumpNodes\<close> prints a line for every type with the indices of its free nodes.\<close>

fun node_lines :: "PBAs \<Rightarrow> nat \<Rightarrow> nat \<Rightarrow> string option" where
  "node_lines P ty 0 = Some []"
| "node_lines P ty (Suc n) =
     Option.bind (level_nodes (P ty)) (\<lambda>ks.
     Option.bind (node_lines P (Suc ty) n) (\<lambda>rest.
     Some (pad 4 (dec (2 ^ ty)) @ '' : '' @ concat (map (\<lambda>k. dec (int k) @ '' '') ks) @ newline @ rest)))"

definition DumpNodes :: "tid \<Rightarrow> CPacketManager \<Rightarrow> (string option \<times> CPacketManager) outcome" where
  "DumpNodes t =
     manager_locked t (\<lambda>s.
       Done (map_option (\<lambda>ls. ''______________________________'' @ newline @ ls @ newline)
         (node_lines (m_PBAs s) 0 (m_nTypes s)), s))"

text \<open>
  The destructor deletes the buffer and the arrays of nodes, the last type first; the arrays
  of packets stay allocated.
\<close>

definition CPacketManager_delete :: "CPacketManager \<Rightarrow> addr \<times> nat list \<times> (addr \<times> nat) list" where
  "CPacketManager_delete s = (mgr_OriginBuffer s, rev [0..<m_nTypes s], packet_blocks s)"

subsection \<open>The functions for C\<close>

definition MemoryAlloc ::
    "tid \<Rightarrow> platform \<Rightarrow> op_new \<Rightarrow> MEMORY_BLOCK option \<Rightarrow> DWORD \<Rightarrow> CPacketManager \<Rightarrow>
     (int \<times> MEMORY_BLOCK option \<times> CPacketManager) outcome" where
  "MemoryAlloc t pl new pBlock dwBytes s =
     (case pBlock of
        None \<Rightarrow> Aborted
      | Some b \<Rightarrow>
          obind (GetPacket t pl new dwBytes s) (\<lambda>(r, s).
          case r of
            Inl _ \<Rightarrow> Aborted
          | Inr None \<Rightarrow> Done (-1, Some b, s)
          | Inr (Some a) \<Rightarrow>
              Done (0, Some (b\<lparr>handle := Some a, length_ := GetLength a s, size_ := GetSize a s,
                               ptr := GetBuffer a s, header := Some a\<rparr>), s)))"

definition MemorySetLength :: "addr option \<Rightarrow> DWORD \<Rightarrow> CPacketManager \<Rightarrow> (int \<times> CPacketManager) outcome" where
  "MemorySetLength h dwBytes s =
     (case h of None \<Rightarrow> Aborted | Some a \<Rightarrow> Done (0, snd (SetLength a dwBytes s)))"

definition MemoryAddRef :: "tid \<Rightarrow> addr option \<Rightarrow> CPacketManager \<Rightarrow> (int \<times> CPacketManager) outcome" where
  "MemoryAddRef t h s =
     (case h of None \<Rightarrow> Aborted | Some a \<Rightarrow> obind (AddRef t a s) (\<lambda>(_, s). Done (0, s)))"

definition MemoryRelease :: "tid \<Rightarrow> addr option \<Rightarrow> CPacketManager \<Rightarrow> (int \<times> CPacketManager) outcome" where
  "MemoryRelease t h s =
     (case h of None \<Rightarrow> Aborted | Some a \<Rightarrow> obind (Release t a s) (\<lambda>(_, s). Done (0, s)))"

subsection \<open>The locks\<close>

definition mutex_free :: "CEZMutex \<Rightarrow> bool" where
  "mutex_free m \<longleftrightarrow> mutex_ok m \<and> mtx_owner m = None"

lemma CEZLock_scope_free:
  assumes "mutex_free m"
  shows "CEZLock_scope t body (m, s) = obind (body s) (\<lambda>(x, s'). Done (x, m, s'))"
proof -
  obtain m' where m': "Lock t m = Done m'" "Unlock t m' = Done m"
    using free_mutex_twice [of m t] assms by (auto simp: mutex_free_def)
  show ?thesis by (cases "body s") (simp_all add: CEZLock_scope_def m' split: prod.split)
qed

lemma packets_locked_free:
  "mutex_free (mgr_Mutex s) \<Longrightarrow>
   manager_locked t body s = obind (body s) (\<lambda>(x, s'). Done (x, s'\<lparr>mgr_Mutex := mgr_Mutex s\<rparr>))"
  by (cases "body s") (auto simp: manager_locked_def CEZLock_scope_free)

lemma packet_locked_free:
  "mutex_free (m_Mutex (packets s a)) \<Longrightarrow>
   packet_locked t a body s =
     obind (body s) (\<lambda>(x, s'). Done (x, set_packet a (\<lambda>k. k\<lparr>m_Mutex := m_Mutex (packets s a)\<rparr>) s'))"
  by (cases "body s") (auto simp: packet_locked_def CEZLock_scope_free)

lemma set_packet_fields [simp]:
  "packets (set_packet a f s) = (packets s)(a := f (packets s a))"
  "mgr_Buffer (set_packet a f s) = mgr_Buffer s" "mgr_Mutex (set_packet a f s) = mgr_Mutex s"
  "mgr_OriginBuffer (set_packet a f s) = mgr_OriginBuffer s"
  "m_PBAs (set_packet a f s) = m_PBAs s" "m_nTypes (set_packet a f s) = m_nTypes s"
  "m_nPages (set_packet a f s) = m_nPages s" "m_pFreeList (set_packet a f s) = m_pFreeList s"
  "packet_blocks (set_packet a f s) = packet_blocks s" "memory (set_packet a f s) = memory s"
  by (simp_all add: set_packet_def)

lemma Init_fields [simp]:
  "m_pNext (Init k) = m_pNext k" "m_Mutex (Init k) = m_Mutex k" "m_RefCount (Init k) = 1"
  "m_Length (Init k) = 0" "m_Size (Init k) = 0" "m_pBuffer (Init k) = None"
  "m_SysTime (Init k) = m_SysTime k" "m_Header (Init k) = m_Header k"
  by (simp_all add: Init_def)

subsection \<open>The free list of packet objects\<close>

definition packets_ok :: "CPacketManager \<Rightarrow> addr set \<Rightarrow> bool" where
  "packets_ok s L \<longleftrightarrow>
     (\<exists>fs. chain (\<lambda>a. m_pNext (packets s a)) (m_pFreeList s) fs \<and> set fs \<inter> L = {} \<and>
        (\<forall>a \<in> set fs \<union> L. mutex_free (m_Mutex (packets s a)) \<and>
           (\<exists>(b, n) \<in> set (packet_blocks s). b \<le> a \<and> a < b + n)))"

lemma packets_ok_cong:
  assumes "\<And>a. m_pNext (packets s' a) = m_pNext (packets s a)"
    and "\<And>a. m_Mutex (packets s' a) = m_Mutex (packets s a)"
    and "m_pFreeList s' = m_pFreeList s" and "packet_blocks s' = packet_blocks s"
  shows "packets_ok s' L = packets_ok s L"
  using assms by (simp add: packets_ok_def)

lemma link_packets_eq:
  "link_packets q n m a = (if q < a \<and> a \<le> q + n then (m a)\<lparr>m_pNext := Some (a - 1)\<rparr> else m a)"
proof (induction n arbitrary: m)
  case (Suc n)
  have "a \<le> q + Suc n \<longleftrightarrow> a \<le> q + n \<or> a = q + Suc n" by auto
  then show ?case by (simp only: link_packets.simps Suc.IH) (cases "a = q + Suc n"; simp)
qed auto

lemma chain_down:
  "(\<And>a. q < a \<Longrightarrow> a \<le> q + n \<Longrightarrow> nx a = Some (a - 1)) \<Longrightarrow> nx q = None \<Longrightarrow>
   chain nx (Some (q + n)) (rev [q..<Suc (q + n)])"
proof (induction n)
  case (Suc n)
  then have "chain nx (Some (q + n)) (rev [q..<Suc (q + n)])" by auto
  moreover have "nx (Suc (q + n)) = Some (q + n)" using Suc.prems(1) [of "Suc (q + n)"] by simp
  ultimately show ?case by simp
qed simp

lemma AllocPacket_ok:
  assumes ok: "packets_ok s L" and new: "new_ok new"
  shows "\<exists>a s'. AllocPacket pl new s = (Some a, s') \<and> a \<notin> L \<and> packets_ok s' (insert a L) \<and>
    s' = s\<lparr>packets := packets s', packet_blocks := packet_blocks s', m_pFreeList := m_pFreeList s'\<rparr> \<and>
    (\<forall>b \<in> L. packets s' b = packets s b)"
proof -
  obtain fs where fs: "chain (\<lambda>a. m_pNext (packets s a)) (m_pFreeList s) fs" "set fs \<inter> L = {}"
      "\<forall>a \<in> set fs \<union> L. mutex_free (m_Mutex (packets s a)) \<and>
         (\<exists>(b, n) \<in> set (packet_blocks s). b \<le> a \<and> a < b + n)"
    using ok by (auto simp: packets_ok_def)
  show ?thesis
  proof (cases "m_pFreeList s")
    case (Some p)
    then obtain gs where gs: "fs = p # gs" "chain (\<lambda>a. m_pNext (packets s a)) (m_pNext (packets s p)) gs"
      using fs(1) by (cases fs) auto
    let ?s = "s\<lparr>m_pFreeList := m_pNext (packets s p)\<rparr>"
    have "AllocPacket pl new s = (Some p, ?s)" using Some by (simp add: AllocPacket_def)
    moreover have "packets_ok ?s (insert p L)"
      unfolding packets_ok_def
    proof (intro exI [of _ gs] conjI)
      show "set gs \<inter> insert p L = {}"
        using fs(1,2) gs(1) chain_distinct [of _ _ fs] by auto
    qed (use fs gs in auto)
    ultimately show ?thesis using fs(2) gs(1) by auto
  next
    case None
    then have e: "fs = []" using fs(1) by (cases fs) auto
    obtain q where q: "new (packet_blocks s) NALL = Some q"
        "\<forall>(c, m) \<in> set (packet_blocks s). q \<noteq> c \<and> (q + NALL \<le> c \<or> c + m \<le> q)"
      using new unfolding new_ok_def by blast
    define s' where "s' = snd (AllocPacket pl new s)"
    have al: "AllocPacket pl new s = (Some q, s')"
      using None q(1) by (simp add: AllocPacket_def Let_def s'_def)
    have pk: "packets s' = (let m1 = link_packets q (NALL - 1)
          (\<lambda>a. if q \<le> a \<and> a < q + NALL then (packets s a)\<lparr>m_Mutex := CEZMutex_new pl MUTEX_FAST\<rparr> else packets s a)
        in m1(q + 1 := (m1 (q + 1))\<lparr>m_pNext := None\<rparr>))"
      and bl: "packet_blocks s' = (q, NALL) # packet_blocks s"
      and fl: "m_pFreeList s' = Some (q + (NALL - 1))"
      and rest: "s' = s\<lparr>packets := packets s', packet_blocks := packet_blocks s', m_pFreeList := m_pFreeList s'\<rparr>"
      using None q(1) by (simp_all add: AllocPacket_def Let_def s'_def)
    have p1: "m_pNext (packets s' a) = Some (a - 1)" if "q + 1 < a" "a \<le> q + (NALL - 1)" for a
      using that by (simp add: pk Let_def link_packets_eq NALL_def)
    have p2: "m_pNext (packets s' (q + 1)) = None" by (simp add: pk Let_def)
    have p3: "m_Mutex (packets s' a) = CEZMutex_new pl MUTEX_FAST" if "q \<le> a" "a < q + NALL" for a
      using that by (simp add: pk Let_def link_packets_eq)
    have p4: "packets s' a = packets s a" if "\<not> (q \<le> a \<and> a < q + NALL)" for a
    proof -
      have "a \<noteq> q + 1" using that by (auto simp: NALL_def)
      moreover have "\<not> (q < a \<and> a \<le> q + (NALL - 1))" using that by (auto simp: NALL_def)
      ultimately show ?thesis unfolding pk Let_def fun_upd_apply link_packets_eq using that
        by (simp only: if_False)
    qed
    have new_mutex: "mutex_free (CEZMutex_new pl MUTEX_FAST)"
      using mutex_new_free by (simp add: mutex_free_def)
    have apart: "\<not> (q \<le> a \<and> a < q + NALL)" if "a \<in> L" for a
    proof -
      have "\<exists>(b, n) \<in> set (packet_blocks s). b \<le> a \<and> a < b + n" using fs(3) \<open>a \<in> L\<close> by blast
      then obtain b n where "(b, n) \<in> set (packet_blocks s)" "b \<le> a" "a < b + n" by blast
      then show ?thesis using q(2) by fastforce
    qed
    have "packets_ok s' (insert q L)"
      unfolding packets_ok_def
    proof (intro exI [of _ "rev [q + 1..<Suc (q + 1 + (NALL - 2))]"] conjI ballI)
      have n: "q + (NALL - 1) = q + 1 + (NALL - 2)" by (simp add: NALL_def)
      show "chain (\<lambda>a. m_pNext (packets s' a)) (m_pFreeList s') (rev [q + 1..<Suc (q + 1 + (NALL - 2))])"
        unfolding fl n by (rule chain_down) (use p1 p2 n in auto)
      show "set (rev [q + 1..<Suc (q + 1 + (NALL - 2))]) \<inter> insert q L = {}"
        using apart by (fastforce simp: NALL_def)
      fix a
      assume "a \<in> set (rev [q + 1..<Suc (q + 1 + (NALL - 2))]) \<union> insert q L"
      then consider "q \<le> a" "a < q + NALL" | "a \<in> L" by (auto simp: NALL_def)
      then show "mutex_free (m_Mutex (packets s' a))"
        by cases (use p3 p4 new_mutex fs(3) apart in auto)
      from \<open>a \<in> _\<close> consider "q \<le> a" "a < q + NALL" | "a \<in> L" by (auto simp: NALL_def)
      then show "\<exists>(b, n) \<in> set (packet_blocks s'). b \<le> a \<and> a < b + n"
        by cases (use bl fs(3) in auto)
    qed
    moreover have "q \<notin> L" using apart [of q] by (auto simp: NALL_def)
    ultimately show ?thesis using al rest p4 apart by blast
  qed
qed

lemma FreePacket_ok:
  assumes ok: "packets_ok s L" and a: "a \<in> L"
  shows "packets_ok (FreePacket a s) (L - {a})"
proof -
  obtain fs where fs: "chain (\<lambda>a. m_pNext (packets s a)) (m_pFreeList s) fs" "set fs \<inter> L = {}"
      "\<forall>a \<in> set fs \<union> L. mutex_free (m_Mutex (packets s a)) \<and>
         (\<exists>(b, n) \<in> set (packet_blocks s). b \<le> a \<and> a < b + n)"
    using ok by (auto simp: packets_ok_def)
  have "a \<notin> set fs" using fs(2) a by auto
  then have "chain (\<lambda>b. m_pNext (packets (FreePacket a s) b)) (m_pFreeList s) fs"
    using fs(1) by (subst chain_cong [where nx' = "\<lambda>a. m_pNext (packets s a)"]) (auto simp: FreePacket_def)
  then show ?thesis
    unfolding packets_ok_def using fs(2,3) a
    by (intro exI [of _ "a # fs"]) (auto simp: FreePacket_def)
qed

text \<open>The packet objects are a free list like the elements of a pool.\<close>

definition get_packet_object :: "platform \<Rightarrow> op_new \<Rightarrow> CPacketManager \<Rightarrow> (addr \<times> CPacketManager) outcome" where
  "get_packet_object pl new s =
     (case AllocPacket pl new s of (None, _) \<Rightarrow> Aborted | (Some a, s) \<Rightarrow> Done (a, s))"

interpretation ez_packets: free_list_allocator
  "get_packet_object pl new" "\<lambda>a s. Done (FreePacket a s)" "\<lambda>s L. new_ok new \<and> packets_ok s L"
  for pl new
proof (unfold_locales, goal_cases)
  case (1 s L a s')
  then show ?case using AllocPacket_ok [of s L new pl] by (auto simp: get_packet_object_def)
next
  case (2 s L)
  then show ?case using AllocPacket_ok [of s L new pl] by (auto simp: get_packet_object_def)
next
  case (3 s L a)
  then show ?case using FreePacket_ok by auto
next
  case (4 s L a s')
  then show ?case by (auto simp: get_packet_object_def AllocPacket_def FreePacket_def)
qed

subsection \<open>Types of buffers\<close>

lemma log2i_loop_power: "2 ^ k \<le> v \<Longrightarrow> v < 2 ^ Suc k \<Longrightarrow> log2i_loop v r = r + 1 + int k"
proof (induction k arbitrary: v r)
  case 0
  then have "v = 1" by simp
  then show ?case by (simp add: log2i_loop.simps)
next
  case (Suc k)
  have "2 ^ k \<le> v div 2" "v div 2 < 2 ^ Suc k" "v \<noteq> 0" using Suc.prems by auto
  then show ?case using Suc.IH [of "v div 2" "r + 1"] by (subst log2i_loop.simps) simp
qed

lemma pages_type_power:
  assumes "2 ^ k \<le> n" and "n < 2 ^ Suc k" and "k < 31"
  shows "pages_type (int n) = Some k" and "is_power k (int n) \<longleftrightarrow> n = 2 ^ k"
proof -
  have "(2::nat) ^ Suc k \<le> 2 ^ 31" using assms(3) by (intro power_increasing) auto
  then have n: "n < 2 ^ 31" using assms(2) by linarith
  then have "unat (word_of_nat n :: DWORD) = n" by (simp add: unat_of_nat)
  then show "pages_type (int n) = Some k"
    using log2i_loop_power [OF assms(1,2), of "-1"] assms(3)
    by (simp add: pages_type_def log2i_def)
  have "(2::nat) ^ k < 2 ^ 32" using assms(3) by (intro power_strict_increasing) auto
  moreover have "push_bit k (1 :: u32) = word_of_nat (2 ^ k)" by (simp add: push_bit_eq_mult)
  ultimately have "unat (push_bit k (1 :: u32)) = 2 ^ k" by (simp only: unat_of_nat) simp
  moreover have "unat (word_of_nat n :: u32) = n" using n by (simp add: unat_of_nat)
  ultimately show "is_power k (int n) \<longleftrightarrow> n = 2 ^ k"
    by (auto simp: is_power_def word_unat_eq_iff)
qed

text \<open>The type a request gets is the least whose buffers are large enough.\<close>

lemma int_of_DWORD_small:
  assumes "unat w < 2 ^ 31"
  shows "int_of_DWORD w = int (unat w)"
proof -
  have lt: "uint w < 2 ^ 31"
    using of_nat_less_iff [of "unat w" "2 ^ 31", where 'a = int] assms by simp
  then have "uint (ucast w :: u32) = uint w" by (simp add: unsigned_ucast_eq take_bit_int_eq_self)
  moreover have "- (2 ^ 31) \<le> uint w" by (rule order_trans [of _ 0]) simp_all
  ultimately have "sint (ucast w :: u32) = uint w" using lt by (simp add: sint_uint signed_take_bit_int_eq_self)
  then show ?thesis by (simp add: int_of_DWORD_def)
qed

lemma bytes_pages_small:
  assumes "0 < unat w" and "unat w \<le> 2 ^ 40"
  shows "bytes_pages w = int ((unat w + 1023) div 1024)" and "(unat w + 1023) div 1024 < 2 ^ 31"
proof -
  let ?n = "(unat w + 1023) div 1024"
  show n: "?n < 2 ^ 31" using assms(2) by simp
  have "unat (w + 1023) = unat w + 1023" using assms(2) by (simp add: unat_word_ariths)
  moreover have "w + 1024 - 1 = w + 1023" "unat (1024 :: DWORD) = 1024" by simp_all
  ultimately have "unat ((w + 1024 - 1) div 1024) = ?n" by (simp only: unat_div)
  then have "(w + 1024 - 1) div 1024 = word_of_nat ?n" 
    using n by (simp only: word_unat_eq_iff unat_of_nat) simp
  moreover have "uint (ucast (word_of_nat ?n :: DWORD) :: u32) = int ?n"
    using n by (simp add: unsigned_ucast_eq unsigned_of_nat take_bit_int_eq_self take_bit_nat_eq_self)
  then have "sint (ucast (word_of_nat ?n :: DWORD) :: u32) = int ?n"
    using n by (simp add: sint_uint signed_take_bit_int_eq_self)
  ultimately show "bytes_pages w = int ?n"
    by (simp add: bytes_pages_def int_of_DWORD_def PKT_PAGE_SIZE_def)
qed

lemma request_type_least:
  assumes "0 < unat w" and "unat w \<le> 2 ^ 40"
  shows "\<exists>t. request_type w = Some t \<and> t \<le> 30 \<and> unat w \<le> 2 ^ t * 1024 \<and>
    (\<forall>u. unat w \<le> 2 ^ u * 1024 \<longrightarrow> t \<le> u)"
proof -
  define n where "n = (unat w + 1023) div 1024"
  have n: "1 \<le> n" "n \<le> 2 ^ 30" using assms by (auto simp: n_def)
  have le: "unat w \<le> k * 1024 \<longleftrightarrow> n \<le> k" for k by (auto simp: n_def)
  obtain k where k: "2 ^ k \<le> n" "n < 2 ^ Suc k" using ex_power_ivl1 [of 2 n] n(1) by auto
  have "(2::nat) ^ k \<le> 2 ^ 30" using k(1) n(2) by linarith
  then have k30: "k \<le> 30" by (rule power_le_imp_le_exp [rotated]) simp
  define t where "t = (if n = 2 ^ k then k else k + 1)"
  have "request_type w = Some t"
    using pages_type_power [OF k] k30 bytes_pages_small [OF assms]
    by (simp add: request_type_def t_def n_def)
  moreover have "n \<le> 2 ^ t" using k by (auto simp: t_def)
  moreover have "t \<le> 30"
  proof (cases "n = 2 ^ k")
    case False
    then have "(2::nat) ^ k < 2 ^ 30" using k n(2) by linarith
    then have "k < 30" by (rule power_less_imp_less_exp [rotated]) simp
    then show ?thesis by (simp add: t_def)
  qed (use k30 in \<open>simp add: t_def\<close>)
  moreover have "t \<le> u" if "n \<le> 2 ^ u" for u
  proof (rule ccontr)
    assume "\<not> t \<le> u"
    then have "u < k \<or> u = k \<and> n \<noteq> 2 ^ k" by (auto simp: t_def split: if_splits)
    then show False
    proof
      assume "u < k"
      then have "(2::nat) ^ u < 2 ^ k" by (intro power_strict_increasing) auto
      then show False using k(1) that by linarith
    qed (use that k(1) in auto)
  qed
  ultimately show ?thesis by (auto simp: le)
qed

subsection \<open>The constructor\<close>

lemma level_ok_new:
  assumes "bit n ty \<Longrightarrow> n div 2 ^ ty - 1 < sz"
  shows "level_ok (new_level n ty sz b) (if bit n ty then {n div 2 ^ ty - 1} else {})"
  unfolding level_ok_def using assms
  by (intro conjI exI [of _ "if bit n ty then [n div 2 ^ ty - 1] else []"])
     (auto simp: new_level_def Let_def next_of_def prev_of_def set_next_def set_prev_def)

lemma bit_32: "bit (32 :: nat) i \<longleftrightarrow> i = 5"
proof -
  have "(32 :: nat) = 2 ^ 5" by simp
  then show ?thesis by (simp only: bit_exp_iff) auto
qed

lemma new_levels_32:
  "\<exists>P. new_levels PAGES 0 PAGES raw = (6, P) \<and>
     (\<forall>i < 6. level_ok (P i) (if i = 5 then {0} else {}) \<and> 2 ^ 5 \<le> nCount (P i) * 2 ^ i)"
proof -
  have P0: "new_levels PAGES 0 PAGES raw = (6, raw(0 := new_level 32 0 32 (raw 0),
      Suc 0 := new_level 32 (Suc 0) 16 (raw (Suc 0)),
      Suc (Suc 0) := new_level 32 (Suc (Suc 0)) 8 (raw (Suc (Suc 0))),
      Suc (Suc (Suc 0)) := new_level 32 (Suc (Suc (Suc 0))) 4 (raw (Suc (Suc (Suc 0)))),
      Suc (Suc (Suc (Suc 0))) := new_level 32 (Suc (Suc (Suc (Suc 0)))) 2 (raw (Suc (Suc (Suc (Suc 0))))),
      Suc (Suc (Suc (Suc (Suc 0)))) := new_level 32 (Suc (Suc (Suc (Suc (Suc 0))))) (Suc (Suc 0))
        (raw (Suc (Suc (Suc (Suc (Suc 0))))))))"
    by (simp add: PAGES_def PKT_PAGE_SIZE_def new_levels.simps even_up_def)
  define P where "P = snd (new_levels PAGES 0 PAGES raw)"
  have "new_levels PAGES 0 PAGES raw = (6, P)" by (simp add: P_def P0)
  moreover have "P 0 = new_level 32 0 32 (raw 0)" "P 1 = new_level 32 1 16 (raw 1)"
      "P 2 = new_level 32 2 8 (raw 2)" "P 3 = new_level 32 3 4 (raw 3)"
      "P 4 = new_level 32 4 2 (raw 4)" "P 5 = new_level 32 5 (Suc 1) (raw 5)"
    by (simp_all add: P_def P0 eval_nat_numeral del: mult_Suc)
  note P = this
  moreover have "level_ok (P i) (if i = 5 then {0} else {}) \<and> 2 ^ 5 \<le> nCount (P i) * 2 ^ i" if "i < 6" for i
  proof -
    have c: "nCount (new_level n ty k b) = k" for n ty k b
      by (simp add: new_level_def Let_def)
    have l: "level_ok (new_level 32 ty k b) {}" if "ty \<noteq> 5" for ty k b
      using level_ok_new [of 32 ty k b] that by (simp add: bit_32)
    have l5: "level_ok (new_level 32 5 k b) {0}" if "0 < k" for k b
      using level_ok_new [of 32 5 k b, unfolded bit_32] that by simp
    have "i \<in> {0, 1, 2, 3, 4, 5}" using that by auto
    then show ?thesis
      by (elim insertE emptyE) (simp_all add: P c l l5 del: One_nat_def)
  qed
  ultimately show ?thesis by blast
qed

text \<open>
  Larger requests lose their high bits: one byte more than 4 TiB gets a single page, and the
  last kilobyte of the range is undefined.
\<close>

lemma request_type_truncated: "request_type (2 ^ 42 + 1) = Some 0"
  by code_simp

lemma request_type_undefined: "request_type (- 1000) = None"
  by code_simp

end
