(* ===== verification/PacketClient.thy ===== *)
theory PacketClient
  imports Packet
begin

section \<open>Packets: the manager and its clients\<close>

text \<open>
  The invariant of the packet manager: every packet in use has no buffer or holds one block
  of pages, and these blocks and the free nodes tile the buffer. It holds in the manager
  the constructor makes and is kept by every function, so that any client of the functions
  for C gets buffers that are large enough and never overlap, for as long as it holds a
  reference.
\<close>

subsection \<open>The invariant of the manager\<close>

text \<open>The bytes of a packet's buffer.\<close>

definition buffer :: "CPacketManager \<Rightarrow> addr \<Rightarrow> addr set" where
  "buffer s a =
     (case m_pBuffer (packets s a) of
        None \<Rightarrow> {} | Some d \<Rightarrow> {d ..< d + unat (m_Size (packets s a))})"

definition holds :: "CPacketManager \<Rightarrow> addr \<Rightarrow> block \<Rightarrow> bool" where
  "holds s a b \<longleftrightarrow> fst b < 6 \<and>
     m_Size (packets s a) = word_of_nat (2 ^ fst b * PKT_PAGE_SIZE) \<and>
     m_pBuffer (packets s a) = Some (mgr_Buffer s + snd b * 2 ^ fst b * PKT_PAGE_SIZE)"

definition bufferless :: "CPacketManager \<Rightarrow> addr \<Rightarrow> bool" where
  "bufferless s a \<longleftrightarrow> m_Size (packets s a) = 0 \<and> m_pBuffer (packets s a) = None"

definition holding :: "CPacketManager \<Rightarrow> addr set \<Rightarrow> (addr \<Rightarrow> block option) \<Rightarrow> bool" where
  "holding s L blk \<longleftrightarrow>
     (\<forall>a \<in> L. case blk a of None \<Rightarrow> bufferless s a | Some b \<Rightarrow> holds s a b) \<and>
     (\<forall>a \<in> L. \<forall>c \<in> L. blk a \<noteq> None \<and> blk a = blk c \<longrightarrow> a = c)"

definition used_blocks :: "addr set \<Rightarrow> (addr \<Rightarrow> block option) \<Rightarrow> block set" where
  "used_blocks L blk = {b. \<exists>a \<in> L. blk a = Some b}"

definition manager_ok :: "CPacketManager \<Rightarrow> addr set \<Rightarrow> bool" where
  "manager_ok s L \<longleftrightarrow> mutex_free (mgr_Mutex s) \<and> m_nTypes s = 6 \<and> m_nPages s = 32 \<and> packets_ok s L \<and>
     (\<exists>blk. holding s L blk \<and> buddy_ok 6 (m_PBAs s) (used_blocks L blk))"

lemma type_size:
  assumes "ty < 6"
  shows "unat (word_of_nat (2 ^ ty * PKT_PAGE_SIZE) :: DWORD) = 2 ^ ty * PKT_PAGE_SIZE"
proof -
  have "(2::nat) ^ ty \<le> 2 ^ 6" using assms by (intro power_increasing) auto
  then show ?thesis by (simp only: unat_of_nat PKT_PAGE_SIZE_def) simp
qed

lemma holds_buffer:
  assumes "holds s a b"
  shows "buffer s a = {x. mgr_Buffer s \<le> x \<and> (x - mgr_Buffer s) div PKT_PAGE_SIZE \<in> pages b}"
proof -
  obtain ty k where b: "b = (ty, k)" by fastforce
  have "buffer s a = {mgr_Buffer s + k * 2 ^ ty * 1024 ..< mgr_Buffer s + k * 2 ^ ty * 1024 + 2 ^ ty * 1024}"
    using assms type_size [of ty] by (simp add: buffer_def holds_def b PKT_PAGE_SIZE_def)
  also have "\<dots> = {x. mgr_Buffer s \<le> x \<and> k * 2 ^ ty * 1024 \<le> x - mgr_Buffer s \<and>
      x - mgr_Buffer s < Suc k * 2 ^ ty * 1024}"
    by auto
  finally show ?thesis
    by (simp add: b pages_interval PKT_PAGE_SIZE_def less_eq_div_iff_mult_less_eq div_less_iff_less_mult)
qed

lemma manager_ok_buffers:
  assumes ok: "manager_ok s L" and a: "a \<in> L"
  shows "buffer s a \<subseteq> {mgr_Buffer s ..< mgr_Buffer s + m_nPages s * PKT_PAGE_SIZE}"
    and "c \<in> L \<Longrightarrow> c \<noteq> a \<Longrightarrow> buffer s a \<inter> buffer s c = {}"
proof -
  obtain blk where blk: "holding s L blk" "buddy_ok 6 (m_PBAs s) (used_blocks L blk)" "m_nPages s = 32"
    using ok by (auto simp: manager_ok_def)
  have none: "buffer s a = {}" if "a \<in> L" "blk a = None" for a
    using blk(1) that by (auto simp: holding_def bufferless_def buffer_def)
  have some: "holds s a b \<and> b \<in> used_blocks L blk" if "a \<in> L" "blk a = Some b" for a b
    using blk(1) that by (fastforce simp: holding_def used_blocks_def)
  show "buffer s a \<subseteq> {mgr_Buffer s ..< mgr_Buffer s + m_nPages s * PKT_PAGE_SIZE}"
  proof (cases "blk a")
    case (Some b)
    obtain i k where b: "b = (i, k)" by fastforce
    have "pages b \<subseteq> {..<2 ^ 5}"
      unfolding b pages_bound using buddy_bound [OF blk(2), of i k] some [OF a Some] b by auto
    then show ?thesis
      unfolding holds_buffer [OF some [OF a Some, THEN conjunct1]] using blk(3)
      by (auto simp: PKT_PAGE_SIZE_def div_less_iff_less_mult subset_iff)
  qed (use none a in auto)
  show "buffer s a \<inter> buffer s c = {}" if "c \<in> L" "c \<noteq> a"
  proof (cases "blk a = None \<or> blk c = None")
    case False
    then obtain b d where bd: "blk a = Some b" "blk c = Some d" by auto
    have "b \<noteq> d" using blk(1) bd a that by (auto simp: holding_def)
    then have "pages b \<inter> pages d = {}"
      using blk(2) some [OF a bd(1)] some [OF that(1) bd(2)] by (auto simp: buddy_ok_def tiling_def)
    then show ?thesis
      unfolding holds_buffer [OF some [OF a bd(1), THEN conjunct1]]
        holds_buffer [OF some [OF that(1) bd(2), THEN conjunct1]]
      by auto
  qed (use none a that in auto)
qed

subsection \<open>GetPacket and PutPacket keep the invariant\<close>

lemma holding_subset:
  assumes "holding s L blk" and "L' \<subseteq> L" and "mgr_Buffer s' = mgr_Buffer s"
    and "\<And>a. a \<in> L' \<Longrightarrow> m_Size (packets s' a) = m_Size (packets s a) \<and>
      m_pBuffer (packets s' a) = m_pBuffer (packets s a)"
  shows "holding s' L' blk"
  unfolding holding_def
proof (intro conjI ballI impI)
  fix a
  assume a: "a \<in> L'"
  then have "case blk a of None \<Rightarrow> bufferless s a | Some b \<Rightarrow> holds s a b"
    using assms(1,2) by (auto simp: holding_def)
  then show "case blk a of None \<Rightarrow> bufferless s' a | Some b \<Rightarrow> holds s' a b"
    using assms(3) assms(4) [OF a] by (auto simp: holds_def bufferless_def split: option.splits)
  fix c
  assume "c \<in> L'" "blk a \<noteq> None \<and> blk a = blk c"
  then show "a = c" using assms(1,2) a unfolding holding_def by blast
qed

lemma manager_ok_cong:
  assumes "\<And>a. a \<in> L \<Longrightarrow> m_Size (packets s' a) = m_Size (packets s a) \<and>
      m_pBuffer (packets s' a) = m_pBuffer (packets s a)"
    and "mgr_Mutex s' = mgr_Mutex s" and "m_nTypes s' = m_nTypes s" and "m_nPages s' = m_nPages s"
    and "mgr_Buffer s' = mgr_Buffer s" and "m_PBAs s' = m_PBAs s"
    and "packets_ok s L \<Longrightarrow> packets_ok s' L"
    and "manager_ok s L"
  shows "manager_ok s' L"
proof -
  obtain blk where blk: "holding s L blk" "buddy_ok 6 (m_PBAs s) (used_blocks L blk)"
    using assms(8) by (auto simp: manager_ok_def)
  have "holding s' L blk" by (rule holding_subset [OF blk(1)]) (use assms(1,5) in auto)
  then show ?thesis using assms blk(2) by (auto simp: manager_ok_def)
qed

text \<open>A packet joins the packets in use with no buffer or with a block.\<close>

lemma manager_ok_join:
  assumes fr: "mutex_free (mgr_Mutex s')" "m_nTypes s' = 6" "m_nPages s' = 32"
    and pk: "packets_ok s' (insert a L)" and a: "a \<notin> L"
    and old: "holding s L blk" and same: "\<And>c. c \<in> L \<Longrightarrow> packets s' c = packets s c"
    and base: "mgr_Buffer s' = mgr_Buffer s"
    and new: "case b of None \<Rightarrow> bufferless s' a | Some x \<Rightarrow> holds s' a x \<and> x \<notin> used_blocks L blk"
    and bud: "buddy_ok 6 (m_PBAs s') (set_option b \<union> used_blocks L blk)"
  shows "manager_ok s' (insert a L)"
proof -
  let ?blk = "blk(a := b)"
  have "used_blocks (insert a L) ?blk = set_option b \<union> used_blocks L blk"
    using a by (auto simp: used_blocks_def)
  moreover have "holding s' (insert a L) ?blk"
    unfolding holding_def
  proof (intro conjI ballI impI)
    fix c
    assume c: "c \<in> insert a L"
    show "case ?blk c of None \<Rightarrow> bufferless s' c | Some x \<Rightarrow> holds s' c x"
    proof (cases "c = a")
      case False
      then have "packets s' c = packets s c" "case blk c of None \<Rightarrow> bufferless s c | Some x \<Rightarrow> holds s c x"
        using c same old by (auto simp: holding_def)
      then show ?thesis using False base by (auto simp: holds_def bufferless_def split: option.splits)
    qed (use new in \<open>auto split: option.splits\<close>)
    fix d
    assume "d \<in> insert a L" "?blk c \<noteq> None \<and> ?blk c = ?blk d"
    then show "c = d"
      using c old new by (fastforce simp: holding_def used_blocks_def split: if_splits option.splits)
  qed
  ultimately show ?thesis using fr pk bud by (auto simp: manager_ok_def)
qed

definition frees_run :: "CPacketManager \<Rightarrow> addr set \<Rightarrow> nat \<Rightarrow> nat \<Rightarrow> bool" where
  "frees_run s L ty k \<longleftrightarrow> Suc k * 2 ^ ty \<le> m_nPages s \<and>
     (\<forall>c \<in> L. {mgr_Buffer s + k * 2 ^ ty * PKT_PAGE_SIZE ..<
        mgr_Buffer s + Suc k * 2 ^ ty * PKT_PAGE_SIZE} \<inter> buffer s c = {})"

text \<open>A run of pages with no buffer in it is found.\<close>

lemma free_run_found:
  assumes hold: "holding s L blk" and bud: "buddy_ok 6 (m_PBAs s) (used_blocks L blk)"
    and n: "m_nPages s = 32" and run: "frees_run s L ty k"
  shows "find_free 6 (m_PBAs s) ty < 6"
proof -
  have pg: "pages (ty, k) \<subseteq> {..<2 ^ (6 - 1)}"
    unfolding pages_bound using run n by (simp add: frees_run_def)
  have "ty < 6"
  proof (rule ccontr)
    assume "\<not> ty < 6"
    then have "(2::nat) ^ 6 \<le> 2 ^ ty" by (intro power_increasing) auto
    moreover have "(2::nat) ^ ty \<le> Suc k * 2 ^ ty" by simp
    ultimately show False using pg unfolding pages_bound by simp
  qed
  have "pages (ty, k) \<inter> (\<Union>b \<in> used_blocks L blk. pages b) = {}"
  proof (rule ccontr)
    assume "pages (ty, k) \<inter> (\<Union>b \<in> used_blocks L blk. pages b) \<noteq> {}"
    then obtain p c b where p: "p \<in> pages (ty, k)" "c \<in> L" "blk c = Some b" "p \<in> pages b"
      by (auto simp: used_blocks_def)
    have "holds s c b" using hold p(2,3) by (fastforce simp: holding_def)
    then have "mgr_Buffer s + p * PKT_PAGE_SIZE \<in> buffer s c"
      using p(4) by (simp add: holds_buffer PKT_PAGE_SIZE_def)
    moreover have "k * 2 ^ ty * PKT_PAGE_SIZE \<le> p * PKT_PAGE_SIZE" "p * PKT_PAGE_SIZE < Suc k * 2 ^ ty * PKT_PAGE_SIZE"
      using p(1) by (auto simp: pages_interval PKT_PAGE_SIZE_def)
    then have "mgr_Buffer s + p * PKT_PAGE_SIZE \<in> {mgr_Buffer s + k * 2 ^ ty * PKT_PAGE_SIZE ..<
        mgr_Buffer s + Suc k * 2 ^ ty * PKT_PAGE_SIZE}"
      by simp
    moreover have "{mgr_Buffer s + k * 2 ^ ty * PKT_PAGE_SIZE ..<
        mgr_Buffer s + Suc k * 2 ^ ty * PKT_PAGE_SIZE} \<inter> buffer s c = {}"
      using run p(2) by (simp only: frees_run_def)
    ultimately show False by blast
  qed
  then obtain j m where "(j, m) \<in> free_nodes 6 (m_PBAs s)" "ty \<le> j"
    using coalesced_cover [of "2 ^ (6 - 1)" "free_nodes 6 (m_PBAs s)" "used_blocks L blk" 6 ty k] bud pg \<open>ty < 6\<close>
    by (auto simp: buddy_ok_def)
  then show ?thesis using find_free_none bud by (auto simp: buddy_ok_def)
qed

lemma power_int_small:
  assumes "ty < 31"
  shows "power_int ty = 2 ^ ty" and "is_power ty (2 ^ ty)"
proof -
  have "(2::int) ^ ty < 2 ^ 31" using assms by (intro power_strict_increasing) auto
  show "power_int ty = 2 ^ ty"
  proof -
    have "push_bit ty (1 :: u32) = word_of_int (2 ^ ty)" by (simp add: push_bit_eq_mult)
    moreover have "- (2 ^ 31) \<le> (2::int) ^ ty" by (rule order_trans [of _ 0]) simp_all
    ultimately show ?thesis using \<open>2 ^ ty < 2 ^ 31\<close>
      by (simp only: power_int_def signed_of_int) (simp add: signed_take_bit_int_eq_self)
  qed
  show "is_power ty (2 ^ ty)" by (simp add: is_power_def push_bit_eq_mult)
qed

text \<open>What a call of \<open>GetPacket\<close> may give.\<close>

definition got_packet :: "DWORD \<Rightarrow> CPacketManager \<Rightarrow> addr set \<Rightarrow> addr \<Rightarrow> CPacketManager \<Rightarrow> bool" where
  "got_packet w s L a s' \<longleftrightarrow> a \<notin> L \<and> manager_ok s' (insert a L) \<and>
     m_RefCount (packets s' a) = 1 \<and> m_Length (packets s' a) = 0 \<and> w \<le> m_Size (packets s' a) \<and>
     (w = 0 \<longrightarrow> bufferless s' a) \<and>
     (w \<noteq> 0 \<longrightarrow> (\<exists>ty k. request_type w = Some ty \<and> holds s' a (ty, k)))"

lemma GetPacket_ok:
  assumes ok: "manager_ok s L" and new: "new_ok new" and w: "unat w \<le> 2 ^ 40"
  shows "\<exists>r s'. GetPacket t pl new w s = Done (Inr r, s') \<and> (\<forall>c \<in> L. packets s' c = packets s c) \<and>
    mgr_Buffer s' = mgr_Buffer s \<and> memory s' = memory s \<and>
    (case r of None \<Rightarrow> manager_ok s' L \<and> w \<noteq> 0 \<and> (\<forall>k. \<not> frees_run s L (the (request_type w)) k)
     | Some a \<Rightarrow> got_packet w s L a s')"
proof -
  obtain blk where blk: "holding s L blk" "buddy_ok 6 (m_PBAs s) (used_blocks L blk)"
    and fr: "mutex_free (mgr_Mutex s)" "m_nTypes s = 6" "m_nPages s = 32" "packets_ok s L"
    using ok by (auto simp: manager_ok_def)
  obtain a s1 where al: "AllocPacket pl new s = (Some a, s1)" "a \<notin> L" "packets_ok s1 (insert a L)"
      "s1 = s\<lparr>packets := packets s1, packet_blocks := packet_blocks s1, m_pFreeList := m_pFreeList s1\<rparr>"
      "\<forall>b \<in> L. packets s1 b = packets s b"
    using AllocPacket_ok [OF fr(4) new] by blast
  have rest: "mgr_Buffer s1 = mgr_Buffer s" "mgr_Mutex s1 = mgr_Mutex s" "m_PBAs s1 = m_PBAs s"
      "m_nTypes s1 = 6" "m_nPages s1 = 32" "memory s1 = memory s"
    by (subst al(4), simp add: fr)+
  let ?s2 = "set_packet a Init s1"
  have pk2: "packets_ok ?s2 (insert a L)"
    using al(3) by (subst packets_ok_cong [of _ s1]) auto
  have body: "GetPacket t pl new w s = Done (x, s')"
    if "GetPacket_body pl new w s = Done (x, s')" "mgr_Mutex s' = mgr_Mutex s" for x s'
    using that by (cases s') (simp add: GetPacket_def packets_locked_free [OF fr(1)])
  have same: "packets s' c = packets s c" if "\<forall>c. c \<noteq> a \<longrightarrow> packets s' c = packets s1 c" "c \<in> L" for s' c
    using that al(2,5) by auto
  show ?thesis
  proof (cases "w = 0")
    case True
    let ?s3 = "set_packet a (\<lambda>k. k\<lparr>m_Size := 0, m_pBuffer := None\<rparr>) ?s2"
    have "packets_ok ?s3 (insert a L)"
      using pk2 by (subst packets_ok_cong [of _ ?s2]) auto
    then have "manager_ok ?s3 (insert a L)"
      by (rule manager_ok_join [where b = None, rotated 3])
         (use al(2,5) rest fr blk in \<open>auto simp: bufferless_def\<close>)
    moreover have "GetPacket t pl new w s = Done (Inr (Some a), ?s3)"
      by (rule body) (simp_all add: GetPacket_body_def al(1) True rest)
    ultimately show ?thesis
      using True al(2) rest same [of ?s3] by (auto simp: got_packet_def bufferless_def)
  next
    case False
    then have "0 < unat w" by (simp add: unat_gt_0)
    then obtain ty where ty: "request_type w = Some ty" "unat w \<le> 2 ^ ty * 1024"
      using request_type_least [OF _ w] by auto
    let ?i = "find_free 6 (m_PBAs s) ty"
    show ?thesis
    proof (cases "?i < 6")
      case False
      let ?s3 = "FreePacket a ?s2"
      have "packets_ok ?s3 (insert a L - {a})" by (rule FreePacket_ok [OF pk2]) simp
      then have "packets_ok ?s3 L" using al(2) by simp
      then have "manager_ok ?s3 L"
        using al(2,5) rest fr by (intro manager_ok_cong [OF _ _ _ _ _ _ _ ok]) (auto simp: FreePacket_def)
      moreover have "GetPacket t pl new w s = Done (Inr None, ?s3)"
        by (rule body) (use False in \<open>simp_all add: GetPacket_body_def al(1) \<open>w \<noteq> 0\<close> rest ty(1) FreePacket_def\<close>)
      moreover have "\<not> frees_run s L ty k" for k
        using free_run_found [OF blk fr(3)] False by blast
      moreover have "\<forall>c \<in> L. packets ?s3 c = packets s c" "mgr_Buffer ?s3 = mgr_Buffer s" "memory ?s3 = memory s"
        using same [of ?s3] rest by (auto simp: FreePacket_def)
      ultimately show ?thesis using \<open>w \<noteq> 0\<close> ty(1) by auto
    next
      case True
      have lv: "levels_ok 6 (m_PBAs s)" using blk(2) by (simp add: buddy_ok_def)
      obtain h where h: "pHeader (m_PBAs s ?i) = Some h" "(?i, h) \<in> free_nodes 6 (m_PBAs s)"
          "nIndex (pArray (m_PBAs s ?i) h) = h" "ty \<le> ?i"
        using find_free_found [OF lv True] by blast
      obtain P1 where P1: "at_level 6 ?i (RemoveFree h) (m_PBAs s) = Done P1"
          "buddy_ok 6 P1 (insert (?i, h) (used_blocks L blk))" "(?i, h) \<notin> used_blocks L blk"
        using buddy_take [OF blk(2) h(2)] by blast
      let ?k = "h * 2 ^ (?i - ty)"
      obtain P2 where P2: "split_nodes 6 ty ?i h P1 = Done (?k, P2)"
          "buddy_ok 6 P2 (insert (ty, ?k) (used_blocks L blk))" "(ty, ?k) \<notin> used_blocks L blk"
        using split_nodes_ok [OF P1(2,3) True h(4)] by blast
      have ty6: "ty < 6" using True h(4) by simp
      have pw: "power_int ty = 2 ^ ty" "is_power ty (2 ^ ty)"
        using power_int_small [of ty] ty6 by auto
      let ?s3 = "set_packet a (\<lambda>k. k\<lparr>m_Size := word_of_int (2 ^ ty * int PKT_PAGE_SIZE),
          m_pBuffer := Some (mgr_Buffer s + h * 2 ^ ?i * PKT_PAGE_SIZE)\<rparr>) ?s2\<lparr>m_PBAs := P2\<rparr>"
      have hold: "holds ?s3 a (ty, ?k)"
      proof -
        have "?k * 2 ^ ty = h * 2 ^ ?i" using h(4) by (simp add: power_add [symmetric] mult.assoc)
        then show ?thesis using ty6 rest by (auto simp: holds_def)
      qed
      have "packets_ok ?s3 (insert a L)"
        using pk2 by (subst packets_ok_cong [of _ ?s2]) auto
      then have "manager_ok ?s3 (insert a L)"
        by (rule manager_ok_join [where b = "Some (ty, ?k)", rotated 3])
           (use al(2,5) rest fr blk hold P2 in auto)
      moreover have "GetPacket t pl new w s = Done (Inr (Some a), ?s3)"
        by (rule body)
           (use True in \<open>simp_all add: GetPacket_body_def al(1) \<open>w \<noteq> 0\<close> rest ty(1) h(1,3) P1(1) P2(1) pw\<close>)
      moreover have "w \<le> m_Size (packets ?s3 a)"
        using ty(2) type_size [OF ty6] hold by (simp add: holds_def word_le_nat_alt PKT_PAGE_SIZE_def)
      ultimately show ?thesis
        using \<open>w \<noteq> 0\<close> al(2) rest same [of ?s3] ty(1) hold by (auto simp: got_packet_def)
    qed
  qed
qed

lemma PutPacket_ok:
  assumes ok: "manager_ok s L" and a: "a \<in> L"
  shows "\<exists>s'. PutPacket t (Some a) s = Done ((), s') \<and> manager_ok s' (L - {a}) \<and>
    (\<forall>c. c \<noteq> a \<longrightarrow> packets s' c = packets s c) \<and> mgr_Buffer s' = mgr_Buffer s \<and> memory s' = memory s"
proof -
  obtain blk where blk: "holding s L blk" "buddy_ok 6 (m_PBAs s) (used_blocks L blk)"
    and fr: "mutex_free (mgr_Mutex s)" "m_nTypes s = 6" "m_nPages s = 32" "packets_ok s L"
    using ok by (auto simp: manager_ok_def)
  have put: ?thesis
    if body: "PutPacket_body (Some a) s = Done ((), FreePacket a (s\<lparr>m_PBAs := P\<rparr>))"
      and bud: "buddy_ok 6 P (used_blocks (L - {a}) blk)" for P
  proof -
    let ?s = "FreePacket a (s\<lparr>m_PBAs := P\<rparr>)"
    have "packets_ok (s\<lparr>m_PBAs := P\<rparr>) L" using fr(4) by (subst packets_ok_cong [of _ s]) auto
    then have "packets_ok ?s (L - {a})" using a by (rule FreePacket_ok)
    moreover have "holding ?s (L - {a}) blk"
      by (rule holding_subset [OF blk(1)]) (auto simp: FreePacket_def)
    ultimately have "manager_ok ?s (L - {a})"
      using fr bud by (auto simp: manager_ok_def FreePacket_def)
    moreover have "PutPacket t (Some a) s = Done ((), ?s)"
      using body by (simp add: PutPacket_def packets_locked_free [OF fr(1)] FreePacket_def set_packet_def)
    ultimately show ?thesis by (auto simp: FreePacket_def)
  qed
  show ?thesis
  proof (cases "blk a")
    case None
    then have "bufferless s a" using blk(1) a by (auto simp: holding_def)
    then have "PutPacket_body (Some a) s = Done ((), FreePacket a (s\<lparr>m_PBAs := m_PBAs s\<rparr>))"
      by (simp add: PutPacket_body_def bufferless_def)
    moreover have "used_blocks (L - {a}) blk = used_blocks L blk"
      using None by (auto simp: used_blocks_def)
    ultimately show ?thesis using put blk(2) by metis
  next
    case (Some b)
    obtain ty k where b: "b = (ty, k)" by fastforce
    have hold: "holds s a (ty, k)" using blk(1) a Some b by (fastforce simp: holding_def)
    then have ty: "ty < 6" by (simp add: holds_def)
    have n2: "(2::nat) ^ ty < 2 ^ 6" using ty by (intro power_strict_increasing) auto
    have sz: "unat (m_Size (packets s a)) = 2 ^ ty * 1024"
      using hold type_size [OF ty] by (simp add: holds_def PKT_PAGE_SIZE_def)
    have sz0: "m_Size (packets s a) \<noteq> 0" using sz by (auto simp: unat_eq_0)
    have pg: "int_of_DWORD (m_Size (packets s a) div word_of_nat PKT_PAGE_SIZE) = int (2 ^ ty)"
    proof -
      have "unat (m_Size (packets s a) div word_of_nat PKT_PAGE_SIZE) = 2 ^ ty"
        by (simp add: unat_div sz PKT_PAGE_SIZE_def)
      then show ?thesis using n2 by (simp add: int_of_DWORD_small)
    qed
    have ty_eq: "pages_type (int (2 ^ ty)) = Some ty" "is_power ty (int (2 ^ ty))"
      using pages_type_power [of ty "2 ^ ty"] ty by auto
    have ix: "(mgr_Buffer s + k * 2 ^ ty * PKT_PAGE_SIZE - mgr_Buffer s) div PKT_PAGE_SIZE div nat (int (2 ^ ty)) = k"
      by (simp add: PKT_PAGE_SIZE_def nat_power_eq)
    let ?U = "used_blocks (L - {a}) blk"
    have "used_blocks L blk = insert (ty, k) ?U" using Some a b by (auto simp: used_blocks_def)
    moreover have "(ty, k) \<notin> ?U" using blk(1) a Some b by (fastforce simp: holding_def used_blocks_def)
    ultimately obtain P where P: "merge_nodes 6 ty k (m_PBAs s) = Done P" "buddy_ok 6 P ?U"
      using merge_nodes_ok [of 6 "m_PBAs s" ty k ?U] blk(2) ty by auto
    have "m_pBuffer (packets s a) = Some (mgr_Buffer s + k * 2 ^ ty * PKT_PAGE_SIZE)"
      using hold by (simp add: holds_def)
    then have "PutPacket_body (Some a) s = Done ((), FreePacket a (s\<lparr>m_PBAs := P\<rparr>))"
      using ty_eq P(1) by (simp only: PutPacket_body_def option.case pg ix sz0 fr(2) if_False Let_def) simp
    then show ?thesis using P(2) by (rule put)
  qed
qed

subsection \<open>The functions of a packet on a manager in order\<close>

lemma manager_packet_free: "manager_ok s L \<Longrightarrow> a \<in> L \<Longrightarrow> mutex_free (m_Mutex (packets s a))"
  by (auto simp: manager_ok_def packets_ok_def)

lemma manager_ok_set_packet:
  assumes "manager_ok s L"
    and "\<And>k. m_pNext (f k) = m_pNext k" "\<And>k. m_Mutex (f k) = m_Mutex k"
    and "\<And>k. m_Size (f k) = m_Size k" "\<And>k. m_pBuffer (f k) = m_pBuffer k"
  shows "manager_ok (set_packet a f s) L"
  by (rule manager_ok_cong [OF _ _ _ _ _ _ _ assms(1)])
     (use assms(2-5) packets_ok_cong [of "set_packet a f s" s L] in auto)

lemma manager_ok_memory: "manager_ok s L \<Longrightarrow> manager_ok (s\<lparr>memory := m\<rparr>) L"
  by (rule manager_ok_cong [of _ _ s]) (auto simp: packets_ok_def)

text \<open>A locked function that leaves the mutex alone gives the state of its body.\<close>

lemma packet_locked_Done:
  assumes "mutex_free (m_Mutex (packets s a))" and "body s = Done (x, s')"
    and "m_Mutex (packets s' a) = m_Mutex (packets s a)"
  shows "packet_locked t a body s = Done (x, s')"
proof -
  have "set_packet a (\<lambda>k. k\<lparr>m_Mutex := m_Mutex (packets s a)\<rparr>) s' = s'"
    using assms(3) by (cases s') (auto simp: set_packet_def fun_eq_iff)
  then show ?thesis using assms(2) by (simp add: packet_locked_free [OF assms(1)])
qed

lemma AddRef_ok:
  assumes "manager_ok s L" and "a \<in> L"
  shows "AddRef t a s = Done (m_RefCount (packets s a) + 1,
    set_packet a (\<lambda>k. k\<lparr>m_RefCount := m_RefCount k + 1\<rparr>) s)"
  unfolding AddRef_def
  by (rule packet_locked_Done [OF manager_packet_free [OF assms]]) (simp_all add: Let_def)

lemma Release_ok:
  assumes ok: "manager_ok s L" and a: "a \<in> L" and r: "m_RefCount (packets s a) \<noteq> 0"
  shows "\<exists>s'. Release t a s = Done (m_RefCount (packets s a) - 1, s') \<and>
    manager_ok s' (if m_RefCount (packets s a) = 1 then L - {a} else L) \<and>
    (m_RefCount (packets s a) \<noteq> 1 \<longrightarrow> packets s' a = (packets s a)\<lparr>m_RefCount := m_RefCount (packets s a) - 1\<rparr>) \<and>
    (\<forall>c. c \<noteq> a \<longrightarrow> packets s' c = packets s c) \<and> mgr_Buffer s' = mgr_Buffer s \<and> memory s' = memory s"
proof -
  let ?s = "set_packet a (\<lambda>k. k\<lparr>m_RefCount := m_RefCount k - 1\<rparr>) s"
  have b: "packet_locked t a (Release_body a) s = Done (m_RefCount (packets s a) - 1, ?s)"
    by (rule packet_locked_Done [OF manager_packet_free [OF ok a]]) (simp_all add: Release_body_def r Let_def)
  have ok': "manager_ok ?s L" by (rule manager_ok_set_packet [OF ok]) simp_all
  show ?thesis
  proof (cases "m_RefCount (packets s a) = 1")
    case True
    obtain s' where s': "PutPacket t (Some a) ?s = Done ((), s')" "manager_ok s' (L - {a})"
        "\<forall>c. c \<noteq> a \<longrightarrow> packets s' c = packets ?s c" "mgr_Buffer s' = mgr_Buffer ?s" "memory s' = memory ?s"
      using PutPacket_ok [OF ok' a] by blast
    have "Release t a s = Done (m_RefCount (packets s a) - 1, s')"
      using b s'(1) True by (simp add: Release_def)
    then show ?thesis using s' True by simp
  next
    case False
    then have "Release t a s = Done (m_RefCount (packets s a) - 1, ?s)"
      using b by (simp add: Release_def)
    then show ?thesis using ok' False by simp
  qed
qed

text \<open>
  \<^verbatim>\<open>PutBuffer\<close> copies to the start of the buffer, whatever the packet already holds, and adds
  the number of bytes copied to the length.
\<close>

lemma PutBuffer_ok:
  assumes ok: "manager_ok s L" and a: "a \<in> L" and len: "m_Length (packets s a) \<le> m_Size (packets s a)"
    and w: "unat w \<le> length pdat"
  shows "\<exists>n s'. PutBuffer t a pdat w s = Done (n, s') \<and>
    unat n = min (unat (m_Size (packets s a)) - unat (m_Length (packets s a))) (unat w) \<and>
    m_Length (packets s' a) = m_Length (packets s a) + n \<and> m_Length (packets s' a) \<le> m_Size (packets s a) \<and>
    (\<forall>c. packets s' c = (packets s c)\<lparr>m_Length := m_Length (packets s' c)\<rparr> \<and>
       (c \<noteq> a \<longrightarrow> packets s' c = packets s c)) \<and>
    (\<forall>i < unat n. \<exists>d. m_pBuffer (packets s a) = Some d \<and> memory s' (d + i) = pdat ! i) \<and>
    (\<forall>d j. m_pBuffer (packets s a) = Some d \<and> unat n \<le> j \<longrightarrow> memory s' (d + j) = memory s (d + j)) \<and>
    (\<forall>x. memory s' x \<noteq> memory s x \<longrightarrow> x \<in> buffer s a) \<and> manager_ok s' L \<and> mgr_Buffer s' = mgr_Buffer s"
proof -
  let ?k = "packets s a"
  define n where "n = (if m_Size ?k - m_Length ?k < w then m_Size ?k - m_Length ?k else w)"
  have left: "unat (m_Size ?k - m_Length ?k) = unat (m_Size ?k) - unat (m_Length ?k)"
    using len by (rule unat_sub)
  have n: "unat n = min (unat (m_Size ?k) - unat (m_Length ?k)) (unat w)"
    by (auto simp: n_def word_less_nat_alt left min_def)
  have le: "unat (m_Length ?k) \<le> unat (m_Size ?k)" using len by (simp add: word_le_nat_alt)
  have len': "unat (m_Length ?k + n) = unat (m_Length ?k) + unat n" "m_Length ?k + n \<le> m_Size ?k"
  proof -
    have "unat (m_Length ?k) + unat n \<le> unat (m_Size ?k)" using n le by linarith
    moreover have "unat (m_Size ?k) < 2 ^ 64" by (rule order_less_le_trans [OF unsigned_less]) simp
    ultimately show "unat (m_Length ?k + n) = unat (m_Length ?k) + unat n"
      by (simp add: unat_word_ariths)
    with \<open>unat (m_Length ?k) + unat n \<le> unat (m_Size ?k)\<close> show "m_Length ?k + n \<le> m_Size ?k"
      by (simp add: word_le_nat_alt)
  qed
  have buf: "m_pBuffer ?k \<noteq> None" if "unat n \<noteq> 0"
  proof -
    obtain blk where "holding s L blk" using ok by (auto simp: manager_ok_def)
    then have "bufferless s a \<or> (\<exists>b. holds s a b)" using a by (auto simp: holding_def split: option.splits)
    then show ?thesis using that n by (auto simp: bufferless_def holds_def)
  qed
  obtain m where m: "memcpy (m_pBuffer ?k) pdat (unat n) (memory s) = Done m"
      "\<forall>i < unat n. \<exists>d. m_pBuffer ?k = Some d \<and> m (d + i) = pdat ! i"
      "\<forall>x. m x \<noteq> memory s x \<longrightarrow> x \<in> buffer s a"
      "\<forall>d j. m_pBuffer ?k = Some d \<and> unat n \<le> j \<longrightarrow> m (d + j) = memory s (d + j)"
  proof (cases "unat n = 0")
    case True
    then show ?thesis using that [of "memory s"] by (simp add: memcpy_def)
  next
    case False
    then obtain d where d: "m_pBuffer ?k = Some d" using buf by auto
    have "unat n \<le> length pdat" "unat n \<le> unat (m_Size ?k)" using n w by auto
    then show ?thesis
      using that [of "\<lambda>x. if d \<le> x \<and> x < d + unat n then pdat ! (x - d) else memory s x"] d False
      by (simp add: memcpy_def buffer_def)
  qed
  let ?s = "set_packet a (\<lambda>k. k\<lparr>m_Length := m_Length k + n\<rparr>) (s\<lparr>memory := m\<rparr>)"
  have "PutBuffer t a pdat w s = Done (n, ?s)"
    unfolding PutBuffer_def
    by (rule packet_locked_Done [OF manager_packet_free [OF ok a]])
       (simp_all add: Let_def n_def [symmetric] m(1))
  moreover have "manager_ok ?s L"
    by (rule manager_ok_set_packet [OF manager_ok_memory [OF ok]]) simp_all
  ultimately show ?thesis
    using n m(2-4) len'(2) by (intro exI [of _ n] exI [of _ ?s]) auto
qed

subsection \<open>Clients of the C functions\<close>

text \<open>
  A client holds a list of handles, one for every reference it owns. It allocates, takes and
  gives back references, sets the length and fills packets it holds; an operation on a
  handle it has not got is skipped.
\<close>

datatype client_op =
    Client_Alloc DWORD
  | Client_AddRef nat
  | Client_Release nat
  | Client_SetLength nat DWORD
  | Client_Put nat "BYTE list"

definition no_block :: MEMORY_BLOCK where
  "no_block = \<lparr>handle = None, ptr = None, header = None, length_ = 0, size_ = 0,
     block_next = None, block_prev = None, flag1 = 0, flag2 = 0\<rparr>"

definition client_step ::
    "tid \<Rightarrow> platform \<Rightarrow> op_new \<Rightarrow> client_op \<Rightarrow> CPacketManager \<times> addr list \<Rightarrow>
     (CPacketManager \<times> addr list) outcome" where
  "client_step t pl new x sh =
     (let s = fst sh; held = snd sh in
      case x of
        Client_Alloc w \<Rightarrow>
          obind (MemoryAlloc t pl new (Some no_block) w s) (\<lambda>(_, b, s).
          case Option.bind b handle of
            None \<Rightarrow> Done (s, held)
          | Some a \<Rightarrow> Done (s, held @ [a]))
      | Client_AddRef i \<Rightarrow>
          if i < length held then
            obind (MemoryAddRef t (Some (held ! i)) s) (\<lambda>(_, s). Done (s, held @ [held ! i]))
          else Done sh
      | Client_Release i \<Rightarrow>
          if i < length held then
            obind (MemoryRelease t (Some (held ! i)) s) (\<lambda>(_, s).
            Done (s, take i held @ drop (Suc i) held))
          else Done sh
      | Client_SetLength i w \<Rightarrow>
          if i < length held then
            obind (MemorySetLength (Some (held ! i)) w s) (\<lambda>(_, s). Done (s, held))
          else Done sh
      | Client_Put i xs \<Rightarrow>
          if i < length held then
            obind (PutBuffer t (held ! i) xs (word_of_nat (length xs)) s) (\<lambda>(_, s). Done (s, held))
          else Done sh)"

fun client_run ::
    "tid \<Rightarrow> platform \<Rightarrow> op_new \<Rightarrow> client_op list \<Rightarrow> CPacketManager \<times> addr list \<Rightarrow>
     (CPacketManager \<times> addr list) outcome" where
  "client_run t pl new [] sh = Done sh"
| "client_run t pl new (x # xs) sh = obind (client_step t pl new x sh) (client_run t pl new xs)"

definition request_ok :: "client_op \<Rightarrow> bool" where
  "request_ok x \<longleftrightarrow> (case x of Client_Alloc w \<Rightarrow> unat w \<le> 2 ^ 40 | _ \<Rightarrow> True)"

definition client_ok :: "addr \<Rightarrow> (addr \<Rightarrow> BYTE) \<Rightarrow> CPacketManager \<Rightarrow> addr list \<Rightarrow> bool" where
  "client_ok base mem s held \<longleftrightarrow> manager_ok s (set held) \<and>
     (\<forall>a \<in> set held. unat (m_RefCount (packets s a)) = count_list held a \<and>
        m_Length (packets s a) \<le> m_Size (packets s a)) \<and>
     mgr_Buffer s = base \<and>
     (\<forall>x. memory s x \<noteq> mem x \<longrightarrow> base \<le> x \<and> x < base + PAGES * PKT_PAGE_SIZE)"

definition step_safe ::
    "tid \<Rightarrow> platform \<Rightarrow> op_new \<Rightarrow> addr \<Rightarrow> (addr \<Rightarrow> BYTE) \<Rightarrow> client_op \<Rightarrow> CPacketManager \<Rightarrow> addr list \<Rightarrow> bool" where
  "step_safe t pl new base mem x s held \<longleftrightarrow>
     (\<exists>s' held'. client_step t pl new x (s, held) = Done (s', held') \<and> client_ok base mem s' held' \<and>
        length held' \<le> length held + 1)"

lemma step_safeI:
  "client_step t pl new x (s, held) = Done (s', held') \<Longrightarrow> client_ok base mem s' held' \<Longrightarrow>
   length held' \<le> length held + 1 \<Longrightarrow> step_safe t pl new base mem x s held"
  by (auto simp: step_safe_def)

lemma client_ok_parts:
  assumes "client_ok base mem s held"
  shows "manager_ok s (set held)"
    and "a \<in> set held \<Longrightarrow> unat (m_RefCount (packets s a)) = count_list held a"
    and "a \<in> set held \<Longrightarrow> m_Length (packets s a) \<le> m_Size (packets s a)"
    and "mgr_Buffer s = base" "memory s x \<noteq> mem x \<Longrightarrow> base \<le> x \<and> x < base + PAGES * PKT_PAGE_SIZE"
  using assms by (auto simp: client_ok_def)

lemma step_safe_skip:
  assumes "client_ok base mem s held" and "\<not> i < length held"
  shows "step_safe t pl new base mem (Client_AddRef i) s held"
    and "step_safe t pl new base mem (Client_Release i) s held"
    and "step_safe t pl new base mem (Client_SetLength i w) s held"
    and "step_safe t pl new base mem (Client_Put i xs) s held"
  using assms by (auto simp: step_safe_def client_step_def)

lemma client_Alloc_ok:
  assumes ok: "client_ok base mem s held"
    and new: "new_ok new" and w: "unat w \<le> 2 ^ 40"
  shows "step_safe t pl new base mem (Client_Alloc w) s held"
proof -
  note mok = client_ok_parts(1) [OF ok] and ref = client_ok_parts(2) [OF ok]
    and len = client_ok_parts(3) [OF ok] and rest = client_ok_parts(4,5) [OF ok]
  obtain r s' where g: "GetPacket t pl new w s = Done (Inr r, s')" "\<forall>c \<in> set held. packets s' c = packets s c"
      "mgr_Buffer s' = mgr_Buffer s" "memory s' = memory s"
      "case r of None \<Rightarrow> manager_ok s' (set held) | Some a \<Rightarrow> got_packet w s (set held) a s'"
    using GetPacket_ok [OF mok new, of w t pl] w by (fastforce split: option.splits)
  show ?thesis
  proof (cases r)
    case None
    then have "client_step t pl new (Client_Alloc w) (s, held) = Done (s', held)"
      using g(1) by (simp add: client_step_def MemoryAlloc_def no_block_def)
    moreover have "client_ok base mem s' held"
      using g None ref len rest by (auto simp: client_ok_def)
    ultimately show ?thesis by (rule step_safeI) simp
  next
    case (Some a)
    then have gp: "a \<notin> set held" "manager_ok s' (insert a (set held))" "m_RefCount (packets s' a) = 1"
        "m_Length (packets s' a) = 0"
      using g(5) by (auto simp: got_packet_def)
    have "client_step t pl new (Client_Alloc w) (s, held) = Done (s', held @ [a])"
      using g(1) Some by (simp add: client_step_def MemoryAlloc_def)
    moreover have "client_ok base mem s' (held @ [a])"
      using g(2-4) gp ref len rest by (auto simp: client_ok_def)
    ultimately show ?thesis by (rule step_safeI) simp
  qed
qed

lemma client_AddRef_ok:
  assumes ok: "client_ok base mem s held"
    and i: "i < length held"
    and n: "length held + 1 < 2 ^ 64"
  shows "step_safe t pl new base mem (Client_AddRef i) s held"
proof -
  note mok = client_ok_parts(1) [OF ok] and ref = client_ok_parts(2) [OF ok]
    and len = client_ok_parts(3) [OF ok] and rest = client_ok_parts(4,5) [OF ok]
  let ?a = "held ! i"
  let ?s = "set_packet ?a (\<lambda>k. k\<lparr>m_RefCount := m_RefCount k + 1\<rparr>) s"
  have a: "?a \<in> set held" using i by simp
  have "client_step t pl new (Client_AddRef i) (s, held) = Done (?s, held @ [?a])"
    using AddRef_ok [OF mok a] i by (simp add: client_step_def MemoryAddRef_def)
  moreover have "unat (m_RefCount (packets s ?a) + 1) = count_list held ?a + 1"
    using ref [OF a] count_le_length [of held ?a] n by (simp add: unat_word_ariths)
  then have "client_ok base mem ?s (held @ [?a])"
    using manager_ok_set_packet [OF mok, of "\<lambda>k. k\<lparr>m_RefCount := m_RefCount k + 1\<rparr>" ?a] a ref len rest
    by (auto simp: client_ok_def insert_absorb)
  ultimately show ?thesis by (rule step_safeI) simp
qed

lemma client_Release_ok:
  assumes ok: "client_ok base mem s held"
    and i: "i < length held"
  shows "step_safe t pl new base mem (Client_Release i) s held"
proof -
  note mok = client_ok_parts(1) [OF ok] and ref = client_ok_parts(2) [OF ok]
    and len = client_ok_parts(3) [OF ok] and rest = client_ok_parts(4,5) [OF ok]
  let ?a = "held ! i" and ?h = "take i held @ drop (Suc i) held"
  have a: "?a \<in> set held" using i by simp
  have cnt: "count_list held c = count_list ?h c + (if c = ?a then 1 else 0)" for c
    by (subst id_take_nth_drop [OF i]) simp
  have set: "c \<in> set ?h \<longleftrightarrow> c \<in> set held \<and> (c = ?a \<longrightarrow> count_list held ?a \<noteq> 1)" for c
    using cnt [of c] count_list_0_iff [of held c] count_list_0_iff [of ?h c] by (auto split: if_splits)
  have r0: "m_RefCount (packets s ?a) \<noteq> 0"
    using ref [OF a] a count_list_0_iff [of held ?a] by (auto simp: unat_eq_0)
  have r1: "m_RefCount (packets s ?a) = 1 \<longleftrightarrow> count_list held ?a = 1"
    unfolding ref [OF a, symmetric] by (auto simp: word_unat_eq_iff)
  obtain s' where s': "Release t ?a s = Done (m_RefCount (packets s ?a) - 1, s')"
      "manager_ok s' (if m_RefCount (packets s ?a) = 1 then set held - {?a} else set held)"
      "m_RefCount (packets s ?a) \<noteq> 1 \<longrightarrow> packets s' ?a = (packets s ?a)\<lparr>m_RefCount := m_RefCount (packets s ?a) - 1\<rparr>"
      "\<forall>c. c \<noteq> ?a \<longrightarrow> packets s' c = packets s c" "mgr_Buffer s' = mgr_Buffer s" "memory s' = memory s"
    using Release_ok [OF mok a r0] by blast
  have "client_step t pl new (Client_Release i) (s, held) = Done (s', ?h)"
    using s'(1) i by (simp add: client_step_def MemoryRelease_def)
  moreover have "client_ok base mem s' ?h"
    unfolding client_ok_def
  proof (intro conjI ballI)
    have "set ?h = (if m_RefCount (packets s ?a) = 1 then set held - {?a} else set held)"
      using set r1 by auto
    then show "manager_ok s' (set ?h)" using s'(2) by simp
    fix c
    assume c: "c \<in> set ?h"
    have "unat (m_RefCount (packets s' c)) = count_list ?h c \<and> m_Length (packets s' c) \<le> m_Size (packets s' c)"
    proof (cases "c = ?a")
      case True
      then have "m_RefCount (packets s ?a) \<noteq> 1" using c set [of c] r1 by simp
      then have p: "packets s' ?a = (packets s ?a)\<lparr>m_RefCount := m_RefCount (packets s ?a) - 1\<rparr>"
        using s'(3) by simp
      show ?thesis unfolding True p
        using ref [OF a] cnt [of ?a] r0 len [OF a] by (simp add: unat_minus_one)
    next
      case False
      then show ?thesis using c set [of c] s'(4) ref [of c] len [of c] cnt [of c] by simp
    qed
    then show "unat (m_RefCount (packets s' c)) = count_list ?h c" "m_Length (packets s' c) \<le> m_Size (packets s' c)"
      by simp_all
  qed (use s'(5,6) rest in auto)
  ultimately show ?thesis by (rule step_safeI) (use i in simp)
qed

lemma client_SetLength_ok:
  assumes ok: "client_ok base mem s held"
    and i: "i < length held"
  shows "step_safe t pl new base mem (Client_SetLength i w) s held"
proof -
  note mok = client_ok_parts(1) [OF ok] and ref = client_ok_parts(2) [OF ok]
    and len = client_ok_parts(3) [OF ok] and rest = client_ok_parts(4,5) [OF ok]
  let ?a = "held ! i"
  define l where "l = (if m_Size (packets s ?a) < w then m_Size (packets s ?a) else w)"
  let ?s = "set_packet ?a (\<lambda>k. k\<lparr>m_Length := l\<rparr>) s"
  have "client_step t pl new (Client_SetLength i w) (s, held) = Done (?s, held)"
    using i by (simp add: client_step_def MemorySetLength_def SetLength_def Let_def l_def)
  moreover have "manager_ok ?s (set held)" by (rule manager_ok_set_packet [OF mok]) simp_all
  then have "client_ok base mem ?s held"
    using ref len rest unfolding client_ok_def by (auto simp: l_def)
  ultimately show ?thesis by (rule step_safeI) simp
qed

lemma client_Put_ok:
  assumes ok: "client_ok base mem s held"
    and i: "i < length held"
  shows "step_safe t pl new base mem (Client_Put i xs) s held"
proof -
  note mok = client_ok_parts(1) [OF ok] and ref = client_ok_parts(2) [OF ok]
    and len = client_ok_parts(3) [OF ok] and rest = client_ok_parts(4,5) [OF ok]
  let ?a = "held ! i"
  have a: "?a \<in> set held" using i by simp
  have w: "unat (word_of_nat (length xs) :: DWORD) \<le> length xs" by (simp add: unat_of_nat)
  obtain n s' where p: "PutBuffer t ?a xs (word_of_nat (length xs)) s = Done (n, s')"
      "m_Length (packets s' ?a) \<le> m_Size (packets s ?a)"
      "\<forall>c. packets s' c = (packets s c)\<lparr>m_Length := m_Length (packets s' c)\<rparr> \<and>
         (c \<noteq> ?a \<longrightarrow> packets s' c = packets s c)"
      "\<forall>x. memory s' x \<noteq> memory s x \<longrightarrow> x \<in> buffer s ?a" "manager_ok s' (set held)"
      "mgr_Buffer s' = mgr_Buffer s"
    using PutBuffer_ok [OF mok a len [OF a] w, of t] by blast
  have f: "m_RefCount (packets s' c) = m_RefCount (packets s c)" "m_Size (packets s' c) = m_Size (packets s c)" for c
    by (subst p(3) [rule_format, THEN conjunct1], simp)+
  have "m_nPages s = PAGES" using mok by (simp add: manager_ok_def PAGES_def PKT_PAGE_SIZE_def)
  then have "\<forall>x. memory s' x \<noteq> memory s x \<longrightarrow> base \<le> x \<and> x < base + PAGES * PKT_PAGE_SIZE"
    using p(4) manager_ok_buffers(1) [OF mok a] rest by auto
  then have "\<forall>x. memory s' x \<noteq> mem x \<longrightarrow> base \<le> x \<and> x < base + PAGES * PKT_PAGE_SIZE"
    using rest by metis
  moreover have "m_Length (packets s' c) \<le> m_Size (packets s' c)" if "c \<in> set held" for c
    using p(2,3) f len [OF that] by (cases "c = ?a") auto
  ultimately have ok': "client_ok base mem s' held"
    using p(5,6) rest ref f by (auto simp: client_ok_def)
  have "client_step t pl new (Client_Put i xs) (s, held) = Done (s', held)"
    using p(1) i by (simp add: client_step_def)
  from this ok' show ?thesis by (rule step_safeI) simp
qed

lemma client_step_ok:
  assumes ok: "client_ok base mem s held" and new: "new_ok new" and x: "request_ok x"
    and n: "length held + 1 < 2 ^ 64"
  shows "step_safe t pl new base mem x s held"
proof (cases x)
  case (Client_Alloc w)
  then show ?thesis using client_Alloc_ok [OF ok new] x by (simp add: request_ok_def)
next
  case (Client_AddRef i)
  then show ?thesis using client_AddRef_ok [OF ok _ n] step_safe_skip(1) [OF ok] by blast
next
  case (Client_Release i)
  then show ?thesis using client_Release_ok [OF ok] step_safe_skip(2) [OF ok] by blast
next
  case (Client_SetLength i w)
  then show ?thesis using client_SetLength_ok [OF ok] step_safe_skip(3) [OF ok] by blast
next
  case (Client_Put i xs)
  then show ?thesis using client_Put_ok [OF ok] step_safe_skip(4) [OF ok] by blast
qed

lemma client_run_ok:
  assumes "new_ok new"
  shows "client_ok base mem s held \<Longrightarrow> \<forall>x \<in> set xs. request_ok x \<Longrightarrow> length held + length xs < 2 ^ 64 \<Longrightarrow>
    \<exists>s' held'. client_run t pl new xs (s, held) = Done (s', held') \<and> client_ok base mem s' held'"
proof (induction xs arbitrary: s held)
  case (Cons x xs)
  then obtain s' held' where "client_step t pl new x (s, held) = Done (s', held')"
      "client_ok base mem s' held'" "length held' \<le> length held + 1"
    using client_step_ok [OF _ assms, of base mem s held x t pl] by (auto simp: step_safe_def)
  then show ?case using Cons.IH [of s' held'] Cons.prems by auto
qed simp

subsection \<open>The manager as the constructor makes it\<close>

lemma new_buddy_ok:
  assumes "\<forall>i < 6. level_ok (P i) (if i = 5 then {0} else {}) \<and> 2 ^ 5 \<le> nCount (P i) * 2 ^ i"
  shows "buddy_ok 6 P {}"
proof -
  have l: "level_ok (P i) (if i = 5 then {0} else {})" if "i < 6" for i using assms that by blast
  have f: "free_set (P i) = (if i = 5 then {0} else {})" if "i < 6" for i
    by (rule free_set_level [OF l [OF that]])
  have n: "free_nodes 6 P = {(5, 0)}" using f by (auto simp: free_nodes_def split: if_splits)
  have "pages (5, 0) = {..<2 ^ (6 - 1)}" by (auto simp: pages_interval)
  then have "tiling (2 ^ (6 - 1)) (free_nodes 6 P \<union> {})" by (simp only: n) (simp add: tiling_def)
  moreover have "levels_ok 6 P" using assms f by (simp add: levels_ok_def)
  ultimately show ?thesis by (simp add: buddy_ok_def coalesced_def n)
qed

lemma CPacketManager_new_ok:
  "client_ok (mgr_Buffer (CPacketManager_new pl origin raw pk mem)) mem
     (CPacketManager_new pl origin raw pk mem) []"
proof -
  let ?s = "CPacketManager_new pl origin raw pk mem"
  obtain P where P: "new_levels PAGES 0 PAGES raw = (6, P)"
      "\<forall>i < 6. level_ok (P i) (if i = 5 then {0} else {}) \<and> 2 ^ 5 \<le> nCount (P i) * 2 ^ i"
    using new_levels_32 by blast
  have s: "m_nTypes ?s = 6" "m_PBAs ?s = P" "m_nPages ?s = 32" "mgr_Mutex ?s = CEZMutex_new pl MUTEX_FAST"
      "m_pFreeList ?s = None" "memory ?s = mem"
    using P(1) by (simp_all add: CPacketManager_new_def PAGES_def PKT_PAGE_SIZE_def)
  have "packets_ok ?s {}"
    unfolding packets_ok_def by (intro exI [of _ "[]"]) (simp add: s)
  then have "manager_ok ?s {}"
    using new_buddy_ok [OF P(2)] mutex_new_free
    by (auto simp: manager_ok_def s holding_def used_blocks_def mutex_free_def)
  then show ?thesis by (simp add: client_ok_def s)
qed

subsection \<open>The pages in use\<close>

lemma walk_path:
  "path (next_of b) pv a xs z \<Longrightarrow> distinct (a # xs) \<Longrightarrow>
   walk_list b (last (a # xs)) (Some a) = Some (a # xs)"
proof (induction xs arbitrary: a)
  case Nil
  then show ?case by (simp add: walk_list.simps)
next
  case (Cons x xs)
  then have "a \<noteq> last (x # xs)" using last_in_set [of "x # xs"] by auto
  then show ?case using Cons by (subst walk_list.simps) simp
qed

lemma path_last: "path nx pv a xs z \<Longrightarrow> pv z = Some (last (a # xs))"
  by (induction xs arbitrary: a) auto

lemma level_nodes_ok:
  assumes "level_ok b S"
  shows "\<exists>ks. level_nodes b = Some ks \<and> distinct ks \<and> set ks = S"
proof -
  obtain ks where ks: "distinct ks" "set ks = S" "ring (next_of b) (prev_of b) ks"
      "pHeader b = (case ks of [] \<Rightarrow> None | k # _ \<Rightarrow> Some k)"
    using assms by (auto simp: level_ok_def)
  have "level_nodes b = Some ks"
  proof (cases ks)
    case (Cons h hs)
    then have "path (next_of b) (prev_of b) h hs h" "pHeader b = Some h" using ks by auto
    then show ?thesis
      using path_last walk_path [of b "prev_of b" h hs h] ks(1) Cons by (fastforce simp: level_nodes_def)
  qed (use ks in \<open>simp add: level_nodes_def\<close>)
  then show ?thesis using ks by blast
qed

lemma free_pages_sum:
  "levels_ok T P \<Longrightarrow> n \<le> T \<Longrightarrow> free_pages P n = Some (\<Sum>i<n. card (free_set (P i)) * 2 ^ i)"
proof (induction n)
  case (Suc n)
  then have "level_ok (P n) (free_set (P n))" by (simp add: levels_ok_def)
  then obtain ks where "level_nodes (P n) = Some ks" "distinct ks" "set ks = free_set (P n)"
    using level_nodes_ok by blast
  then show ?case using Suc distinct_card [of ks] by simp
qed simp

lemma finite_free_set: "level_ok b S \<Longrightarrow> finite S"
  by (auto simp: level_ok_def)

lemma card_pages: "card (pages b) = 2 ^ fst b"
  by (cases b) (simp add: pages_interval)

lemma tiling_sum:
  assumes "tiling n B"
  shows "(\<Sum>b \<in> B. 2 ^ fst b) = n" and "finite B"
proof -
  have "finite (pages ` B)" using assms by (auto simp: tiling_def intro: finite_UnionD)
  moreover have "inj_on pages B"
    using assms pages_nonempty unfolding inj_on_def tiling_def by (metis Int_absorb)
  ultimately show f: "finite B" by (rule finite_imageD)
  have "card (\<Union>b \<in> B. pages b) = (\<Sum>b \<in> B. card (pages b))"
    using assms f by (intro card_UN_disjoint) (auto simp: tiling_def pages_interval card_pages intro: card_ge_0_finite)
  then show "(\<Sum>b \<in> B. 2 ^ fst b) = n" using assms by (simp add: card_pages tiling_def)
qed

lemma usage_ok:
  assumes ok: "manager_ok s L" and L: "finite L"
  shows "usage s = Some ((\<Sum>a \<in> L. unat (m_Size (packets s a))) div PKT_PAGE_SIZE)"
proof -
  obtain blk where blk: "holding s L blk" "buddy_ok 6 (m_PBAs s) (used_blocks L blk)"
    and n: "m_nTypes s = 6" "m_nPages s = 32"
    using ok by (auto simp: manager_ok_def)
  let ?P = "m_PBAs s" and ?U = "used_blocks L blk"
  have lv: "levels_ok 6 ?P" and t: "tiling 32 (free_nodes 6 ?P \<union> ?U)" and d: "free_nodes 6 ?P \<inter> ?U = {}"
    using blk(2) by (auto simp: buddy_ok_def)
  have "(\<Sum>b \<in> free_nodes 6 ?P. 2 ^ fst b) = (\<Sum>i<6. card (free_set (?P i)) * 2 ^ i)"
  proof -
    have "(\<Sum>i<6. \<Sum>k \<in> free_set (?P i). 2 ^ i) = (\<Sum>(i, k) \<in> Sigma {..<6} (\<lambda>i. free_set (?P i)). 2 ^ i :: nat)"
      using lv finite_free_set by (intro sum.Sigma) (auto simp: levels_ok_def)
    then show ?thesis by (simp add: free_nodes_def case_prod_unfold)
  qed
  moreover have "(\<Sum>b \<in> free_nodes 6 ?P \<union> ?U. 2 ^ fst b :: nat) = (\<Sum>b \<in> free_nodes 6 ?P. 2 ^ fst b) + (\<Sum>b \<in> ?U. 2 ^ fst b)"
    using tiling_sum(2) [OF t] d by (intro sum.union_disjoint) auto
  ultimately have free: "free_pages ?P 6 = Some f \<and> f + (\<Sum>b \<in> ?U. 2 ^ fst b) = 32"
    if "f = (\<Sum>i<6. card (free_set (?P i)) * 2 ^ i)" for f
    using tiling_sum(1) [OF t] free_pages_sum [OF lv, of 6] that by simp
  have sz: "unat (m_Size (packets s a)) = (case blk a of None \<Rightarrow> 0 | Some b \<Rightarrow> 2 ^ fst b * PKT_PAGE_SIZE)"
    if "a \<in> L" for a
    using blk(1) that type_size by (fastforce simp: holding_def bufferless_def holds_def split: option.splits)
  have "(\<Sum>a \<in> L. unat (m_Size (packets s a))) = (\<Sum>a \<in> {a \<in> L. blk a \<noteq> None}. 2 ^ fst (the (blk a)) * PKT_PAGE_SIZE)"
    using L by (intro sum.mono_neutral_cong_right) (auto simp: sz split: option.splits)
  also have "\<dots> = (\<Sum>b \<in> ?U. 2 ^ fst b * PKT_PAGE_SIZE)"
  proof (rule sum.reindex_bij_betw)
    show "bij_betw (\<lambda>a. the (blk a)) {a \<in> L. blk a \<noteq> None} ?U"
      using blk(1) by (fastforce simp: bij_betw_def inj_on_def holding_def used_blocks_def image_iff)
  qed
  also have "\<dots> = (\<Sum>b \<in> ?U. 2 ^ fst b) * PKT_PAGE_SIZE" by (simp add: sum_distrib_right)
  finally have "(\<Sum>a \<in> L. unat (m_Size (packets s a))) div PKT_PAGE_SIZE = (\<Sum>b \<in> ?U. 2 ^ fst b)"
    by (simp add: PKT_PAGE_SIZE_def)
  then show ?thesis using free [OF refl] by (auto simp: usage_def n)
qed

text \<open>With no packet in use the buffer is one free node.\<close>

lemma empty_levels:
  assumes ok: "manager_ok s {}" and i: "i < 6"
  shows "level_nodes (m_PBAs s i) = Some (if i = 5 then [0] else [])"
proof -
  have b: "buddy_ok 6 (m_PBAs s) {}" using ok by (auto simp: manager_ok_def used_blocks_def)
  have "(5, 0) \<in> free_nodes 6 (m_PBAs s)"
  proof -
    obtain j m where jm: "(j, m) \<in> free_nodes 6 (m_PBAs s)" "5 \<le> j"
      using coalesced_cover [of "2 ^ (6 - 1)" "free_nodes 6 (m_PBAs s)" "{}" 6 5 0] b
      unfolding pages_bound by (auto simp: buddy_ok_def)
    then have j: "j = 5" by (auto simp: free_nodes_def)
    then have "m = 0" using buddy_bound [OF b, of 5 m] jm by simp
    then show ?thesis using jm j by simp
  qed
  moreover have "pages (5, 0) = {..<32}" by (auto simp: pages_interval)
  ultimately have "c = (5, 0)" if "c \<in> free_nodes 6 (m_PBAs s)" for c
    using tiling_overlap [of 32 "free_nodes 6 (m_PBAs s)" c "(5, 0)"] b that pages_nonempty [of c]
    by (fastforce simp: buddy_ok_def tiling_def)
  with \<open>(5, 0) \<in> _\<close> have "free_nodes 6 (m_PBAs s) = {(5, 0)}" by blast
  then have "free_set (m_PBAs s i) = (if i = 5 then {0} else {})"
    using i by (auto simp: free_nodes_def)
  moreover have "level_ok (m_PBAs s i) (free_set (m_PBAs s i))" using b i by (simp add: buddy_ok_def levels_ok_def)
  ultimately obtain ks where ks: "level_nodes (m_PBAs s i) = Some ks" "distinct ks"
      "set ks = (if i = 5 then {0} else {})"
    using level_nodes_ok [of "m_PBAs s i" "free_set (m_PBAs s i)"] by auto
  have "ks = (if i = 5 then [0] else [])"
    using ks(2,3) distinct_singleton [of ks] by (simp split: if_splits)
  then show ?thesis using ks(1) by simp
qed

subsection \<open>Properties\<close>

lemma client_history:
  assumes "new_ok new" and "\<forall>x \<in> set xs. request_ok x" and "length xs < 2 ^ 64"
  shows "\<exists>s held. client_run t pl new xs (CPacketManager_new pl origin raw pk mem, []) = Done (s, held) \<and>
    client_ok (mgr_Buffer (CPacketManager_new pl origin raw pk mem)) mem s held"
  using client_run_ok [OF assms(1) CPacketManager_new_ok assms(2)] assms(3) by auto

text \<open>
  C20. Whatever a client of the C functions does with the packets it has got - up to \<open>2 ^ 64\<close>
  operations, with requests of up to \<open>2 ^ 40\<close> bytes - no call fails an assertion, blocks or
  leaves the defined behaviour. The buffers of the packets it holds lie inside the memory the
  constructor took and never share a byte, every packet counts exactly the references the
  client owns, its length is at most its size, and no byte outside the buffer is written.
\<close>

theorem packet_history_safe:
  assumes "new_ok new" and "\<forall>x \<in> set xs. request_ok x" and "length xs < 2 ^ 64"
  shows "\<exists>s held. client_run t pl new xs (CPacketManager_new pl origin raw pk mem, []) = Done (s, held) \<and>
    (\<forall>a \<in> set held. buffer s a \<subseteq> {origin ..< origin + (PAGES + 1) * PKT_PAGE_SIZE} \<and>
       unat (m_RefCount (packets s a)) = count_list held a \<and>
       m_Length (packets s a) \<le> m_Size (packets s a) \<and>
       (\<forall>c \<in> set held. c = a \<or> buffer s a \<inter> buffer s c = {})) \<and>
    (\<forall>x. memory s x = mem x \<or> x \<in> {origin ..< origin + (PAGES + 1) * PKT_PAGE_SIZE})"
proof -
  let ?s0 = "CPacketManager_new pl origin raw pk mem"
  obtain s held where run: "client_run t pl new xs (?s0, []) = Done (s, held)"
      "client_ok (mgr_Buffer ?s0) mem s held"
    using client_history [OF assms] by blast
  note p = client_ok_parts [OF run(2)]
  have base: "mgr_Buffer ?s0 = (origin + PKT_PAGE_SIZE) div PKT_PAGE_SIZE * PKT_PAGE_SIZE"
    by (simp add: CPacketManager_new_def split: prod.split)
  have lo: "origin \<le> mgr_Buffer ?s0" "mgr_Buffer ?s0 \<le> origin + PKT_PAGE_SIZE"
    unfolding base PKT_PAGE_SIZE_def by auto
  have n: "m_nPages s = PAGES" using p(1) by (simp add: manager_ok_def PAGES_def PKT_PAGE_SIZE_def)
  have "buffer s a \<subseteq> {origin ..< origin + (PAGES + 1) * PKT_PAGE_SIZE}" if "a \<in> set held" for a
    using manager_ok_buffers(1) [OF p(1) that] lo p(4) n by auto
  moreover have "memory s x = mem x \<or> x \<in> {origin ..< origin + (PAGES + 1) * PKT_PAGE_SIZE}" for x
    using p(5) [of x] lo by auto
  ultimately show ?thesis
    using run(1) p(2,3) manager_ok_buffers(2) [OF p(1)] by blast
qed

text \<open>A manager for the witnesses, and a client that is done with one of two packets.\<close>

definition example_manager :: CPacketManager where
  "example_manager = CPacketManager_new (Posix 1) 100
     (\<lambda>_. \<lparr>pArray = (\<lambda>_. \<lparr>pPrev = None, pNext = None, nIndex = 0\<rparr>), pHeader = None, nCount = 0\<rparr>)
     (\<lambda>_. undefined) (\<lambda>_. 7)"

definition example_ops :: "client_op list" where
  "example_ops = [Client_Alloc 3000, Client_Alloc 100, Client_AddRef 1, Client_Put 0 [1, 2, 3], Client_Release 0]"

lemma example_ops_ok: "\<forall>x \<in> set example_ops. request_ok x" "length example_ops < 2 ^ 64"
  by (simp_all add: example_ops_def request_ok_def)

theorem packet_history_safe_witness:
  "\<exists>s held. client_run 0 (Posix 1) new_behind example_ops (example_manager, []) = Done (s, held) \<and>
     (\<forall>a \<in> set held. unat (m_RefCount (packets s a)) = count_list held a)"
  unfolding example_manager_def
  using packet_history_safe [OF new_behind_ok example_ops_ok, where t = 0 and pl = "Posix 1" and origin = 100
    and raw = "\<lambda>_. \<lparr>pArray = (\<lambda>_. \<lparr>pPrev = None, pNext = None, nIndex = 0\<rparr>), pHeader = None, nCount = 0\<rparr>"
    and pk = "\<lambda>_. undefined" and mem = "\<lambda>_. 7"]
  by (elim exE conjE) (intro exI conjI, assumption, simp)

text \<open>
  C21. After any such history a request of \<open>w\<close> bytes gets the smallest buffer of a power of two
  pages that has room for it, and it is refused only if every aligned run of so many pages
  overlaps a buffer in use: the free pages are never left split.
\<close>

theorem GetPacket_exact:
  assumes "new_ok new" and "\<forall>x \<in> set xs. request_ok x" and "length xs < 2 ^ 64"
    and run: "client_run t pl new xs (CPacketManager_new pl origin raw pk mem, []) = Done (s, held)"
    and w: "0 < unat w" "unat w \<le> 2 ^ 40"
  shows "\<exists>r s' ty. GetPacket t pl new w s = Done (Inr r, s') \<and>
    unat w \<le> 2 ^ ty * PKT_PAGE_SIZE \<and> (\<forall>u. unat w \<le> 2 ^ u * PKT_PAGE_SIZE \<longrightarrow> ty \<le> u) \<and>
    (case r of
       None \<Rightarrow> \<forall>k. \<not> frees_run s (set held) ty k
     | Some a \<Rightarrow> a \<notin> set held \<and> unat (m_Size (packets s' a)) = 2 ^ ty * PKT_PAGE_SIZE \<and>
         (\<exists>k. frees_run s (set held) ty k \<and> m_pBuffer (packets s' a) = Some (mgr_Buffer s + k * 2 ^ ty * PKT_PAGE_SIZE)))"
proof -
  have ok: "manager_ok s (set held)"
    using client_history [OF assms(1-3), of t pl origin raw pk mem] run by (auto simp: client_ok_def)
  obtain ty where ty: "request_type w = Some ty" "unat w \<le> 2 ^ ty * 1024"
      "\<forall>u. unat w \<le> 2 ^ u * 1024 \<longrightarrow> ty \<le> u"
    using request_type_least [OF w] by auto
  have w0: "w \<noteq> 0" using w(1) by auto
  obtain r s' where g: "GetPacket t pl new w s = Done (Inr r, s')" "\<forall>c \<in> set held. packets s' c = packets s c"
      "mgr_Buffer s' = mgr_Buffer s"
      "case r of None \<Rightarrow> manager_ok s' (set held) \<and> w \<noteq> 0 \<and> (\<forall>k. \<not> frees_run s (set held) (the (request_type w)) k)
       | Some a \<Rightarrow> got_packet w s (set held) a s'"
    using GetPacket_ok [OF ok assms(1) w(2), of t pl] by auto
  show ?thesis
  proof (cases r)
    case None
    then show ?thesis using g(1,4) ty by (auto simp: PKT_PAGE_SIZE_def)
  next
    case (Some a)
    then obtain k where a: "a \<notin> set held" "manager_ok s' (insert a (set held))" "holds s' a (ty, k)"
      using g(4) ty(1) w0 by (auto simp: got_packet_def)
    have b: "m_pBuffer (packets s' a) = Some (mgr_Buffer s + k * 2 ^ ty * PKT_PAGE_SIZE)"
      and sz: "unat (m_Size (packets s' a)) = 2 ^ ty * PKT_PAGE_SIZE"
      using a(3) type_size g(3) by (auto simp: holds_def)
    then have buf: "buffer s' a = {mgr_Buffer s + k * 2 ^ ty * PKT_PAGE_SIZE ..<
        mgr_Buffer s + Suc k * 2 ^ ty * PKT_PAGE_SIZE}"
      by (simp add: buffer_def algebra_simps)
    have n: "m_nPages s' = m_nPages s" using ok a(2) by (simp add: manager_ok_def)
    have "frees_run s (set held) ty k"
      unfolding frees_run_def
    proof (intro conjI ballI)
      have "buffer s' a \<subseteq> {mgr_Buffer s ..< mgr_Buffer s + m_nPages s * PKT_PAGE_SIZE}"
        using manager_ok_buffers(1) [OF a(2), of a] n g(3) by simp
      then show "Suc k * 2 ^ ty \<le> m_nPages s" unfolding buf ivl_subset by (simp add: PKT_PAGE_SIZE_def)
      fix c
      assume c: "c \<in> set held"
      then have "packets s' c = packets s c" using g(2) by blast
      then have "buffer s c = buffer s' c" by (auto simp: buffer_def split: option.split)
      then show "{mgr_Buffer s + k * 2 ^ ty * PKT_PAGE_SIZE ..< mgr_Buffer s + Suc k * 2 ^ ty * PKT_PAGE_SIZE} \<inter> buffer s c = {}"
        using manager_ok_buffers(2) [OF a(2), of a c] c a(1) buf by auto
    qed
    then show ?thesis using g(1) Some a(1) b sz ty by (auto simp: PKT_PAGE_SIZE_def)
  qed
qed

theorem GetPacket_exact_witness:
  "\<exists>s held s' a. client_run 0 (Posix 1) new_behind example_ops (example_manager, []) = Done (s, held) \<and>
     GetPacket 0 (Posix 1) new_behind 5000 s = Done (Inr a, s')"
proof -
  obtain s held where r: "client_run 0 (Posix 1) new_behind example_ops (example_manager, []) = Done (s, held)"
    unfolding example_manager_def
    using client_history [OF new_behind_ok example_ops_ok, of 0 "Posix 1" 100] by blast
  have w: "0 < unat (5000 :: DWORD)" "unat (5000 :: DWORD) \<le> 2 ^ 40" by simp_all
  show ?thesis
    using GetPacket_exact [OF new_behind_ok example_ops_ok r [unfolded example_manager_def] w] r by blast
qed

text \<open>
  C22. The usage that \<open>Dump\<close> prints is the sum of the sizes of the packets in use, in pages, of
  the 32 there are: no page is lost or counted twice. Once every packet has been released, the
  whole buffer is one free node again, as after the start.
\<close>

theorem Dump_conserves:
  assumes "new_ok new" and "\<forall>x \<in> set xs. request_ok x" and "length xs < 2 ^ 64"
    and run: "client_run t pl new xs (CPacketManager_new pl origin raw pk mem, []) = Done (s, held)"
  shows "usage s = Some ((\<Sum>a \<in> set held. unat (m_Size (packets s a))) div PKT_PAGE_SIZE) \<and>
    (held = [] \<longrightarrow> (\<forall>i < 6. level_nodes (m_PBAs s i) = Some (if i = 5 then [0] else [])))"
proof -
  have ok: "manager_ok s (set held)"
    using client_history [OF assms(1-3), of t pl origin raw pk mem] run by (auto simp: client_ok_def)
  then have "held = [] \<longrightarrow> (\<forall>i < 6. level_nodes (m_PBAs s i) = Some (if i = 5 then [0] else []))"
    using empty_levels [of s] by auto
  then show ?thesis using usage_ok [OF ok] by simp
qed

theorem Dump_conserves_witness:
  "\<exists>s held. client_run 0 (Posix 1) new_behind example_ops (example_manager, []) = Done (s, held) \<and>
     usage s = Some ((\<Sum>a \<in> set held. unat (m_Size (packets s a))) div PKT_PAGE_SIZE)"
proof -
  obtain s held where r: "client_run 0 (Posix 1) new_behind example_ops (example_manager, []) = Done (s, held)"
    unfolding example_manager_def
    using client_history [OF new_behind_ok example_ops_ok, of 0 "Posix 1" 100] by blast
  show ?thesis
    using Dump_conserves [OF new_behind_ok example_ops_ok r [unfolded example_manager_def]] r by blast
qed

text \<open>
  \<^verbatim>\<open>PutBuffer\<close> does not append: a second call writes over what the first one wrote, from
  the start of the buffer, while the length of the packet is the sum of both. The bytes the
  length now covers behind the longer of the two were never written.
\<close>

lemma PutBuffer_overwrites:
  assumes ok: "client_ok base mem s held" and i: "i < length held"
    and empty: "m_Length (packets s (held ! i)) = 0"
    and room: "length xs + length ys \<le> unat (m_Size (packets s (held ! i)))"
  shows "\<exists>s'. client_run t pl new [Client_Put i xs, Client_Put i ys] (s, held) = Done (s', held) \<and>
    unat (m_Length (packets s' (held ! i))) = length xs + length ys \<and>
    (\<forall>j < length ys. \<exists>d. m_pBuffer (packets s' (held ! i)) = Some d \<and> memory s' (d + j) = ys ! j) \<and>
    (\<forall>d j. m_pBuffer (packets s' (held ! i)) = Some d \<and> length xs \<le> j \<and> length ys \<le> j \<longrightarrow>
       memory s' (d + j) = memory s (d + j))"
proof -
  let ?a = "held ! i"
  note mok = client_ok_parts(1) [OF ok]
  have a: "?a \<in> set held" using i by simp
  have lt: "unat (m_Size (packets s ?a)) < 2 ^ 64" by (rule order_less_le_trans [OF unsigned_less]) simp
  then have x: "unat (word_of_nat (length xs) :: DWORD) = length xs"
    and y: "unat (word_of_nat (length ys) :: DWORD) = length ys"
    using room by (simp_all add: unat_of_nat)
  from PutBuffer_ok [OF mok a client_ok_parts(3) [OF ok a], of "word_of_nat (length xs)" xs t]
  obtain n s1 where p1: "PutBuffer t ?a xs (word_of_nat (length xs)) s = Done (n, s1)"
      "unat n = min (unat (m_Size (packets s ?a)) - unat (m_Length (packets s ?a))) (unat (word_of_nat (length xs) :: DWORD))"
      "m_Length (packets s1 ?a) = m_Length (packets s ?a) + n" "m_Length (packets s1 ?a) \<le> m_Size (packets s ?a)"
      "packets s1 ?a = (packets s ?a)\<lparr>m_Length := m_Length (packets s1 ?a)\<rparr>"
      "\<forall>d j. m_pBuffer (packets s ?a) = Some d \<and> unat n \<le> j \<longrightarrow> memory s1 (d + j) = memory s (d + j)"
      "manager_ok s1 (set held)"
    unfolding x by blast
  have f1: "m_Size (packets s1 ?a) = m_Size (packets s ?a)" "m_pBuffer (packets s1 ?a) = m_pBuffer (packets s ?a)"
    by (subst p1(5), simp)+
  have n: "unat n = length xs" "m_Length (packets s1 ?a) = n" using p1(2,3) room empty x by auto
  have len1: "m_Length (packets s1 ?a) \<le> m_Size (packets s1 ?a)" using p1(4) f1(1) by simp
  from PutBuffer_ok [OF p1(7) a len1, of "word_of_nat (length ys)" ys t]
  obtain k s2 where p2: "PutBuffer t ?a ys (word_of_nat (length ys)) s1 = Done (k, s2)"
      "unat k = min (unat (m_Size (packets s1 ?a)) - unat (m_Length (packets s1 ?a))) (unat (word_of_nat (length ys) :: DWORD))"
      "m_Length (packets s2 ?a) = m_Length (packets s1 ?a) + k"
      "packets s2 ?a = (packets s1 ?a)\<lparr>m_Length := m_Length (packets s2 ?a)\<rparr>"
      "\<forall>j < unat k. \<exists>d. m_pBuffer (packets s1 ?a) = Some d \<and> memory s2 (d + j) = ys ! j"
      "\<forall>d j. m_pBuffer (packets s1 ?a) = Some d \<and> unat k \<le> j \<longrightarrow> memory s2 (d + j) = memory s1 (d + j)"
    unfolding y by blast
  have f2: "m_pBuffer (packets s2 ?a) = m_pBuffer (packets s1 ?a)" by (subst p2(4)) simp
  have k: "unat k = length ys" using p2(2) n f1(1) room y by simp
  have "unat (n + k) = length xs + length ys" using n(1) k room lt by (simp add: unat_word_ariths)
  moreover have "client_run t pl new [Client_Put i xs, Client_Put i ys] (s, held) = Done (s2, held)"
    using p1(1) p2(1) i by (simp add: client_step_def)
  ultimately show ?thesis
    using p1(6) p2(3,5,6) n k f1(2) f2 by (intro exI [of _ s2]) auto
qed

lemma unat_10_le: "unat (10 :: DWORD) \<le> 1024"
  by simp

end
