(* ===== verification/PacketTest.thy ===== *)
theory PacketTest
  imports PacketClient
begin

section \<open>The self-test of the packet manager\<close>

text \<open>
  \<^verbatim>\<open>CPacketManager::Test\<close> of \<^verbatim>\<open>tutorial_libezthread/ezPacket/Packet.cpp\<close>, which \<^verbatim>\<open>t_ezPacket.cpp\<close> runs: it
  takes packets of random lengths until one is refused, prints how much of the buffer they fill, and
  releases them, with listings of the free nodes before, between and after.
\<close>

subsection \<open>\<^verbatim>\<open>Test\<close>\<close>

definition TEST_COUNT :: nat where
  "TEST_COUNT = 1024"

text \<open>What the loop has filled: the packets, \<^verbatim>\<open>size\<close> and \<^verbatim>\<open>page\<close>.\<close>

record test_run =
  test_packets :: "addr list"
  test_size :: DWORD
  test_page :: DWORD

text \<open>
  The first loop; \<open>draws\<close> are the results of \<^verbatim>\<open>rand\<close>, which are not negative, one for each round.
  NULL ends the loop, and the rest of the array is NULL.
\<close>

fun test_fill ::
    "tid \<Rightarrow> platform \<Rightarrow> op_new \<Rightarrow> nat list \<Rightarrow> test_run \<times> CPacketManager \<Rightarrow> (test_run \<times> CPacketManager) outcome" where
  "test_fill t pl new [] rs = Done rs"
| "test_fill t pl new (d # draws) (r, s) =
     (let len = word_of_nat (d mod 65536 + 1)
      in obind (GetPacket t pl new len s) (\<lambda>(p, s).
         case p of
           Inr (Some a) \<Rightarrow>
             test_fill t pl new draws
               (r\<lparr>test_packets := test_packets r @ [a], test_size := test_size r + len,
                  test_page := test_page r + (len + word_of_nat PKT_PAGE_SIZE - 1) div word_of_nat PKT_PAGE_SIZE\<rparr>, s)
         | _ \<Rightarrow> Done (r, s)))"

text \<open>The second loop.\<close>

fun test_empty :: "tid \<Rightarrow> addr list \<Rightarrow> CPacketManager \<Rightarrow> CPacketManager outcome" where
  "test_empty t [] s = Done s"
| "test_empty t (a # as) s = obind (Release t a s) (\<lambda>(_, s). test_empty t as s)"

definition test_text :: "test_run \<Rightarrow> CPacketManager \<Rightarrow> string" where
  "test_text r s =
     ''CPacketManager::Test() rand allocate usage: in byte '' @
     dec (int (unat (100 * test_size r div word_of_nat PKT_PAGE_SIZE div word_of_nat (m_nPages s)))) @
     ''%, in page '' @ dec (int (unat (100 * test_page r div word_of_nat (m_nPages s)))) @ ''%.'' @ newline"

text \<open>
  The result: what the loop has filled, and what is printed, \<open>None\<close> if a listing does not end.
\<close>

definition Test ::
    "tid \<Rightarrow> platform \<Rightarrow> op_new \<Rightarrow> nat list \<Rightarrow> CPacketManager \<Rightarrow>
     ((test_run \<times> string option) \<times> CPacketManager) outcome" where
  "Test t pl new draws s =
     obind (DumpNodes t s) (\<lambda>(first, s).
     obind (test_fill t pl new (take TEST_COUNT draws)
              (\<lparr>test_packets = [], test_size = 0, test_page = 0\<rparr>, s)) (\<lambda>(r, s).
     let text = test_text r s
     in obind (DumpNodes t s) (\<lambda>(second, s).
     obind (test_empty t (test_packets r) s) (\<lambda>s.
     obind (DumpNodes t s) (\<lambda>(third, s).
     Done ((r, Option.bind first (\<lambda>x. Option.bind second (\<lambda>y. Option.bind third (\<lambda>z.
              Some (x @ text @ y @ z))))), s))))))"

subsection \<open>The listings\<close>

lemma node_lines_some:
  assumes "levels_ok T P" and "ty + n \<le> T"
  shows "\<exists>x. node_lines P ty n = Some x"
  using assms(2)
proof (induction n arbitrary: ty)
  case (Suc n)
  then have "level_ok (P ty) (free_set (P ty))" using assms(1) by (simp add: levels_ok_def)
  then obtain ks where "level_nodes (P ty) = Some ks" using level_nodes_ok by blast
  then show ?case using Suc.IH [of "Suc ty"] Suc.prems by auto
qed simp

lemma node_lines_cong:
  "(\<And>i. ty \<le> i \<Longrightarrow> i < ty + n \<Longrightarrow> level_nodes (P i) = level_nodes (Q i)) \<Longrightarrow> node_lines P ty n = node_lines Q ty n"
  by (induction n arbitrary: ty) auto

lemma DumpNodes_ok:
  assumes "manager_ok s L"
  shows "\<exists>x. DumpNodes t s = Done (Some x, s)"
proof -
  have "mutex_free (mgr_Mutex s)" "m_nTypes s = 6" using assms by (simp_all add: manager_ok_def)
  moreover obtain x where "node_lines (m_PBAs s) 0 6 = Some x"
    using node_lines_some [of 6 "m_PBAs s" 0 6] assms by (auto simp: manager_ok_def buddy_ok_def)
  ultimately show ?thesis by (simp add: DumpNodes_def packets_locked_free)
qed

lemma DumpNodes_empty:
  assumes "manager_ok s {}" and "manager_ok s' {}"
  shows "map_outcome fst (DumpNodes t s) = map_outcome fst (DumpNodes t s')"
proof -
  have "node_lines (m_PBAs s) 0 6 = node_lines (m_PBAs s') 0 6"
    using empty_levels [OF assms(1)] empty_levels [OF assms(2)] by (intro node_lines_cong) simp
  then show ?thesis using assms by (simp add: manager_ok_def DumpNodes_def packets_locked_free)
qed

subsection \<open>Filling and emptying\<close>

text \<open>The packets taken so far, each with one reference, and what \<^verbatim>\<open>page\<close> counts of them.\<close>

definition test_ok :: "test_run \<Rightarrow> CPacketManager \<Rightarrow> bool" where
  "test_ok r s \<longleftrightarrow> manager_ok s (set (test_packets r)) \<and> distinct (test_packets r) \<and>
     (\<forall>a \<in> set (test_packets r). m_RefCount (packets s a) = 1) \<and>
     length (test_packets r) \<le> unat (test_page r) \<and>
     unat (test_size r) \<le> unat (test_page r) * PKT_PAGE_SIZE \<and>
     unat (test_page r) * PKT_PAGE_SIZE \<le> (\<Sum>a \<in> set (test_packets r). unat (m_Size (packets s a)))"

lemma test_ok_bound:
  assumes "test_ok r s"
  shows "unat (test_page r) \<le> 32"
proof -
  have ok: "manager_ok s (set (test_packets r))" using assms by (simp add: test_ok_def)
  let ?n = "\<Sum>a \<in> set (test_packets r). unat (m_Size (packets s a))"
  have "usage s = Some (?n div PKT_PAGE_SIZE)" by (rule usage_ok [OF ok]) simp
  moreover have "u \<le> 32" if "usage s = Some u" for u
    using that ok by (auto simp: usage_def manager_ok_def)
  ultimately have "?n div PKT_PAGE_SIZE \<le> 32" by blast
  moreover have "unat (test_page r) \<le> ?n div PKT_PAGE_SIZE"
    using assms by (simp add: test_ok_def PKT_PAGE_SIZE_def less_eq_div_iff_mult_less_eq)
  ultimately show ?thesis by linarith
qed

lemma pages_of_length:
  fixes len :: DWORD
  assumes "0 < unat len" and "unat len \<le> 65536"
  shows "unat ((len + word_of_nat PKT_PAGE_SIZE - 1) div word_of_nat PKT_PAGE_SIZE) = (unat len + 1023) div 1024"
proof -
  have "len + word_of_nat PKT_PAGE_SIZE - 1 = word_of_nat (unat len + 1023)"
    by (simp add: PKT_PAGE_SIZE_def)
  moreover have "unat (word_of_nat (unat len + 1023) :: DWORD) = unat len + 1023"
    using assms(2) by (simp only: unat_of_nat) simp
  moreover have "unat (word_of_nat PKT_PAGE_SIZE :: DWORD) = 1024" by (simp add: PKT_PAGE_SIZE_def)
  ultimately show ?thesis by (simp only: unat_div)
qed

lemma round_up:
  fixes u :: nat
  shows "(u + 1023) div 1024 * 1024 \<le> m * 1024 \<longleftrightarrow> u \<le> m * 1024"
    and "1 \<le> (u + 1023) div 1024 \<longleftrightarrow> 0 < u" and "u \<le> (u + 1023) div 1024 * 1024"
proof -
  define k q where "k = (u + 1023) div 1024" and "q = (u + 1023) mod 1024"
  then have "k * 1024 + q = u + 1023" "q < 1024" by simp_all
  then have "k * 1024 \<le> m * 1024 \<Longrightarrow> u \<le> m * 1024" "u \<le> m * 1024 \<Longrightarrow> k \<le> m"
      "0 < u \<Longrightarrow> 1 \<le> k" "0 < k \<Longrightarrow> 0 < u" "u \<le> k * 1024"
    by linarith+
  then have "k * 1024 \<le> m * 1024 \<longleftrightarrow> u \<le> m * 1024" "1 \<le> k \<longleftrightarrow> 0 < u" "u \<le> k * 1024"
    by auto
  then show "(u + 1023) div 1024 * 1024 \<le> m * 1024 \<longleftrightarrow> u \<le> m * 1024"
    and "1 \<le> (u + 1023) div 1024 \<longleftrightarrow> 0 < u" and "u \<le> (u + 1023) div 1024 * 1024"
    by (simp_all only: k_def)
qed

lemma test_ok_take:
  assumes ok: "test_ok r s" and len: "0 < unat len" "unat len \<le> 65536"
    and got: "got_packet len s (set (test_packets r)) a s'"
    and same: "\<forall>c \<in> set (test_packets r). packets s' c = packets s c"
  shows "test_ok (r\<lparr>test_packets := test_packets r @ [a], test_size := test_size r + len,
    test_page := test_page r + (len + word_of_nat PKT_PAGE_SIZE - 1) div word_of_nat PKT_PAGE_SIZE\<rparr>) s'"
proof -
  let ?p = "(unat len + 1023) div 1024"
  have a: "a \<notin> set (test_packets r)" "manager_ok s' (insert a (set (test_packets r)))"
      "m_RefCount (packets s' a) = 1" "len \<le> m_Size (packets s' a)"
    using got by (simp_all add: got_packet_def)
  have "len \<noteq> 0" using len(1) by auto
  then obtain ty k where ty: "holds s' a (ty, k)" using got by (auto simp: got_packet_def)
  then have size: "unat (m_Size (packets s' a)) = 2 ^ ty * 1024" "ty < 6"
    using type_size [of ty] by (auto simp: holds_def PKT_PAGE_SIZE_def)
  have "unat len \<le> 2 ^ ty * 1024" using a(4) size(1) by (simp add: word_le_nat_alt)
  then have p: "?p * 1024 \<le> unat (m_Size (packets s' a))" "1 \<le> ?p" "unat len \<le> ?p * 1024"
    using len(1) unfolding size(1) by (simp_all only: round_up)
  have b: "unat (test_page r) \<le> 32" "?p \<le> 64" using test_ok_bound [OF ok] len(2) by auto
  then have sz: "unat (test_size r) \<le> 32 * 1024" using ok by (simp add: test_ok_def PKT_PAGE_SIZE_def)
  let ?r = "r\<lparr>test_packets := test_packets r @ [a], test_size := test_size r + len,
    test_page := test_page r + (len + word_of_nat PKT_PAGE_SIZE - 1) div word_of_nat PKT_PAGE_SIZE\<rparr>"
  have page: "unat (test_page ?r) = unat (test_page r) + ?p"
    using b pages_of_length [OF len] by (simp add: unat_word_ariths)
  have tot: "unat (test_size ?r) = unat (test_size r) + unat len"
    using sz len(2) by (simp add: unat_word_ariths)
  have sum: "(\<Sum>c \<in> set (test_packets ?r). unat (m_Size (packets s' c))) =
      unat (m_Size (packets s' a)) + (\<Sum>c \<in> set (test_packets r). unat (m_Size (packets s c)))"
  proof -
    have "(\<Sum>c \<in> set (test_packets r). unat (m_Size (packets s' c))) =
        (\<Sum>c \<in> set (test_packets r). unat (m_Size (packets s c)))"
      by (rule sum.cong) (simp_all add: same)
    then show ?thesis using a(1) by simp
  qed
  have old: "length (test_packets r) \<le> unat (test_page r)"
      "unat (test_size r) \<le> unat (test_page r) * PKT_PAGE_SIZE"
      "unat (test_page r) * PKT_PAGE_SIZE \<le> (\<Sum>a \<in> set (test_packets r). unat (m_Size (packets s a)))"
      "distinct (test_packets r)" "\<forall>a \<in> set (test_packets r). m_RefCount (packets s a) = 1"
    using ok by (simp_all add: test_ok_def)
  have "length (test_packets ?r) \<le> unat (test_page ?r)"
    unfolding page using old(1) p(2) by simp
  moreover have "unat (test_size ?r) \<le> unat (test_page ?r) * PKT_PAGE_SIZE"
    unfolding page tot using old(2) p(3) by (simp add: PKT_PAGE_SIZE_def)
  moreover have "unat (test_page ?r) * PKT_PAGE_SIZE \<le> (\<Sum>c \<in> set (test_packets ?r). unat (m_Size (packets s' c)))"
    unfolding page sum using old(3) p(1) by (simp add: PKT_PAGE_SIZE_def)
  moreover have "manager_ok s' (set (test_packets ?r))" "distinct (test_packets ?r)"
      "\<forall>c \<in> set (test_packets ?r). m_RefCount (packets s' c) = 1"
    using a(1-3) same old(4,5) by simp_all
  ultimately show ?thesis unfolding test_ok_def by blast
qed

lemma test_fill_ok:
  assumes "new_ok new"
  shows "test_ok r s \<Longrightarrow> \<exists>r' s'. test_fill t pl new draws (r, s) = Done (r', s') \<and> test_ok r' s' \<and>
    memory s' = memory s"
proof (induction draws arbitrary: r s)
  case (Cons d draws)
  let ?len = "word_of_nat (d mod 65536 + 1) :: DWORD"
  have len: "unat ?len = d mod 65536 + 1" by (simp only: unat_of_nat) simp
  have d: "d mod 65536 < 65536" by simp
  have l: "0 < unat ?len" "unat ?len \<le> 65536" "unat ?len \<le> 2 ^ 40" unfolding len using d by simp_all
  have ok: "manager_ok s (set (test_packets r))" using Cons.prems by (simp add: test_ok_def)
  obtain p s' where g: "GetPacket t pl new ?len s = Done (Inr p, s')"
      "\<forall>c \<in> set (test_packets r). packets s' c = packets s c" "memory s' = memory s"
      "case p of None \<Rightarrow> manager_ok s' (set (test_packets r))
       | Some a \<Rightarrow> got_packet ?len s (set (test_packets r)) a s'"
    using GetPacket_ok [OF ok assms l(3), of t pl] by (auto split: option.splits)
  show ?case
  proof (cases p)
    case None
    then have "test_ok r s'" using Cons.prems g by (auto simp: test_ok_def)
    then show ?thesis using g(1,3) None by (simp add: Let_def)
  next
    case (Some a)
    have "got_packet ?len s (set (test_packets r)) a s'" using g(4) Some by simp
    note t = test_ok_take [OF Cons.prems l(1,2) this g(2)]
    from Cons.IH [OF t] show ?thesis using g(1,3) Some by (simp add: Let_def)
  qed
qed (auto intro: exI)

lemma test_empty_ok:
  "manager_ok s (set as) \<Longrightarrow> distinct as \<Longrightarrow> \<forall>a \<in> set as. m_RefCount (packets s a) = 1 \<Longrightarrow>
   \<exists>s'. test_empty t as s = Done s' \<and> manager_ok s' {} \<and> memory s' = memory s"
proof (induction as arbitrary: s)
  case (Cons a as)
  obtain s' where r: "Release t a s = Done (0, s')" "manager_ok s' (insert a (set as) - {a})"
      "\<forall>c. c \<noteq> a \<longrightarrow> packets s' c = packets s c" "memory s' = memory s"
    using Release_ok [of s "insert a (set as)" a t] Cons.prems by auto
  have "insert a (set as) - {a} = set as" using Cons.prems(2) by auto
  then obtain s'' where "test_empty t as s' = Done s''" "manager_ok s'' {}" "memory s'' = memory s'"
    using Cons.IH [of s'] r(2,3) Cons.prems by (metis (no_types, lifting) distinct.simps(2) list.set_intros(2))
  then show ?case using r by simp
qed simp

subsection \<open>Property\<close>

text \<open>
  C23. On a fresh manager the test always ends, whatever \<^verbatim>\<open>rand\<close> returns. It gets at most 32
  packets, prints at most 100 per cent of the pages, gives everything back - the buffer
  is one free node again, and the last listing is the first one - and writes nothing into the
  buffer.
\<close>

theorem Test_gives_back:
  assumes "new_ok new"
  shows "\<exists>r out s. Test t pl new draws (CPacketManager_new pl origin raw pk mem) = Done ((r, Some out), s) \<and>
    length (test_packets r) \<le> 32 \<and> unat (test_page r) \<le> 32 \<and>
    unat (test_size r) \<le> unat (test_page r) * PKT_PAGE_SIZE \<and> manager_ok s {} \<and> memory s = mem \<and>
    map_outcome fst (DumpNodes t s) =
      map_outcome fst (DumpNodes t (CPacketManager_new pl origin raw pk mem))"
proof -
  let ?s = "CPacketManager_new pl origin raw pk mem" and ?r = "\<lparr>test_packets = [], test_size = 0, test_page = 0\<rparr>"
  have ok: "manager_ok ?s {}" using CPacketManager_new_ok [of pl origin raw pk mem] by (simp add: client_ok_def)
  then have "test_ok ?r ?s" by (simp add: test_ok_def)
  from test_fill_ok [OF assms this, of t pl "take TEST_COUNT draws"] obtain r s1 where
    f: "test_fill t pl new (take TEST_COUNT draws) (?r, ?s) = Done (r, s1)" "test_ok r s1" "memory s1 = memory ?s"
    by blast
  have b: "unat (test_page r) \<le> 32" by (rule test_ok_bound [OF f(2)])
  have k: "manager_ok s1 (set (test_packets r))" "distinct (test_packets r)"
      "\<forall>a \<in> set (test_packets r). m_RefCount (packets s1 a) = 1"
      "length (test_packets r) \<le> unat (test_page r)"
      "unat (test_size r) \<le> unat (test_page r) * PKT_PAGE_SIZE"
    using f(2) by (simp_all add: test_ok_def)
  from test_empty_ok [OF k(1-3), of t] obtain s2 where
    e: "test_empty t (test_packets r) s1 = Done s2" "manager_ok s2 {}" "memory s2 = memory s1"
    by blast
  obtain x y z where d: "DumpNodes t ?s = Done (Some x, ?s)" "DumpNodes t s1 = Done (Some y, s1)"
      "DumpNodes t s2 = Done (Some z, s2)"
    using DumpNodes_ok [OF ok, of t] DumpNodes_ok [OF k(1), of t] DumpNodes_ok [OF e(2), of t] by blast
  have "Test t pl new draws ?s = Done ((r, Some (x @ test_text r s1 @ y @ z)), s2)"
    by (simp add: Test_def d f(1) e(1) Let_def)
  moreover have "memory s2 = mem"
    using e(3) f(3) by (simp add: CPacketManager_new_def split: prod.split)
  ultimately show ?thesis
    using b k(4,5) e(2) DumpNodes_empty [OF e(2) ok, of t]
    by (intro exI [of _ r] exI [of _ "x @ test_text r s1 @ y @ z"] exI [of _ s2] conjI) auto
qed

theorem Test_gives_back_witness:
  "\<exists>r out s. Test 0 (Posix 1) new_behind [2999, 0, 70000, 99999] example_manager = Done ((r, Some out), s) \<and>
     unat (test_page r) \<le> 32 \<and> manager_ok s {}"
  unfolding example_manager_def
  using Test_gives_back [OF new_behind_ok, of 0 "Posix 1" "[2999, 0, 70000, 99999]"]
  by blast

end
