(* ===== verification/PacketConc.thy ===== *)
theory PacketConc
  imports PacketClient
begin

section \<open>Packets shared by threads\<close>

text \<open>
  Any number of threads share packets: each holds references, takes further ones, passes
  them to other threads and releases them. The mutex of a packet, or the manager's, makes
  most functions of \<^verbatim>\<open>CPacket\<close> one step; \<^verbatim>\<open>Release\<close> is two, since it unlocks the packet's
  mutex before it gives the packet back to the manager, and \<^verbatim>\<open>SetLength\<close> is two, since it
  takes no lock and writes \<^verbatim>\<open>m_Length\<close> twice.
\<close>

subsection \<open>The threads\<close>

datatype share_pc =
    S_Out            \<comment> \<open>in no function\<close>
  | S_Put addr       \<comment> \<open>in \<^verbatim>\<open>Release\<close>, the count was 0: before \<^verbatim>\<open>PutPacket\<close>\<close>
  | S_Clip addr      \<comment> \<open>in \<^verbatim>\<open>SetLength\<close>, after the first assignment\<close>

record sharer =
  handles :: "addr list"
  inside :: share_pc

record packet_sys =
  pk_mgr :: CPacketManager
  sharers :: "sharer list"

definition set_sharer :: "nat \<Rightarrow> (sharer \<Rightarrow> sharer) \<Rightarrow> packet_sys \<Rightarrow> packet_sys" where
  "set_sharer i f s = s\<lparr>sharers := (sharers s)[i := f (sharers s ! i)]\<rparr>"

text \<open>\<^verbatim>\<open>Release\<close> up to the unlocking of the mutex, and \<^verbatim>\<open>SetLength\<close> before and after its test.\<close>

definition Release_count :: "tid \<Rightarrow> addr \<Rightarrow> CPacketManager \<Rightarrow> (DWORD \<times> CPacketManager) outcome" where
  "Release_count t a = packet_locked t a (Release_body a)"

definition SetLength_raw :: "addr \<Rightarrow> DWORD \<Rightarrow> CPacketManager \<Rightarrow> CPacketManager" where
  "SetLength_raw a dwLength = set_packet a (\<lambda>k. k\<lparr>m_Length := dwLength\<rparr>)"

definition SetLength_clip :: "addr \<Rightarrow> CPacketManager \<Rightarrow> CPacketManager" where
  "SetLength_clip a s =
     (if m_Size (packets s a) < m_Length (packets s a)
      then set_packet a (\<lambda>k. k\<lparr>m_Length := m_Size k\<rparr>) s else s)"

lemma Release_halves:
  "Release t a s = obind (Release_count t a s) (\<lambda>(count, s).
     if count = 0 then obind (PutPacket t (Some a) s) (\<lambda>(_, s). Done (count, s)) else Done (count, s))"
  by (simp add: Release_def Release_count_def)

lemma SetLength_halves: "snd (SetLength a w s) = SetLength_clip a (SetLength_raw a w s)"
  by (auto simp: SetLength_def SetLength_raw_def SetLength_clip_def set_packet_def Let_def)

datatype share_op =
    Share_Alloc nat DWORD
  | Share_AddRef nat nat
  | Share_Pass nat nat nat
  | Share_Release nat nat
  | Share_PutPacket nat
  | Share_SetLength nat nat DWORD
  | Share_Clip nat
  | Share_Fill nat nat "BYTE list"

text \<open>
  A step of thread \<open>i\<close>. \<open>held_by s i k\<close> says that it is in no function and has a \<open>k\<close>-th
  reference; in \<^verbatim>\<open>Share_Pass i k j\<close> it gives that reference to thread \<open>j\<close>.
\<close>

definition held_by :: "packet_sys \<Rightarrow> nat \<Rightarrow> nat \<Rightarrow> bool" where
  "held_by s i k \<longleftrightarrow> i < length (sharers s) \<and> inside (sharers s ! i) = S_Out \<and>
     k < length (handles (sharers s ! i))"

definition handle_of :: "packet_sys \<Rightarrow> nat \<Rightarrow> nat \<Rightarrow> addr" where
  "handle_of s i k = handles (sharers s ! i) ! k"

definition without :: "nat \<Rightarrow> 'a list \<Rightarrow> 'a list" where
  "without k xs = take k xs @ drop (Suc k) xs"

fun share_exec :: "platform \<Rightarrow> op_new \<Rightarrow> share_op \<Rightarrow> packet_sys \<Rightarrow> packet_sys option" where
  "share_exec pl new (Share_Alloc i w) s =
     (if i < length (sharers s) \<and> inside (sharers s ! i) = S_Out then
        (case GetPacket i pl new w (pk_mgr s) of
           Done (Inr (Some a), m) \<Rightarrow>
             Some (set_sharer i (\<lambda>t. t\<lparr>handles := handles t @ [a]\<rparr>) (s\<lparr>pk_mgr := m\<rparr>))
         | Done (Inr None, m) \<Rightarrow> Some (s\<lparr>pk_mgr := m\<rparr>)
         | _ \<Rightarrow> None)
      else None)"
| "share_exec pl new (Share_AddRef i k) s =
     (if held_by s i k then
        (case AddRef i (handle_of s i k) (pk_mgr s) of
           Done (_, m) \<Rightarrow>
             Some (set_sharer i (\<lambda>t. t\<lparr>handles := handles t @ [handle_of s i k]\<rparr>) (s\<lparr>pk_mgr := m\<rparr>))
         | _ \<Rightarrow> None)
      else None)"
| "share_exec pl new (Share_Pass i k j) s =
     (if held_by s i k \<and> j < length (sharers s) then
        Some (set_sharer j (\<lambda>t. t\<lparr>handles := handles t @ [handle_of s i k]\<rparr>)
          (set_sharer i (\<lambda>t. t\<lparr>handles := without k (handles t)\<rparr>) s))
      else None)"
| "share_exec pl new (Share_Release i k) s =
     (if held_by s i k then
        (case Release_count i (handle_of s i k) (pk_mgr s) of
           Done (count, m) \<Rightarrow>
             Some (set_sharer i (\<lambda>t. t\<lparr>handles := without k (handles t),
                 inside := if count = 0 then S_Put (handle_of s i k) else S_Out\<rparr>) (s\<lparr>pk_mgr := m\<rparr>))
         | _ \<Rightarrow> None)
      else None)"
| "share_exec pl new (Share_PutPacket i) s =
     (if i < length (sharers s) then
        (case inside (sharers s ! i) of
           S_Put a \<Rightarrow>
             (case PutPacket i (Some a) (pk_mgr s) of
                Done (_, m) \<Rightarrow> Some (set_sharer i (\<lambda>t. t\<lparr>inside := S_Out\<rparr>) (s\<lparr>pk_mgr := m\<rparr>))
              | _ \<Rightarrow> None)
         | _ \<Rightarrow> None)
      else None)"
| "share_exec pl new (Share_SetLength i k w) s =
     (if held_by s i k then
        Some (set_sharer i (\<lambda>t. t\<lparr>inside := S_Clip (handle_of s i k)\<rparr>)
          (s\<lparr>pk_mgr := SetLength_raw (handle_of s i k) w (pk_mgr s)\<rparr>))
      else None)"
| "share_exec pl new (Share_Clip i) s =
     (if i < length (sharers s) then
        (case inside (sharers s ! i) of
           S_Clip a \<Rightarrow> Some (set_sharer i (\<lambda>t. t\<lparr>inside := S_Out\<rparr>)
             (s\<lparr>pk_mgr := SetLength_clip a (pk_mgr s)\<rparr>))
         | _ \<Rightarrow> None)
      else None)"
| "share_exec pl new (Share_Fill i k xs) s =
     (if held_by s i k then
        (case PutBuffer i (handle_of s i k) xs (word_of_nat (length xs)) (pk_mgr s) of
           Done (_, m) \<Rightarrow> Some (s\<lparr>pk_mgr := m\<rparr>)
         | _ \<Rightarrow> None)
      else None)"

text \<open>
  Requests are of at most \<open>2 ^ 40\<close> bytes, and a packet has fewer than \<open>2 ^ 64\<close> references.
\<close>

definition share_fits :: "share_op \<Rightarrow> packet_sys \<Rightarrow> bool" where
  "share_fits x s =
     (case x of
        Share_Alloc i w \<Rightarrow> unat w \<le> 2 ^ 40
      | Share_AddRef i k \<Rightarrow> unat (m_RefCount (packets (pk_mgr s) (handle_of s i k))) + 1 < 2 ^ 64
      | _ \<Rightarrow> True)"

definition share_step :: "platform \<Rightarrow> op_new \<Rightarrow> packet_sys \<Rightarrow> packet_sys \<Rightarrow> bool" where
  "share_step pl new s t \<longleftrightarrow> (\<exists>x. share_fits x s \<and> share_exec pl new x s = Some t)"

definition share_init :: "platform \<Rightarrow> packet_sys \<Rightarrow> bool" where
  "share_init pl s \<longleftrightarrow> (\<exists>origin raw pk mem n. pk_mgr s = CPacketManager_new pl origin raw pk mem \<and>
     sharers s = replicate n \<lparr>handles = [], inside = S_Out\<rparr>)"

subsection \<open>The invariant\<close>

definition owners :: "packet_sys \<Rightarrow> addr \<Rightarrow> nat" where
  "owners s a = sum_list (map (\<lambda>t. count_list (handles t) a) (sharers s))"

definition puts :: "addr \<Rightarrow> sharer \<Rightarrow> nat" where
  "puts a t = (if inside t = S_Put a then 1 else 0)"

definition putters :: "packet_sys \<Rightarrow> addr \<Rightarrow> nat" where
  "putters s a = sum_list (map (puts a) (sharers s))"

definition in_use :: "packet_sys \<Rightarrow> addr set" where
  "in_use s = {a. 0 < owners s a + putters s a}"

definition share_inv :: "packet_sys \<Rightarrow> bool" where
  "share_inv s \<longleftrightarrow> manager_ok (pk_mgr s) (in_use s) \<and>
     (\<forall>a \<in> in_use s. unat (m_RefCount (packets (pk_mgr s) a)) = owners s a) \<and>
     (\<forall>a. putters s a \<le> 1 \<and> (0 < putters s a \<longrightarrow> owners s a = 0))"

lemma set_sharer_fields [simp]:
  "pk_mgr (set_sharer i f s) = pk_mgr s" "length (sharers (set_sharer i f s)) = length (sharers s)"
  "set_sharer i f (s\<lparr>pk_mgr := m\<rparr>) = (set_sharer i f s)\<lparr>pk_mgr := m\<rparr>"
  by (simp_all add: set_sharer_def)

lemma owners_mgr [simp]: "owners (s\<lparr>pk_mgr := m\<rparr>) = owners s" "putters (s\<lparr>pk_mgr := m\<rparr>) = putters s"
  "in_use (s\<lparr>pk_mgr := m\<rparr>) = in_use s"
  by (simp_all add: owners_def [abs_def] putters_def [abs_def] in_use_def)

lemma owners_set:
  "i < length (sharers s) \<Longrightarrow>
    owners (set_sharer i f s) a + count_list (handles (sharers s ! i)) a =
    owners s a + count_list (handles (f (sharers s ! i))) a"
  using sum_list_update_eq [of i "sharers s" "\<lambda>t. count_list (handles t) a" "f (sharers s ! i)"]
  by (simp add: owners_def set_sharer_def)

lemma putters_set:
  "i < length (sharers s) \<Longrightarrow>
    putters (set_sharer i f s) a + puts a (sharers s ! i) = putters s a + puts a (f (sharers s ! i))"
  using sum_list_update_eq [of i "sharers s" "puts a" "f (sharers s ! i)"]
  by (simp add: putters_def set_sharer_def)

lemma owners_member: "i < length (sharers s) \<Longrightarrow> count_list (handles (sharers s ! i)) a \<le> owners s a"
  using sum_list_member_le [of i "sharers s" "\<lambda>t. count_list (handles t) a"] by (simp add: owners_def)

lemma putters_member: "i < length (sharers s) \<Longrightarrow> puts a (sharers s ! i) \<le> putters s a"
  using sum_list_member_le [of i "sharers s" "puts a"] by (simp add: putters_def)

lemma count_without:
  "k < length xs \<Longrightarrow> count_list xs a = count_list (without k xs) a + (if a = xs ! k then 1 else 0)"
  unfolding without_def by (subst id_take_nth_drop, assumption) simp

lemma count_nth: "k < length xs \<Longrightarrow> 0 < count_list xs (xs ! k)"
  using count_list_0_iff [of xs "xs ! k"] by simp

lemma held_owner:
  assumes "held_by s i k"
  shows "0 < owners s (handle_of s i k)" "handle_of s i k \<in> in_use s"
proof -
  have "count_list (handles (sharers s ! i)) (handle_of s i k) > 0"
    using assms unfolding held_by_def handle_of_def by (elim conjE) (rule count_nth)
  then show "0 < owners s (handle_of s i k)"
    using owners_member [of i s "handle_of s i k"] assms by (simp add: held_by_def)
  then show "handle_of s i k \<in> in_use s" by (simp add: in_use_def)
qed

text \<open>A step that leaves the references and the packets' lists alone.\<close>

lemma share_inv_same:
  assumes "share_inv s" and "manager_ok m (in_use s)"
    and "\<And>a. a \<in> in_use s \<Longrightarrow> m_RefCount (packets m a) = m_RefCount (packets (pk_mgr s) a)"
    and "\<And>a. owners t a = owners s a" and "\<And>a. putters t a = putters s a" and "pk_mgr t = m"
  shows "share_inv t"
proof -
  have "in_use t = in_use s" using assms(4,5) by (simp add: in_use_def)
  then show ?thesis using assms by (simp add: share_inv_def)
qed

subsection \<open>Every step keeps it\<close>

lemma share_inv_parts:
  assumes "share_inv s"
  shows "manager_ok (pk_mgr s) (in_use s)"
    and "a \<in> in_use s \<Longrightarrow> unat (m_RefCount (packets (pk_mgr s) a)) = owners s a"
    and "putters s a \<le> 1" and "0 < putters s a \<Longrightarrow> owners s a = 0"
  using assms by (auto simp: share_inv_def)

lemma share_Alloc_inv:
  assumes inv: "share_inv s" and new: "new_ok new" and w: "unat w \<le> 2 ^ 40"
    and x: "share_exec pl new (Share_Alloc i w) s = Some t"
  shows "share_inv t"
proof -
  note mok = share_inv_parts(1) [OF inv] and ref = share_inv_parts(2) [OF inv]
  have i: "i < length (sharers s)" "inside (sharers s ! i) = S_Out"
    using x by (auto split: if_splits)
  obtain r m where g: "GetPacket i pl new w (pk_mgr s) = Done (Inr r, m)"
      "\<forall>c \<in> in_use s. packets m c = packets (pk_mgr s) c"
      "case r of None \<Rightarrow> manager_ok m (in_use s) | Some a \<Rightarrow> got_packet w (pk_mgr s) (in_use s) a m"
    using GetPacket_ok [OF mok new w, of i pl] by (fastforce split: option.splits)
  show ?thesis
  proof (cases r)
    case None
    then show ?thesis using x g i by (intro share_inv_same [OF inv, of m]) auto
  next
    case (Some a)
    let ?f = "\<lambda>t. t\<lparr>handles := handles t @ [a]\<rparr>"
    have t: "t = (set_sharer i ?f s)\<lparr>pk_mgr := m\<rparr>" using x g(1) i Some by simp
    have a: "a \<notin> in_use s" "manager_ok m (insert a (in_use s))" "m_RefCount (packets m a) = 1"
      using g(3) Some by (auto simp: got_packet_def)
    have o: "owners t c = owners s c + (if c = a then 1 else 0)" for c
      using owners_set [OF i(1), of ?f c] unfolding t by auto
    have p: "putters t c = putters s c" for c
      using putters_set [OF i(1), of ?f c] unfolding t by (simp add: puts_def)
    have "in_use t = insert a (in_use s)" using o p by (auto simp: in_use_def)
    moreover have "owners s a = 0" "putters s a = 0" using a(1) by (auto simp: in_use_def)
    ultimately show ?thesis
      using a g(2) o p ref share_inv_parts(3,4) [OF inv] t by (auto simp: share_inv_def)
  qed
qed

lemma share_AddRef_inv:
  assumes inv: "share_inv s" and fits: "share_fits (Share_AddRef i k) s"
    and x: "share_exec pl new (Share_AddRef i k) s = Some t"
  shows "share_inv t"
proof -
  note mok = share_inv_parts(1) [OF inv] and ref = share_inv_parts(2) [OF inv]
  let ?a = "handle_of s i k" and ?f = "\<lambda>t. t\<lparr>handles := handles t @ [handle_of s i k]\<rparr>"
  have h: "held_by s i k" using x by (auto split: if_splits)
  then have i: "i < length (sharers s)" by (simp add: held_by_def)
  note a = held_owner [OF h]
  let ?m = "set_packet ?a (\<lambda>k. k\<lparr>m_RefCount := m_RefCount k + 1\<rparr>) (pk_mgr s)"
  have t: "t = (set_sharer i ?f s)\<lparr>pk_mgr := ?m\<rparr>"
    using x h AddRef_ok [OF mok a(2), of i] by simp
  have o: "owners t c = owners s c + (if c = ?a then 1 else 0)" for c
    using owners_set [OF i, of ?f c] unfolding t by auto
  have p: "putters t c = putters s c" for c
    using putters_set [OF i, of ?f c] unfolding t by (simp add: puts_def)
  have "in_use t = in_use s" using o p a by (auto simp: in_use_def)
  moreover have "unat (m_RefCount (packets (pk_mgr s) ?a) + 1) = owners s ?a + 1"
    using ref [OF a(2)] fits by (simp add: share_fits_def unat_word_ariths)
  moreover have "manager_ok ?m (in_use s)" by (rule manager_ok_set_packet [OF mok]) simp_all
  moreover have "putters s ?a = 0" using a(1) share_inv_parts(4) [OF inv, of ?a] by auto
  ultimately show ?thesis
    using o p ref share_inv_parts(3,4) [OF inv] t by (auto simp: share_inv_def)
qed

lemma share_Pass_inv:
  assumes inv: "share_inv s" and x: "share_exec pl new (Share_Pass i k j) s = Some t"
  shows "share_inv t"
proof -
  let ?f = "\<lambda>t. t\<lparr>handles := without k (handles t)\<rparr>"
    and ?g = "\<lambda>t. t\<lparr>handles := handles t @ [handle_of s i k]\<rparr>"
  have h: "held_by s i k" "j < length (sharers s)" and t: "t = set_sharer j ?g (set_sharer i ?f s)"
    using x by (auto split: if_splits)
  have i: "i < length (sharers s)" "k < length (handles (sharers s ! i))"
    using h by (simp_all add: held_by_def)
  have "owners t c = owners s c" for c
    using owners_set [of j "set_sharer i ?f s" ?g c] owners_set [OF i(1), of ?f c] h(2)
      count_without [OF i(2), of c]
    unfolding t by (auto simp: handle_of_def split: if_splits)
  moreover have "putters t c = putters s c" for c
    using putters_set [of j "set_sharer i ?f s" ?g c] putters_set [OF i(1), of ?f c] h(2)
    unfolding t by (simp add: puts_def)
  ultimately show ?thesis
    using share_inv_parts(1) [OF inv] t by (intro share_inv_same [OF inv, of "pk_mgr s"]) auto
qed

lemma Release_count_ok:
  assumes "manager_ok m L" and "a \<in> L" and "m_RefCount (packets m a) \<noteq> 0"
  shows "Release_count i a m = Done (m_RefCount (packets m a) - 1,
    set_packet a (\<lambda>k. k\<lparr>m_RefCount := m_RefCount k - 1\<rparr>) m)"
  unfolding Release_count_def
  by (rule packet_locked_Done [OF manager_packet_free [OF assms(1,2)]])
     (simp_all add: Release_body_def assms(3) Let_def)

lemma share_Release_step:
  assumes inv: "share_inv s" and h: "held_by s i k"
  shows "\<exists>t. share_exec pl new (Share_Release i k) s = Some t \<and> share_inv t"
proof -
  note mok = share_inv_parts(1) [OF inv] and ref = share_inv_parts(2) [OF inv]
  let ?a = "handle_of s i k" and ?r = "m_RefCount (packets (pk_mgr s) (handle_of s i k))"
  have i: "i < length (sharers s)" "inside (sharers s ! i) = S_Out" "k < length (handles (sharers s ! i))"
    using h by (simp_all add: held_by_def)
  note a = held_owner [OF h]
  have r0: "?r \<noteq> 0" using ref [OF a(2)] a(1) by (auto simp: unat_eq_0)
  let ?m = "set_packet ?a (\<lambda>k. k\<lparr>m_RefCount := m_RefCount k - 1\<rparr>) (pk_mgr s)"
  let ?f = "\<lambda>t. t\<lparr>handles := without k (handles t), inside := if ?r - 1 = 0 then S_Put ?a else S_Out\<rparr>"
  let ?t = "(set_sharer i ?f s)\<lparr>pk_mgr := ?m\<rparr>"
  have ex: "share_exec pl new (Share_Release i k) s = Some ?t"
    using h Release_count_ok [OF mok a(2) r0, of i] by simp
  have o: "owners s c = owners ?t c + (if c = ?a then 1 else 0)" for c
    using owners_set [OF i(1), of ?f c] count_without [OF i(3), of c] by (auto simp: handle_of_def)
  have last: "?r - 1 = 0 \<longleftrightarrow> owners s ?a = 1"
  proof -
    have "?r - 1 = 0 \<longleftrightarrow> ?r = 1" by simp
    then show ?thesis unfolding ref [OF a(2), symmetric] by (simp add: word_unat_eq_iff)
  qed
  have p: "putters ?t c = putters s c + (if c = ?a \<and> owners s ?a = 1 then 1 else 0)" for c
    using putters_set [OF i(1), of ?f c] i(2) last by (auto simp: puts_def)
  have p0: "putters s ?a = 0" using a(1) share_inv_parts(4) [OF inv, of ?a] by auto
  have "in_use ?t = in_use s"
  proof (rule set_eqI)
    fix c
    show "c \<in> in_use ?t \<longleftrightarrow> c \<in> in_use s" using o [of c] p [of c] by (auto simp: in_use_def split: if_splits)
  qed
  moreover have "unat (?r - 1) = owners s ?a - 1"
    using ref [OF a(2)] r0 by (simp add: unat_minus_one)
  moreover have "manager_ok ?m (in_use s)" by (rule manager_ok_set_packet [OF mok]) simp_all
  moreover have "unat (m_RefCount (packets ?m c)) = owners ?t c" if "c \<in> in_use s" for c
    using ref [OF that] o [of c] calculation(2) by (cases "c = ?a") auto
  moreover have "putters ?t c \<le> 1 \<and> (0 < putters ?t c \<longrightarrow> owners ?t c = 0)" for c
    using o [of c] p [of c] p0 share_inv_parts(3,4) [OF inv, of c] by (auto split: if_splits)
  ultimately have "share_inv ?t" by (simp only: share_inv_def) simp
  then show ?thesis using ex by blast
qed

lemma share_PutPacket_step:
  assumes inv: "share_inv s" and i: "i < length (sharers s)" "inside (sharers s ! i) = S_Put a"
  shows "\<exists>t. share_exec pl new (Share_PutPacket i) s = Some t \<and> share_inv t"
proof -
  note mok = share_inv_parts(1) [OF inv] and ref = share_inv_parts(2) [OF inv]
  have "0 < putters s a" using putters_member [OF i(1), of a] i(2) by (simp add: puts_def)
  then have pa: "putters s a = 1" "owners s a = 0"
    using share_inv_parts(3,4) [OF inv, of a] by auto
  then have a: "a \<in> in_use s" by (simp add: in_use_def)
  obtain m where m: "PutPacket i (Some a) (pk_mgr s) = Done ((), m)" "manager_ok m (in_use s - {a})"
      "\<forall>c. c \<noteq> a \<longrightarrow> packets m c = packets (pk_mgr s) c"
    using PutPacket_ok [OF mok a] by blast
  let ?f = "\<lambda>t. t\<lparr>inside := S_Out\<rparr>"
  let ?t = "(set_sharer i ?f s)\<lparr>pk_mgr := m\<rparr>"
  have ex: "share_exec pl new (Share_PutPacket i) s = Some ?t" using i m(1) by simp
  have o: "owners ?t c = owners s c" for c using owners_set [OF i(1), of ?f c] by simp
  have p: "putters s c = putters ?t c + (if c = a then 1 else 0)" for c
    using putters_set [OF i(1), of ?f c] i(2) by (auto simp: puts_def)
  have "in_use ?t = in_use s - {a}"
  proof (rule set_eqI)
    fix c
    show "c \<in> in_use ?t \<longleftrightarrow> c \<in> in_use s - {a}"
      using o [of c] p [of c] pa by (auto simp: in_use_def)
  qed
  moreover have "putters ?t c \<le> 1 \<and> (0 < putters ?t c \<longrightarrow> owners ?t c = 0)" for c
    using o [of c] p [of c] share_inv_parts(3,4) [OF inv, of c] by (auto split: if_splits)
  moreover have "unat (m_RefCount (packets m c)) = owners ?t c" if "c \<in> in_use s - {a}" for c
    using that m(3) ref [of c] o [of c] by simp
  ultimately have "share_inv ?t" using m(2) by (simp only: share_inv_def) simp
  then show ?thesis using ex by blast
qed

lemma PutBuffer_keeps:
  assumes ok: "manager_ok m L" and a: "a \<in> L" and p: "PutBuffer t a xs w m = Done (n, m')"
  shows "manager_ok m' L \<and> m_RefCount (packets m' c) = m_RefCount (packets m c)"
proof -
  let ?k = "packets m a"
  define left where "left = (if m_Size ?k - m_Length ?k < w then m_Size ?k - m_Length ?k else w)"
  obtain y where y: "memcpy (m_pBuffer ?k) xs (unat left) (memory m) = Done y"
      "m' = set_packet a (\<lambda>k. k\<lparr>m_Mutex := m_Mutex ?k\<rparr>)
         (set_packet a (\<lambda>k. k\<lparr>m_Length := m_Length k + left\<rparr>) (m\<lparr>memory := y\<rparr>))"
    using p unfolding PutBuffer_def packet_locked_free [OF manager_packet_free [OF ok a]]
    by (auto simp: Let_def left_def)
  have "set_packet a (\<lambda>k. k\<lparr>m_Mutex := m_Mutex ?k\<rparr>)
      (set_packet a (\<lambda>k. k\<lparr>m_Length := m_Length k + left\<rparr>) (m\<lparr>memory := y\<rparr>)) =
    set_packet a (\<lambda>k. k\<lparr>m_Length := m_Length k + left\<rparr>) (m\<lparr>memory := y\<rparr>)"
    by (simp add: set_packet_def)
  then have m': "m' = set_packet a (\<lambda>k. k\<lparr>m_Length := m_Length k + left\<rparr>) (m\<lparr>memory := y\<rparr>)"
    using y(2) by simp
  have "manager_ok m' L"
    unfolding m' by (rule manager_ok_set_packet [OF manager_ok_memory [OF ok]]) simp_all
  then show ?thesis by (simp add: m')
qed

lemma share_length_inv:
  assumes inv: "share_inv s"
  shows "share_exec pl new (Share_SetLength i k w) s = Some t \<Longrightarrow> share_inv t"
    and "share_exec pl new (Share_Clip i) s = Some t \<Longrightarrow> share_inv t"
    and "share_exec pl new (Share_Fill i k xs) s = Some t \<Longrightarrow> share_inv t"
proof -
  note mok = share_inv_parts(1) [OF inv]
  let ?go = "\<lambda>pc. set_sharer i (\<lambda>t. t\<lparr>inside := pc\<rparr>) s"
  have counts: "owners (?go pc) c = owners s c" "putters (?go pc) c = putters s c"
    if "i < length (sharers s)" "\<forall>a. inside (sharers s ! i) \<noteq> S_Put a" "\<forall>a. pc \<noteq> S_Put a" for pc c
    using owners_set [OF that(1), of "\<lambda>t. t\<lparr>inside := pc\<rparr>" c]
      putters_set [OF that(1), of "\<lambda>t. t\<lparr>inside := pc\<rparr>" c] that(2,3) by (simp_all add: puts_def)
  have len: "manager_ok (set_packet a (\<lambda>k. k\<lparr>m_Length := f k\<rparr>) (pk_mgr s)) (in_use s)" for a f
    by (rule manager_ok_set_packet [OF mok]) simp_all
  show "share_exec pl new (Share_SetLength i k w) s = Some t \<Longrightarrow> share_inv t"
    using counts [of "S_Clip (handle_of s i k)"] len
    by (intro share_inv_same [OF inv]) (auto simp: held_by_def SetLength_raw_def split: if_splits)
  show "share_exec pl new (Share_Clip i) s = Some t \<Longrightarrow> share_inv t"
    using counts [of S_Out] len mok
    by (intro share_inv_same [OF inv])
      (auto simp: SetLength_clip_def split: if_splits share_pc.splits)
  assume x: "share_exec pl new (Share_Fill i k xs) s = Some t"
  then have h: "held_by s i k" by (auto split: if_splits)
  then obtain n m where m: "PutBuffer i (handle_of s i k) xs (word_of_nat (length xs)) (pk_mgr s) = Done (n, m)"
      "t = s\<lparr>pk_mgr := m\<rparr>"
    using x by (auto split: outcome.splits)
  show "share_inv t"
    using PutBuffer_keeps [OF mok held_owner(2) [OF h] m(1)] m(2)
    by (intro share_inv_same [OF inv, of m]) auto
qed

lemma share_step_inv:
  assumes "share_step pl new s t" and "share_inv s" and "new_ok new"
  shows "share_inv t"
proof -
  obtain x where x: "share_fits x s" "share_exec pl new x s = Some t"
    using assms(1) by (auto simp: share_step_def)
  show ?thesis
  proof (cases x)
    case (Share_Alloc i w)
    then show ?thesis using share_Alloc_inv [OF assms(2,3)] x by (simp add: share_fits_def)
  next
    case (Share_AddRef i k)
    then show ?thesis using share_AddRef_inv [OF assms(2)] x by simp
  next
    case (Share_Pass i k j)
    then show ?thesis using share_Pass_inv [OF assms(2)] x by simp
  next
    case (Share_Release i k)
    then have "held_by s i k" using x(2) by (auto split: if_splits)
    then show ?thesis using share_Release_step [OF assms(2)] x(2) Share_Release by fastforce
  next
    case (Share_PutPacket i)
    then obtain a where "i < length (sharers s)" "inside (sharers s ! i) = S_Put a"
      using x(2) by (auto split: if_splits share_pc.splits)
    then show ?thesis using share_PutPacket_step [OF assms(2)] x(2) Share_PutPacket by fastforce
  next
    case (Share_SetLength i k w)
    then show ?thesis using share_length_inv(1) [OF assms(2)] x(2) by blast
  next
    case (Share_Clip i)
    then show ?thesis using share_length_inv(2) [OF assms(2)] x(2) by blast
  next
    case (Share_Fill i k xs)
    then show ?thesis using share_length_inv(3) [OF assms(2)] x(2) by blast
  qed
qed

lemma share_init_inv:
  assumes "share_init pl s"
  shows "share_inv s"
proof -
  obtain origin raw pk mem n where s: "pk_mgr s = CPacketManager_new pl origin raw pk mem"
      "sharers s = replicate n \<lparr>handles = [], inside = S_Out\<rparr>"
    using assms by (auto simp: share_init_def)
  have "owners s a = 0" "putters s a = 0" for a
    by (simp_all add: owners_def putters_def s(2) puts_def sum_list_replicate)
  moreover have "manager_ok (pk_mgr s) {}"
    using client_ok_parts(1) [OF CPacketManager_new_ok] s(1) by simp
  ultimately show ?thesis by (simp add: share_inv_def in_use_def)
qed

interpretation share_system: invariant_system "share_init pl"
  "\<lambda>s t. new_ok new \<and> share_step pl new s t" share_inv
  for pl new
  by unfold_locales (auto intro: share_init_inv share_step_inv)

definition share_reachable :: "platform \<Rightarrow> op_new \<Rightarrow> packet_sys \<Rightarrow> bool" where
  "share_reachable pl new s \<longleftrightarrow> reach (share_init pl) (\<lambda>s t. new_ok new \<and> share_step pl new s t) s"

lemma share_reachable_inv: "share_reachable pl new s \<Longrightarrow> share_inv s"
  unfolding share_reachable_def by (rule share_system.reach_inv)

lemma share_reachable_exec:
  "share_reachable pl new s \<Longrightarrow> new_ok new \<Longrightarrow> share_fits x s \<Longrightarrow> share_exec pl new x s = Some t \<Longrightarrow>
    share_reachable pl new t"
  unfolding share_reachable_def by (rule reach_step) (auto simp: share_step_def)

subsection \<open>Properties\<close>

lemma one_putter:
  assumes "share_inv s" and "i < length (sharers s)" and "j < length (sharers s)"
    and "inside (sharers s ! i) = S_Put a" and "inside (sharers s ! j) = S_Put a"
  shows "i = j"
proof (rule ccontr)
  assume "i \<noteq> j"
  then have "puts a (sharers s ! i) + puts a (sharers s ! j) \<le> putters s a"
    using sum_list_two_le [of i "sharers s" j "puts a"] assms(2,3) by (simp add: putters_def)
  then show False using assms share_inv_parts(3) [OF assms(1), of a] by (simp add: puts_def)
qed

lemma unused_manager:
  assumes "share_inv s" and "\<And>t. t \<in> set (sharers s) \<Longrightarrow> handles t = [] \<and> (\<forall>a. inside t \<noteq> S_Put a)"
  shows "manager_ok (pk_mgr s) {}"
proof -
  have "owners s a = 0" "putters s a = 0" for a
    using assms(2) by (simp_all add: owners_def putters_def puts_def sum_list_eq_0_iff)
  then have "in_use s = {}" by (simp add: in_use_def)
  then show ?thesis using share_inv_parts(1) [OF assms(1)] by simp
qed

text \<open>
  C24. Any number of threads that allocate, share, pass, fill and release packets, in every
  interleaving: a packet's count is the number of references the threads have; a thread
  that releases one never fails an assertion; whoever took the count to 0 is the only one
  to give the packet back, nobody has a reference to it any more, and \<^verbatim>\<open>PutPacket\<close> is
  defined; the buffers of all packets not yet given back are disjoint; and once all
  references are released and given back, the whole buffer is one free node again.
\<close>

theorem shared_packets_safe:
  assumes "share_reachable pl new s"
  shows "(\<forall>a \<in> in_use s. unat (m_RefCount (packets (pk_mgr s) a)) = owners s a \<and>
      (\<forall>c \<in> in_use s. c = a \<or> buffer (pk_mgr s) a \<inter> buffer (pk_mgr s) c = {})) \<and>
    (\<forall>i k. held_by s i k \<longrightarrow> share_exec pl new (Share_Release i k) s \<noteq> None) \<and>
    (\<forall>i a. i < length (sharers s) \<and> inside (sharers s ! i) = S_Put a \<longrightarrow>
      owners s a = 0 \<and> share_exec pl new (Share_PutPacket i) s \<noteq> None \<and>
      (\<forall>j < length (sharers s). inside (sharers s ! j) = S_Put a \<longrightarrow> j = i)) \<and>
    ((\<forall>t \<in> set (sharers s). handles t = [] \<and> (\<forall>a. inside t \<noteq> S_Put a)) \<longrightarrow>
      (\<forall>i < 6. level_nodes (m_PBAs (pk_mgr s) i) = Some (if i = 5 then [0] else [])))"
proof -
  have inv: "share_inv s" by (rule share_reachable_inv [OF assms])
  note mok = share_inv_parts(1) [OF inv]
  have "owners s a = 0" if "i < length (sharers s)" "inside (sharers s ! i) = S_Put a" for i a
    using putters_member [OF that(1), of a] that(2) share_inv_parts(4) [OF inv, of a]
    by (simp add: puts_def)
  moreover have "share_exec pl new (Share_PutPacket i) s \<noteq> None"
    if "i < length (sharers s)" "inside (sharers s ! i) = S_Put a" for i a
    using share_PutPacket_step [OF inv that] by fastforce
  moreover have "share_exec pl new (Share_Release i k) s \<noteq> None" if "held_by s i k" for i k
    using share_Release_step [OF inv that] by fastforce
  moreover have "level_nodes (m_PBAs (pk_mgr s) i) = Some (if i = 5 then [0] else [])"
    if "\<forall>t \<in> set (sharers s). handles t = [] \<and> (\<forall>a. inside t \<noteq> S_Put a)" "i < 6" for i
    using that unused_manager [OF inv] empty_levels [of "pk_mgr s" i] by blast
  ultimately show ?thesis
    using manager_ok_buffers(2) [OF mok] share_inv_parts(2) [OF inv] one_putter [OF inv] by blast
qed

text \<open>Two threads with a reference each to a packet of one page.\<close>

definition two_sharers :: packet_sys where
  "two_sharers = \<lparr>pk_mgr = example_manager, sharers = replicate 2 \<lparr>handles = [], inside = S_Out\<rparr>\<rparr>"

lemma two_sharers_reachable: "share_reachable (Posix 1) new two_sharers"
  unfolding share_reachable_def
  by (rule reach_init) (auto simp: share_init_def two_sharers_def example_manager_def)

lemma page_allocated:
  "\<exists>a m. GetPacket 0 (Posix 1) new_behind 1024 example_manager = Done (Inr (Some a), m) \<and>
    manager_ok m {a} \<and> m_RefCount (packets m a) = 1 \<and> m_Length (packets m a) = 0 \<and>
    m_Size (packets m a) = 1024 \<and> m_pBuffer (packets m a) \<noteq> None \<and> memory m = (\<lambda>_. 7)"
proof -
  have ok: "manager_ok example_manager {}"
    using client_ok_parts(1) [OF CPacketManager_new_ok] by (simp add: example_manager_def)
  have mem: "memory example_manager = (\<lambda>_. 7)"
    by (simp add: example_manager_def CPacketManager_new_def split: prod.split)
  have w: "0 < unat (1024 :: DWORD)" "unat (1024 :: DWORD) \<le> 2 ^ 40" by simp_all
  obtain ty where "request_type 1024 = Some ty" "\<forall>u. unat (1024 :: DWORD) \<le> 2 ^ u * 1024 \<longrightarrow> ty \<le> u"
    using request_type_least [OF w] by auto
  moreover from this(2) [rule_format, of 0] have "ty = 0" by simp
  ultimately have ty: "request_type 1024 = Some 0" by simp
  obtain r m where g: "GetPacket 0 (Posix 1) new_behind 1024 example_manager = Done (Inr r, m)"
      "memory m = memory example_manager"
      "case r of None \<Rightarrow> (\<forall>k. \<not> frees_run example_manager {} (the (request_type 1024)) k)
       | Some a \<Rightarrow> got_packet 1024 example_manager {} a m"
    using GetPacket_ok [OF ok new_behind_ok w(2), of 0 "Posix 1"] by (auto split: option.splits)
  have "frees_run example_manager {} 0 0" using ok by (simp add: frees_run_def manager_ok_def)
  then obtain a where r: "r = Some a" using g(3) ty by (cases r) auto
  then have gp: "got_packet 1024 example_manager {} a m" using g(3) by simp
  then obtain k where "holds m a (0, k)" using ty by (auto simp: got_packet_def)
  then have "m_Size (packets m a) = 1024" "m_pBuffer (packets m a) \<noteq> None"
    by (simp_all add: holds_def PKT_PAGE_SIZE_def)
  then show ?thesis using g(1,2) gp r mem by (auto simp: got_packet_def)
qed

lemma packet_shared:
  "\<exists>s a. share_reachable (Posix 1) new_behind s \<and>
    sharers s = [\<lparr>handles = [a], inside = S_Out\<rparr>, \<lparr>handles = [a], inside = S_Out\<rparr>] \<and>
    m_Length (packets (pk_mgr s) a) = 0 \<and> m_Size (packets (pk_mgr s) a) = 1024 \<and>
    m_pBuffer (packets (pk_mgr s) a) \<noteq> None \<and> memory (pk_mgr s) = (\<lambda>_. 7) \<and>
    manager_ok (pk_mgr s) {a}"
proof -
  obtain a m where m: "GetPacket 0 (Posix 1) new_behind 1024 example_manager = Done (Inr (Some a), m)"
      "manager_ok m {a}" "m_RefCount (packets m a) = 1" "m_Length (packets m a) = 0"
      "m_Size (packets m a) = 1024" "m_pBuffer (packets m a) \<noteq> None" "memory m = (\<lambda>_. 7)"
    using page_allocated by blast
  note step = share_reachable_exec [OF _ new_behind_ok]
  let ?s1 = "\<lparr>pk_mgr = m, sharers = [\<lparr>handles = [a], inside = S_Out\<rparr>, \<lparr>handles = [], inside = S_Out\<rparr>]\<rparr>"
  have "share_exec (Posix 1) new_behind (Share_Alloc 0 1024) two_sharers = Some ?s1"
    using m(1) by (simp add: two_sharers_def set_sharer_def numeral_2_eq_2)
  then have s1: "share_reachable (Posix 1) new_behind ?s1"
    by (rule step [OF two_sharers_reachable, rotated]) (simp add: share_fits_def)
  let ?m = "set_packet a (\<lambda>k. k\<lparr>m_RefCount := m_RefCount k + 1\<rparr>) m"
  let ?s2 = "\<lparr>pk_mgr = ?m, sharers = [\<lparr>handles = [a, a], inside = S_Out\<rparr>, \<lparr>handles = [], inside = S_Out\<rparr>]\<rparr>"
  have "share_exec (Posix 1) new_behind (Share_AddRef 0 0) ?s1 = Some ?s2"
    using AddRef_ok [OF m(2), of a 0] by (simp add: held_by_def handle_of_def set_sharer_def)
  then have s2: "share_reachable (Posix 1) new_behind ?s2"
    by (rule step [OF s1, rotated]) (simp add: share_fits_def handle_of_def m(3))
  let ?s3 = "\<lparr>pk_mgr = ?m, sharers = [\<lparr>handles = [a], inside = S_Out\<rparr>, \<lparr>handles = [a], inside = S_Out\<rparr>]\<rparr>"
  have "share_exec (Posix 1) new_behind (Share_Pass 0 1 1) ?s2 = Some ?s3"
    by (simp add: held_by_def handle_of_def set_sharer_def without_def)
  then have "share_reachable (Posix 1) new_behind ?s3"
    by (rule step [OF s2, rotated]) (simp add: share_fits_def)
  moreover have "manager_ok ?m {a}" by (rule manager_ok_set_packet [OF m(2)]) simp_all
  ultimately show ?thesis using m(4-7)
    by (intro exI [of _ ?s3] exI [of _ a]) simp
qed

theorem shared_packets_safe_witness:
  "\<exists>s a. share_reachable (Posix 1) new_behind s \<and> m_RefCount (packets (pk_mgr s) a) = 2"
proof -
  obtain s a where s: "share_reachable (Posix 1) new_behind s"
      "sharers s = [\<lparr>handles = [a], inside = S_Out\<rparr>, \<lparr>handles = [a], inside = S_Out\<rparr>]"
    using packet_shared by blast
  have "owners s a = 2" "a \<in> in_use s" by (simp_all add: in_use_def owners_def s(2))
  then have "unat (m_RefCount (packets (pk_mgr s) a)) = 2"
    using shared_packets_safe [OF s(1)] by metis
  then have "m_RefCount (packets (pk_mgr s) a) = 2" by (simp add: word_unat_eq_iff)
  then show ?thesis using s(1) by blast
qed

text \<open>
  C35. \<^verbatim>\<open>SetLength\<close> takes no lock and stores the requested length before it cuts it down to the
  size. A \<^verbatim>\<open>PutBuffer\<close> of another thread in between computes what is left as the size less
  the length in unsigned arithmetic, gets a huge number, and copies all its bytes, past the
  end of the packet's buffer.
\<close>

theorem SetLength_race_overflows:
  "\<exists>s t a d. share_reachable (Posix 1) new_behind s \<and> inside (sharers s ! 0) = S_Clip a \<and>
    handle_of s 1 0 = a \<and> buffer (pk_mgr s) a = {d ..< d + 1024} \<and>
    share_exec (Posix 1) new_behind (Share_Fill 1 0 (replicate 3000 9)) s = Some t \<and>
    memory (pk_mgr s) ` {d + 1024 ..< d + 3000} = {7} \<and>
    memory (pk_mgr t) ` {d + 1024 ..< d + 3000} = {9}"
proof -
  obtain s a where s: "share_reachable (Posix 1) new_behind s"
      "sharers s = [\<lparr>handles = [a], inside = S_Out\<rparr>, \<lparr>handles = [a], inside = S_Out\<rparr>]"
      "m_Size (packets (pk_mgr s) a) = 1024" "m_pBuffer (packets (pk_mgr s) a) \<noteq> None"
      "memory (pk_mgr s) = (\<lambda>_. 7)" "manager_ok (pk_mgr s) {a}"
    using packet_shared by blast
  obtain d where d: "m_pBuffer (packets (pk_mgr s) a) = Some d" using s(4) by auto
  let ?m = "SetLength_raw a 100000 (pk_mgr s)"
  let ?u = "\<lparr>pk_mgr = ?m, sharers = [\<lparr>handles = [a], inside = S_Clip a\<rparr>, \<lparr>handles = [a], inside = S_Out\<rparr>]\<rparr>"
  have "share_exec (Posix 1) new_behind (Share_SetLength 0 0 100000) s = Some ?u"
    using s(2) by (cases s) (simp add: held_by_def handle_of_def set_sharer_def)
  then have u: "share_reachable (Posix 1) new_behind ?u"
    by (rule share_reachable_exec [OF s(1) new_behind_ok, rotated]) (simp add: share_fits_def)
  have mok: "manager_ok ?m {a}"
    unfolding SetLength_raw_def by (rule manager_ok_set_packet [OF s(6)]) simp_all
  have f: "m_Size (packets ?m a) = 1024" "m_Length (packets ?m a) = 100000"
      "m_pBuffer (packets ?m a) = Some d" "memory ?m = (\<lambda>_. 7)"
    by (simp_all add: SetLength_raw_def s d)
  define y :: "addr \<Rightarrow> BYTE" where "y = (\<lambda>x. if d \<le> x \<and> x < d + 3000 then replicate 3000 9 ! (x - d) else 7)"
  let ?m' = "set_packet a (\<lambda>k. k\<lparr>m_Length := m_Length k + 3000\<rparr>) (?m\<lparr>memory := y\<rparr>)"
  have "memcpy (Some d) (replicate 3000 9) 3000 (\<lambda>_. 7) = Done y"
    by (simp only: memcpy_def y_def option.case length_replicate) simp
  then have "PutBuffer 1 a (replicate 3000 9) 3000 ?m = Done (3000, ?m')"
    unfolding PutBuffer_def
    by (intro packet_locked_Done [OF manager_packet_free [OF mok]]) (simp_all add: f Let_def)
  then have fill: "share_exec (Posix 1) new_behind (Share_Fill 1 0 (replicate 3000 9)) ?u = Some (?u\<lparr>pk_mgr := ?m'\<rparr>)"
    by (simp add: held_by_def handle_of_def)
  have buf: "buffer ?m a = {d ..< d + 1024}" by (simp add: buffer_def f)
  have nine: "y x = 9" if "x \<in> {d + 1024 ..< d + 3000}" for x
  proof -
    have "x - d < 3000" "d \<le> x" "x < d + 3000" using that by auto
    then show ?thesis by (simp only: y_def nth_replicate simp_thms if_True)
  qed
  have at_end: "d + 1024 \<in> {d + 1024 ..< d + 3000}" by simp
  then have y: "y ` {d + 1024 ..< d + 3000} = {9}"
    by (intro equalityI image_subsetI) (force simp: nine)+
  have old: "memory (pk_mgr ?u) ` {d + 1024 ..< d + 3000} = {7}"
    using image_constant [OF at_end, of "7 :: BYTE"] by (simp only: packet_sys.simps f(4))
  show ?thesis
  proof (intro exI conjI)
    show "share_reachable (Posix 1) new_behind ?u" by (rule u)
    show "inside (sharers ?u ! 0) = S_Clip a" "handle_of ?u 1 0 = a" by (simp_all add: handle_of_def)
    show "buffer (pk_mgr ?u) a = {d ..< d + 1024}" using buf by simp
    show "memory (pk_mgr ?u) ` {d + 1024 ..< d + 3000} = {7}" by (rule old)
    show "memory (pk_mgr (?u\<lparr>pk_mgr := ?m'\<rparr>)) ` {d + 1024 ..< d + 3000} = {9}" using y by simp
  qed (rule fill)
qed

end
