(* ===== verification/FrameInfo.thy ===== *)
theory FrameInfo
  imports PacketClient
begin

section \<open>The table of frames in a packet's header\<close>

text \<open>
  \<^verbatim>\<open>FRAMEINFO\<close>, \<^verbatim>\<open>PKT_HEAD_INFO\<close> and both functions \<^verbatim>\<open>LocateIFrame\<close> of
  \<^verbatim>\<open>tutorial_libezthread/ezPacket/Packet.cpp\<close>: the 104 bytes of a packet's header are read as a
  table of eight frames. The functions stand between \<^verbatim>\<open>#if 0\<close> and \<^verbatim>\<open>#endif\<close>, the two structs
  are compiled. The layout of the structs is computed from \<^verbatim>\<open>sizeof(DWORD)\<close>, the parameter
  \<open>dw\<close>: 4 where \<^verbatim>\<open>unsigned long\<close> has 32 bits, 8 where it has 64. Words are little-endian.
\<close>

subsection \<open>The layout\<close>

type_synonym WORD = "16 word"

definition FRAME_MAX_NUM :: nat where
  "FRAME_MAX_NUM = 8"

record FRAMEINFO =
  FrameType :: BYTE
  FrameFlag :: BYTE
  FramePos :: WORD
  FrameLength :: "32 word"
  DataLength :: WORD
  Reserve :: "BYTE list"

text \<open>The size of a member's elements and their number; a member is aligned to its elements.\<close>

definition frame_members :: "nat \<Rightarrow> (nat \<times> nat) list" where
  "frame_members dw = [(1, 1), (1, 1), (2, 1), (dw, 1), (2, 1), (1, 2)]"

definition align_up :: "nat \<Rightarrow> nat \<Rightarrow> nat" where
  "align_up k n = (n + k - 1) div k * k"

fun offsets :: "(nat \<times> nat) list \<Rightarrow> nat \<Rightarrow> nat list" where
  "offsets [] n = [n]"
| "offsets ((sz, c) # fs) n = align_up sz n # offsets fs (align_up sz n + sz * c)"

definition frame_sizeof :: "nat \<Rightarrow> nat" where
  "frame_sizeof dw = align_up dw (last (offsets (frame_members dw) 0))"

definition head_sizeof :: "nat \<Rightarrow> nat" where
  "head_sizeof dw = align_up dw (FRAME_MAX_NUM * frame_sizeof dw + 1 + 7)"

definition frame_at :: "nat \<Rightarrow> nat \<Rightarrow> nat \<Rightarrow> nat" where
  "frame_at dw i member = i * frame_sizeof dw + offsets (frame_members dw) 0 ! member"

text \<open>A read of \<^verbatim>\<open>m_Header\<close> through the pointer to the struct; past its end it is undefined.\<close>

definition GetHeader :: "addr \<Rightarrow> CPacketManager \<Rightarrow> BYTE list" where
  "GetHeader a s = m_Header (packets s a)"

definition read_bytes :: "BYTE list \<Rightarrow> nat \<Rightarrow> nat \<Rightarrow> BYTE list outcome" where
  "read_bytes h i n = (if i + n \<le> length h then Done (take n (drop i h)) else Undefined)"

definition le_word :: "BYTE list \<Rightarrow> DWORD" where
  "le_word bs = foldr (\<lambda>b w. ucast b + 256 * w) bs 0"

subsection \<open>\<open>LocateIFrame\<close>\<close>

text \<open>The loop with \<^verbatim>\<open>iframepos\<close> and \<^verbatim>\<open>iframenum\<close>; the tests read only what they need.\<close>

fun locate_loop :: "nat \<Rightarrow> BYTE list \<Rightarrow> nat list \<Rightarrow> DWORD \<Rightarrow> nat \<Rightarrow> (DWORD \<times> nat) outcome" where
  "locate_loop dw h [] iframepos iframenum = Done (iframepos, iframenum)"
| "locate_loop dw h (i # is) iframepos iframenum =
     obind (read_bytes h (frame_at dw i 0) 1) (\<lambda>ty.
     if ty \<noteq> [1] then locate_loop dw h is iframepos iframenum
     else obind (read_bytes h (frame_at dw i 1) 1) (\<lambda>flag.
     if flag \<noteq> [1] \<and> flag \<noteq> [3] then locate_loop dw h is iframepos iframenum
     else if iframenum = 0
     then obind (read_bytes h (frame_at dw i 2) 2) (\<lambda>p.
       locate_loop dw h is (le_word p) (iframenum + 1))
     else locate_loop dw h is iframepos (iframenum + 1)))"

text \<open>
  \<open>table\<close> says that none of the macros \<^verbatim>\<open>DVR_HB\<close>, \<^verbatim>\<open>WIN32\<close> and \<^verbatim>\<open>DVR_NB\<close> is defined. A pointer to
  a variable is \<open>None\<close> for NULL and otherwise holds the variable, before and after.
\<close>

definition LocateIFrame ::
    "nat \<Rightarrow> bool \<Rightarrow> addr option \<Rightarrow> DWORD option \<Rightarrow> BYTE option \<Rightarrow> CPacketManager \<Rightarrow>
     (int \<times> DWORD option \<times> BYTE option) outcome" where
  "LocateIFrame dw table pkt pos packtype s =
     (case (pkt, pos, packtype) of
        (Some a, Some p, Some _) \<Rightarrow>
          if table then
            obind (locate_loop dw (GetHeader a s) [0 ..< FRAME_MAX_NUM] 0xffffffff 0) (\<lambda>(iframepos, iframenum).
            obind (read_bytes (GetHeader a s) (FRAME_MAX_NUM * frame_sizeof dw) 1) (\<lambda>info.
            Done (int iframenum, Some (if iframepos \<noteq> 0xffffffff then iframepos else p), Some (hd info))))
          else Done (1, Some 0, Some 1)
      | _ \<Rightarrow> Done (-1, pos, packtype))"

text \<open>
  The overload that copies the time of the first such frame; \<open>n\<close> is \<^verbatim>\<open>sizeof(DHTIME)\<close>, a type the
  repository does not have.
\<close>

definition LocateIFrame_time ::
    "nat \<Rightarrow> bool \<Rightarrow> nat \<Rightarrow> addr option \<Rightarrow> BYTE list option \<Rightarrow> CPacketManager \<Rightarrow> (int \<times> BYTE list option) outcome" where
  "LocateIFrame_time dw table n pPkt pDHTIME s =
     (case pDHTIME of
        None \<Rightarrow> Done (-1, None)
      | Some t \<Rightarrow>
          obind (LocateIFrame dw table pPkt (Some 0) (Some 0) s) (\<lambda>(found, pos, _).
          if found \<noteq> 0 then
            (case Option.bind pPkt (\<lambda>a. GetBuffer a s) of
               None \<Rightarrow> Undefined
             | Some d \<Rightarrow> Done (0, Some (map (\<lambda>i. memory s (d + unat (the pos) + 8 + i)) [0 ..< n])))
          else Done (1, Some t)))"

subsection \<open>What the comment says of the table\<close>

text \<open>
  Eight frames - type, flags for head and tail, position, length, length in this block, two
  bytes - then a byte with the kind of the packet and seven more.
\<close>

definition le_bytes :: "nat \<Rightarrow> 'a::len word \<Rightarrow> BYTE list" where
  "le_bytes n w = map (\<lambda>i. ucast (drop_bit (8 * i) w)) [0 ..< n]"

definition frame_bytes :: "FRAMEINFO \<Rightarrow> BYTE list" where
  "frame_bytes f = [FrameType f, FrameFlag f] @ le_bytes 2 (FramePos f) @ le_bytes 4 (FrameLength f) @
     le_bytes 2 (DataLength f) @ Reserve f"

definition head_bytes :: "FRAMEINFO list \<Rightarrow> BYTE \<Rightarrow> BYTE list \<Rightarrow> BYTE list" where
  "head_bytes fs info res = concat (map frame_bytes fs) @ info # res"

text \<open>An I frame whose head is in the packet: type 1, and flag 1 or 3.\<close>

definition I_head :: "FRAMEINFO \<Rightarrow> bool" where
  "I_head f \<longleftrightarrow> FrameType f = 1 \<and> (FrameFlag f = 1 \<or> FrameFlag f = 3)"

lemma layout_4:
  "offsets (frame_members 4) 0 = [0, 1, 2, 4, 8, 10, 12]" "frame_sizeof 4 = 12" "head_sizeof 4 = PKT_HDR_SIZE"
  by (simp_all add: frame_members_def align_up_def frame_sizeof_def head_sizeof_def FRAME_MAX_NUM_def PKT_HDR_SIZE_def)

lemma layout_8:
  "offsets (frame_members 8) 0 = [0, 1, 2, 8, 16, 18, 20]" "frame_sizeof 8 = 24" "head_sizeof 8 = 200"
  by (simp_all add: frame_members_def align_up_def frame_sizeof_def head_sizeof_def FRAME_MAX_NUM_def)

lemma length_frame_bytes [simp]: "length (Reserve f) = 2 \<Longrightarrow> length (frame_bytes f) = 12"
  by (simp add: frame_bytes_def le_bytes_def)

lemma le_word_2: "le_word (le_bytes 2 w) = ucast (w :: WORD)"
proof -
  have "le_bytes 2 w = [ucast w, ucast (drop_bit 8 w)]" by (simp add: le_bytes_def upt_rec)
  moreover have w: "unat w < 65536" using unsigned_less [of w] by simp
  moreover from w have "unat w div 256 < 256" by simp
  ultimately have "unat (le_word (le_bytes 2 w)) = unat w mod 256 + 256 * (unat w div 256)"
    by (simp add: le_word_def unsigned_ucast_eq unat_word_ariths unat_drop_bit_eq drop_bit_eq_div take_bit_eq_mod)
  then show ?thesis
    using w by (simp add: word_unat_eq_iff unsigned_ucast_eq take_bit_eq_mod)
qed

lemma drop_blocks:
  "\<forall>x \<in> set xs. length (g x) = k \<Longrightarrow> drop (k * i) (concat (map g xs) @ ys) = concat (map g (drop i xs)) @ drop (k * (i - length xs)) ys"
proof (induction xs arbitrary: i)
  case (Cons x xs)
  show ?case
  proof (cases i)
    case (Suc j)
    then show ?thesis using Cons.IH [of j] Cons.prems by simp
  qed simp
qed simp

text \<open>A member of the table is read from its frame.\<close>

lemma read_member:
  assumes fs: "\<forall>f \<in> set fs. length (Reserve f) = 2" and i: "i < length fs" and n: "m + n \<le> 12"
  shows "read_bytes (head_bytes fs info res) (i * 12 + m) n = Done (take n (drop m (frame_bytes (fs ! i))))"
proof -
  let ?h = "head_bytes fs info res"
  have f: "fs ! i \<in> set fs" using i by simp
  have "drop (12 * i) ?h = concat (map frame_bytes (drop i fs)) @ info # res"
    unfolding head_bytes_def using drop_blocks [of fs frame_bytes 12 i "info # res"] fs i by simp
  also have "\<dots> = frame_bytes (fs ! i) @ concat (map frame_bytes (drop (Suc i) fs)) @ info # res"
    using Cons_nth_drop_Suc [OF i, symmetric] by simp
  finally have d: "drop (12 * i) ?h = frame_bytes (fs ! i) @ concat (map frame_bytes (drop (Suc i) fs)) @ info # res" .
  have l: "12 * i + 12 \<le> length ?h" using arg_cong [OF d, of length] fs f by simp
  have "drop (i * 12 + m) ?h = drop m (drop (12 * i) ?h)" by (simp add: ac_simps)
  then show ?thesis using l n fs f unfolding d by (simp add: read_bytes_def)
qed

lemma take_frame_bytes:
  "take 1 (drop 0 (frame_bytes f)) = [FrameType f]" "take 1 (drop 1 (frame_bytes f)) = [FrameFlag f]"
  "take 2 (drop 2 (frame_bytes f)) = le_bytes 2 (FramePos f)"
  by (simp_all add: frame_bytes_def le_bytes_def)

lemma locate_loop_table:
  assumes fs: "\<forall>f \<in> set fs. length (Reserve f) = 2" and "i \<le> length fs"
  shows "locate_loop 4 (head_bytes fs info res) [i ..< length fs] p n =
    Done (case filter I_head (drop i fs) of f # _ \<Rightarrow> (if n = 0 then ucast (FramePos f) else p) | [] \<Rightarrow> p,
      n + length (filter I_head (drop i fs)))"
  using assms(2)
proof (induction "length fs - i" arbitrary: i p n)
  case 0
  then show ?case by simp
next
  case (Suc k)
  then have i: "i < length fs" "[i ..< length fs] = i # [Suc i ..< length fs]" by (simp_all add: upt_rec)
  have IH: "locate_loop 4 (head_bytes fs info res) [Suc i ..< length fs] p n =
    Done (case filter I_head (drop (Suc i) fs) of f # _ \<Rightarrow> (if n = 0 then ucast (FramePos f) else p) | [] \<Rightarrow> p,
      n + length (filter I_head (drop (Suc i) fs)))" for p n
    using Suc.hyps(1) [of "Suc i"] Suc.hyps(2) i(1) by simp
  have f: "read_bytes (head_bytes fs info res) (frame_at 4 i 0) 1 = Done [FrameType (fs ! i)]"
    "read_bytes (head_bytes fs info res) (frame_at 4 i 1) 1 = Done [FrameFlag (fs ! i)]"
    "read_bytes (head_bytes fs info res) (frame_at 4 i 2) 2 = Done (le_bytes 2 (FramePos (fs ! i)))"
    using read_member [OF fs i(1), of 0 1 info res] read_member [OF fs i(1), of 1 1 info res]
      read_member [OF fs i(1), of 2 2 info res]
    by (simp_all add: frame_at_def layout_4 take_frame_bytes [simplified])
  have d: "drop i fs = fs ! i # drop (Suc i) fs" using Cons_nth_drop_Suc [OF i(1)] by simp
  show ?case
    unfolding i(2) by (simp add: f [simplified] IH d I_head_def le_word_2 split: list.split)
qed

text \<open>Where \<^verbatim>\<open>unsigned long\<close> has 64 bits the sixth frame lies behind the header.\<close>

lemma locate_loop_outside:
  assumes "length h = PKT_HDR_SIZE" and "i \<le> 5"
  shows "locate_loop 8 h [i ..< FRAME_MAX_NUM] p n = Undefined"
  using assms(2)
proof (induction "FRAME_MAX_NUM - i" arbitrary: i p n)
  case 0
  then show ?case by (simp add: FRAME_MAX_NUM_def)
next
  case (Suc k)
  then have i: "[i ..< FRAME_MAX_NUM] = i # [Suc i ..< FRAME_MAX_NUM]" by (simp add: upt_rec FRAME_MAX_NUM_def)
  have len: "length h = 104" using assms(1) by (simp add: PKT_HDR_SIZE_def)
  show ?case
  proof (cases "i = 5")
    case True
    then show ?thesis unfolding i by (simp add: read_bytes_def len frame_at_def layout_8)
  next
    case False
    then have "locate_loop 8 h [Suc i ..< FRAME_MAX_NUM] p n = Undefined" for p n
      using Suc.hyps(1) [of "Suc i"] Suc.hyps(2) Suc.prems by simp
    moreover have "read_bytes h (frame_at 8 i 0) 1 = Done (take 1 (drop (24 * i) h))"
      "read_bytes h (frame_at 8 i 1) 1 = Done (take 1 (drop (24 * i + 1) h))"
      "read_bytes h (frame_at 8 i 2) 2 = Done (take 2 (drop (24 * i + 2) h))"
      using False Suc.prems by (simp_all add: read_bytes_def len frame_at_def layout_8 ac_simps)
    ultimately show ?thesis unfolding i by simp
  qed
qed

text \<open>
  The table of frames in a packet's header. Where \<^verbatim>\<open>DWORD\<close> has 32 bits and the header is laid
  out as the comment says, \<^verbatim>\<open>LocateIFrame\<close> returns how many of the eight frames are I frames
  whose head is in the packet, writes the position of the first of them if there is one,
  and the packet's kind. Where \<^verbatim>\<open>DWORD\<close> has 64 bits the struct has 200 bytes and not 104, and every
  call with a packet reads behind the header, whatever is in it.
\<close>

theorem LocateIFrame_reads_table:
  assumes "length fs = FRAME_MAX_NUM" and "\<forall>f \<in> set fs. length (Reserve f) = 2" and "length res = 7"
    and h: "m_Header (packets s a) = head_bytes fs info res"
  shows "LocateIFrame 4 True (Some a) (Some p) (Some ty) s =
      Done (int (length (filter I_head fs)),
        Some (case filter I_head fs of f # _ \<Rightarrow> ucast (FramePos f) | [] \<Rightarrow> p), Some info) \<and>
    LocateIFrame 8 True (Some a) (Some p) (Some ty) s = Undefined"
proof
  have len: "length (concat (map frame_bytes fs)) = 96"
  proof -
    have "sum_list (map (length \<circ> frame_bytes) fs) = sum_list (map (\<lambda>_. 12) fs)"
      using assms(2) by (intro arg_cong [of _ _ sum_list] map_cong) simp_all
    then show ?thesis using assms(1) by (simp add: length_concat sum_list_triv FRAME_MAX_NUM_def comp_def)
  qed
  have info: "read_bytes (m_Header (packets s a)) 96 1 = Done [info]"
    using len assms(3) by (simp add: h read_bytes_def head_bytes_def)
  have pos: "(ucast (w :: WORD) :: DWORD) \<noteq> 0xffffffff" for w
  proof
    assume "(ucast w :: DWORD) = 0xffffffff"
    then have "unat (ucast w :: DWORD) = 0xffffffff" by simp
    moreover have "unat w < 65536" using unsigned_less [of w] by simp
    ultimately show False by (simp add: unsigned_ucast_eq take_bit_eq_mod)
  qed
  have "locate_loop 4 (m_Header (packets s a)) [0 ..< FRAME_MAX_NUM] 0xffffffff 0 =
      Done (case filter I_head fs of f # _ \<Rightarrow> ucast (FramePos f) | [] \<Rightarrow> 0xffffffff, length (filter I_head fs))"
    using locate_loop_table [OF assms(2), of 0 info res "0xffffffff" 0] assms(1) by (simp add: h cong: list.case_cong)
  then show "LocateIFrame 4 True (Some a) (Some p) (Some ty) s =
      Done (int (length (filter I_head fs)),
        Some (case filter I_head fs of f # _ \<Rightarrow> ucast (FramePos f) | [] \<Rightarrow> p), Some info)"
    using info pos by (auto simp: LocateIFrame_def GetHeader_def FRAME_MAX_NUM_def layout_4 split: list.split)
  have "length (m_Header (packets s a)) = PKT_HDR_SIZE"
    using len assms(3) by (simp add: h head_bytes_def PKT_HDR_SIZE_def)
  then show "LocateIFrame 8 True (Some a) (Some p) (Some ty) s = Undefined"
    using locate_loop_outside [of "m_Header (packets s a)" 0] by (simp add: LocateIFrame_def GetHeader_def)
qed

definition example_frames :: "FRAMEINFO list" where
  "example_frames = map (\<lambda>i. \<lparr>FrameType = (if i = 0 then 0 else 1), FrameFlag = word_of_nat i,
     FramePos = 1000 + word_of_nat i, FrameLength = 0, DataLength = 0, Reserve = [0, 0]\<rparr>) [0 ..< 8]"

theorem LocateIFrame_reads_table_witness:
  "LocateIFrame 4 True (Some 5) (Some 0) (Some 0)
     (set_packet 5 (\<lambda>k. k\<lparr>m_Header := head_bytes example_frames 3 (replicate 7 0)\<rparr>) example_manager) =
   Done (2, Some 1001, Some 3)"
proof -
  have f: "filter I_head example_frames = [example_frames ! 1, example_frames ! 3]"
    by code_simp
  have "length example_frames = FRAME_MAX_NUM" "\<forall>f \<in> set example_frames. length (Reserve f) = 2"
    by (auto simp: example_frames_def FRAME_MAX_NUM_def)
  note r = LocateIFrame_reads_table [OF this, of "replicate 7 0" "set_packet 5
    (\<lambda>k. k\<lparr>m_Header := head_bytes example_frames 3 (replicate 7 0)\<rparr>) example_manager" 5 3 0 0]
  moreover have "FramePos (example_frames ! 1) = 1001" by code_simp
  ultimately show ?thesis unfolding f by (simp add: set_packet_def)
qed

text \<open>
  The overload takes the -1 of a NULL packet for a frame found, and does not compare the
  position with the packet's length: it copies what lies there.
\<close>

lemma LocateIFrame_time_null: "LocateIFrame_time dw table n None (Some t) s = Undefined"
  by (simp add: LocateIFrame_time_def LocateIFrame_def)

lemma LocateIFrame_time_unchecked:
  assumes "LocateIFrame dw table (Some a) (Some 0) (Some 0) s = Done (r, Some pos, ty)" and "0 < r"
    and "m_pBuffer (packets s a) = Some d"
  shows "LocateIFrame_time dw table n (Some a) (Some t) s =
    Done (0, Some (map (\<lambda>i. memory s (d + unat pos + 8 + i)) [0 ..< n]))"
  using assms by (simp add: LocateIFrame_time_def GetBuffer_def)

end
