(* ===== verification/Spec2Isabelle.thy ===== *)
theory Spec2Isabelle
  imports MsgQueConc Signal ThreadDelete SemLock TimerMsg Solar SimpleThread
    SigcMain PacketTest PacketConc FrameInfo
begin

text \<open>
  \<^verbatim>\<open>libezThread\<close> is a C++ library for threads that talk by messages: mutexes, semaphores, a
  message queue, threads with a manager, pooled threads and the threadlets that borrow them,
  timers that run their functions on threadlets, signals that call observers, and an
  allocator that pools objects. Its tutorials hold programs on top of it: a packet buffer, a
  console, producers and consumers. The library is in \<^verbatim>\<open>src/src\<close>, the tutorials in
  \<^verbatim>\<open>src/tutorial_libezthread\<close>; the paths below leave out the first \<^verbatim>\<open>src/\<close>. This development
  translates the code of each part into definitions, in the order and with the names the
  code has, and proves what makes each part correct - and, where the code does not do what
  it means to do, a theorem that shows a run on which it fails.

  Parts and theories, each with the theories it uses.
    \<^item> EZPrelude: machine types (\<^verbatim>\<open>u32\<close>), outcomes of calls, step systems. A call is \<^verbatim>\<open>Done\<close> with a
      result, \<^verbatim>\<open>Blocked\<close> (it waits), \<^verbatim>\<open>Aborted\<close> (an \<^verbatim>\<open>assert\<close> fails) or \<^verbatim>\<open>Undefined\<close> (it leaves
      what the C++ standard defines: outside an array, through NULL).
    \<^item> Sync: \<^verbatim>\<open>EZMutex\<close>, \<^verbatim>\<open>EZLock\<close>, \<^verbatim>\<open>EZSemaphore\<close>, for POSIX and Win32.
    \<^item> Links, Format: intrusive linked lists in memory; the text \<^verbatim>\<open>printf\<close> makes.
    \<^item> MsgQue, MsgQueConc (Sync): \<^verbatim>\<open>EZMsgQue\<close>, each method run by one caller, and then all of
      them interleaved, cut where the code may block or another thread may step in.
    \<^item> Clock: \<^verbatim>\<open>api_ezthread.c\<close>, the millisecond clocks and the process counter.
    \<^item> Signal (Sync): the template \<^verbatim>\<open>TSignal\<close> of \<^verbatim>\<open>EZSignal.h\<close>.
    \<^item> Pool (Sync, Links): \<^verbatim>\<open>EZPoolAllocator\<close> and the operators of \<^verbatim>\<open>EZObject.h\<close>.
    \<^item> Thread, ThreadLife, ThreadDelete (MsgQue, Links, Format): \<^verbatim>\<open>CEZThread\<close> with \<^verbatim>\<open>api_thread.c\<close>,
      the manager's list of threads and its listings; then \<^verbatim>\<open>ThreadBody\<close>, \<^verbatim>\<open>CreateThread\<close> and
      \<^verbatim>\<open>DestroyThread\<close> interleaved statement by statement; and the destructor among them.
    \<^item> Threadlet (Thread): \<^verbatim>\<open>CEZThreadlet\<close>, \<^verbatim>\<open>CEZPooledThread\<close> and the free list of pooled threads,
      with every interleaving.
    \<^item> Timer (Links, Format): \<^verbatim>\<open>EZTimer\<close>; the list of started timers, the clock with its two words,
      the rounds of the manager's thread, the listings.
    \<^item> TimerJobs (Threadlet, Timer): timers, manager's thread and pooled threads as one system,
      with the functions that \<^verbatim>\<open>Stop(TRUE)\<close> calls in the caller's thread.
    \<^item> SemLock (Sync): \<^verbatim>\<open>SemaphoreMutexLock.cpp\<close>; threads that add to a variable under a mutex or a
      semaphore, and the loops of its main.
    \<^item> Producer (ThreadLife, Signal): \<^verbatim>\<open>Observer.signal\<close> and the \<^verbatim>\<open>Stop\<close> of \<^verbatim>\<open>MyObserver.cpp\<close>; users
      that start and stop a producer thread which calls them through a signal.
    \<^item> Consumer (Thread): \<^verbatim>\<open>ThreadMsg.cpp\<close>; a producer and a timer that send to a consumer.
    \<^item> TimerMsg (TimerJobs, Consumer): \<^verbatim>\<open>ThreadMsg.cpp\<close> with its main; the timer's function runs step
      by step in the pooled threads, next to the producer and the consumer.
    \<^item> Observed (Producer, Consumer): \<^verbatim>\<open>MyObserver.cpp\<close> as a whole; a producer that sends a message
      and calls its observers in each of its rounds, and the consumer of its messages.
    \<^item> SigcObserver (ThreadLife): \<^verbatim>\<open>Observer.cpp\<close>; the same producer over the signals of \<^verbatim>\<open>sigc++\<close>,
      whose calls are parameters and whose laws are \<open>sigc_ok\<close>.
    \<^item> SigcMain (TimerJobs, SigcObserver, Observed): \<^verbatim>\<open>Observer.cpp\<close> with its main, two observers and
      the consumer.
    \<^item> SimpleThread (ThreadLife): \<^verbatim>\<open>Thread.cpp\<close> and \<^verbatim>\<open>Solar/SimpleThread.cpp\<close>; users that start and
      stop a thread whose rounds list the threads.
    \<^item> Buddy, Packet, PacketClient, PacketTest (Sync, Pool, Format): \<^verbatim>\<open>ezPacket\<close>; the buddy lists of
      pages, the packets with their counts of references, clients of the functions for C, and
      the self-test with random lengths.
    \<^item> PacketConc (PacketClient): threads that share packets, with \<^verbatim>\<open>Release\<close> and \<^verbatim>\<open>SetLength\<close> cut where
      another thread may step in.
    \<^item> FrameInfo (PacketClient): the table of frames in a packet's header and \<^verbatim>\<open>LocateIFrame\<close>.
    \<^item> LocalConsole (Thread): \<^verbatim>\<open>Solar/LocalConsole\<close>; login, line editing, parsing, commands.
    \<^item> Solar (LocalConsole, TimerJobs): \<^verbatim>\<open>Solar/Solar.cpp\<close> and \<^verbatim>\<open>Main.cpp\<close>; the file lock that lets one
      instance run, the start of the program, its signals and \<^verbatim>\<open>daemon_init\<close>.

  How the models read. A class is a record with the members' names; its methods are functions
  on the record, with guards and early returns as the code has them. Pointers are addresses
  or NULL (an \<^verbatim>\<open>option\<close>), and a linked list is its head with the pointer fields as functions of
  the address, so that a forgotten update shows. \<^verbatim>\<open>unsigned int\<close> is a word of 32 bits
  and \<^verbatim>\<open>DWORD\<close> of the packets one of 64. What the platform does - \<^verbatim>\<open>new\<close>, the clock, creating a
  thread, the allocation of packets - is a parameter, and where a theorem relies on it the
  premise says on what. Concurrent code is a relation or an executable function from a
  program point to the next; history fields (what was sent, called, run) only record.

  Interfaces. The locale \<open>mutex_interface\<close> is interpreted as \<open>ez_mutex\<close>,
  \<open>counting_semaphore\<close> as \<open>ez_sem\<close>, \<open>bounded_fifo\<close> as \<open>ez_queue\<close>, \<open>observer_registry\<close> as
  \<open>ez_signal\<close>; \<open>linked_registry\<close> as \<open>thread_list\<close> and \<open>timer_list\<close>; \<open>free_list_allocator\<close> as
  \<open>ez_pool\<close>, \<open>pooled_threads\<close> and \<open>ez_packets\<close>; and \<open>invariant_system\<close>, by which an invariant
  holds in every reachable state, as \<open>mq_system\<close>, \<open>life_system\<close>, \<open>let_system\<close>, \<open>tj_system\<close>,
  \<open>prod_system\<close>, \<open>pipe_system\<close>, \<open>adder_system\<close>, \<open>obs_system\<close>,
  \<open>simple_system\<close>, \<open>inst_system\<close>, \<open>solar_system\<close>, \<open>share_system\<close>,
  \<open>ticker_system\<close> and \<open>observer_system\<close>; \<open>component_view\<close>,
  by which the runs of a program are runs of a component seen through a function, as
  \<open>ticker_jobs\<close> and \<open>ticker_flow\<close>; \<open>exclusive_scope\<close>, what an object
  that locks while it lives promises, as \<open>lk_scope\<close>. Every interpretation is on the definitions of the code.

  What the lemmas show.
    \<^item> Queue: what each call does on every branch; any history is that of a bounded
      first-in first-out buffer; with any number of threads no message is lost, doubled or
      overtaken, a receiver that waited finds one, and a single consumer never deadlocks.
      Two consumers can, and so can the Win32 semaphore with its maximum of 1.
    \<^item> Threads: at most one body of an object is active; the manager's list is the set of
      running threads; deleting an object whose threads have ended is safe. After a
      \<^verbatim>\<open>ThreadProc\<close> that returned by itself, \<^verbatim>\<open>DestroyThread(TRUE)\<close> waits for ever, unless a
      token was left over or the thread is created again. Runs show where it returns too early, and how \<^verbatim>\<open>delete\<close> leaves a thread on
      freed memory. Starting, stopping and starting again can make the list of threads a
      cycle: the listing of the threads then never ends, and holds the manager's lock.
    \<^item> Threadlets and timers: a running threadlet has its pooled thread to itself, and is not
      given up before its function has returned; the started timers stay sorted, over any
      operations, \<^verbatim>\<open>Stop(TRUE)\<close> with nested calls included; a round ends and runs what is due, as
      often as it is due; across the whole system each accepted job has been called once or
      is with one pooled thread, which can still call it if it could be created. A function that \<^verbatim>\<open>Stop(TRUE)\<close> calls
      and that stops its own timer can make the list lose another.
    \<^item> Signals: for users that pair their calls, a bounded set of observers, each called once
      per emission; the slots stay well formed for all users; a run of unpaired calls leaves
      an observer that can never be detached.
    \<^item> Producer and consumer: the thread runs exactly while there are users; messages
      leave the queue in the order sent, handled or, when the thread ends, thrown away; the rounds of the observed producer are sent in order and
      without a gap, and observers are called after the message of their round. The program
      with a timer is a refinement of the timers' system and of the consumer's: one call of
      the timer's function at a time, and no drift of the times. The program over sigc++
      calls its first observer in every round and the second from some round on, unless it
      connects the second while a round is on, which is undefined. Runs show a
      Stop that never returns, an observer called after its Stop, and a consumer that is
      never woken.
    \<^item> Locks: at most one thread is between the constructor and the destructor of a lock,
      so no addition is lost; but the loops of the tutorial overflow their variable.
    \<^item> Pool and packets: elements and buffers given out are distinct, disjoint and inside
      the memory taken; a request gets the smallest fitting buffer and is refused only if all
      such are taken; nothing leaks; the counts of references stay exact when threads share
      packets, but a \<^verbatim>\<open>SetLength\<close> in progress lets another thread write outside; a pooled object cannot be deleted; the self-test ends and
      gives everything back. \<^verbatim>\<open>LocateIFrame\<close> reads the table as its comment describes it
      where \<^verbatim>\<open>unsigned long\<close> has 32 bits, and behind the header where it has 64.
    \<^item> Console: a line of words fills the parameter table with them and runs the command they
      name; the login accepts every password; lines that crash or corrupt the parser.
    \<^item> Solar: whatever the system answers, at most one process alive is told that it is the only
      one; the file holds its number if every \<^verbatim>\<open>ftruncate\<close> and \<^verbatim>\<open>write\<close> does its work, and can
      hold that of another process otherwise; the program waits until a signal ends it.

  Bounds and fuel. There is no fuel. Loops over pointers are \<^verbatim>\<open>partial_function (option)\<close>, where
  \<open>None\<close> is a loop that does not end, and the properties show \<open>Some\<close> for lists that are
  well formed; other loops are \<open>fun\<close> or \<open>function\<close> with a measure. The packet buffer has 32
  pages and six types, as the code has; a request is one of at most \<open>2 ^ 40\<close> bytes where
  the cast to \<^verbatim>\<open>int\<close> matters, and a client makes fewer than \<open>2 ^ 64\<close> calls, so that counts of
  references do not wrap. Statements about timers hold while the upper word of their clock is
  at most \<open>2 ^ 32 - 3\<close>, so that the times at which timers are due do not wrap. The message
  queue's statements need a size up to the maximum of the platform's semaphore, a parameter
  on POSIX and 1 on Win32.

  Not modelled. \<^verbatim>\<open>EZSignals.h\<close> only instantiates \<^verbatim>\<open>EZSignal.h\<close>. \<^verbatim>\<open>api_thread.h\<close>,
  \<^verbatim>\<open>typedef_ezthread.h\<close> and the singleton macros are declarations. \<^verbatim>\<open>ThreadDestory\<close>, \<^verbatim>\<open>ThreadExit\<close> and
  \<^verbatim>\<open>ThreadGetID\<close> are system calls. \<^verbatim>\<open>construct\<close>, \<^verbatim>\<open>destroy\<close> and \<^verbatim>\<open>address\<close> of \<^verbatim>\<open>pool_allocator\<close> keep no state. Waits interrupted by signals of
  the system, failing initialisations that the code asserts not to fail, and reorderings
  by the memory model are left out: a step reads and writes memory at once.
  \<^verbatim>\<open>already_running\<close>, \<^verbatim>\<open>daemon_init\<close> and \<^verbatim>\<open>LocateIFrame\<close> are modelled although they or their calls
  are compiled out; \<^verbatim>\<open>printFrameInfo\<close> is not. The mains of the tutorials without a theory of their own, and the programs in
  \<^verbatim>\<open>test\<close>, create objects and print.
\<close>

end
